(* ===== verification/Xredis_Prelude.thy ===== *)
theory Xredis_Prelude
  imports Main "HOL-Library.Word"
begin

text \<open>
  Shared vocabulary of the development: byte strings, the errno values the client
  returns, the outcome of a coroutine that may be suspended, abort the process or read
  outside its memory, and the generic facts on lists that the component theories use.
  A C++ \<open>char\<close> buffer is a \<open>string\<close> (HOL's \<open>char\<close> is a byte).
\<close>

section \<open>Collections of facts\<close>

named_theorems outcome_simps \<open>how outcomes are sequenced\<close>
named_theorems charconv_simps \<open>number formatting and scanning\<close>
named_theorems ring_simps \<open>ring buffer arithmetic\<close>
named_theorems api_simps \<open>argument vectors of the command interface\<close>

section \<open>Types\<close>

type_synonym u8 = "8 word"
type_synonym u16 = "16 word"
type_synonym u32 = "32 word"
type_synonym u64 = "64 word"

text \<open>
  \<open>xnet::io_result\<close> holds a value and an \<open>int\<close> error code; code 0 is success.
\<close>

type_synonym 'a io_result = "'a \<times> int"

abbreviation res_val :: "'a io_result \<Rightarrow> 'a" where
  "res_val \<equiv> fst"

abbreviation res_err :: "'a io_result \<Rightarrow> int" where
  "res_err \<equiv> snd"

section \<open>errno values (Linux)\<close>

definition EIO :: int where "EIO = 5"
definition EAGAIN :: int where "EAGAIN = 11"
definition ENOMEM :: int where "ENOMEM = 12"
definition EINVAL :: int where "EINVAL = 22"
definition ERANGE :: int where "ERANGE = 34"
definition EPROTO :: int where "EPROTO = 71"
definition EOVERFLOW :: int where "EOVERFLOW = 75"
definition ECONNRESET :: int where "ECONNRESET = 104"

lemmas errno_defs = EIO_def EAGAIN_def ENOMEM_def EINVAL_def ERANGE_def EPROTO_def
  EOVERFLOW_def ECONNRESET_def

section \<open>Outcomes\<close>

text \<open>
  A coroutine or a call either returns (\<open>Ret\<close>), is left suspended on a socket that
  delivers nothing more (\<open>Suspended\<close>), ends the process because an exception leaves a
  \<open>noexcept\<close> function (\<open>Terminate\<close>), or reads memory it must not read (\<open>UB\<close>).
  \<open>No_fuel\<close> is the model's own bound on recursion; the theories that use it prove that
  it is never the result.
\<close>

datatype 'a outcome = Ret 'a | Suspended | Terminate | UB | No_fuel

fun bind_outcome :: "'a outcome \<Rightarrow> ('a \<Rightarrow> 'b outcome) \<Rightarrow> 'b outcome" where
  "bind_outcome (Ret a) f = f a"
| "bind_outcome Suspended f = Suspended"
| "bind_outcome Terminate f = Terminate"
| "bind_outcome UB f = UB"
| "bind_outcome No_fuel f = No_fuel"

declare bind_outcome.simps [outcome_simps]

lemma bind_outcome_Ret_iff [outcome_simps]:
  "bind_outcome m f = Ret b \<longleftrightarrow> (\<exists>a. m = Ret a \<and> f a = Ret b)"
  by (cases m) auto

lemma bind_outcome_No_fuel_iff:
  "bind_outcome m f = No_fuel \<longleftrightarrow> m = No_fuel \<or> (\<exists>a. m = Ret a \<and> f a = No_fuel)"
  by (cases m) auto

lemma bind_outcome_UB_iff:
  "bind_outcome m f = UB \<longleftrightarrow> m = UB \<or> (\<exists>a. m = Ret a \<and> f a = UB)"
  by (cases m) auto

lemma bind_outcome_cong [fundef_cong]:
  assumes "m = m'" and "\<And>a. m' = Ret a \<Longrightarrow> f a = f' a"
  shows "bind_outcome m f = bind_outcome m' f'"
  using assms by (cases m') auto

section \<open>Searching a buffer\<close>

text \<open>
  \<open>std::string::find(c, from)\<close>: the least index \<open>\<ge> from\<close> that holds \<open>c\<close>;
  \<open>None\<close> is \<open>npos\<close>.
\<close>

fun find_char :: "char \<Rightarrow> string \<Rightarrow> nat option" where
  "find_char c [] = None"
| "find_char c (x # xs) = (if x = c then Some 0 else map_option Suc (find_char c xs))"

definition find_from :: "char \<Rightarrow> string \<Rightarrow> nat \<Rightarrow> nat option" where
  "find_from c s from = map_option (\<lambda>i. from + i) (find_char c (drop from s))"

lemma find_char_Some:
  "find_char c s = Some i \<Longrightarrow> i < length s \<and> s ! i = c \<and> c \<notin> set (take i s)"
  by (induction s arbitrary: i) (auto split: if_splits)

lemma find_char_None: "find_char c s = None \<longleftrightarrow> c \<notin> set s"
  by (induction s) auto

lemma find_char_append:
  "find_char c (s @ t) =
     (case find_char c s of Some i \<Rightarrow> Some i
      | None \<Rightarrow> map_option (\<lambda>i. length s + i) (find_char c t))"
proof (induction s)
  case Nil
  show ?case by (cases "find_char c t") simp_all
next
  case (Cons x xs)
  then show ?case
    by (auto split: option.splits simp: option.map_comp comp_def intro!: option.map_cong)
qed

lemma find_char_first:
  "c \<notin> set s \<Longrightarrow> find_char c (s @ c # t) = Some (length s)"
  by (induction s) auto

lemma find_from_Some:
  assumes "find_from c s from = Some i"
  shows "from \<le> i \<and> i < length s \<and> s ! i = c"
proof -
  from assms obtain k where k: "find_char c (drop from s) = Some k" and i: "i = from + k"
    by (auto simp: find_from_def)
  from find_char_Some[OF k] have "k < length s - from" and "drop from s ! k = c" by auto
  with i show ?thesis by auto
qed

text \<open>Searching on from a point before which there is no hit is the same search.\<close>

lemma find_from_skip:
  assumes "a \<le> b" and "b \<le> length s" and "c \<notin> set (take (b - a) (drop a s))"
  shows "find_from c s b = find_from c s a"
proof -
  have split: "drop a s = take (b - a) (drop a s) @ drop b s"
    using assms(1) by (metis append_take_drop_id drop_drop le_add_diff_inverse2)
  have len: "length (take (b - a) (drop a s)) = b - a"
    using assms(1,2) by simp
  have none: "find_char c (take (b - a) (drop a s)) = None"
    using assms(3) by (simp add: find_char_None)
  have "find_char c (drop a s) = map_option (\<lambda>i. (b - a) + i) (find_char c (drop b s))"
    by (subst split, subst find_char_append) (simp only: none option.case len)
  then show ?thesis
    using assms(1) by (simp add: find_from_def option.map_comp comp_def)
qed

section \<open>Lists\<close>

lemma take_drop_append_left:
  "n + k \<le> length s \<Longrightarrow> take k (drop n (s @ t)) = take k (drop n s)"
  by simp

lemma nth_drop_append_left:
  "n + k < length s \<Longrightarrow> drop n (s @ t) ! k = drop n s ! k"
  by (auto simp add: nth_append)

lemma upt_split: "i \<le> j \<Longrightarrow> j \<le> k \<Longrightarrow> [i..<k] = [i..<j] @ [j..<k]"
  by (metis le_Suc_ex upt_add_eq_append)

lemma concat_eq_Nil_nonempty:
  "\<forall>x\<in>set xs. x \<noteq> [] \<Longrightarrow> concat xs = [] \<longleftrightarrow> xs = []"
  by (cases xs) auto

end
