(* ===== verification/Charconv.thy ===== *)
theory Charconv
  imports Xredis_Prelude
begin

text \<open>
  \<open>std::to_chars\<close> and \<open>std::from_chars\<close> for integers in base 10, as the client uses
  them: the decimal digits of an unsigned number, an optional minus sign for a signed
  one, no leading white space, no plus sign, the longest run of digits, and the error
  \<open>result_out_of_range\<close> for a run that does not fit the target type.
\<close>

section \<open>Digits\<close>

definition is_digit :: "char \<Rightarrow> bool" where
  "is_digit c \<longleftrightarrow> 48 \<le> (of_char c :: nat) \<and> (of_char c :: nat) \<le> 57"

definition digit_val :: "char \<Rightarrow> nat" where
  "digit_val c = of_char c - 48"

definition digit_char :: "nat \<Rightarrow> char" where
  "digit_char d = char_of (48 + d)"

lemma digit_char_simps [simp]:
  "digit_char 0 = CHR ''0''" "digit_char 1 = CHR ''1''" "digit_char (Suc 0) = CHR ''1''"
  "digit_char 2 = CHR ''2''" "digit_char 3 = CHR ''3''" "digit_char 4 = CHR ''4''"
  "digit_char 5 = CHR ''5''" "digit_char 6 = CHR ''6''" "digit_char 7 = CHR ''7''"
  "digit_char 8 = CHR ''8''" "digit_char 9 = CHR ''9''"
  by code_simp+

lemma of_char_digit_char: "d < 10 \<Longrightarrow> (of_char (digit_char d) :: nat) = 48 + d"
  by (simp add: digit_char_def)

lemma is_digit_digit_char [simp]: "d < 10 \<Longrightarrow> is_digit (digit_char d)"
  by (simp add: is_digit_def of_char_digit_char)

lemma digit_val_digit_char [simp]: "d < 10 \<Longrightarrow> digit_val (digit_char d) = d"
  by (simp add: digit_val_def of_char_digit_char)

lemma is_digit_char_facts [simp]:
  "\<not> is_digit (CHR ''-'')" "\<not> is_digit (CHR ''.'')" "\<not> is_digit (CHR '':'')"
  "\<not> is_digit (CHR '' '')" "\<not> is_digit (CHR 0x0A)" "\<not> is_digit (CHR 0x0D)"
  by (simp_all add: is_digit_def)

section \<open>to\_chars\<close>

fun to_chars_nat :: "nat \<Rightarrow> string" where
  "to_chars_nat n =
     (if n < 10 then [digit_char n] else to_chars_nat (n div 10) @ [digit_char (n mod 10)])"

declare to_chars_nat.simps [simp del]

definition to_chars_int :: "int \<Rightarrow> string" where
  "to_chars_int i = (if i < 0 then CHR ''-'' # to_chars_nat (nat (- i)) else to_chars_nat (nat i))"

definition digits_value :: "string \<Rightarrow> nat" where
  "digits_value s = foldl (\<lambda>a c. 10 * a + digit_val c) 0 s"

lemma digits_value_snoc [simp]: "digits_value (s @ [c]) = 10 * digits_value s + digit_val c"
  by (simp add: digits_value_def)

lemma to_chars_nat_nonempty [simp]: "to_chars_nat n \<noteq> []"
  by (subst to_chars_nat.simps) simp

lemma to_chars_nat_digits: "c \<in> set (to_chars_nat n) \<Longrightarrow> is_digit c"
proof (induction n rule: to_chars_nat.induct)
  case (1 n)
  then show ?case
    by (cases "n < 10") (auto simp: to_chars_nat.simps[of n])
qed

lemma digits_value_to_chars_nat [charconv_simps]: "digits_value (to_chars_nat n) = n"
proof (induction n rule: to_chars_nat.induct)
  case (1 n)
  show ?case
  proof (cases "n < 10")
    case True
    then show ?thesis by (simp add: to_chars_nat.simps[of n] digits_value_def)
  next
    case False
    with 1 show ?thesis by (simp add: to_chars_nat.simps[of n])
  qed
qed

lemma to_chars_nat_inj: "to_chars_nat m = to_chars_nat n \<longleftrightarrow> m = n"
  by (metis digits_value_to_chars_nat)

text \<open>A number below \<open>10 ^ k\<close> has at most \<open>k\<close> digits, and exactly \<open>k\<close> from \<open>10 ^ (k - 1)\<close> on.\<close>

lemma length_to_chars_nat_le: "n < 10 ^ Suc k \<Longrightarrow> length (to_chars_nat n) \<le> Suc k"
proof (induction k arbitrary: n)
  case 0
  then show ?case by (simp add: to_chars_nat.simps[of n])
next
  case (Suc k)
  show ?case
  proof (cases "n < 10")
    case True
    then show ?thesis by (simp add: to_chars_nat.simps[of n])
  next
    case False
    have "n div 10 < 10 ^ Suc k" using Suc.prems by (simp add: less_mult_imp_div_less)
    then have "length (to_chars_nat (n div 10)) \<le> Suc k" by (rule Suc.IH)
    with False show ?thesis by (simp add: to_chars_nat.simps[of n])
  qed
qed

lemma length_to_chars_nat_ge: "10 ^ k \<le> n \<Longrightarrow> Suc k \<le> length (to_chars_nat n)"
proof (induction k arbitrary: n)
  case 0
  then show ?case by (simp add: Suc_leI)
next
  case (Suc k)
  have big: "\<not> n < 10"
    using Suc.prems by (metis le_trans not_le one_le_numeral one_le_power power_Suc
        mult_le_mono2 mult.right_neutral)
  have "10 ^ k \<le> n div 10" using Suc.prems by (simp add: less_eq_div_iff_mult_less_eq mult.commute)
  then have "Suc k \<le> length (to_chars_nat (n div 10))" by (rule Suc.IH)
  with big show ?case by (simp add: to_chars_nat.simps[of n])
qed

lemma length_to_chars_nat: "10 ^ k \<le> n \<Longrightarrow> n < 10 ^ Suc k \<Longrightarrow> length (to_chars_nat n) = Suc k"
  using length_to_chars_nat_ge length_to_chars_nat_le le_antisym by blast

section \<open>from\_chars\<close>

datatype errc = Errc_ok | Errc_invalid_argument | Errc_result_out_of_range

text \<open>
  The result is the number of characters consumed (\<open>ptr - first\<close>), the error code and
  the value, which \<open>from_chars\<close> leaves unmodified on an error (\<open>None\<close>).
\<close>

type_synonym scan = "nat \<times> errc \<times> int option"

definition from_chars_unsigned :: "int \<Rightarrow> string \<Rightarrow> scan" where
  "from_chars_unsigned hi s =
     (let ds = takeWhile is_digit s; v = int (digits_value ds)
      in if ds = [] then (0, Errc_invalid_argument, None)
         else if hi < v then (length ds, Errc_result_out_of_range, None)
         else (length ds, Errc_ok, Some v))"

definition from_chars_signed :: "int \<Rightarrow> int \<Rightarrow> string \<Rightarrow> scan" where
  "from_chars_signed lo hi s =
     (let neg = (s \<noteq> [] \<and> hd s = CHR ''-'');
          body = (if neg then tl s else s);
          ds = takeWhile is_digit body;
          n = length ds + (if neg then 1 else 0);
          v = (if neg then - int (digits_value ds) else int (digits_value ds))
      in if ds = [] then (0, Errc_invalid_argument, None)
         else if v < lo \<or> hi < v then (n, Errc_result_out_of_range, None)
         else (n, Errc_ok, Some v))"

definition int64_min :: int where "int64_min = - (2 ^ 63)"
definition int64_max :: int where "int64_max = 2 ^ 63 - 1"

lemma takeWhile_digits_to_chars [charconv_simps]:
  "(\<And>c. rest \<noteq> [] \<Longrightarrow> c = hd rest \<Longrightarrow> \<not> is_digit c) \<Longrightarrow>
   takeWhile is_digit (to_chars_nat n @ rest) = to_chars_nat n"
proof -
  assume h: "\<And>c. rest \<noteq> [] \<Longrightarrow> c = hd rest \<Longrightarrow> \<not> is_digit c"
  have "takeWhile is_digit (to_chars_nat n @ rest) = to_chars_nat n @ takeWhile is_digit rest"
    by (rule takeWhile_append2) (rule to_chars_nat_digits)
  moreover have "takeWhile is_digit rest = []"
    using h by (cases rest) auto
  ultimately show ?thesis by simp
qed

lemma hd_to_chars_nat_not_minus: "hd (to_chars_nat n @ rest) \<noteq> CHR ''-''"
proof -
  have "hd (to_chars_nat n @ rest) \<in> set (to_chars_nat n)" by simp
  then have "is_digit (hd (to_chars_nat n @ rest))" by (rule to_chars_nat_digits)
  then show ?thesis by auto
qed

text \<open>Scanning what \<open>to_chars\<close> printed, with anything but a digit behind it.\<close>

lemma from_chars_unsigned_to_chars:
  assumes "int n \<le> hi" and "rest \<noteq> [] \<Longrightarrow> \<not> is_digit (hd rest)"
  shows "from_chars_unsigned hi (to_chars_nat n @ rest) =
           (length (to_chars_nat n), Errc_ok, Some (int n))"
proof -
  have "takeWhile is_digit (to_chars_nat n @ rest) = to_chars_nat n"
    using assms(2) by (intro takeWhile_digits_to_chars) auto
  then show ?thesis
    using assms(1) by (simp add: from_chars_unsigned_def Let_def digits_value_to_chars_nat)
qed

lemma from_chars_signed_to_chars:
  assumes "lo \<le> i" and "i \<le> hi" and "rest \<noteq> [] \<Longrightarrow> \<not> is_digit (hd rest)"
  shows "from_chars_signed lo hi (to_chars_int i @ rest) =
           (length (to_chars_int i), Errc_ok, Some i)"
proof -
  have tw: "takeWhile is_digit (to_chars_nat n @ rest) = to_chars_nat n" for n
    using assms(3) by (intro takeWhile_digits_to_chars) auto
  show ?thesis
  proof (cases "i < 0")
    case True
    then show ?thesis
      using assms(1,2)
      by (simp add: from_chars_signed_def Let_def to_chars_int_def tw digits_value_to_chars_nat)
  next
    case False
    then show ?thesis
      using assms(1,2) hd_to_chars_nat_not_minus[of "nat i" rest]
      by (simp add: from_chars_signed_def Let_def to_chars_int_def tw digits_value_to_chars_nat
          del: hd_append2)
  qed
qed

lemma from_chars_signed_range:
  assumes "from_chars_signed lo hi s = (n, Errc_ok, Some v)"
  shows "lo \<le> v \<and> v \<le> hi \<and> 0 < n \<and> n \<le> length s"
proof -
  have "length (takeWhile is_digit t) \<le> length t" for t :: string
    by (rule length_takeWhile_le)
  from this[of s] this[of "tl s"] assms show ?thesis
    by (cases s) (auto simp: from_chars_signed_def Let_def split: if_splits)
qed

lemma from_chars_signed_ok:
  "from_chars_signed lo hi s = (n, Errc_ok, w) \<Longrightarrow> \<exists>v. w = Some v"
  by (auto simp: from_chars_signed_def Let_def split: if_splits)

end
