(* ===== verification/Charconv_Double.thy ===== *)
theory Charconv_Double
  imports Charconv
begin

text \<open>
  Binary64 values as their 64 bits, the conversion from a decimal string that
  \<open>std::from_chars\<close> performs (general format, round to nearest even) and the \<open>%f\<close>
  rendering of \<open>std::to_string(double)\<close>. Everything is exact integer arithmetic.
\<close>

section \<open>Rounding a rational to binary64\<close>

text \<open>\<open>num / den\<close> rounded to the nearest integer, ties to even.\<close>

definition round_half_even :: "nat \<Rightarrow> nat \<Rightarrow> nat" where
  "round_half_even num den =
     (let q = num div den; r = num mod den
      in if 2 * r < den then q
         else if den < 2 * r then Suc q
         else if even q then q else Suc q)"

text \<open>Number of binary digits; 0 has none.\<close>

fun bit_len :: "nat \<Rightarrow> nat" where
  "bit_len n = (if n = 0 then 0 else Suc (bit_len (n div 2)))"

declare bit_len.simps [simp del]

text \<open>\<open>num / den * 2 ^ (- e)\<close> rounded to an integer.\<close>

definition scaled :: "nat \<Rightarrow> nat \<Rightarrow> int \<Rightarrow> nat" where
  "scaled num den e =
     (if 0 \<le> e then round_half_even num (den * 2 ^ nat e)
      else round_half_even (num * 2 ^ nat (- e)) den)"

text \<open>
  The exponent of the last place: as large as leaves 53 significant bits, at least
  \<open>-1074\<close>. \<open>bit_len num - bit_len den\<close> is off by at most one, which the comparison
  with \<open>2 ^ 53\<close> corrects.
\<close>

definition last_place :: "nat \<Rightarrow> nat \<Rightarrow> int" where
  "last_place num den =
     (let e0 = int (bit_len num) - int (bit_len den) - 53;
          big = (if 0 \<le> e0 then den * 2 ^ nat e0 * 2 ^ 53 \<le> num
                 else den * 2 ^ 53 \<le> num * 2 ^ nat (- e0));
          e = (if big then e0 + 1 else e0)
      in max (-1074) e)"

text \<open>
  The bits of the rounded value: \<open>None\<close> when it overflows, and when a non-zero number
  rounds to zero.
\<close>

definition binary64_of_rat :: "bool \<Rightarrow> nat \<Rightarrow> nat \<Rightarrow> u64 option" where
  "binary64_of_rat neg num den =
     (let s = (if neg then 2 ^ 63 else 0) in
      if num = 0 then Some (of_nat s)
      else
        let e = last_place num den;
            q = scaled num den e;
            e' = (if q = 2 ^ 53 then e + 1 else e);
            q' = (if q = 2 ^ 53 then 2 ^ 52 else q)
        in if q' = 0 then None
           else if q' < 2 ^ 52 then Some (of_nat (s + q'))
           else if 971 < e' then None
           else Some (of_nat (s + nat (e' + 1075) * 2 ^ 52 + (q' - 2 ^ 52))))"

section \<open>from\_chars for double\<close>

definition to_lower :: "char \<Rightarrow> char" where
  "to_lower c = (if 65 \<le> (of_char c :: nat) \<and> (of_char c :: nat) \<le> 90 then char_of (of_char c + 32 :: nat) else c)"

definition starts_with_ci :: "string \<Rightarrow> string \<Rightarrow> bool" where
  "starts_with_ci pre s \<longleftrightarrow> map to_lower (take (length pre) s) = pre"

definition is_nan_char :: "char \<Rightarrow> bool" where
  "is_nan_char c \<longleftrightarrow> is_digit c \<or> c = CHR ''_'' \<or>
     (97 \<le> (of_char (to_lower c) :: nat) \<and> (of_char (to_lower c) :: nat) \<le> 122)"

text \<open>The optional \<open>(n-char-sequence)\<close> after \<open>nan\<close>.\<close>

definition nan_suffix :: "string \<Rightarrow> nat" where
  "nan_suffix s =
     (if s \<noteq> [] \<and> hd s = CHR ''('' then
        (let cs = takeWhile is_nan_char (tl s); rest = drop (length cs) (tl s)
         in if rest \<noteq> [] \<and> hd rest = CHR '')'' then length cs + 2 else 0)
      else 0)"

text \<open>
  The exponent part: characters taken and value. Without a digit after \<open>e\<close> it is not
  part of the number.
\<close>

definition scan_exponent :: "string \<Rightarrow> nat \<times> int" where
  "scan_exponent s =
     (if s \<noteq> [] \<and> to_lower (hd s) = CHR ''e'' then
        (let t = tl s;
             signed = (t \<noteq> [] \<and> (hd t = CHR ''-'' \<or> hd t = CHR ''+''));
             neg = (t \<noteq> [] \<and> hd t = CHR ''-'');
             ds = takeWhile is_digit (if signed then tl t else t)
         in if ds = [] then (0, 0)
            else (Suc (length ds) + (if signed then 1 else 0),
                  if neg then - int (digits_value ds) else int (digits_value ds)))
      else (0, 0))"

definition from_chars_double :: "string \<Rightarrow> nat \<times> errc \<times> u64 option" where
  "from_chars_double s =
     (let neg = (s \<noteq> [] \<and> hd s = CHR ''-'');
          t = (if neg then tl s else s);
          sg = (if neg then 1 else 0);
          ip = takeWhile is_digit t;
          t1 = drop (length ip) t;
          dot = (t1 \<noteq> [] \<and> hd t1 = CHR ''.'');
          fp = (if dot then takeWhile is_digit (tl t1) else []);
          t2 = (if dot then drop (length fp) (tl t1) else t1)
      in if ip = [] \<and> fp = [] then
           (if starts_with_ci ''nan'' t then
              (sg + 3 + nan_suffix (drop 3 t), Errc_ok,
               Some (if neg then 0xFFF8000000000000 else 0x7FF8000000000000))
            else if starts_with_ci ''infinity'' t then
              (sg + 8, Errc_ok, Some (if neg then 0xFFF0000000000000 else 0x7FF0000000000000))
            else if starts_with_ci ''inf'' t then
              (sg + 3, Errc_ok, Some (if neg then 0xFFF0000000000000 else 0x7FF0000000000000))
            else (0, Errc_invalid_argument, None))
         else
           (let (k, ex) = scan_exponent t2;
                n = sg + length ip + (if dot then 1 else 0) + length fp + k;
                m = digits_value (ip @ fp);
                e10 = ex - int (length fp);
                r = (if 0 \<le> e10 then binary64_of_rat neg (m * 10 ^ nat e10) 1
                     else binary64_of_rat neg m (10 ^ nat (- e10)))
            in case r of None \<Rightarrow> (n, Errc_result_out_of_range, None)
               | Some b \<Rightarrow> (n, Errc_ok, Some b)))"

section \<open>to\_string for double\<close>

definition sign_bit :: "u64 \<Rightarrow> bool" where
  "sign_bit b \<longleftrightarrow> 2 ^ 63 \<le> unat b"

definition exponent_bits :: "u64 \<Rightarrow> nat" where
  "exponent_bits b = unat b div 2 ^ 52 mod 2048"

definition fraction_bits :: "u64 \<Rightarrow> nat" where
  "fraction_bits b = unat b mod 2 ^ 52"

definition is_finite_double :: "u64 \<Rightarrow> bool" where
  "is_finite_double b \<longleftrightarrow> exponent_bits b \<noteq> 2047"

text \<open>The absolute value of a finite double is \<open>mantissa * 2 ^ binary_exponent\<close>.\<close>

definition mantissa :: "u64 \<Rightarrow> nat" where
  "mantissa b = (if exponent_bits b = 0 then fraction_bits b else 2 ^ 52 + fraction_bits b)"

definition binary_exponent :: "u64 \<Rightarrow> int" where
  "binary_exponent b = (if exponent_bits b = 0 then -1074 else int (exponent_bits b) - 1075)"

text \<open>Six decimals, rounded to nearest even, as \<open>printf("%f")\<close> does.\<close>

definition micros :: "u64 \<Rightarrow> nat" where
  "micros b =
     (if 0 \<le> binary_exponent b then mantissa b * 2 ^ nat (binary_exponent b) * 1000000
      else round_half_even (mantissa b * 1000000) (2 ^ nat (- binary_exponent b)))"

definition pad6 :: "string \<Rightarrow> string" where
  "pad6 s = replicate (6 - length s) (CHR ''0'') @ s"

definition to_string_double :: "u64 \<Rightarrow> string" where
  "to_string_double b =
     (if sign_bit b then ''-'' else []) @
     (if is_finite_double b then
        to_chars_nat (micros b div 1000000) @ ''.'' @ pad6 (to_chars_nat (micros b mod 1000000))
      else if fraction_bits b = 0 then ''inf'' else ''nan'')"

end
