(* ===== verification/Redis_Value.thy ===== *)
theory Redis_Value
  imports Charconv_Double
begin

text \<open>
  \<open>RedisValue\<close> (include/RedisValue.h, src/RedisValue.cpp): the tagged union that holds one
  reply, its tag, its accessors and setters, and \<open>dump\<close>, which renders a value as JSON
  text. What \<open>dump\<close> promises is stated and proved in \<open>Value_Json\<close>.
\<close>

section \<open>The value\<close>

text \<open>
  One constructor per member of the union, in the order of the tags. A vector, a string
  and a pair are owned by the value, so the union of pointers is the tree below. A double
  is its 64 bits and an integer is a number in the range of \<open>int64_t\<close> (\<open>wf_value\<close>).
\<close>

datatype redis_value =
    Nullptr
  | Array "redis_value list"
  | Push "redis_value list"
  | Set "redis_value list"
  | Map "(redis_value \<times> redis_value) list"
  | Simple_string string
  | Simple_error string
  | Bulk_string string
  | Big_number string
  | Bulk_error string
  | Verbatim_string string
  | Integer int
  | Bool bool
  | Double u64
  | Attribute "(redis_value \<times> redis_value) list" redis_value

text \<open>The tag \<open>RedisValue::TYPE\<close> and its numbering.\<close>

datatype value_tag =
    NULLPTR | ARRAY | PUSH | SET | MAP | SIMPLE_STRING | SIMPLE_ERROR | BULK_STRING
  | BIG_NUMBER | BULK_ERROR | VERBATIM_STRING | INTEGER | BOOL | DOUBLE | ATTRIBUTE

fun type_code :: "value_tag \<Rightarrow> nat" where
  "type_code NULLPTR = 0" | "type_code ARRAY = 1" | "type_code PUSH = 2" | "type_code SET = 3"
| "type_code MAP = 4" | "type_code SIMPLE_STRING = 5" | "type_code SIMPLE_ERROR = 6"
| "type_code BULK_STRING = 7" | "type_code BIG_NUMBER = 8" | "type_code BULK_ERROR = 9"
| "type_code VERBATIM_STRING = 10" | "type_code INTEGER = 11" | "type_code BOOL = 12"
| "type_code DOUBLE = 13" | "type_code ATTRIBUTE = 14"

text \<open>The tag each \<open>_set<T>\<close> writes with its member.\<close>

fun value_type :: "redis_value \<Rightarrow> value_tag" where
  "value_type Nullptr = NULLPTR"
| "value_type (Integer i) = INTEGER"
| "value_type (Bool b) = BOOL"
| "value_type (Double d) = DOUBLE"
| "value_type (Simple_string s) = SIMPLE_STRING"
| "value_type (Simple_error s) = SIMPLE_ERROR"
| "value_type (Bulk_string s) = BULK_STRING"
| "value_type (Big_number s) = BIG_NUMBER"
| "value_type (Bulk_error s) = BULK_ERROR"
| "value_type (Verbatim_string s) = VERBATIM_STRING"
| "value_type (Map m) = MAP"
| "value_type (Set vs) = SET"
| "value_type (Array vs) = ARRAY"
| "value_type (Push vs) = PUSH"
| "value_type (Attribute m v) = ATTRIBUTE"

definition is_map :: "redis_value \<Rightarrow> bool" where "is_map v \<longleftrightarrow> value_type v = MAP"
definition is_array :: "redis_value \<Rightarrow> bool" where "is_array v \<longleftrightarrow> value_type v = ARRAY"
definition is_integer :: "redis_value \<Rightarrow> bool" where "is_integer v \<longleftrightarrow> value_type v = INTEGER"
definition is_simple_string :: "redis_value \<Rightarrow> bool" where
  "is_simple_string v \<longleftrightarrow> value_type v = SIMPLE_STRING"
definition is_bulk_string :: "redis_value \<Rightarrow> bool" where
  "is_bulk_string v \<longleftrightarrow> value_type v = BULK_STRING"
definition is_verbatim_string :: "redis_value \<Rightarrow> bool" where
  "is_verbatim_string v \<longleftrightarrow> value_type v = VERBATIM_STRING"
definition is_simple_error :: "redis_value \<Rightarrow> bool" where
  "is_simple_error v \<longleftrightarrow> value_type v = SIMPLE_ERROR"
definition is_bulk_error :: "redis_value \<Rightarrow> bool" where
  "is_bulk_error v \<longleftrightarrow> value_type v = BULK_ERROR"
definition is_string_type :: "redis_value \<Rightarrow> bool" where
  "is_string_type v \<longleftrightarrow> is_simple_string v \<or> is_bulk_string v \<or> is_verbatim_string v"
definition is_error :: "redis_value \<Rightarrow> bool" where
  "is_error v \<longleftrightarrow> is_simple_error v \<or> is_bulk_error v"

lemmas is_type_defs = is_map_def is_array_def is_integer_def is_simple_string_def
  is_bulk_string_def is_verbatim_string_def is_simple_error_def is_bulk_error_def
  is_string_type_def is_error_def

text \<open>\<open>as_string\<close> and \<open>as_error\<close>: an empty view for any other tag.\<close>

fun as_string :: "redis_value \<Rightarrow> string" where
  "as_string (Simple_string s) = s"
| "as_string (Bulk_string s) = s"
| "as_string (Verbatim_string s) = s"
| "as_string _ = []"

fun as_error :: "redis_value \<Rightarrow> string" where
  "as_error (Simple_error s) = s"
| "as_error (Bulk_error s) = s"
| "as_error _ = []"

text \<open>
  \<open>get<T>\<close> reads the member without looking at the tag; reading a member that is not
  the active one is undefined, which is \<open>UB\<close> here.
\<close>

fun get_array :: "redis_value \<Rightarrow> redis_value list outcome" where
  "get_array (Array vs) = Ret vs"
| "get_array _ = UB"

fun get_integer :: "redis_value \<Rightarrow> int outcome" where
  "get_integer (Integer i) = Ret i"
| "get_integer _ = UB"

text \<open>
  The move constructor and the move assignment leave \<open>NULLPTR\<close> in the source. The
  result is the pair (target, source) after the move.
\<close>

definition move_construct :: "redis_value \<Rightarrow> redis_value \<times> redis_value" where
  "move_construct other = (other, Nullptr)"

definition move_assign :: "redis_value \<Rightarrow> redis_value \<Rightarrow> redis_value \<times> redis_value" where
  "move_assign self other = (other, Nullptr)"

text \<open>Values whose integers fit \<open>int64_t\<close>: all that the union can hold.\<close>

fun wf_value :: "redis_value \<Rightarrow> bool" where
  "wf_value (Integer i) \<longleftrightarrow> int64_min \<le> i \<and> i \<le> int64_max"
| "wf_value (Array vs) \<longleftrightarrow> (\<forall>v\<in>set vs. wf_value v)"
| "wf_value (Push vs) \<longleftrightarrow> (\<forall>v\<in>set vs. wf_value v)"
| "wf_value (Set vs) \<longleftrightarrow> (\<forall>v\<in>set vs. wf_value v)"
| "wf_value (Map kvs) \<longleftrightarrow> (\<forall>(k, v)\<in>set kvs. wf_value k \<and> wf_value v)"
| "wf_value (Attribute kvs w) \<longleftrightarrow> (\<forall>(k, v)\<in>set kvs. wf_value k \<and> wf_value v) \<and> wf_value w"
| "wf_value _ \<longleftrightarrow> True"

section \<open>escape\_string\<close>

definition hex_digit :: "nat \<Rightarrow> char" where
  "hex_digit d = ''0123456789abcdef'' ! d"

definition escape_char :: "char \<Rightarrow> string" where
  "escape_char ch =
     (if ch = CHR 0x22 then [CHR 0x5C, CHR 0x22]
      else if ch = CHR 0x5C then [CHR 0x5C, CHR 0x5C]
      else if ch = CHR 0x08 then [CHR 0x5C, CHR ''b'']
      else if ch = CHR 0x0C then [CHR 0x5C, CHR ''f'']
      else if ch = CHR 0x0A then [CHR 0x5C, CHR ''n'']
      else if ch = CHR 0x0D then [CHR 0x5C, CHR ''r'']
      else if ch = CHR 0x09 then [CHR 0x5C, CHR ''t'']
      else if (of_char ch :: nat) < 0x20 then
        [CHR 0x5C, CHR ''u'', CHR ''0'', CHR ''0''] @
        [hex_digit (of_char ch div 16), hex_digit (of_char ch mod 16)]
      else [ch])"

fun escape_string :: "string \<Rightarrow> string \<Rightarrow> string" where
  "escape_string out [] = out"
| "escape_string out (ch # ins) = escape_string (out @ escape_char ch) ins"

lemma escape_string_eq: "escape_string out s = out @ concat (map escape_char s)"
  by (induction out s rule: escape_string.induct) auto

section \<open>dump\<close>

text \<open>
  \<open>dump_recursion\<close> appends to the text built so far. The loops over a vector print
  a comma after every element but the last one; an empty vector never enters them.
\<close>

definition quoted :: "string \<Rightarrow> string \<Rightarrow> string" where
  "quoted s str = escape_string (str @ [CHR 0x22]) s @ [CHR 0x22]"

definition type_prefix :: "string \<Rightarrow> string" where
  "type_prefix name = [CHR ''{'', CHR 0x22] @ ''type'' @ [CHR 0x22, CHR '':'', CHR 0x22] @ name @
     [CHR 0x22, CHR '','', CHR 0x22]"

definition data_prefix :: "string \<Rightarrow> string" where
  "data_prefix name = type_prefix name @ ''data'' @ [CHR 0x22, CHR '':'', CHR ''['']"

definition attribute_prefix :: string where
  "attribute_prefix = type_prefix ''attribute'' @ ''attributes'' @ [CHR 0x22, CHR '':'', CHR ''['']"

definition data_key :: string where
  "data_key = [CHR '','', CHR 0x22] @ ''data'' @ [CHR 0x22, CHR '':'']"

function dump_recursion :: "redis_value \<Rightarrow> string \<Rightarrow> string"
and dump_elements :: "redis_value list \<Rightarrow> string \<Rightarrow> string"
and dump_entries :: "(redis_value \<times> redis_value) list \<Rightarrow> string \<Rightarrow> string" where
  "dump_recursion Nullptr str = str @ ''null''"
| "dump_recursion (Integer i) str = str @ to_chars_int i"
| "dump_recursion (Double d) str = str @ to_string_double d"
| "dump_recursion (Bool b) str = str @ (if b then ''true'' else ''false'')"
| "dump_recursion (Simple_string s) str = quoted s str"
| "dump_recursion (Simple_error s) str = quoted s str"
| "dump_recursion (Bulk_string s) str = quoted s str"
| "dump_recursion (Big_number s) str = quoted s str"
| "dump_recursion (Bulk_error s) str = quoted s str"
| "dump_recursion (Verbatim_string s) str = quoted s str"
| "dump_recursion (Array vs) str =
     (if vs = [] then str @ ''[]'' else dump_elements vs (str @ ''['') @ '']'')"
| "dump_recursion (Push vs) str =
     (if vs = [] then str @ data_prefix ''push'' @ '']}''
      else dump_elements vs (str @ data_prefix ''push'') @ '']}'')"
| "dump_recursion (Set vs) str =
     (if vs = [] then str @ data_prefix ''set'' @ '']}''
      else dump_elements vs (str @ data_prefix ''set'') @ '']}'')"
| "dump_recursion (Map kvs) str =
     (if kvs = [] then str @ data_prefix ''map'' @ '']}''
      else dump_entries kvs (str @ data_prefix ''map'') @ '']}'')"
| "dump_recursion (Attribute attbs actual) str =
     dump_recursion actual
       ((if attbs = [] then str @ attribute_prefix else dump_entries attbs (str @ attribute_prefix))
         @ '']'' @ data_key) @ ''}''"
| "dump_elements [] str = str"
| "dump_elements (v # vs) str =
     (if vs = [] then dump_recursion v str
      else dump_elements vs (dump_recursion v str @ '',''))"
| "dump_entries [] str = str"
| "dump_entries ((k, v) # kvs) str =
     (let str' = dump_recursion v (dump_recursion k (str @ ''['') @ '','') @ '']''
      in if kvs = [] then str' else dump_entries kvs (str' @ '',''))"
  by pat_completeness auto
termination
  by (relation "measure (case_sum (\<lambda>(v, _). size v)
        (case_sum (\<lambda>(vs, _). size_list size vs) (\<lambda>(kvs, _). size_list (size_prod size size) kvs)))")
     auto

definition dump :: "redis_value \<Rightarrow> string" where
  "dump v = dump_recursion v []"

end
