(* ===== verification/Value_Heap.thy ===== *)
theory Value_Heap
  imports Redis_Value
begin

text \<open>
  \<open>RedisValue\<close> as it lies in memory: an object is a union with a tag, and for most tags the union
  is an owning pointer to a string, a vector or a pair on the heap. \<open>Redis_Value\<close> has the value as a
  tree; here the pointers are explicit. The operations keep the tag, the member and the type of
  the block in agreement, no block has two owners, \<open>reset\<close> frees each block once, and none is lost.
\<close>

section \<open>Objects and blocks\<close>

text \<open>The member of the union that was written last. A pointer is the index of a block.\<close>

datatype union_member = M_null | M_integer int | M_boolean bool | M_double u64 | M_pointer nat

record value_object =
  stored :: union_member
  tag :: value_tag

text \<open>What the pointers own, with the tag of the C++ type: \<open>string_type<n>\<close>, \<open>vector_type<n>\<close>, \<open>map_t\<close>,
  \<open>attribute_t\<close>.\<close>

datatype heap_block =
    String_block value_tag string
  | Vector_block value_tag "value_object list"
  | Map_block "(value_object \<times> value_object) list"
  | Attribute_block "(value_object \<times> value_object) list" value_object

fun block_tag :: "heap_block \<Rightarrow> value_tag" where
  "block_tag (String_block k s) = k"
| "block_tag (Vector_block k os) = k"
| "block_tag (Map_block m) = MAP"
| "block_tag (Attribute_block m v) = ATTRIBUTE"

definition flatten :: "('a \<times> 'a) list \<Rightarrow> 'a list" where
  "flatten m = concat (map (\<lambda>(k, v). [k, v]) m)"

fun block_objects :: "heap_block \<Rightarrow> value_object list" where
  "block_objects (String_block k s) = []"
| "block_objects (Vector_block k os) = os"
| "block_objects (Map_block m) = flatten m"
| "block_objects (Attribute_block m v) = flatten m @ [v]"

fun block_text :: "heap_block \<Rightarrow> string option" where
  "block_text (String_block k s) = Some s"
| "block_text b = None"

text \<open>A block that was deleted is \<open>None\<close>; addresses are not used again.\<close>

type_synonym value_heap = "heap_block option list"

section \<open>The operations\<close>

text \<open>The tags for which \<open>reset\<close> deletes the pointer.\<close>

fun owns_block :: "value_tag \<Rightarrow> bool" where
  "owns_block NULLPTR = False" | "owns_block INTEGER = False"
| "owns_block BOOL = False" | "owns_block DOUBLE = False" | "owns_block k = True"

text \<open>\<open>delete p\<close>: undefined for a block that is not there or has another type.\<close>

definition free_block :: "value_tag \<Rightarrow> nat \<Rightarrow> value_heap \<Rightarrow> (value_object list \<times> value_heap) outcome" where
  "free_block k a h =
     (if a < length h then
        case h ! a of
          Some b \<Rightarrow> if block_tag b = k then Ret (block_objects b, h[a := None]) else UB
        | None \<Rightarrow> UB
      else UB)"

definition live_blocks :: "value_heap \<Rightarrow> nat" where
  "live_blocks h = length (filter (\<lambda>b. b \<noteq> None) h)"

lemma live_blocks_free:
  assumes "free_block k a h = Ret (os, h')"
  shows "live_blocks h' < live_blocks h"
proof -
  have a: "a < length h" "h ! a \<noteq> None" "h' = h[a := None]"
    using assms by (auto simp: free_block_def split: if_splits option.splits)
  have "live_blocks h = live_blocks (take a h @ h ! a # drop (Suc a) h)" using id_take_nth_drop[OF a(1)] by simp
  moreover have "h' = take a h @ None # drop (Suc a) h" using a(1,3) by (simp add: upd_conv_take_nth_drop)
  ultimately show ?thesis using a(2) by (auto simp: live_blocks_def)
qed

text \<open>
  The destructor \<open>~RedisValue\<close>, which is \<open>reset\<close>, of some objects one after the other; deleting a block
  runs the destructors of the objects in it.
\<close>

function destroy :: "value_object list \<Rightarrow> value_heap \<Rightarrow> value_heap outcome" where
  "destroy [] h = Ret h"
| "destroy (v # vs) h =
     (if owns_block (tag v) then
        case stored v of
          M_pointer a \<Rightarrow> (case free_block (tag v) a h of Ret (os, h') \<Rightarrow> destroy (os @ vs) h' | _ \<Rightarrow> UB)
        | _ \<Rightarrow> UB
      else destroy vs h)"
  by pat_completeness auto
termination
  by (relation "measures [\<lambda>(vs, h). live_blocks h, \<lambda>(vs, h). length vs]") (auto dest: live_blocks_free)

definition reset_object :: "value_object \<Rightarrow> value_heap \<Rightarrow> value_heap outcome" where
  "reset_object v h = destroy [v] h"

text \<open>The argument of \<open>_set<T>\<close>: a number, or the string, vector or pair that is moved into a new block.\<close>

datatype contents = C_null | C_integer int | C_boolean bool | C_double u64 | C_block heap_block

fun store_contents :: "contents \<Rightarrow> value_heap \<Rightarrow> value_object \<times> value_heap" where
  "store_contents C_null h = (\<lparr>stored = M_null, tag = NULLPTR\<rparr>, h)"
| "store_contents (C_integer i) h = (\<lparr>stored = M_integer i, tag = INTEGER\<rparr>, h)"
| "store_contents (C_boolean b) h = (\<lparr>stored = M_boolean b, tag = BOOL\<rparr>, h)"
| "store_contents (C_double d) h = (\<lparr>stored = M_double d, tag = DOUBLE\<rparr>, h)"
| "store_contents (C_block b) h = (\<lparr>stored = M_pointer (length h), tag = block_tag b\<rparr>, h @ [Some b])"

text \<open>\<open>set(V&& value)\<close> resets the object before it reads its argument, which may lie in what was reset: the
  argument is what it reads as on the heap behind the \<open>reset\<close>.\<close>

definition set_object :: "(value_heap \<Rightarrow> contents outcome) \<Rightarrow> value_object \<Rightarrow> value_heap \<Rightarrow> (value_object \<times> value_heap) outcome" where
  "set_object value v h =
     bind_outcome (reset_object v h) (\<lambda>h'. bind_outcome (value h') (\<lambda>c. Ret (store_contents c h')))"

text \<open>\<open>get<T>\<close> of a pointer type: the member is read as a pointer to T, whatever the tag is.\<close>

definition get_block :: "value_tag \<Rightarrow> value_object \<Rightarrow> value_heap \<Rightarrow> heap_block outcome" where
  "get_block k v h =
     (case stored v of
        M_pointer a \<Rightarrow> (if a < length h then case h ! a of Some b \<Rightarrow> if block_tag b = k then Ret b else UB | None \<Rightarrow> UB else UB)
      | _ \<Rightarrow> UB)"

text \<open>What a move leaves: the bytes of the union with the tag \<open>NULLPTR\<close>.\<close>

definition moved_from :: "value_object \<Rightarrow> value_object" where
  "moved_from v = v\<lparr>tag := NULLPTR\<rparr>"

text \<open>\<open>as_string()\<close>: a view of the string of the object, empty for other tags, and its characters read later.\<close>

definition as_string_view :: "value_object \<Rightarrow> nat option outcome" where
  "as_string_view v =
     (if tag v \<in> {SIMPLE_STRING, BULK_STRING, VERBATIM_STRING}
      then case stored v of M_pointer a \<Rightarrow> Ret (Some a) | _ \<Rightarrow> UB
      else Ret None)"

definition read_view :: "nat option \<Rightarrow> value_heap \<Rightarrow> string outcome" where
  "read_view view h =
     (case view of
        None \<Rightarrow> Ret []
      | Some a \<Rightarrow> if a < length h then case h ! a of Some (String_block k s) \<Rightarrow> Ret s | _ \<Rightarrow> UB else UB)"

section \<open>A program that uses values\<close>

text \<open>The variables of type \<open>RedisValue\<close> and the heap. An object is a variable or an element of a block.\<close>

record value_state =
  variables :: "value_object list"
  heap_blocks :: value_heap

datatype place = Variable nat | Element nat nat

fun set_nth_pair :: "nat \<Rightarrow> 'a \<Rightarrow> ('a \<times> 'a) list \<Rightarrow> ('a \<times> 'a) list" where
  "set_nth_pair i v [] = []"
| "set_nth_pair 0 v ((a, b) # m) = (v, b) # m"
| "set_nth_pair (Suc 0) v ((a, b) # m) = (a, v) # m"
| "set_nth_pair (Suc (Suc i)) v (p # m) = p # set_nth_pair i v m"

fun set_block_object :: "heap_block \<Rightarrow> nat \<Rightarrow> value_object \<Rightarrow> heap_block" where
  "set_block_object (String_block k s) i v = String_block k s"
| "set_block_object (Vector_block k os) i v = Vector_block k (os[i := v])"
| "set_block_object (Map_block m) i v = Map_block (set_nth_pair i v m)"
| "set_block_object (Attribute_block m w) i v =
     (if i = 2 * length m then Attribute_block m v else Attribute_block (set_nth_pair i v m) w)"

fun read_place :: "place \<Rightarrow> value_state \<Rightarrow> value_object outcome" where
  "read_place (Variable i) s = (if i < length (variables s) then Ret (variables s ! i) else UB)"
| "read_place (Element a i) s =
     (if a < length (heap_blocks s) then
        case heap_blocks s ! a of
          Some b \<Rightarrow> if i < length (block_objects b) then Ret (block_objects b ! i) else UB
        | None \<Rightarrow> UB
      else UB)"

fun write_place :: "place \<Rightarrow> value_object \<Rightarrow> value_state \<Rightarrow> value_state" where
  "write_place (Variable i) v s = s\<lparr>variables := (variables s)[i := v]\<rparr>"
| "write_place (Element a i) v s =
     s\<lparr>heap_blocks := (heap_blocks s)[a := map_option (\<lambda>b. set_block_object b i v) (heap_blocks s ! a)]\<rparr>"

text \<open>\<open>RedisValue x(std::move(other))\<close> and \<open>x = std::move(other)\<close>, which resets x first.\<close>

definition construct_from :: "place \<Rightarrow> value_state \<Rightarrow> value_state outcome" where
  "construct_from p s =
     bind_outcome (read_place p s) (\<lambda>v.
       let s' = write_place p (moved_from v) s in Ret (s'\<lparr>variables := variables s' @ [v]\<rparr>))"

definition assign_from :: "nat \<Rightarrow> place \<Rightarrow> value_state \<Rightarrow> value_state outcome" where
  "assign_from i p s =
     bind_outcome (read_place (Variable i) s) (\<lambda>x.
     bind_outcome (reset_object x (heap_blocks s)) (\<lambda>h.
     bind_outcome (read_place p (s\<lparr>heap_blocks := h\<rparr>)) (\<lambda>v.
       Ret (write_place p (moved_from v) (write_place (Variable i) v (s\<lparr>heap_blocks := h\<rparr>))))))"

text \<open>
  Arguments of \<open>set\<close>. A vector, a map or an attribute is filled from other variables with
  \<open>emplace_back(std::move(...))\<close> before it is given to \<open>set\<close>, as the parser does; \<open>A_text\<close> is the
  \<open>as_string()\<close> of any object, also of the target and of its parts.
\<close>

datatype set_arg =
    A_null | A_integer int | A_boolean bool | A_double u64 | A_string value_tag string
  | A_text value_tag place | A_vector value_tag "nat list" | A_map "(nat \<times> nat) list" | A_attribute "(nat \<times> nat) list" nat

fun moved_vars :: "set_arg \<Rightarrow> nat list" where
  "moved_vars (A_vector k js) = js"
| "moved_vars (A_map m) = flatten m"
| "moved_vars (A_attribute m j) = flatten m @ [j]"
| "moved_vars a = []"

fun move_out :: "('a \<Rightarrow> 'a) \<Rightarrow> nat list \<Rightarrow> 'a list \<Rightarrow> 'a list \<times> 'a list" where
  "move_out clear [] xs = ([], xs)"
| "move_out clear (j # js) xs = (let (os, xs') = move_out clear js (xs[j := clear (xs ! j)]) in (xs ! j # os, xs'))"

fun pair_up :: "'a list \<Rightarrow> ('a \<times> 'a) list" where
  "pair_up (a # b # xs) = (a, b) # pair_up xs"
| "pair_up xs = []"

fun arg_view :: "set_arg \<Rightarrow> value_state \<Rightarrow> nat option outcome" where
  "arg_view (A_text k p) s = bind_outcome (read_place p s) as_string_view"
| "arg_view a s = Ret None"

fun arg_contents :: "set_arg \<Rightarrow> value_object list \<Rightarrow> nat option \<Rightarrow> value_heap \<Rightarrow> contents outcome" where
  "arg_contents A_null os view h = Ret C_null"
| "arg_contents (A_integer i) os view h = Ret (C_integer i)"
| "arg_contents (A_boolean b) os view h = Ret (C_boolean b)"
| "arg_contents (A_double d) os view h = Ret (C_double d)"
| "arg_contents (A_string k s) os view h = Ret (C_block (String_block k s))"
| "arg_contents (A_text k p) os view h = bind_outcome (read_view view h) (\<lambda>s. Ret (C_block (String_block k s)))"
| "arg_contents (A_vector k js) os view h = Ret (C_block (Vector_block k os))"
| "arg_contents (A_map m) os view h = Ret (C_block (Map_block (pair_up os)))"
| "arg_contents (A_attribute m j) os view h = Ret (C_block (Attribute_block (pair_up (butlast os)) (last os)))"

definition set_variable :: "nat \<Rightarrow> set_arg \<Rightarrow> value_state \<Rightarrow> value_state outcome" where
  "set_variable i arg s =
     (let (os, xs) = move_out moved_from (moved_vars arg) (variables s)
      in bind_outcome (arg_view arg s) (\<lambda>view.
           bind_outcome (set_object (arg_contents arg os view) (xs ! i) (heap_blocks s)) (\<lambda>(v, h).
             Ret \<lparr>variables = xs[i := v], heap_blocks = h\<rparr>)))"

text \<open>A variable is declared, set, moved or, at the end of its scope, destroyed.\<close>

datatype value_op = Declare | Set_to nat set_arg | Construct place | Assign nat place | Leave_scope

fun value_step :: "value_op \<Rightarrow> value_state \<Rightarrow> value_state outcome" where
  "value_step Declare s = Ret (s\<lparr>variables := variables s @ [\<lparr>stored = M_null, tag = NULLPTR\<rparr>]\<rparr>)"
| "value_step (Set_to i arg) s = set_variable i arg s"
| "value_step (Construct p) s = construct_from p s"
| "value_step (Assign i p) s = assign_from i p s"
| "value_step Leave_scope s =
     bind_outcome (reset_object (last (variables s)) (heap_blocks s)) (\<lambda>h.
       Ret \<lparr>variables = butlast (variables s), heap_blocks = h\<rparr>)"

section \<open>What an object stands for\<close>

fun value_parts :: "redis_value \<Rightarrow> redis_value list" where
  "value_parts (Array vs) = vs" | "value_parts (Push vs) = vs" | "value_parts (Set vs) = vs"
| "value_parts (Map m) = flatten m"
| "value_parts (Attribute m v) = flatten m @ [v]"
| "value_parts v = []"

fun value_text :: "redis_value \<Rightarrow> string option" where
  "value_text (Simple_string s) = Some s" | "value_text (Simple_error s) = Some s"
| "value_text (Bulk_string s) = Some s" | "value_text (Big_number s) = Some s"
| "value_text (Bulk_error s) = Some s" | "value_text (Verbatim_string s) = Some s"
| "value_text v = None"

text \<open>
  \<open>rep h v t fp\<close>: the object \<open>v\<close> stands for the tree \<open>t\<close>, its tag names the member that was written
  and the type of the block, and \<open>fp\<close> are the blocks it owns, directly or through others. Objects
  side by side own different blocks.
\<close>

inductive rep :: "value_heap \<Rightarrow> value_object \<Rightarrow> redis_value \<Rightarrow> nat set \<Rightarrow> bool"
  and reps :: "value_heap \<Rightarrow> value_object list \<Rightarrow> redis_value list \<Rightarrow> nat set \<Rightarrow> bool" for h where
  rep_null: "tag v = NULLPTR \<Longrightarrow> rep h v Nullptr {}"
| rep_integer: "tag v = INTEGER \<Longrightarrow> stored v = M_integer i \<Longrightarrow> rep h v (Integer i) {}"
| rep_boolean: "tag v = BOOL \<Longrightarrow> stored v = M_boolean b \<Longrightarrow> rep h v (Bool b) {}"
| rep_double: "tag v = DOUBLE \<Longrightarrow> stored v = M_double d \<Longrightarrow> rep h v (Double d) {}"
| rep_block: "tag v = value_type t \<Longrightarrow> owns_block (tag v) \<Longrightarrow> stored v = M_pointer a \<Longrightarrow> a < length h \<Longrightarrow> h ! a = Some b \<Longrightarrow>
    block_tag b = tag v \<Longrightarrow> block_text b = value_text t \<Longrightarrow> reps h (block_objects b) (value_parts t) fp \<Longrightarrow> a \<notin> fp \<Longrightarrow>
    rep h v t (insert a fp)"
| reps_nil: "reps h [] [] {}"
| reps_cons: "rep h v t fp \<Longrightarrow> reps h vs ts fps \<Longrightarrow> fp \<inter> fps = {} \<Longrightarrow> reps h (v # vs) (t # ts) (fp \<union> fps)"

inductive_cases reps_ConsE: "reps h (v # vs) ts fp"
inductive_cases reps_NilE: "reps h [] ts fp"

definition live :: "value_heap \<Rightarrow> nat set" where
  "live h = {a. a < length h \<and> h ! a \<noteq> None}"

definition agree :: "nat set \<Rightarrow> value_heap \<Rightarrow> value_heap \<Rightarrow> bool" where
  "agree fp h h' \<longleftrightarrow> (\<forall>a\<in>fp. a < length h' \<and> h' ! a = h ! a)"

text \<open>Only the blocks an object owns matter for it.\<close>

lemma rep_frame:
  "rep h v t fp \<Longrightarrow> agree fp h h' \<Longrightarrow> rep h' v t fp"
  "reps h vs ts fps \<Longrightarrow> agree fps h h' \<Longrightarrow> reps h' vs ts fps"
  by (induction rule: rep_reps.inducts) (auto simp: agree_def intro: rep_reps.intros)

lemma rep_live:
  "rep h v t fp \<Longrightarrow> fp \<subseteq> live h"
  "reps h vs ts fps \<Longrightarrow> fps \<subseteq> live h"
  by (induction rule: rep_reps.inducts) (auto simp: live_def)

lemma reps_length: "reps h vs ts fp \<Longrightarrow> length vs = length ts"
  by (induction vs arbitrary: ts fp) (auto elim: reps_ConsE reps_NilE)

subsection \<open>Freeing\<close>

definition clear :: "nat set \<Rightarrow> value_heap \<Rightarrow> value_heap" where
  "clear fp h = map (\<lambda>a. if a \<in> fp then None else h ! a) [0..<length h]"

lemma clear_simps [simp]: "length (clear fp h) = length h" "clear fp' (clear fp h) = clear (fp \<union> fp') h" "clear {} h = h"
  by (auto simp: clear_def intro: nth_equalityI)

lemma clear_nth: "a < length h \<Longrightarrow> clear fp h ! a = (if a \<in> fp then None else h ! a)"
  by (simp add: clear_def)

lemma clear_insert: "a < length h \<Longrightarrow> h[a := None] = clear {a} h"
  by (auto simp: clear_def nth_list_update intro: nth_equalityI)

lemma live_clear [simp]: "live (clear fp h) = live h - fp"
  by (auto simp: live_def clear_nth split: if_splits)

lemma agree_clear:
  assumes "fp \<inter> fp' = {}" and "fp \<subseteq> live h"
  shows "agree fp h (clear fp' h)"
proof -
  have "a < length h \<and> a \<notin> fp'" if "a \<in> fp" for a using that assms by (auto simp: live_def)
  then show ?thesis by (simp add: agree_def clear_nth)
qed

lemma agree_trans: "agree fp h h' \<Longrightarrow> fp' \<subseteq> fp \<Longrightarrow> agree fp' h' h'' \<Longrightarrow> agree fp' h h''"
  by (auto simp: agree_def)

lemma agree_clear_more: "agree (fp \<union> fp') h h' \<Longrightarrow> fp \<inter> fp' = {} \<Longrightarrow> agree fp' h (clear fp h')"
  by (auto simp: agree_def clear_nth)

text \<open>Destroying objects frees the blocks they own, all of them and no others.\<close>

lemma destroy_frees:
  "rep h v t fp \<Longrightarrow> agree fp h h' \<Longrightarrow> destroy (v # rest) h' = destroy rest (clear fp h')"
  "reps h vs ts fps \<Longrightarrow> agree fps h h' \<Longrightarrow> destroy (vs @ rest) h' = destroy rest (clear fps h')"
proof (induction arbitrary: h' rest and h' rest rule: rep_reps.inducts)
  case (rep_block v t a b fp)
  have a: "a < length h'" "h' ! a = Some b" and fp: "agree fp h (h'[a := None])"
    using rep_block.prems rep_block.IH(1,2) rep_block.hyps(6) by (auto simp: agree_def nth_list_update)
  have "destroy (v # rest) h' = destroy (block_objects b @ rest) (h'[a := None])"
    using rep_block.hyps a by (simp add: free_block_def)
  also have "\<dots> = destroy rest (clear fp (h'[a := None]))" by (rule rep_block.IH(4)[OF fp])
  finally show ?case using a by (simp add: clear_insert)
next
  case (reps_cons v t fp vs ts fps)
  have "agree fp h h'" "agree fps h (clear fp h')"
    using reps_cons.prems reps_cons.hyps by (auto simp: agree_def clear_nth)
  then show ?case using reps_cons.IH by simp
qed simp_all

lemma agree_refl: "fp \<subseteq> live h \<Longrightarrow> agree fp h h"
  by (auto simp: agree_def live_def)

lemma reset_frees: "rep h v t fp \<Longrightarrow> reset_object v h = Ret (clear fp h)"
  unfolding reset_object_def
  using destroy_frees(1)[of h v t fp h "[]", OF _ agree_refl[OF rep_live(1)]] by (simp del: destroy.simps(2))

subsection \<open>One object among others\<close>

lemma rep_moved: "rep h (moved_from v) Nullptr {}"
  by (simp add: moved_from_def rep_null)

lemma rep_null_owns: "rep h v t fp \<Longrightarrow> tag v = NULLPTR \<Longrightarrow> fp = {}"
  by (auto elim: rep.cases)

lemma reps_focus:
  assumes "reps h vs ts fp" and "i < length vs"
  shows "\<exists>f1 f2. rep h (vs ! i) (ts ! i) f1 \<and> fp = f1 \<union> f2 \<and> f1 \<inter> f2 = {} \<and>
    (\<forall>h' v' t' f'. agree f2 h h' \<longrightarrow> rep h' v' t' f' \<longrightarrow> f' \<inter> f2 = {} \<longrightarrow> reps h' (vs[i := v']) (ts[i := t']) (f' \<union> f2))"
  using assms
proof (induction vs arbitrary: i ts fp)
  case (Cons v vs)
  from Cons.prems(1) obtain t ts' g gs where ts: "ts = t # ts'" "fp = g \<union> gs" and g: "rep h v t g" "reps h vs ts' gs" "g \<inter> gs = {}"
    by (auto elim: reps_ConsE)
  show ?case
  proof (cases i)
    case 0
    show ?thesis unfolding 0 ts using g
      by (intro exI[of _ g] exI[of _ gs]) (auto intro: reps_cons rep_frame(2))
  next
    case (Suc j)
    then have "j < length vs" using Cons.prems(2) by simp
    from Cons.IH[OF g(2) this] obtain f1 f2 where f: "rep h (vs ! j) (ts' ! j) f1" "gs = f1 \<union> f2" "f1 \<inter> f2 = {}"
      and upd: "\<And>h' v' t' f'. agree f2 h h' \<Longrightarrow> rep h' v' t' f' \<Longrightarrow> f' \<inter> f2 = {} \<Longrightarrow> reps h' (vs[j := v']) (ts'[j := t']) (f' \<union> f2)"
      by blast
    have "reps h' (v # vs[j := v']) (t # ts'[j := t']) (f' \<union> (g \<union> f2))"
      if "agree (g \<union> f2) h h'" "rep h' v' t' f'" "f' \<inter> (g \<union> f2) = {}" for h' v' t' f'
    proof -
      have "agree f2 h h'" "agree g h h'" "f' \<inter> f2 = {}" using that(1,3) by (auto simp: agree_def)
      then have "reps h' (v # vs[j := v']) (t # ts'[j := t']) (g \<union> (f' \<union> f2))"
        using rep_frame(1)[OF g(1)] upd[OF _ that(2)] that(3) g(3) f(2) by (intro reps_cons) auto
      then show ?thesis by (simp add: Un_left_commute)
    qed
    then show ?thesis unfolding Suc ts using f g(3)
      by (intro exI[of _ f1] exI[of _ "g \<union> f2"]) auto
  qed
qed simp

lemma reps_take:
  assumes "reps h vs ts f" and "i < length vs"
  obtains f1 f2 where "rep h (vs ! i) (ts ! i) f1" and "f = f1 \<union> f2" and "f1 \<inter> f2 = {}"
    and "reps h (vs[i := moved_from (vs ! i)]) (ts[i := Nullptr]) f2"
proof -
  from reps_focus[OF assms] obtain f1 f2 where f: "rep h (vs ! i) (ts ! i) f1" "f = f1 \<union> f2" "f1 \<inter> f2 = {}"
    and upd: "\<And>h' v' t' f'. agree f2 h h' \<Longrightarrow> rep h' v' t' f' \<Longrightarrow> f' \<inter> f2 = {} \<Longrightarrow> reps h' (vs[i := v']) (ts[i := t']) (f' \<union> f2)"
    by blast
  have "f2 \<subseteq> live h" using rep_live(2)[OF assms(1)] f(2) by simp
  from upd[OF agree_refl[OF this] rep_moved] have "reps h (vs[i := moved_from (vs ! i)]) (ts[i := Nullptr]) f2" by simp
  from that[OF f this] show ?thesis .
qed

lemma reps_fill:
  assumes "reps h vs ts f" and "i < length vs" and "tag (vs ! i) = NULLPTR" and "rep h v t g" and "g \<inter> f = {}"
  shows "reps h (vs[i := v]) (ts[i := t]) (g \<union> f)"
proof -
  from reps_focus[OF assms(1,2)] obtain f1 f2 where f: "rep h (vs ! i) (ts ! i) f1" "f = f1 \<union> f2"
    and upd: "\<And>h' v' t' f'. agree f2 h h' \<Longrightarrow> rep h' v' t' f' \<Longrightarrow> f' \<inter> f2 = {} \<Longrightarrow> reps h' (vs[i := v']) (ts[i := t']) (f' \<union> f2)"
    by blast
  have "f = f2" using rep_null_owns[OF f(1) assms(3)] f(2) by simp
  then show ?thesis using upd[OF _ assms(4)] assms(5) agree_refl[OF rep_live(2)[OF assms(1)]] by simp
qed

lemma reps_snoc:
  "reps h vs ts f \<Longrightarrow> rep h v t g \<Longrightarrow> f \<inter> g = {} \<Longrightarrow> reps h (vs @ [v]) (ts @ [t]) (f \<union> g)"
proof (induction vs arbitrary: ts f)
  case Nil
  then have "ts = []" "f = {}" by (auto elim: reps_NilE)
  then show ?case using reps_cons[OF Nil.prems(2) reps_nil] by simp
next
  case (Cons u us)
  from Cons.prems(1) obtain t' ts' g' gs where ts: "ts = t' # ts'" "f = g' \<union> gs"
    and g: "rep h u t' g'" "reps h us ts' gs" "g' \<inter> gs = {}" by (auto elim: reps_ConsE)
  have "reps h (u # us @ [v]) (t' # ts' @ [t]) (g' \<union> (gs \<union> g))"
    using Cons.IH[OF g(2) Cons.prems(2)] g ts Cons.prems(3) by (intro reps_cons) auto
  then show ?case by (simp add: ts Un_assoc)
qed

lemma reps_butlast:
  assumes "reps h vs ts f" and "vs \<noteq> []"
  obtains f1 f2 where "rep h (last vs) (last ts) f1" and "reps h (butlast vs) (butlast ts) f2" and "f = f1 \<union> f2" and "f1 \<inter> f2 = {}"
proof -
  have "\<exists>f1 f2. rep h (last vs) (last ts) f1 \<and> reps h (butlast vs) (butlast ts) f2 \<and> f = f1 \<union> f2 \<and> f1 \<inter> f2 = {}"
    using assms
  proof (induction vs arbitrary: ts f)
    case (Cons u us)
    from Cons.prems(1) obtain t' ts' g' gs where ts: "ts = t' # ts'" "f = g' \<union> gs"
      and g: "rep h u t' g'" "reps h us ts' gs" "g' \<inter> gs = {}" by (auto elim: reps_ConsE)
    show ?case
    proof (cases "us = []")
      case True
      then have "ts' = []" "gs = {}" using g(2) by (auto elim: reps_NilE)
      then show ?thesis unfolding ts using g(1) True by (intro exI[of _ g'] exI[of _ "{}"]) (simp add: reps_nil)
    next
      case False
      from Cons.IH[OF g(2) this] obtain f1 f2 where f: "rep h (last us) (last ts') f1" "reps h (butlast us) (butlast ts') f2"
        "gs = f1 \<union> f2" "f1 \<inter> f2 = {}" by blast
      have "ts' \<noteq> []" using reps_length[OF g(2)] False by auto
      then show ?thesis unfolding ts using f g False
        by (intro exI[of _ f1] exI[of _ "g' \<union> f2"]) (auto intro: reps_cons)
    qed
  qed simp
  then show ?thesis using that by blast
qed

subsection \<open>An element of a block\<close>

lemma flatten_simps [simp]: "flatten [] = []" "flatten ((a, b) # m) = a # b # flatten m" "length (flatten m) = 2 * length m"
proof -
  show "length (flatten m) = 2 * length m" by (induction m) (auto simp: flatten_def)
qed (simp_all add: flatten_def)

lemma flatten_pair_up: "even (length xs) \<Longrightarrow> flatten (pair_up xs) = xs"
  by (induction xs rule: pair_up.induct) auto

lemma set_nth_pair_simps [simp]:
  "length (set_nth_pair i v m) = length m" "i < 2 * length m \<Longrightarrow> flatten (set_nth_pair i v m) = (flatten m)[i := v]"
  by (induction i v m rule: set_nth_pair.induct) (auto simp: list_update.simps(2) split: nat.splits)

lemma set_block_object_simps:
  assumes "i < length (block_objects b)"
  shows "block_objects (set_block_object b i v) = (block_objects b)[i := v]"
    and "block_tag (set_block_object b i v) = block_tag b" and "block_text (set_block_object b i v) = block_text b"
  using assms by (cases b; auto simp: list_update_append nth_append)+

text \<open>Other parts for the same kind of value; the part at a path, and the value with that part moved out.\<close>

fun with_parts :: "redis_value \<Rightarrow> redis_value list \<Rightarrow> redis_value" where
  "with_parts (Array vs) xs = Array xs"
| "with_parts (Push vs) xs = Push xs"
| "with_parts (Set vs) xs = Set xs"
| "with_parts (Map m) xs = Map (pair_up xs)"
| "with_parts (Attribute m v) xs = Attribute (pair_up (butlast xs)) (last xs)"
| "with_parts t xs = t"

fun part :: "nat list \<Rightarrow> redis_value \<Rightarrow> redis_value" where
  "part [] t = t"
| "part (k # ks) t = part ks (value_parts t ! k)"

fun cut_part :: "nat list \<Rightarrow> redis_value \<Rightarrow> redis_value" where
  "cut_part [] t = Nullptr"
| "cut_part (k # ks) t = with_parts t ((value_parts t)[k := cut_part ks (value_parts t ! k)])"

lemma with_parts_facts:
  assumes "length xs = length (value_parts t)"
  shows "value_type (with_parts t xs) = value_type t" and "value_text (with_parts t xs) = value_text t"
    and "value_parts (with_parts t xs) = xs"
proof -
  have "xs \<noteq> []" "even (length (butlast xs))" if "t = Attribute m v" for m v using assms that by auto
  then show "value_type (with_parts t xs) = value_type t" "value_text (with_parts t xs) = value_text t" "value_parts (with_parts t xs) = xs"
    using assms by (cases t; auto simp: flatten_pair_up)+
qed

text \<open>The object that is reached from \<open>v\<close> along a path, each step going to an element of the block owned.\<close>

fun object_at :: "value_heap \<Rightarrow> value_object \<Rightarrow> nat list \<Rightarrow> value_object option" where
  "object_at h v [] = Some v"
| "object_at h v (k # ks) =
     (if owns_block (tag v) then
        case stored v of
          M_pointer a \<Rightarrow>
            (if a < length h then
               case h ! a of
                 Some b \<Rightarrow> if k < length (block_objects b) then object_at h (block_objects b ! k) ks else None
               | None \<Rightarrow> None
             else None)
        | _ \<Rightarrow> None
      else None)"

definition owner_at :: "value_heap \<Rightarrow> value_object \<Rightarrow> nat list \<Rightarrow> nat \<Rightarrow> bool" where
  "owner_at h v ks a \<longleftrightarrow> (case object_at h v ks of Some w \<Rightarrow> owns_block (tag w) \<and> stored w = M_pointer a | None \<Rightarrow> False)"

text \<open>
  Moving an element of a block away: the blocks it owns are those of the target, and the object
  that has the block stands for a tree without it.
\<close>

definition without :: "nat \<Rightarrow> heap_block \<Rightarrow> nat \<Rightarrow> value_heap \<Rightarrow> value_heap" where
  "without a b i h = h[a := Some (set_block_object b i (moved_from (block_objects b ! i)))]"

lemma without_agree: "a \<notin> fp \<Longrightarrow> fp \<subseteq> live h \<Longrightarrow> agree fp h (without a b i h)"
proof -
  assume "a \<notin> fp" and "fp \<subseteq> live h"
  then have "x < length h \<and> a \<noteq> x" if "x \<in> fp" for x using that by (auto simp: live_def)
  then show ?thesis by (auto simp: agree_def without_def)
qed

lemma owner_at_block:
  assumes "owns_block (tag v)" and "stored v = M_pointer c" and "c < length h" and "h ! c = Some d"
  shows "owner_at h v [] a \<longleftrightarrow> a = c"
    and "owner_at h v (k # ks) a \<longleftrightarrow> k < length (block_objects d) \<and> owner_at h (block_objects d ! k) ks a"
  using assms by (auto simp: owner_at_def)

lemma rep_element:
  "rep h v t fp \<Longrightarrow> a \<in> fp \<Longrightarrow> h ! a = Some b \<Longrightarrow> i < length (block_objects b) \<Longrightarrow>
    \<exists>ks fe f'. owner_at h v ks a \<and> rep h (block_objects b ! i) (part (ks @ [i]) t) fe \<and> fp = f' \<union> fe \<and> f' \<inter> fe = {} \<and> a \<in> f' \<and>
      rep (without a b i h) v (cut_part (ks @ [i]) t) f'"
  "reps h vs ts fps \<Longrightarrow> a \<in> fps \<Longrightarrow> h ! a = Some b \<Longrightarrow> i < length (block_objects b) \<Longrightarrow>
    \<exists>j ks fe f'. j < length vs \<and> owner_at h (vs ! j) ks a \<and> rep h (block_objects b ! i) (part (ks @ [i]) (ts ! j)) fe \<and>
      fps = f' \<union> fe \<and> f' \<inter> fe = {} \<and> a \<in> f' \<and> reps (without a b i h) vs (ts[j := cut_part (ks @ [i]) (ts ! j)]) f'"
proof (induction rule: rep_reps.inducts)
  case (rep_block v t c d fp)
  note facts = rep_block.hyps rep_block.IH(1-3)
  note own = owner_at_block[OF rep_block.hyps(2,3) rep_block.IH(1,2)]
  show ?case
  proof (cases "a = c")
    case True
    then have b: "d = b" using rep_block.prems(2) rep_block.IH(2) by simp
    from reps_take[OF rep_block.IH(3)] rep_block.prems(3) b obtain f1 f2 where
      f: "rep h (block_objects b ! i) (value_parts t ! i) f1" "fp = f1 \<union> f2" "f1 \<inter> f2 = {}"
      and rest: "reps h ((block_objects b)[i := moved_from (block_objects b ! i)]) ((value_parts t)[i := Nullptr]) f2" by auto
    note t' = with_parts_facts[of "(value_parts t)[i := Nullptr]" t, OF length_list_update]
    have "reps (without a b i h) ((block_objects b)[i := moved_from (block_objects b ! i)]) ((value_parts t)[i := Nullptr]) f2"
      using f(2) rep_block.hyps(6) rep_live(2)[OF rest] True by (intro rep_frame(2)[OF rest] without_agree) auto
    then have "rep (without a b i h) v (cut_part [i] t) (insert c f2)"
      using facts f(2) t' True b set_block_object_simps[OF rep_block.prems(3)]
      by (intro rep_reps.rep_block[where a = c and b = "set_block_object b i (moved_from (block_objects b ! i))"]) (auto simp: without_def)
    then have "owner_at h v [] a \<and> rep h (block_objects b ! i) (part ([] @ [i]) t) f1 \<and> insert c fp = insert c f2 \<union> f1 \<and>
        insert c f2 \<inter> f1 = {} \<and> a \<in> insert c f2 \<and> rep (without a b i h) v (cut_part ([] @ [i]) t) (insert c f2)"
      using f rep_block.hyps(6) rep_block.prems True own(1) by auto
    then show ?thesis by blast
  next
    case False
    then have "a \<in> fp" using rep_block.prems(1) by simp
    from rep_block.IH(4)[OF this rep_block.prems(2,3)] obtain j ks fe f' where
      f: "j < length (block_objects d)" "owner_at h (block_objects d ! j) ks a"
        "rep h (block_objects b ! i) (part (ks @ [i]) (value_parts t ! j)) fe" "fp = f' \<union> fe" "f' \<inter> fe = {}" "a \<in> f'"
        "reps (without a b i h) (block_objects d) ((value_parts t)[j := cut_part (ks @ [i]) (value_parts t ! j)]) f'" by blast
    note t' = with_parts_facts[of "(value_parts t)[j := cut_part (ks @ [i]) (value_parts t ! j)]" t, OF length_list_update]
    have "rep (without a b i h) v (cut_part ((j # ks) @ [i]) t) (insert c f')"
      using facts f t' False by (intro rep_reps.rep_block[where a = c and b = d]) (auto simp: without_def)
    then have "owner_at h v (j # ks) a \<and> rep h (block_objects b ! i) (part ((j # ks) @ [i]) t) fe \<and> insert c fp = insert c f' \<union> fe \<and>
        insert c f' \<inter> fe = {} \<and> a \<in> insert c f' \<and> rep (without a b i h) v (cut_part ((j # ks) @ [i]) t) (insert c f')"
      using f rep_block.hyps(6) own(2) by auto
    then show ?thesis by blast
  qed
next
  case (reps_cons v t fp vs ts fps)
  have disj: "fp \<inter> fps = {}" and r: "rep h v t fp" "reps h vs ts fps" using reps_cons.hyps reps_cons.IH by auto
  show ?case
  proof (cases "a \<in> fp")
    case True
    from reps_cons.IH(2)[OF this reps_cons.prems(2,3)] obtain ks fe f' where
      f: "owner_at h v ks a" "rep h (block_objects b ! i) (part (ks @ [i]) t) fe" "fp = f' \<union> fe" "f' \<inter> fe = {}" "a \<in> f'"
        "rep (without a b i h) v (cut_part (ks @ [i]) t) f'" by blast
    have "reps (without a b i h) vs ts fps" using True disj rep_live(2)[OF r(2)] by (intro rep_frame(2)[OF r(2)] without_agree) auto
    then have "reps (without a b i h) (v # vs) (cut_part (ks @ [i]) t # ts) (f' \<union> fps)" using f disj by (intro rep_reps.reps_cons) auto
    then have "0 < length (v # vs) \<and> owner_at h ((v # vs) ! 0) ks a \<and> rep h (block_objects b ! i) (part (ks @ [i]) ((t # ts) ! 0)) fe \<and>
        fp \<union> fps = (f' \<union> fps) \<union> fe \<and> (f' \<union> fps) \<inter> fe = {} \<and> a \<in> (f' \<union> fps) \<and>
        reps (without a b i h) (v # vs) ((t # ts)[0 := cut_part (ks @ [i]) ((t # ts) ! 0)]) (f' \<union> fps)"
      using f disj by auto
    then show ?thesis by blast
  next
    case False
    then have "a \<in> fps" using reps_cons.prems(1) by simp
    from reps_cons.IH(4)[OF this reps_cons.prems(2,3)] obtain j ks fe f' where
      f: "j < length vs" "owner_at h (vs ! j) ks a" "rep h (block_objects b ! i) (part (ks @ [i]) (ts ! j)) fe" "fps = f' \<union> fe"
        "f' \<inter> fe = {}" "a \<in> f'" "reps (without a b i h) vs (ts[j := cut_part (ks @ [i]) (ts ! j)]) f'" by blast
    have "rep (without a b i h) v t fp" using False rep_live(1)[OF r(1)] by (intro rep_frame(1)[OF r(1)] without_agree) auto
    then have "reps (without a b i h) (v # vs) (t # ts[j := cut_part (ks @ [i]) (ts ! j)]) (fp \<union> f')"
      using f disj by (intro rep_reps.reps_cons) auto
    then have "Suc j < length (v # vs) \<and> owner_at h ((v # vs) ! Suc j) ks a \<and>
        rep h (block_objects b ! i) (part (ks @ [i]) ((t # ts) ! Suc j)) fe \<and>
        fp \<union> fps = (fp \<union> f') \<union> fe \<and> (fp \<union> f') \<inter> fe = {} \<and> a \<in> (fp \<union> f') \<and>
        reps (without a b i h) (v # vs) ((t # ts)[Suc j := cut_part (ks @ [i]) ((t # ts) ! Suc j)]) (fp \<union> f')"
      using f disj by auto
    then show ?thesis by blast
  qed
qed simp_all

text \<open>A block is reached along one path only.\<close>

lemma owner_in:
  "rep h v t fp \<Longrightarrow> owner_at h v ks a \<Longrightarrow> a \<in> fp"
  "reps h vs ts fps \<Longrightarrow> j < length vs \<Longrightarrow> owner_at h (vs ! j) ks a \<Longrightarrow> a \<in> fps"
proof (induction arbitrary: ks and j ks rule: rep_reps.inducts)
  case (rep_block v t c d fp)
  note own = owner_at_block[OF rep_block.hyps(2,3) rep_block.IH(1,2)]
  show ?case using rep_block.prems rep_block.IH(4) own by (cases ks) auto
next
  case (reps_cons v t fp vs ts fps)
  then show ?case by (cases j) auto
qed (auto simp: owner_at_def neq_Nil_conv split: option.splits, (case_tac ks; auto)+)

lemma owner_unique:
  "rep h v t fp \<Longrightarrow> owner_at h v ks a \<Longrightarrow> owner_at h v ks' a \<Longrightarrow> ks' = ks"
  "reps h vs ts fps \<Longrightarrow> j < length vs \<Longrightarrow> owner_at h (vs ! j) ks a \<Longrightarrow> j' < length vs \<Longrightarrow> owner_at h (vs ! j') ks' a \<Longrightarrow>
     j' = j \<and> ks' = ks"
proof (induction arbitrary: ks ks' and j ks j' ks' rule: rep_reps.inducts)
  case (rep_block v t c d fp)
  note own = owner_at_block[OF rep_block.hyps(2,3) rep_block.IH(1,2)]
  have in_fp: "a \<in> fp" if "k < length (block_objects d)" "owner_at h (block_objects d ! k) r a" for k r
    using owner_in(2)[OF rep_block.IH(3) that] .
  show ?case using rep_block.prems rep_block.IH(4) own in_fp rep_block.hyps(6) by (cases ks; cases ks') auto
next
  case (reps_cons v t fp vs ts fps)
  have r: "rep h v t fp" "reps h vs ts fps" and disj: "fp \<inter> fps = {}" using reps_cons.hyps reps_cons.IH by auto
  have "\<not> (owner_at h v r1 a \<and> k < length vs \<and> owner_at h (vs ! k) r2 a)" for k r1 r2
    using owner_in(1)[OF r(1), of r1 a] owner_in(2)[OF r(2), of k r2 a] disj by blast
  then show ?case
    using reps_cons.prems reps_cons.IH(2,4) by (cases j; cases j') auto
qed (auto simp: owner_at_def split: option.splits, (case_tac ks; case_tac ks'; auto)+)

lemma live_without: "a \<in> live h \<Longrightarrow> live (without a b i h) = live h"
  by (auto simp: live_def without_def nth_list_update)

section \<open>Every operation keeps the ownership\<close>

text \<open>The variables stand for the trees \<open>ts\<close>, and every block on the heap has an owner.\<close>

definition represents :: "value_state \<Rightarrow> redis_value list \<Rightarrow> bool" where
  "represents s ts \<longleftrightarrow> reps (heap_blocks s) (variables s) ts (live (heap_blocks s))"

fun place_ok :: "place \<Rightarrow> value_state \<Rightarrow> bool" where
  "place_ok (Variable i) s \<longleftrightarrow> i < length (variables s)"
| "place_ok (Element a i) s \<longleftrightarrow> a < length (heap_blocks s) \<and>
     (case heap_blocks s ! a of None \<Rightarrow> False | Some b \<Rightarrow> i < length (block_objects b))"

text \<open>The C++ types of the strings and of the vectors.\<close>

fun arg_typed :: "set_arg \<Rightarrow> bool" where
  "arg_typed (A_string k s) \<longleftrightarrow>
     k \<in> {SIMPLE_STRING, SIMPLE_ERROR, BULK_STRING, BIG_NUMBER, BULK_ERROR, VERBATIM_STRING}"
| "arg_typed (A_text k p) \<longleftrightarrow>
     k \<in> {SIMPLE_STRING, SIMPLE_ERROR, BULK_STRING, BIG_NUMBER, BULK_ERROR, VERBATIM_STRING}"
| "arg_typed (A_vector k js) \<longleftrightarrow> k \<in> {ARRAY, PUSH, SET}"
| "arg_typed a \<longleftrightarrow> True"

fun value_ok :: "value_op \<Rightarrow> value_state \<Rightarrow> bool" where
  "value_ok Declare s \<longleftrightarrow> True"
| "value_ok (Set_to i arg) s \<longleftrightarrow>
     i < length (variables s) \<and> (\<forall>j\<in>set (moved_vars arg). j < length (variables s)) \<and> arg_typed arg \<and>
     (case arg of A_text k p \<Rightarrow> place_ok p s | _ \<Rightarrow> True)"
| "value_ok (Construct p) s \<longleftrightarrow> place_ok p s"
| "value_ok (Assign i p) s \<longleftrightarrow> i < length (variables s) \<and> place_ok p s"
| "value_ok Leave_scope s \<longleftrightarrow> variables s \<noteq> []"

text \<open>The source of an assignment, or the string that \<open>set\<close> is given, lies in a block that the target owns,
  so \<open>reset\<close> deletes it.\<close>

definition reset_frees_block :: "nat \<Rightarrow> nat \<Rightarrow> value_state \<Rightarrow> bool" where
  "reset_frees_block i a s \<longleftrightarrow> (case reset_object (variables s ! i) (heap_blocks s) of Ret h \<Rightarrow> h ! a = None | _ \<Rightarrow> True)"

fun own_element :: "value_op \<Rightarrow> value_state \<Rightarrow> bool" where
  "own_element (Assign i (Element a k)) s \<longleftrightarrow> reset_frees_block i a s"
| "own_element (Set_to i (A_text k p)) s \<longleftrightarrow>
     (case arg_view (A_text k p) s of Ret (Some a) \<Rightarrow> reset_frees_block i a s | _ \<Rightarrow> False)"
| "own_element op s \<longleftrightarrow> False"

text \<open>Where an operation reads from, and what that is in the trees: a variable and a path into it.\<close>

fun source :: "value_op \<Rightarrow> place option" where
  "source (Construct p) = Some p"
| "source (Assign i p) = Some p"
| "source (Set_to i (A_text k p)) = Some p"
| "source op = None"

fun locates :: "value_state \<Rightarrow> place \<Rightarrow> nat \<times> nat list \<Rightarrow> bool" where
  "locates s (Variable i) (j, path) \<longleftrightarrow> j = i \<and> path = []"
| "locates s (Element a k) (j, path) \<longleftrightarrow> path \<noteq> [] \<and> last path = k \<and> j < length (variables s) \<and>
     owner_at (heap_blocks s) (variables s ! j) (butlast path) a"

definition finds :: "value_state \<Rightarrow> value_op \<Rightarrow> nat \<times> nat list \<Rightarrow> bool" where
  "finds s op loc \<longleftrightarrow> (case source op of None \<Rightarrow> True | Some p \<Rightarrow> locates s p loc)"

text \<open>The operations on trees.\<close>

definition string_tree :: "value_tag \<Rightarrow> string \<Rightarrow> redis_value" where
  "string_tree k s =
     (if k = SIMPLE_STRING then Simple_string s else if k = SIMPLE_ERROR then Simple_error s
      else if k = BULK_STRING then Bulk_string s else if k = BIG_NUMBER then Big_number s
      else if k = BULK_ERROR then Bulk_error s else Verbatim_string s)"

fun arg_tree :: "set_arg \<Rightarrow> string \<Rightarrow> redis_value list \<Rightarrow> redis_value" where
  "arg_tree A_null text ts = Nullptr"
| "arg_tree (A_integer i) text ts = Integer i"
| "arg_tree (A_boolean b) text ts = Bool b"
| "arg_tree (A_double d) text ts = Double d"
| "arg_tree (A_string k s) text ts = string_tree k s"
| "arg_tree (A_text k p) text ts = string_tree k text"
| "arg_tree (A_vector k js) text ts = (if k = ARRAY then Array ts else if k = PUSH then Push ts else Set ts)"
| "arg_tree (A_map m) text ts = Map (pair_up ts)"
| "arg_tree (A_attribute m j) text ts = Attribute (pair_up (butlast ts)) (last ts)"

fun tree_string :: "redis_value \<Rightarrow> string" where
  "tree_string (Simple_string s) = s" | "tree_string (Bulk_string s) = s" | "tree_string (Verbatim_string s) = s"
| "tree_string t = []"

fun tree_op :: "value_op \<Rightarrow> nat \<times> nat list \<Rightarrow> redis_value list \<Rightarrow> redis_value list" where
  "tree_op Declare loc ts = ts @ [Nullptr]"
| "tree_op (Set_to i arg) (j, path) ts =
     (let (os, us) = move_out (\<lambda>_. Nullptr) (moved_vars arg) ts
      in us[i := arg_tree arg (tree_string (part path (ts ! j))) os])"
| "tree_op (Construct p) (j, path) ts = ts[j := cut_part path (ts ! j)] @ [part path (ts ! j)]"
| "tree_op (Assign i p) (j, path) ts = (ts[i := part path (ts ! j)])[j := cut_part path (ts ! j)]"
| "tree_op Leave_scope loc ts = butlast ts"

text \<open>Every place is somewhere in the trees, and in one way.\<close>

lemma locates_unique:
  assumes "represents s ts" and "locates s p loc" and "locates s p loc'"
  shows "loc' = loc"
proof (cases p)
  case (Variable i)
  then show ?thesis using assms(2,3) by (cases loc; cases loc') simp
next
  case (Element a k)
  obtain j path j' path' where l: "loc = (j, path)" "loc' = (j', path')" by fastforce
  have "j' = j \<and> butlast path' = butlast path"
    using owner_unique(2)[OF assms(1)[unfolded represents_def]] assms(2,3) Element l by auto
  moreover have "last path' = last path" "path \<noteq> []" "path' \<noteq> []" using assms(2,3) Element l by auto
  ultimately show ?thesis using l by (metis append_butlast_last_id)
qed

text \<open>The element of a block that is read, and the trees when it is moved away.\<close>

lemma element_located:
  assumes "reps h vs ts f" and "a \<in> f" and "h ! a = Some b" and "i < length (block_objects b)"
  obtains j ks fe f' where "j < length vs" and "owner_at h (vs ! j) ks a"
    and "rep h (block_objects b ! i) (part (ks @ [i]) (ts ! j)) fe" and "f = f' \<union> fe" and "f' \<inter> fe = {}" and "a \<in> f'"
    and "reps (without a b i h) vs (ts[j := cut_part (ks @ [i]) (ts ! j)]) f'"
    and "rep (without a b i h) (block_objects b ! i) (part (ks @ [i]) (ts ! j)) fe"
proof -
  from rep_element(2)[OF assms] obtain j ks fe f' where
    f: "j < length vs" "owner_at h (vs ! j) ks a" "rep h (block_objects b ! i) (part (ks @ [i]) (ts ! j)) fe" "f = f' \<union> fe"
      "f' \<inter> fe = {}" "a \<in> f'" "reps (without a b i h) vs (ts[j := cut_part (ks @ [i]) (ts ! j)]) f'" by blast
  have "rep (without a b i h) (block_objects b ! i) (part (ks @ [i]) (ts ! j)) fe"
    using f(4-6) rep_live(1)[OF f(3)] by (intro rep_frame(1)[OF f(3)] without_agree) auto
  from that[OF f this] show ?thesis .
qed

text \<open>Freeing other blocks does not change where a block is found.\<close>

lemma object_at_more:
  assumes "\<forall>a<length h. h ! a \<noteq> None \<longrightarrow> h ! a = h' ! a" and "length h = length h'"
  shows "object_at h v ks = Some w \<Longrightarrow> object_at h' v ks = Some w"
  using assms
proof (induction h v ks rule: object_at.induct)
  case (2 h v k ks)
  from "2.prems"(1) obtain a b where own: "owns_block (tag v)" "stored v = M_pointer a" and a: "a < length h" "h ! a = Some b"
    and k: "k < length (block_objects b)" "object_at h (block_objects b ! k) ks = Some w"
    by (auto split: if_splits union_member.splits option.splits)
  have "h' ! a = Some b" using "2.prems"(2) a by force
  moreover have "object_at h' (block_objects b ! k) ks = Some w"
    using "2.IH" own a k "2.prems"(2,3) by blast
  ultimately show ?case using own a k(1) "2.prems"(3) by simp
qed simp

lemma owner_at_more:
  assumes "\<forall>a<length h. h ! a \<noteq> None \<longrightarrow> h ! a = h' ! a" and "length h = length h'" and "owner_at h v ks a"
  shows "owner_at h' v ks a"
  using object_at_more[OF assms(1,2)] assms(3) by (auto simp: owner_at_def split: option.splits)

lemma owner_null: "tag v = NULLPTR \<Longrightarrow> \<not> owner_at h v ks a"
  by (cases ks) (auto simp: owner_at_def)

lemma read_element:
  assumes "place_ok (Element a i) s"
  obtains b where "a \<in> live (heap_blocks s)" and "heap_blocks s ! a = Some b" and "i < length (block_objects b)"
    and "read_place (Element a i) s = Ret (block_objects b ! i)"
    and "\<And>vs. write_place (Element a i) (moved_from (block_objects b ! i)) (s\<lparr>variables := vs\<rparr>) =
      s\<lparr>variables := vs, heap_blocks := without a b i (heap_blocks s)\<rparr>"
  using assms by (auto simp: live_def without_def split: option.splits)

lemma construct_ok:
  assumes "represents s ts" and "place_ok p s"
  shows "\<exists>s' loc. construct_from p s = Ret s' \<and> locates s p loc \<and> represents s' (tree_op (Construct p) loc ts)"
proof (cases p)
  case (Variable i)
  then have i: "i < length (variables s)" using assms(2) by simp
  from reps_take[OF assms(1)[unfolded represents_def] i] obtain f1 f2 where
    f: "rep (heap_blocks s) (variables s ! i) (ts ! i) f1" "live (heap_blocks s) = f1 \<union> f2" "f1 \<inter> f2 = {}"
    "reps (heap_blocks s) ((variables s)[i := moved_from (variables s ! i)]) (ts[i := Nullptr]) f2" .
  have "reps (heap_blocks s) ((variables s)[i := moved_from (variables s ! i)] @ [variables s ! i]) (ts[i := Nullptr] @ [ts ! i]) (f2 \<union> f1)"
    using f(3) by (intro reps_snoc[OF f(4,1)]) auto
  then show ?thesis using Variable i f(2)
    by (intro exI[of _ "s\<lparr>variables := (variables s)[i := moved_from (variables s ! i)] @ [variables s ! i]\<rparr>"] exI[of _ "(i, [])"])
       (simp add: construct_from_def represents_def Un_commute)
next
  case (Element a i)
  from read_element[OF assms(2)[unfolded this]] obtain b where b: "a \<in> live (heap_blocks s)" "heap_blocks s ! a = Some b"
    "i < length (block_objects b)" "read_place (Element a i) s = Ret (block_objects b ! i)"
    "\<And>vs. write_place (Element a i) (moved_from (block_objects b ! i)) (s\<lparr>variables := vs\<rparr>) =
      s\<lparr>variables := vs, heap_blocks := without a b i (heap_blocks s)\<rparr>" by metis
  from element_located[OF assms(1)[unfolded represents_def] b(1-3)] obtain j ks fe f' where
    f: "j < length (variables s)" "owner_at (heap_blocks s) (variables s ! j) ks a" "live (heap_blocks s) = f' \<union> fe" "f' \<inter> fe = {}"
    and rest: "reps (without a b i (heap_blocks s)) (variables s) (ts[j := cut_part (ks @ [i]) (ts ! j)]) f'"
    and new: "rep (without a b i (heap_blocks s)) (block_objects b ! i) (part (ks @ [i]) (ts ! j)) fe" by metis
  let ?s' = "s\<lparr>variables := variables s @ [block_objects b ! i], heap_blocks := without a b i (heap_blocks s)\<rparr>"
  have "represents ?s' (tree_op (Construct p) (j, ks @ [i]) ts)"
    using reps_snoc[OF rest new f(4)] f(3) live_without[OF b(1)] Element by (simp add: represents_def)
  moreover have "construct_from p s = Ret ?s'"
    using Element b(4) b(5)[of "variables s"] by (simp add: construct_from_def del: read_place.simps write_place.simps)
  moreover have "locates s p (j, ks @ [i])" using f Element by simp
  ultimately show ?thesis by blast
qed

text \<open>After \<open>reset\<close> of a variable, which is about to be written again.\<close>

lemma reset_variable:
  assumes "represents s ts" and "i < length (variables s)"
  obtains h f where "reset_object (variables s ! i) (heap_blocks s) = Ret h" and "live h = f"
    and "reps h ((variables s)[i := moved_from (variables s ! i)]) (ts[i := Nullptr]) f"
    and "\<forall>a<length h. h ! a \<noteq> None \<longrightarrow> h ! a = heap_blocks s ! a" and "length h = length (heap_blocks s)"
proof -
  from reps_take[OF assms(1)[unfolded represents_def] assms(2)] obtain f1 f2 where
    f: "rep (heap_blocks s) (variables s ! i) (ts ! i) f1" "live (heap_blocks s) = f1 \<union> f2" "f1 \<inter> f2 = {}"
    "reps (heap_blocks s) ((variables s)[i := moved_from (variables s ! i)]) (ts[i := Nullptr]) f2" .
  let ?h = "clear f1 (heap_blocks s)"
  have "agree f2 (heap_blocks s) ?h" using f(2,3) by (intro agree_clear) auto
  from rep_frame(2)[OF f(4) this] have mid: "reps ?h ((variables s)[i := moved_from (variables s ! i)]) (ts[i := Nullptr]) f2" .
  have lv: "live ?h = f2" using f(2,3) by auto
  have same: "\<forall>a<length ?h. ?h ! a \<noteq> None \<longrightarrow> ?h ! a = heap_blocks s ! a" by (simp add: clear_nth)
  show ?thesis by (rule that[OF reset_frees[OF f(1)] lv mid same]) simp
qed

lemma update_back: "i \<noteq> j \<Longrightarrow> ((xs[i := x])[j := y])[i := z] = (xs[i := z])[j := y]"
  using list_update_swap[of j i "xs[i := x]" y z] by simp

lemma assign_ok:
  assumes rep: "represents s ts" and i: "i < length (variables s)" and p: "place_ok p s"
  shows "if own_element (Assign i p) s then assign_from i p s = UB
    else \<exists>s' loc. assign_from i p s = Ret s' \<and> locates s p loc \<and> represents s' (tree_op (Assign i p) loc ts)"
proof -
  obtain h f where h: "reset_object (variables s ! i) (heap_blocks s) = Ret h" "live h = f"
    and mid: "reps h ((variables s)[i := moved_from (variables s ! i)]) (ts[i := Nullptr]) f"
    and same: "\<forall>a<length h. h ! a \<noteq> None \<longrightarrow> h ! a = heap_blocks s ! a" and len: "length h = length (heap_blocks s)"
    using reset_variable[OF rep i] .
  let ?vs = "(variables s)[i := moved_from (variables s ! i)]" and ?ts = "ts[i := Nullptr]"
  have lts: "length ts = length (variables s)" using reps_length[OF rep[unfolded represents_def]] by simp
  show ?thesis
  proof (cases p)
    case (Variable j)
    then have j: "j < length (variables s)" using p by simp
    have step: "assign_from i p s = Ret (s\<lparr>heap_blocks := h, variables := ((variables s)[i := variables s ! j])[j := moved_from (variables s ! j)]\<rparr>)"
      using Variable i j h(1) by (simp add: assign_from_def)
    have "reps h (((variables s)[i := variables s ! j])[j := moved_from (variables s ! j)]) ((ts[i := ts ! j])[j := Nullptr]) f"
    proof (cases "i = j")
      case True
      then show ?thesis using mid by simp
    next
      case False
      from reps_take[OF mid, of j] j False obtain f1 f2 where
        g: "rep h (variables s ! j) (ts ! j) f1" "f = f1 \<union> f2" "f1 \<inter> f2 = {}"
        "reps h (?vs[j := moved_from (variables s ! j)]) (?ts[j := Nullptr]) f2" by auto
      have "tag (?vs[j := moved_from (variables s ! j)] ! i) = NULLPTR" using False i by (simp add: moved_from_def)
      from reps_fill[OF g(4) _ this g(1,3)] i g(2) False show ?thesis by (simp add: update_back)
    qed
    then show ?thesis using step Variable h(2)
      by (intro if_not_P[THEN iffD2] exI[of _ "s\<lparr>heap_blocks := h, variables := ((variables s)[i := variables s ! j])[j := moved_from (variables s ! j)]\<rparr>"]
          exI[of _ "(j, [])"]) (simp_all add: represents_def)
  next
    case (Element a k)
    show ?thesis
    proof (cases "own_element (Assign i p) s")
      case True
      then have "h ! a = None" using Element h(1) by (simp add: reset_frees_block_def)
      then have "assign_from i p s = UB" using Element i h(1) by (simp add: assign_from_def)
      then show ?thesis using True by simp
    next
      case False
      then have "h ! a \<noteq> None" using Element h(1) by (simp add: reset_frees_block_def)
      then have "place_ok (Element a k) (s\<lparr>heap_blocks := h\<rparr>)" using p Element same len by auto
      from read_element[OF this] obtain b where b: "a \<in> live h" "h ! a = Some b" "k < length (block_objects b)"
        "read_place (Element a k) (s\<lparr>heap_blocks := h\<rparr>) = Ret (block_objects b ! k)"
        "\<And>vs. write_place (Element a k) (moved_from (block_objects b ! k)) (s\<lparr>heap_blocks := h, variables := vs\<rparr>) =
          s\<lparr>variables := vs, heap_blocks := without a b k h\<rparr>" by auto
      from element_located[OF mid _ b(2,3)] b(1) h(2) obtain j ks fe f' where
        j: "j < length ?vs" "owner_at h (?vs ! j) ks a" and e: "f = f' \<union> fe" "f' \<inter> fe = {}"
        and rest: "reps (without a b k h) ?vs (?ts[j := cut_part (ks @ [k]) (?ts ! j)]) f'"
        and new: "rep (without a b k h) (block_objects b ! k) (part (ks @ [k]) (?ts ! j)) fe" by metis
      have "i \<noteq> j" using owner_null[of "?vs ! i" h ks a] j by (auto simp: moved_from_def)
      then have same_j: "?vs ! j = variables s ! j" "?ts ! j = ts ! j" by simp_all
      have "reps (without a b k h) (?vs[i := block_objects b ! k]) ((?ts[j := cut_part (ks @ [k]) (?ts ! j)])[i := part (ks @ [k]) (?ts ! j)]) (fe \<union> f')"
        using i e(2) by (intro reps_fill[OF rest _ _ new]) (auto simp: moved_from_def)
      moreover have "(?ts[j := cut_part (ks @ [k]) (ts ! j)])[i := part (ks @ [k]) (ts ! j)] =
          (ts[i := part (ks @ [k]) (ts ! j)])[j := cut_part (ks @ [k]) (ts ! j)]"
        by (rule update_back[OF \<open>i \<noteq> j\<close>])
      ultimately have "reps (without a b k h) ((variables s)[i := block_objects b ! k])
          ((ts[i := part (ks @ [k]) (ts ! j)])[j := cut_part (ks @ [k]) (ts ! j)]) (fe \<union> f')"
        unfolding same_j by simp
      then have "represents (s\<lparr>variables := (variables s)[i := block_objects b ! k], heap_blocks := without a b k h\<rparr>) (tree_op (Assign i p) (j, ks @ [k]) ts)"
        using e(1) h(2) live_without[OF b(1)] by (simp add: represents_def Un_commute)
      moreover have "assign_from i p s = Ret (s\<lparr>variables := (variables s)[i := block_objects b ! k], heap_blocks := without a b k h\<rparr>)"
        using Element i h(1) b(4) b(5)[of "(variables s)[i := block_objects b ! k]"]
        by (simp add: assign_from_def del: read_place.simps(2) write_place.simps(2))
      moreover have "locates s p (j, ks @ [k])"
        using Element j same_j owner_at_more[OF same len, of "variables s ! j" ks a] by simp
      ultimately show ?thesis using False by auto
    qed
  qed
qed

lemma move_out_reps:
  assumes "reps h vs ts f" and "\<forall>j\<in>set js. j < length vs"
  shows "\<exists>os us xs ys f1 f2. move_out moved_from js vs = (os, us) \<and> move_out (\<lambda>_. Nullptr) js ts = (xs, ys) \<and>
    reps h os xs f1 \<and> reps h us ys f2 \<and> f = f1 \<union> f2 \<and> f1 \<inter> f2 = {} \<and> length us = length vs \<and> length os = length js"
  using assms
proof (induction js arbitrary: vs ts f)
  case Nil
  then show ?case using reps_nil[of h] by auto
next
  case (Cons j js)
  from reps_take[OF Cons.prems(1), of j] Cons.prems(2) obtain g1 g2 where g: "rep h (vs ! j) (ts ! j) g1" "f = g1 \<union> g2" "g1 \<inter> g2 = {}"
    "reps h (vs[j := moved_from (vs ! j)]) (ts[j := Nullptr]) g2" by auto
  from Cons.IH[OF g(4)] Cons.prems(2) obtain os us xs ys f1 f2 where
    r: "move_out moved_from js (vs[j := moved_from (vs ! j)]) = (os, us)" "move_out (\<lambda>_. Nullptr) js (ts[j := Nullptr]) = (xs, ys)"
    "reps h os xs f1" "reps h us ys f2" "g2 = f1 \<union> f2" "f1 \<inter> f2 = {}" "length us = length vs" "length os = length js" by auto
  have "reps h (vs ! j # os) (ts ! j # xs) (g1 \<union> f1)" using g r by (intro reps_cons) auto
  then have "move_out moved_from (j # js) vs = (vs ! j # os, us) \<and> move_out (\<lambda>_. Nullptr) (j # js) ts = (ts ! j # xs, ys) \<and>
      reps h (vs ! j # os) (ts ! j # xs) (g1 \<union> f1) \<and> reps h us ys f2 \<and> f = (g1 \<union> f1) \<union> f2 \<and> (g1 \<union> f1) \<inter> f2 = {} \<and>
      length us = length vs \<and> length (vs ! j # os) = length (j # js)"
    using g r by auto
  then show ?case by blast
qed

text \<open>The new block of \<open>set\<close> owns what was moved into it.\<close>

lemma store_reps:
  assumes "reps h os xs f" and "arg_typed arg" and "length os = length (moved_vars arg)"
    and stg: "\<And>k p. arg = A_text k p \<Longrightarrow> read_view view h = Ret str"
    and c: "arg_contents arg os view h = Ret c" and store: "store_contents c h = (v, h')"
  obtains g where "rep h' v (arg_tree arg str xs) (f \<union> g)" and "g \<inter> live h = {}" and "live h' = live h \<union> g" and "agree (live h) h h'"
proof -
  have len: "length xs = length (moved_vars arg)" using reps_length[OF assms(1)] assms(3) by simp
  show ?thesis
  proof (cases "\<exists>b. c = C_block b")
    case False
    then have "h' = h" "rep h v (arg_tree arg str xs) {}" "moved_vars arg = []"
      using c store stg by (cases arg; auto intro: rep_reps.intros)+
    moreover have "f = {}" using assms(1,3) calculation(3) by (auto elim: reps_NilE)
    ultimately show ?thesis using that[of "{}"] by (auto simp: agree_def live_def)
  next
    case True
    then obtain b where b: "arg_contents arg os view h = Ret (C_block b)" and cb: "c = C_block b" using c by auto
    have v: "v = \<lparr>stored = M_pointer (length h), tag = block_tag b\<rparr>" "h' = h @ [Some b]" using store cb by auto
    have ag: "agree (live h) h h'" by (auto simp: agree_def live_def v nth_append)
    have ends: "os \<noteq> []" "xs \<noteq> []" "even (length (butlast os))" "even (length (butlast xs))" if "arg = A_attribute m j" for m j
      using that assms(3) len by auto
    have parts: "block_objects b = os" "value_parts (arg_tree arg str xs) = xs"
      using b assms(2,3) len ends stg by (cases arg; auto simp: flatten_pair_up string_tree_def)+
    have types: "block_tag b = value_type (arg_tree arg str xs)" "owns_block (block_tag b)" "block_text b = value_text (arg_tree arg str xs)"
      using b assms(2) stg by (cases arg; auto simp: string_tree_def)+
    have "f \<subseteq> live h" by (rule rep_live(2)[OF assms(1)])
    then have "length h \<notin> f" and r: "reps h' os xs f" using rep_frame(2)[OF assms(1), of h'] ag by (auto simp: live_def agree_def)
    then have "rep h' v (arg_tree arg str xs) (insert (length h) f)"
      using types parts by (intro rep_block[where b = b]) (auto simp: v)
    moreover have "live h' = live h \<union> {length h}" by (auto simp: v live_def nth_append)
    moreover have "{length h} \<inter> live h = {}" by (simp add: live_def)
    ultimately show ?thesis using that[of "{length h}"] ag by simp
  qed
qed

lemma set_text_ok:
  assumes rep: "represents s ts" and ok: "value_ok (Set_to i arg) s" and view: "arg_view arg s = Ret view"
    and stg: "\<And>k p h1. arg = A_text k p \<Longrightarrow> reset_object (variables s ! i) (heap_blocks s) = Ret h1 \<Longrightarrow> read_view view h1 = Ret str"
  shows "\<exists>s'. set_variable i arg s = Ret s' \<and>
    represents s' (let (os, us) = move_out (\<lambda>_. Nullptr) (moved_vars arg) ts in us[i := arg_tree arg str os])"
proof -
  let ?h = "heap_blocks s"
  from move_out_reps[OF rep[unfolded represents_def], of "moved_vars arg"] ok obtain os us xs ys f1 f2 where
    m: "move_out moved_from (moved_vars arg) (variables s) = (os, us)" "move_out (\<lambda>_. Nullptr) (moved_vars arg) ts = (xs, ys)"
    "reps ?h os xs f1" "reps ?h us ys f2" "live ?h = f1 \<union> f2" "f1 \<inter> f2 = {}" "length us = length (variables s)"
    "length os = length (moved_vars arg)" by auto
  have i: "i < length us" using ok m(7) by simp
  from reps_take[OF m(4) i] obtain g1 g2 where g: "rep ?h (us ! i) (ys ! i) g1" "f2 = g1 \<union> g2" "g1 \<inter> g2 = {}"
    "reps ?h (us[i := moved_from (us ! i)]) (ys[i := Nullptr]) g2" .
  let ?h1 = "clear g1 ?h"
  have "agree (f1 \<union> g2) ?h ?h1" using m(5,6) g(2,3) by (intro agree_clear) auto
  then have r: "reps ?h1 os xs f1" "reps ?h1 (us[i := moved_from (us ! i)]) (ys[i := Nullptr]) g2"
    using rep_frame(2)[OF m(3)] rep_frame(2)[OF g(4)] by (auto simp: agree_def)
  have lv: "live ?h1 = f1 \<union> g2" using m(5,6) g(2,3) by auto
  have read: "read_view view ?h1 = Ret str" if "arg = A_text k p" for k p
    using stg[OF that] reset_frees[OF g(1)] m(1) that by simp
  then obtain c where c: "arg_contents arg os view ?h1 = Ret c" by (cases arg) auto
  obtain v h2 where v: "store_contents c ?h1 = (v, h2)" by fastforce
  have typed: "arg_typed arg" using ok by simp
  from store_reps[OF r(1) typed m(8) read c v] obtain e where
    e: "rep h2 v (arg_tree arg str xs) (f1 \<union> e)" "e \<inter> live ?h1 = {}" "live h2 = live ?h1 \<union> e" "agree (live ?h1) ?h1 h2" .
  have "agree g2 ?h1 h2" using e(4) lv by (auto simp: agree_def)
  then have r2: "reps h2 (us[i := moved_from (us ! i)]) (ys[i := Nullptr]) g2" by (rule rep_frame(2)[OF r(2)])
  have "reps h2 ((us[i := moved_from (us ! i)])[i := v]) ((ys[i := Nullptr])[i := arg_tree arg str xs]) ((f1 \<union> e) \<union> g2)"
    using i e(2) lv m(6) g(2) by (intro reps_fill[OF r2 _ _ e(1)]) (auto simp: moved_from_def)
  then have "represents \<lparr>variables = us[i := v], heap_blocks = h2\<rparr> (ys[i := arg_tree arg str xs])"
    using e(3) lv by (simp add: represents_def Un_ac)
  moreover have "set_variable i arg s = Ret \<lparr>variables = us[i := v], heap_blocks = h2\<rparr>"
    using m(1) v c view reset_frees[OF g(1)] by (simp add: set_variable_def set_object_def)
  ultimately show ?thesis using m(2) by simp
qed

text \<open>The object at a place, and the view of its string.\<close>

lemma read_located:
  assumes "represents s ts" and "place_ok p s"
  obtains v j path f where "read_place p s = Ret v" and "locates s p (j, path)" and "rep (heap_blocks s) v (part path (ts ! j)) f"
proof (cases p)
  case (Variable i)
  then have "i < length (variables s)" using assms(2) by simp
  from reps_focus[OF assms(1)[unfolded represents_def] this] obtain f where "rep (heap_blocks s) (variables s ! i) (ts ! i) f" by blast
  then show ?thesis using that[of "variables s ! i" i "[]" f] Variable assms(2) by simp
next
  case (Element a i)
  from read_element[OF assms(2)[unfolded this]] obtain b where b: "a \<in> live (heap_blocks s)" "heap_blocks s ! a = Some b"
    "i < length (block_objects b)" "read_place (Element a i) s = Ret (block_objects b ! i)" by metis
  from element_located[OF assms(1)[unfolded represents_def] b(1-3)] obtain j ks fe where
    "j < length (variables s)" "owner_at (heap_blocks s) (variables s ! j) ks a"
    "rep (heap_blocks s) (block_objects b ! i) (part (ks @ [i]) (ts ! j)) fe" by metis
  then show ?thesis using that[of "block_objects b ! i" j "ks @ [i]" fe] Element b(4) by simp
qed

lemma view_of_rep:
  assumes "rep h v t f"
  obtains (empty) "as_string_view v = Ret None" and "tree_string t = []"
    | (block) a k where "as_string_view v = Ret (Some a)" and "a < length h" and "h ! a = Some (String_block k (tree_string t))"
  using assms
proof (cases rule: rep.cases)
  case (rep_block a b fp)
  show ?thesis
  proof (cases "tag v \<in> {SIMPLE_STRING, BULK_STRING, VERBATIM_STRING}")
    case True
    then have "value_text t = Some (tree_string t)" using rep_block(2) by (cases t) auto
    then obtain k where "b = String_block k (tree_string t)" using rep_block by (cases b) auto
    then show ?thesis using True rep_block by (intro block[of a k]) (simp_all add: as_string_view_def)
  next
    case False
    then have "tree_string t = []" using rep_block(2) by (cases t) auto
    then show ?thesis using False by (intro empty) (simp_all add: as_string_view_def)
  qed
qed (auto intro!: empty simp: as_string_view_def)

lemma set_ok:
  assumes rep: "represents s ts" and ok: "value_ok (Set_to i arg) s"
  shows "if own_element (Set_to i arg) s then set_variable i arg s = UB
    else \<exists>s' loc. set_variable i arg s = Ret s' \<and> finds s (Set_to i arg) loc \<and> represents s' (tree_op (Set_to i arg) loc ts)"
proof (cases "\<exists>k p. arg = A_text k p")
  case False
  then have view: "arg_view arg s = Ret None" and own: "\<not> own_element (Set_to i arg) s" and "source (Set_to i arg) = None"
    by (cases arg; simp)+
  then have "finds s (Set_to i arg) (0, [])" by (simp add: finds_def)
  moreover from set_text_ok[OF rep ok view, of "tree_string (part [] (ts ! 0))"] False obtain s' where
    "set_variable i arg s = Ret s'" "represents s' (tree_op (Set_to i arg) (0, []) ts)" by auto
  ultimately show ?thesis unfolding if_not_P[OF own] by blast
next
  case True
  then obtain k p where arg: "arg = A_text k p" by blast
  then have p: "place_ok p s" and i: "i < length (variables s)" using ok by auto
  from read_located[OF rep p] obtain v j path f where
    v: "read_place p s = Ret v" "locates s p (j, path)" "rep (heap_blocks s) v (part path (ts ! j)) f" .
  obtain h1 where h1: "reset_object (variables s ! i) (heap_blocks s) = Ret h1" "length h1 = length (heap_blocks s)"
    and same: "\<forall>a<length h1. h1 ! a \<noteq> None \<longrightarrow> h1 ! a = heap_blocks s ! a" using reset_variable[OF rep i] by metis
  let ?str = "tree_string (part path (ts ! j))"
  have fin: "?thesis" if view: "as_string_view v = Ret view" and read: "read_view view h1 = Ret ?str" and own: "\<not> own_element (Set_to i arg) s" for view
  proof -
    have "arg_view arg s = Ret view" using arg v(1) view by simp
    from set_text_ok[OF rep ok this, of ?str] h1(1) read obtain s' where
      "set_variable i arg s = Ret s'" "represents s' (tree_op (Set_to i arg) (j, path) ts)" by auto
    moreover have "finds s (Set_to i arg) (j, path)" using v(2) arg by (simp add: finds_def)
    ultimately show ?thesis unfolding if_not_P[OF own] by blast
  qed
  from v(3) show ?thesis
  proof (cases rule: view_of_rep)
    case empty
    then show ?thesis using fin[of None] arg v(1) by (simp add: read_view_def)
  next
    case (block a k')
    show ?thesis
    proof (cases "h1 ! a = None")
      case True
      then have "own_element (Set_to i arg) s" using arg v(1) block(1) h1(1) by (simp add: reset_frees_block_def)
      moreover have "set_variable i arg s = UB"
        using arg v(1) block(1,2) h1 True by (simp add: set_variable_def set_object_def read_view_def)
      ultimately show ?thesis by simp
    next
      case False
      then have "h1 ! a = Some (String_block k' ?str)" using same block(2,3) h1(2) by auto
      then have "read_view (Some a) h1 = Ret ?str" using block(2) h1(2) by (simp add: read_view_def)
      moreover have "\<not> own_element (Set_to i arg) s" using arg v(1) block(1) h1(1) False by (simp add: reset_frees_block_def)
      ultimately show ?thesis by (rule fin[OF block(1)])
    qed
  qed
qed

lemma step_ok:
  assumes "represents s ts" and "value_ok op s"
  shows "if own_element op s then value_step op s = UB
    else \<exists>s' loc. value_step op s = Ret s' \<and> finds s op loc \<and> represents s' (tree_op op loc ts)"
proof (cases op)
  case Declare
  have "reps (heap_blocks s) (variables s @ [\<lparr>stored = M_null, tag = NULLPTR\<rparr>]) (ts @ [Nullptr]) (live (heap_blocks s) \<union> {})"
    using assms(1) by (intro reps_snoc) (simp_all add: represents_def rep_null)
  then show ?thesis using Declare by (simp add: represents_def finds_def)
next
  case (Set_to i arg)
  then have "value_ok (Set_to i arg) s" using assms(2) by simp
  from set_ok[OF assms(1) this] show ?thesis unfolding Set_to value_step.simps .
next
  case (Construct p)
  then show ?thesis using construct_ok[OF assms(1), of p] assms(2) by (cases p) (auto simp: finds_def)
next
  case (Assign i p)
  then show ?thesis using assign_ok[OF assms(1), of i p] assms(2) by (cases p) (auto simp: finds_def)
next
  case Leave_scope
  from reps_butlast[OF assms(1)[unfolded represents_def]] assms(2) Leave_scope obtain f1 f2 where
    f: "rep (heap_blocks s) (last (variables s)) (last ts) f1" "reps (heap_blocks s) (butlast (variables s)) (butlast ts) f2"
    "live (heap_blocks s) = f1 \<union> f2" "f1 \<inter> f2 = {}" by auto
  have "reps (clear f1 (heap_blocks s)) (butlast (variables s)) (butlast ts) f2"
    using f by (intro rep_frame(2)[OF f(2)] agree_clear) auto
  moreover have "live (heap_blocks s) - f1 = f2" using f(3,4) by auto
  ultimately show ?thesis using Leave_scope reset_frees[OF f(1)] by (simp add: represents_def finds_def)
qed

text \<open>A program: operations whose places exist, none of which gives a variable what its own parts hold.\<close>

inductive value_reach :: "value_state \<Rightarrow> bool" where
  value_reach_start: "value_reach \<lparr>variables = [], heap_blocks = []\<rparr>"
| value_reach_step: "value_reach s \<Longrightarrow> value_ok op s \<Longrightarrow> \<not> own_element op s \<Longrightarrow> value_step op s = Ret s' \<Longrightarrow> value_reach s'"

lemma value_reach_represents: "value_reach s \<Longrightarrow> \<exists>ts. represents s ts"
proof (induction rule: value_reach.induct)
  case value_reach_start
  show ?case using reps_nil by (auto simp: represents_def live_def)
next
  case (value_reach_step s op s')
  then obtain ts where "represents s ts" by blast
  from step_ok[OF this value_reach_step.hyps(2)] value_reach_step.hyps(3,4) show ?case by auto
qed

text \<open>The tag decides for which T \<open>get<T>\<close> may be used.\<close>

fun member_matches :: "value_object \<Rightarrow> value_heap \<Rightarrow> bool" where
  "member_matches v h \<longleftrightarrow>
     (case tag v of
        NULLPTR \<Rightarrow> True
      | INTEGER \<Rightarrow> (case stored v of M_integer i \<Rightarrow> True | _ \<Rightarrow> False)
      | BOOL \<Rightarrow> (case stored v of M_boolean b \<Rightarrow> True | _ \<Rightarrow> False)
      | DOUBLE \<Rightarrow> (case stored v of M_double d \<Rightarrow> True | _ \<Rightarrow> False)
      | k \<Rightarrow> (case get_block k v h of Ret b \<Rightarrow> block_tag b = k | _ \<Rightarrow> False))"

lemma rep_matches: "rep h v t fp \<Longrightarrow> member_matches v h \<and> (owns_block (tag v) \<longrightarrow> k \<noteq> tag v \<longrightarrow> get_block k v h = UB)"
  by (erule rep.cases) (auto simp: get_block_def split: value_tag.splits)

lemma reps_mem: "reps h vs ts fp \<Longrightarrow> v \<in> set vs \<Longrightarrow> \<exists>t g. rep h v t g"
  by (metis in_set_conv_nth reps_focus)

section \<open>The properties\<close>

text \<open>C9. In every state a program reaches by declaring, setting, moving and destroying values, the tag
  of a variable tells the member of its union that was written, and for a tag with a pointer the
  block is there and has the type of the tag; reading it as any other type is undefined.\<close>

theorem values_typed:
  assumes "value_reach s" and "v \<in> set (variables s)"
  shows "member_matches v (heap_blocks s) \<and> (owns_block (tag v) \<longrightarrow> k \<noteq> tag v \<longrightarrow> get_block k v (heap_blocks s) = UB)"
proof -
  from value_reach_represents[OF assms(1)] obtain ts where "represents s ts" by blast
  from reps_mem[OF this[unfolded represents_def] assms(2)] show ?thesis using rep_matches by blast
qed

fun value_run :: "value_op list \<Rightarrow> value_state \<Rightarrow> value_state option" where
  "value_run [] s = Some s"
| "value_run (op # ops) s =
     (if value_ok op s \<and> \<not> own_element op s then case value_step op s of Ret s' \<Rightarrow> value_run ops s' | _ \<Rightarrow> None else None)"

lemma value_run_reach: "value_reach s \<Longrightarrow> value_run ops s = Some s' \<Longrightarrow> value_reach s'"
  by (induction ops arbitrary: s) (auto split: if_splits outcome.splits intro: value_reach_step)

text \<open>An array of a map and a string; its map is moved into a variable of its own.\<close>

definition nested_ops :: "value_op list" where
  "nested_ops = [Declare, Declare, Declare, Declare, Set_to 0 (A_string BULK_STRING ''key''), Set_to 1 (A_integer 5),
     Set_to 2 (A_map [(0, 1)]), Set_to 1 (A_string SIMPLE_STRING ''OK''), Set_to 3 (A_vector ARRAY [2, 1]),
     Construct (Element 3 0), Assign 0 (Variable 4)]"

definition nested_state :: value_state where
  "nested_state = \<lparr>variables = [\<lparr>stored = M_pointer 1, tag = MAP\<rparr>, \<lparr>stored = M_pointer 2, tag = NULLPTR\<rparr>,
       \<lparr>stored = M_pointer 1, tag = NULLPTR\<rparr>, \<lparr>stored = M_pointer 3, tag = ARRAY\<rparr>, \<lparr>stored = M_pointer 1, tag = NULLPTR\<rparr>],
     heap_blocks = [Some (String_block BULK_STRING ''key''),
       Some (Map_block [(\<lparr>stored = M_pointer 0, tag = BULK_STRING\<rparr>, \<lparr>stored = M_integer 5, tag = INTEGER\<rparr>)]),
       Some (String_block SIMPLE_STRING ''OK''),
       Some (Vector_block ARRAY [\<lparr>stored = M_pointer 1, tag = NULLPTR\<rparr>, \<lparr>stored = M_pointer 2, tag = SIMPLE_STRING\<rparr>])]\<rparr>"

lemma nested_run: "value_run nested_ops \<lparr>variables = [], heap_blocks = []\<rparr> = Some nested_state"
  by code_simp

lemma nested_reach: "value_reach nested_state"
  by (rule value_run_reach[OF value_reach_start nested_run])

lemma values_typed_witness:
  "get_block MAP (variables nested_state ! 0) (heap_blocks nested_state) \<noteq> UB \<and>
   get_block ARRAY (variables nested_state ! 0) (heap_blocks nested_state) = UB"
  using values_typed[OF nested_reach, of "variables nested_state ! 0" ARRAY]
  by (simp add: nested_state_def get_block_def)

text \<open>The trees of the nested state, and where the string in its array is.\<close>

definition nested_trees :: "redis_value list" where
  "nested_trees = [Map [(Bulk_string ''key'', Integer 5)], Nullptr, Nullptr, Array [Nullptr, Simple_string ''OK''], Nullptr]"

lemma nested_represents: "represents nested_state nested_trees"
proof -
  let ?h = "heap_blocks nested_state"
  let ?key = "\<lparr>stored = M_pointer 0, tag = BULK_STRING\<rparr>" and ?five = "\<lparr>stored = M_integer 5, tag = INTEGER\<rparr>"
  let ?null = "\<lambda>a. \<lparr>stored = M_pointer a, tag = NULLPTR\<rparr>" and ?ok = "\<lparr>stored = M_pointer 2, tag = SIMPLE_STRING\<rparr>"
  have null: "rep ?h (?null a) Nullptr {}" for a by (simp add: rep_null)
  have "rep ?h ?key (Bulk_string ''key'') {0}"
    by (rule rep_block[where b = "String_block BULK_STRING ''key''" and fp = "{}"]) (simp_all add: nested_state_def reps_nil)
  moreover have "rep ?h ?five (Integer 5) {}" by (simp add: rep_integer)
  ultimately have "reps ?h [?key, ?five] [Bulk_string ''key'', Integer 5] ({0} \<union> ({} \<union> {}))" by (intro reps_cons reps_nil) simp_all
  then have map: "rep ?h \<lparr>stored = M_pointer 1, tag = MAP\<rparr> (Map [(Bulk_string ''key'', Integer 5)]) (insert 1 {0})"
    by (intro rep_block[where b = "Map_block [(?key, ?five)]"]) (simp_all add: nested_state_def)
  have "rep ?h ?ok (Simple_string ''OK'') {2}"
    by (rule rep_block[where b = "String_block SIMPLE_STRING ''OK''" and fp = "{}"]) (simp_all add: nested_state_def reps_nil)
  then have "reps ?h [?null 1, ?ok] [Nullptr, Simple_string ''OK''] ({} \<union> ({2} \<union> {}))" using null by (intro reps_cons reps_nil) simp_all
  then have arr: "rep ?h \<lparr>stored = M_pointer 3, tag = ARRAY\<rparr> (Array [Nullptr, Simple_string ''OK'']) (insert 3 {2})"
    by (intro rep_block[where b = "Vector_block ARRAY [?null 1, ?ok]"]) (simp_all add: nested_state_def)
  have vars: "variables nested_state = [\<lparr>stored = M_pointer 1, tag = MAP\<rparr>, ?null 2, ?null 1, \<lparr>stored = M_pointer 3, tag = ARRAY\<rparr>, ?null 1]"
    by (simp add: nested_state_def)
  have "reps ?h (variables nested_state) nested_trees (insert 1 {0} \<union> ({} \<union> ({} \<union> (insert 3 {2} \<union> ({} \<union> {})))))"
    unfolding vars nested_trees_def by (intro reps_cons reps_nil null map arr) simp_all
  moreover have "live ?h = {0, 1, 2, 3}"
    by (auto simp: live_def nested_state_def less_Suc_eq numeral_nat)
  ultimately show ?thesis by (simp add: represents_def insert_commute)
qed

text \<open>C10. The objects with their pointers do what trees do: when the variables stand for trees and
  every block has one owner, an operation gives a state that stands for the new trees and has the same
  ownership, so that nothing is freed twice or lost. A move may come from a variable or from any element
  of any container: the target then is the tree of that element, the element is null, and the rest of
  the container is kept. The one exception is an operation whose argument is a part of the target
  itself, an element assigned to its own container or \<open>set\<close> with the object's own string: \<open>reset\<close> frees
  it before it is read, which is undefined. (Targets are variables; the vectors given to \<open>set\<close> are
  objects of their own.)\<close>

theorem values_refine_trees:
  assumes "represents s ts" and "value_ok op s"
  shows "if own_element op s then value_step op s = UB
    else \<exists>s' us. value_step op s = Ret s' \<and> represents s' us \<and>
      (\<exists>loc. finds s op loc) \<and> (\<forall>loc. finds s op loc \<longrightarrow> us = tree_op op loc ts)"
proof (cases "own_element op s")
  case True
  then show ?thesis using step_ok[OF assms] by simp
next
  case False
  then obtain s' loc where s': "value_step op s = Ret s'" "finds s op loc" "represents s' (tree_op op loc ts)"
    using step_ok[OF assms] by auto
  have "tree_op op loc' ts = tree_op op loc ts" if "finds s op loc'" for loc'
  proof (cases "source op")
    case None
    then show ?thesis by (cases loc; cases loc'; cases op rule: source.cases) auto
  next
    case (Some p)
    then show ?thesis using locates_unique[OF assms(1), of p loc loc'] s'(2) that by (simp add: finds_def)
  qed
  then show ?thesis using False s' by metis
qed

lemma values_refine_trees_witness:
  "\<exists>s'. value_step (Assign 0 (Element 3 1)) nested_state = Ret s' \<and>
     represents s' [Simple_string ''OK'', Nullptr, Nullptr, Array [Nullptr, Nullptr], Nullptr]"
proof -
  have "value_ok (Assign 0 (Element 3 1)) nested_state" and "\<not> own_element (Assign 0 (Element 3 1)) nested_state" by code_simp+
  moreover have "finds nested_state (Assign 0 (Element 3 1)) (3, [1])" by code_simp
  moreover have "tree_op (Assign 0 (Element 3 1)) (3, [1]) nested_trees = [Simple_string ''OK'', Nullptr, Nullptr, Array [Nullptr, Nullptr], Nullptr]"
    by (simp add: nested_trees_def)
  ultimately show ?thesis using values_refine_trees[OF nested_represents, of "Assign 0 (Element 3 1)"] by metis
qed

text \<open>C11. When the variables of a program go out of scope, in whatever state it is, all blocks are freed,
  each once: the destructors never meet a block that is gone, and none is left.\<close>

theorem values_freed:
  assumes "value_reach s"
  shows "\<exists>h. destroy (variables s) (heap_blocks s) = Ret h \<and> live h = {}"
proof -
  from value_reach_represents[OF assms] obtain ts where r: "reps (heap_blocks s) (variables s) ts (live (heap_blocks s))"
    by (auto simp: represents_def)
  from destroy_frees(2)[OF r agree_refl[OF subset_refl], of "[]"] show ?thesis by simp
qed

lemma values_freed_witness: "\<exists>h. destroy (variables nested_state) (heap_blocks nested_state) = Ret h \<and> live h = {}"
  using values_freed[OF nested_reach] .

text \<open>\<open>v = std::move(v.as<array_t>()[1])\<close> reads a string object in a vector that \<open>reset\<close> has deleted, and
  \<open>v.set<bulk_string_t>(v.as_string())\<close> the characters of a string that it has deleted.\<close>

lemma assign_own_element:
  "value_ok (Assign 3 (Element 3 1)) nested_state \<and> value_step (Assign 3 (Element 3 1)) nested_state = UB"
  by code_simp

lemma set_own_string:
  "value_run [Declare, Set_to 0 (A_string SIMPLE_STRING ''OK'')] \<lparr>variables = [], heap_blocks = []\<rparr> = Some s \<Longrightarrow>
   value_ok (Set_to 0 (A_text BULK_STRING (Variable 0))) s \<and> value_step (Set_to 0 (A_text BULK_STRING (Variable 0))) s = UB"
  by (auto simp: set_variable_def set_object_def reset_object_def as_string_view_def read_view_def free_block_def)

end
