(* ===== verification/Value_Json.thy ===== *)
theory Value_Json
  imports Redis_Value
begin

text \<open>
  What \<open>RedisValue::dump\<close> promises: a JSON text (RFC 8259, at the level of bytes). The
  grammar is written down independently of the printer; strings are also shown to be
  recoverable from their escaped form.
\<close>

section \<open>The grammar\<close>

definition json_int :: "string \<Rightarrow> bool" where
  "json_int s \<longleftrightarrow> s \<noteq> [] \<and> (\<forall>c\<in>set s. is_digit c) \<and> (hd s = CHR ''0'' \<longrightarrow> length s = 1)"

definition json_frac :: "string \<Rightarrow> bool" where
  "json_frac s \<longleftrightarrow> s = [] \<or> (hd s = CHR ''.'' \<and> tl s \<noteq> [] \<and> (\<forall>c\<in>set (tl s). is_digit c))"

definition json_number :: "string \<Rightarrow> bool" where
  "json_number s \<longleftrightarrow>
     (\<exists>sign i f. s = sign @ i @ f \<and> sign \<in> {[], ''-''} \<and> json_int i \<and> json_frac f)"

definition is_hex :: "char \<Rightarrow> bool" where
  "is_hex c \<longleftrightarrow> c \<in> set ''0123456789abcdefABCDEF''"

inductive json_chars :: "string \<Rightarrow> bool" where
  json_chars_Nil: "json_chars []"
| json_chars_plain: "json_chars s \<Longrightarrow> 0x20 \<le> (of_char c :: nat) \<Longrightarrow> c \<noteq> CHR 0x22 \<Longrightarrow> c \<noteq> CHR 0x5C \<Longrightarrow>
     json_chars (c # s)"
| json_chars_escape: "json_chars s \<Longrightarrow> c \<in> {CHR 0x22, CHR 0x5C, CHR ''/''} \<union> set ''bfnrt'' \<Longrightarrow>
     json_chars (CHR 0x5C # c # s)"
| json_chars_unicode: "json_chars s \<Longrightarrow> is_hex a \<Longrightarrow> is_hex b \<Longrightarrow> is_hex c \<Longrightarrow> is_hex d \<Longrightarrow>
     json_chars (CHR 0x5C # CHR ''u'' # a # b # c # d # s)"

inductive json :: "string \<Rightarrow> bool" and json_items :: "string \<Rightarrow> bool"
  and json_members :: "string \<Rightarrow> bool" where
  json_literal: "s \<in> {''null'', ''true'', ''false''} \<Longrightarrow> json s"
| json_numeral: "json_number s \<Longrightarrow> json s"
| json_string: "json_chars s \<Longrightarrow> json (CHR 0x22 # s @ [CHR 0x22])"
| json_array_empty: "json ''[]''"
| json_array: "json_items s \<Longrightarrow> json (''['' @ s @ '']'')"
| json_object_empty: "json ''{}''"
| json_object: "json_members s \<Longrightarrow> json (''{'' @ s @ ''}'')"
| json_item: "json s \<Longrightarrow> json_items s"
| json_item_more: "json s \<Longrightarrow> json_items t \<Longrightarrow> json_items (s @ '','' @ t)"
| json_member: "json_chars k \<Longrightarrow> json s \<Longrightarrow> json_members (CHR 0x22 # k @ [CHR 0x22, CHR '':''] @ s)"
| json_member_more: "json_chars k \<Longrightarrow> json s \<Longrightarrow> json_members t \<Longrightarrow>
     json_members (CHR 0x22 # k @ [CHR 0x22, CHR '':''] @ s @ '','' @ t)"

section \<open>Strings\<close>

lemma hex_digit_is_hex: "d < 16 \<Longrightarrow> is_hex (hex_digit d)"
proof -
  assume "d < 16"
  then have "hex_digit d \<in> set ''0123456789abcdef''"
    unfolding hex_digit_def by (intro nth_mem) simp
  then show ?thesis by (auto simp: is_hex_def)
qed

lemma of_char_less: "(of_char c :: nat) < 256"
  by (rule nat_of_char_less_256)

definition short_escape :: "char \<Rightarrow> char" where
  "short_escape e =
     (if e = CHR ''b'' then CHR 0x08 else if e = CHR ''f'' then CHR 0x0C
      else if e = CHR ''n'' then CHR 0x0A else if e = CHR ''r'' then CHR 0x0D
      else if e = CHR ''t'' then CHR 0x09 else e)"

lemma escape_char_cases:
  obtains (short) e where "escape_char c = [CHR 0x5C, e]"
      and "e \<in> {CHR 0x22, CHR 0x5C, CHR ''/''} \<union> set ''bfnrt''" and "short_escape e = c"
    | (hex) "escape_char c = [CHR 0x5C, CHR ''u'', CHR ''0'', CHR ''0'',
        hex_digit (of_char c div 16), hex_digit (of_char c mod 16)]" and "(of_char c :: nat) < 0x20"
    | (plain) "escape_char c = [c]" and "0x20 \<le> (of_char c :: nat)" and "c \<noteq> CHR 0x22" and "c \<noteq> CHR 0x5C"
proof -
  let ?special = "{CHR 0x22, CHR 0x5C, CHR 0x08, CHR 0x0C, CHR 0x0A, CHR 0x0D, CHR 0x09}"
  show thesis
  proof (cases "c \<in> ?special")
    case True
    then have "\<exists>e. escape_char c = [CHR 0x5C, e] \<and>
        e \<in> {CHR 0x22, CHR 0x5C, CHR ''/''} \<union> set ''bfnrt'' \<and> short_escape e = c"
      by (elim insertE emptyE) (simp_all add: escape_char_def short_escape_def)
    then show thesis using short by blast
  next
    case False
    then show thesis
      using hex plain by (cases "(of_char c :: nat) < 0x20") (simp_all add: escape_char_def)
  qed
qed

lemma json_chars_escape_char: "json_chars s \<Longrightarrow> json_chars (escape_char c @ s)"
proof (cases c rule: escape_char_cases)
  case hex
  assume s: "json_chars s"
  have "is_hex (CHR ''0'')" by (simp add: is_hex_def)
  moreover from hex(2) have "is_hex (hex_digit (of_char c div 16))" "is_hex (hex_digit (of_char c mod 16))"
    by (simp_all add: hex_digit_is_hex)
  ultimately show ?thesis using hex(1) s by (simp add: json_chars_unicode)
qed (simp_all add: json_chars_plain json_chars_escape)

lemma json_chars_escape_string: "json_chars (concat (map escape_char s))"
  by (induction s) (auto intro: json_chars_Nil json_chars_escape_char)

text \<open>The decoder of the escapes of a JSON string whose code points are bytes.\<close>

definition hex_value :: "char \<Rightarrow> nat" where
  "hex_value c = (if is_digit c then digit_val c else of_char c - 87)"

function unescape :: "string \<Rightarrow> string option" where
  "unescape s = (case s of
     [] \<Rightarrow> Some []
   | c # t \<Rightarrow>
       if c \<noteq> CHR 0x5C then map_option (Cons c) (unescape t)
       else (case t of
         [] \<Rightarrow> None
       | e # u \<Rightarrow>
           if e = CHR ''u'' then
             (if length u < 4 then None
              else map_option (Cons (char_of (hex_value (u ! 2) * 16 + hex_value (u ! 3))))
                (unescape (drop 4 u)))
           else map_option (Cons (short_escape e)) (unescape u)))"
  by pat_completeness auto
termination by (relation "measure length") auto

declare unescape.simps [simp del]

lemma hex_value_digit: "d < 16 \<Longrightarrow> hex_value (hex_digit d) = d"
proof -
  assume "d < 16"
  then have "d \<in> set [0..<16]" by simp
  moreover have "\<forall>d\<in>set [0..<16]. hex_value (hex_digit d) = d" by code_simp
  ultimately show ?thesis by blast
qed

lemma unescape_escape_char: "unescape (escape_char c @ s) = map_option (Cons c) (unescape s)"
proof (cases c rule: escape_char_cases)
  case (short e)
  then have "e \<noteq> CHR ''u''" by auto
  with short show ?thesis by (subst unescape.simps) simp
next
  case hex
  have "hex_value (hex_digit (of_char c div 16)) * 16 + hex_value (hex_digit (of_char c mod 16)) = of_char c"
    using hex(2) by (simp add: hex_value_digit)
  then show ?thesis
    using hex(1) by (subst unescape.simps) (simp add: numeral_2_eq_2 numeral_3_eq_3)
next
  case plain
  then show ?thesis by (subst unescape.simps) simp
qed

text \<open>\<open>escape_string\<close> appends to its output a text from which a JSON reader gets back
  exactly the bytes it was given.\<close>

theorem escape_string_roundtrip:
  "\<exists>t. escape_string out s = out @ t \<and> json_chars t \<and> unescape t = Some s"
proof -
  have "unescape (concat (map escape_char s)) = Some s"
    by (induction s) (simp_all add: unescape_escape_char, simp add: unescape.simps)
  then show ?thesis by (simp add: escape_string_eq json_chars_escape_string)
qed

section \<open>Numbers\<close>

lemma to_chars_nat_hd: "0 < n \<Longrightarrow> hd (to_chars_nat n) \<noteq> CHR ''0''"
proof (induction n rule: to_chars_nat.induct)
  case (1 n)
  show ?case
  proof (cases "n < 10")
    case True
    with 1 have "(of_char (digit_char n) :: nat) \<noteq> of_char (CHR ''0'')"
      by (simp add: of_char_digit_char)
    then have "digit_char n \<noteq> CHR ''0''" by metis
    with True show ?thesis by (simp add: to_chars_nat.simps[of n])
  next
    case False
    then have "hd (to_chars_nat (n div 10)) \<noteq> CHR ''0''" using 1 by simp
    with False show ?thesis by (subst to_chars_nat.simps) (simp add: to_chars_nat_nonempty)
  qed
qed

lemma json_int_to_chars_nat: "json_int (to_chars_nat n)"
proof (cases "n = 0")
  case True
  then show ?thesis by (simp add: json_int_def to_chars_nat.simps is_digit_def)
next
  case False
  then show ?thesis
    using to_chars_nat_hd[of n] to_chars_nat_digits[of _ n]
    by (simp add: json_int_def to_chars_nat_nonempty)
qed

lemma json_number_parts:
  "json_int i \<Longrightarrow> json_frac f \<Longrightarrow> json_number (i @ f)"
  "json_int i \<Longrightarrow> json_frac f \<Longrightarrow> json_number (CHR ''-'' # i @ f)"
  unfolding json_number_def
  by (rule exI[of _ "[]"], rule exI[of _ i], rule exI[of _ f], simp)
     (rule exI[of _ "''-''"], rule exI[of _ i], rule exI[of _ f], simp)

lemma json_number_to_chars_int: "json_number (to_chars_int i)"
  using json_number_parts[OF json_int_to_chars_nat, of "[]"]
  by (simp add: to_chars_int_def json_frac_def)

lemma json_number_double: "is_finite_double b \<Longrightarrow> json_number (to_string_double b)"
proof -
  assume "is_finite_double b"
  let ?f = "''.'' @ pad6 (to_chars_nat (micros b mod 1000000))"
  have "json_frac ?f"
    using to_chars_nat_digits[of _ "micros b mod 1000000"]
    by (auto simp: json_frac_def pad6_def to_chars_nat_nonempty is_digit_def)
  from json_number_parts[OF json_int_to_chars_nat this] \<open>is_finite_double b\<close> show ?thesis
    by (simp add: to_string_double_def)
qed

section \<open>Values\<close>

fun finite_doubles :: "redis_value \<Rightarrow> bool" where
  "finite_doubles (Double d) \<longleftrightarrow> is_finite_double d"
| "finite_doubles (Array vs) \<longleftrightarrow> (\<forall>v\<in>set vs. finite_doubles v)"
| "finite_doubles (Push vs) \<longleftrightarrow> (\<forall>v\<in>set vs. finite_doubles v)"
| "finite_doubles (Set vs) \<longleftrightarrow> (\<forall>v\<in>set vs. finite_doubles v)"
| "finite_doubles (Map kvs) \<longleftrightarrow> (\<forall>(k, v)\<in>set kvs. finite_doubles k \<and> finite_doubles v)"
| "finite_doubles (Attribute kvs w) \<longleftrightarrow>
     (\<forall>(k, v)\<in>set kvs. finite_doubles k \<and> finite_doubles v) \<and> finite_doubles w"
| "finite_doubles _ \<longleftrightarrow> True"

text \<open>The printer appends a text of the given kind.\<close>

definition appends :: "(string \<Rightarrow> bool) \<Rightarrow> string \<Rightarrow> string \<Rightarrow> bool" where
  "appends P str out \<longleftrightarrow> (\<exists>t. out = str @ t \<and> P t)"

lemma appends_append: "P t \<Longrightarrow> appends P str (str @ t)"
  by (auto simp: appends_def)

lemma appends_pre: "appends P (str @ a) out \<Longrightarrow> (\<And>t. P t \<Longrightarrow> Q (a @ t)) \<Longrightarrow> appends Q str out"
  by (auto simp: appends_def)

lemma appends_post: "appends P str out \<Longrightarrow> (\<And>t. P t \<Longrightarrow> Q (t @ b)) \<Longrightarrow> appends Q str (out @ b)"
  by (auto simp: appends_def)

lemma appends_quoted: "appends json str (quoted s str)"
  using json_string[OF json_chars_escape_string[of s]]
  by (simp add: quoted_def escape_string_eq appends_def)

text \<open>The objects the printer builds, over their parts.\<close>

lemma json_chars_alpha: "\<forall>c\<in>set s. 97 \<le> (of_char c :: nat) \<Longrightarrow>
   CHR 0x5C \<notin> set s \<Longrightarrow> CHR 0x22 \<notin> set s \<Longrightarrow> json_chars s"
proof (induction s)
  case Nil
  show ?case by (rule json_chars_Nil)
next
  case (Cons a s)
  then have "32 \<le> (of_char a :: nat)" by (simp add: order.trans[of 32 97])
  with Cons show ?case by (intro json_chars_plain) auto
qed

lemma json_names:
  "json_chars ''type''" "json_chars ''data''" "json_chars ''attributes''" "json_chars ''attribute''"
  "json_chars ''push''" "json_chars ''set''" "json_chars ''map''"
  by (simp_all add: json_chars_alpha)

lemma json_tagged:
  assumes "json_chars name" and "json_items t"
  shows "json (data_prefix name @ t @ '']}'')"
proof -
  have "json (CHR 0x22 # name @ [CHR 0x22])" by (rule json_string[OF assms(1)])
  from json_object[OF json_member_more[OF json_names(1) this json_member[OF json_names(2) json_array[OF assms(2)]]]]
  show ?thesis by (simp add: data_prefix_def type_prefix_def)
qed

lemma json_tagged_empty:
  assumes "json_chars name"
  shows "json (data_prefix name @ '']}'')"
proof -
  have "json (CHR 0x22 # name @ [CHR 0x22])" by (rule json_string[OF assms(1)])
  from json_object[OF json_member_more[OF json_names(1) this json_member[OF json_names(2) json_array_empty]]]
  show ?thesis by (simp add: data_prefix_def type_prefix_def)
qed

lemma json_attribute:
  assumes "json (CHR ''['' # t @ '']'')" and "json w"
  shows "json (attribute_prefix @ t @ '']'' @ data_key @ w @ ''}'')"
proof -
  have "json (CHR 0x22 # ''attribute'' @ [CHR 0x22])" by (rule json_string[OF json_names(4)])
  from json_object[OF json_member_more[OF json_names(1) this
      json_member_more[OF json_names(3) assms(1) json_member[OF json_names(2) assms(2)]]]]
  show ?thesis by (simp add: attribute_prefix_def type_prefix_def data_key_def)
qed

lemma json_entry: "json k \<Longrightarrow> json v \<Longrightarrow> json (''['' @ k @ '','' @ v @ '']'')"
  using json_array[OF json_item_more[OF _ json_item]] by fastforce

lemma appends_trans:
  "appends P str mid \<Longrightarrow> appends Q mid out \<Longrightarrow> (\<And>s t. P s \<Longrightarrow> Q t \<Longrightarrow> R (s @ t)) \<Longrightarrow> appends R str out"
  by (fastforce simp: appends_def)

lemma dump_appends:
  "finite_doubles v \<Longrightarrow> appends json str (dump_recursion v str)"
  "vs \<noteq> [] \<Longrightarrow> \<forall>v\<in>set vs. finite_doubles v \<Longrightarrow> appends json_items str2 (dump_elements vs str2)"
  "kvs \<noteq> [] \<Longrightarrow> \<forall>(k, v)\<in>set kvs. finite_doubles k \<and> finite_doubles v \<Longrightarrow>
     appends json_items str3 (dump_entries kvs str3)"
proof (induction v str and vs str2 and kvs str3 rule: dump_recursion_dump_elements_dump_entries.induct)
  case (1 str)
  show ?case by (simp add: appends_append json_literal)
next
  case (2 i str)
  show ?case by (simp add: appends_append json_numeral json_number_to_chars_int)
next
  case (3 d str)
  then show ?case by (simp add: appends_append json_numeral json_number_double)
next
  case (4 b str)
  show ?case by (simp add: appends_append json_literal)
next
  case (11 vs str)
  then show ?case
    by (auto intro!: appends_append json_array_empty appends_pre[OF appends_post[where Q = "\<lambda>t. json (''['' @ t)"]]
        json_array[simplified])
next
  case (12 vs str)
  then show ?case
    by (auto intro!: appends_append json_tagged_empty json_names
        appends_pre[OF appends_post[where Q = "\<lambda>t. json (data_prefix ''push'' @ t)"]] json_tagged)
next
  case (13 vs str)
  then show ?case
    by (auto intro!: appends_append json_tagged_empty json_names
        appends_pre[OF appends_post[where Q = "\<lambda>t. json (data_prefix ''set'' @ t)"]] json_tagged)
next
  case (14 kvs str)
  then show ?case
    by (auto intro!: appends_append json_tagged_empty json_names
        appends_pre[OF appends_post[where Q = "\<lambda>t. json (data_prefix ''map'' @ t)"]] json_tagged)
next
  case (15 attbs actual str)
  let ?head = "(if attbs = [] then str @ attribute_prefix
    else dump_entries attbs (str @ attribute_prefix)) @ '']'' @ data_key"
  have head: "appends (\<lambda>t. \<exists>u. t = attribute_prefix @ u @ '']'' @ data_key \<and> json (''['' @ u @ '']'')) str ?head"
  proof (cases "attbs = []")
    case True
    then show ?thesis using json_array_empty by (auto simp: appends_def)
  next
    case False
    with "15.IH"(1) "15.prems" obtain u where
      "dump_entries attbs (str @ attribute_prefix) = (str @ attribute_prefix) @ u" "json_items u"
      by (auto simp: appends_def)
    with False json_array[of u] show ?thesis by (auto simp: appends_def)
  qed
  from head obtain u where u: "?head = str @ attribute_prefix @ u @ '']'' @ data_key"
    "json (''['' @ u @ '']'')" by (auto simp: appends_def)
  have "finite_doubles actual" using "15.prems" by simp
  from "15.IH"(2)[OF this] obtain w where w: "dump_recursion actual ?head = ?head @ w" "json w"
    unfolding appends_def by blast
  have "dump_recursion (Attribute attbs actual) str = str @ (attribute_prefix @ u @ '']'' @ data_key @ w @ ''}'')"
    using u(1) w(1) by simp
  moreover have "json (attribute_prefix @ u @ '']'' @ data_key @ w @ ''}'')"
    using json_attribute[of u w] u(2) w(2) by simp
  ultimately show ?case by (metis appends_append)
next
  case (17 v vs str)
  show ?case
  proof (cases "vs = []")
    case True
    with 17 show ?thesis by (auto simp: appends_def intro: json_item)
  next
    case False
    from 17 have v: "appends json str (dump_recursion v str)" by auto
    from False 17 have "appends json_items (dump_recursion v str @ '','') (dump_elements vs (dump_recursion v str @ '',''))"
      by simp
    with v False show ?thesis by (auto simp: appends_def dest: json_item_more)
  qed
next
  case (19 k v kvs str)
  let ?k = "dump_recursion k (str @ ''['')"
  let ?v = "dump_recursion v (?k @ '','')"
  from 19 have k: "appends json (str @ ''['') ?k" and v: "appends json (?k @ '','') ?v" by simp_all
  then have e: "appends json str (?v @ '']'')"
    using json_entry by (auto simp: appends_def)
  show ?case
  proof (cases "kvs = []")
    case True
    with e show ?thesis by (auto simp: appends_def Let_def intro: json_item)
  next
    case False
    with 19 have "appends json_items (?v @ '']'' @ '','') (dump_entries kvs (?v @ '']'' @ '',''))"
      by simp
    then obtain u where u: "dump_entries kvs (?v @ '']'' @ '','') = (?v @ '']'') @ '','' @ u" "json_items u"
      by (auto simp: appends_def)
    from e obtain w where w: "?v @ '']'' = str @ w" "json w" by (auto simp: appends_def)
    have "dump_entries ((k, v) # kvs) str = str @ w @ '','' @ u"
      using False u(1) unfolding w(1) by (simp add: Let_def)
    then show ?thesis using json_item_more[OF w(2) u(2)] unfolding appends_def by blast
  qed
qed (simp_all add: appends_quoted)

text \<open>C38. The dump of a value whose doubles are finite is a JSON text.\<close>

theorem dump_is_json:
  assumes "finite_doubles v"
  shows "json (dump v)"
  using dump_appends(1)[OF assms, of "[]"] by (simp add: dump_def appends_def)

theorem dump_is_json_witness:
  "json (dump (Map [(Bulk_string [CHR 0x22, CHR 0x0A], Array [Integer (-5), Double 0x3FF8000000000000]),
     (Nullptr, Attribute [] (Set [Bool True]))]))"
proof (rule dump_is_json)
  have "is_finite_double 0x3FF8000000000000"
    unfolding is_finite_double_def exponent_bits_def unat_numeral by simp
  then show "finite_doubles (Map [(Bulk_string [CHR 0x22, CHR 0x0A], Array [Integer (-5), Double 0x3FF8000000000000]),
     (Nullptr, Attribute [] (Set [Bool True]))])" by simp
qed

inductive_cases json_nanE: "json ''nan''"

lemma json_number_hd: "json_number s \<Longrightarrow> s \<noteq> [] \<and> (is_digit (hd s) \<or> hd s = CHR ''-'')"
  by (auto simp: json_number_def json_int_def)

text \<open>The dump of a double that is not a number is the word \<open>nan\<close>, which is no JSON text.\<close>

theorem dump_nan_not_json:
  "dump (Double 0x7FF8000000000000) = ''nan'' \<and> \<not> json (dump (Double 0x7FF8000000000000))"
proof -
  have "\<not> sign_bit 0x7FF8000000000000"
    unfolding sign_bit_def unat_numeral by simp
  moreover have "\<not> is_finite_double 0x7FF8000000000000"
    unfolding is_finite_double_def exponent_bits_def unat_numeral by simp
  moreover have "fraction_bits 0x7FF8000000000000 \<noteq> 0"
    unfolding fraction_bits_def unat_numeral by simp
  ultimately have d: "dump (Double 0x7FF8000000000000) = ''nan''"
    by (simp only: dump_def dump_recursion.simps to_string_double_def if_False append_Nil)
  have "\<not> json ''nan''"
  proof
    assume "json ''nan''"
    then show False
      by (cases rule: json_nanE) (auto dest: json_number_hd simp: is_digit_def)
  qed
  with d show ?thesis by simp
qed

end
