(* ===== verification/Commands.thy ===== *)
theory Commands
  imports Charconv_Double
begin

text \<open>
  The command methods of \<open>RedisClient\<close> (include/RedisClient.hpp): one constructor per
  method with its parameters, and the argument words each method passes to \<open>command\<close>.
  \<open>string_view\<close> is a byte string, \<open>int64_t\<close> an integer, \<open>size_t\<close> a natural number,
  a double its 64 bits, and a parameter pack the list of its strings. \<open>dtext\<close> is the text
  \<open>std::to_chars\<close> writes for a double (the shortest that scans back), a parameter here. A
  method that a class does not have is \<open>None\<close>.
\<close>

section \<open>The methods\<close>

text \<open>Server and publish.\<close>

datatype server_command =
    C_ping
  | C_select nat
  | C_flushall bool
  | C_flushdb bool
  | C_dbsize
  | C_save
  | C_shutdown "string list"
  | C_publish string string
  | C_spublish string string

text \<open>Strings.\<close>

datatype string_command =
    C_append string string
  | C_decr string
  | C_decrby string int
  | C_get string
  | C_getdel string
  | C_getex string "string list"
  | C_getrange string int int
  | C_incr string
  | C_incrby string int
  | C_incrbyfloat string u64
  | C_lcs string string "string list"
  | C_mget string "string list"
  | C_mset "string list"
  | C_msetnx "string list"
  | C_psetex string int string
  | C_set string string "string list"
  | C_setex string int string
  | C_setnx string string
  | C_setrange string int string
  | C_strlen string

text \<open>Hashes.\<close>

datatype hash_command =
    C_hdel string string "string list"
  | C_hexists string string
  | C_hexpire string int "string list"
  | C_hexpireat string int "string list"
  | C_hexpiretime string "string list"
  | C_hget string string
  | C_hgetall string
  | C_hgetdel string string
  | C_hgetex string string "string list"
  | C_hincrby string string int
  | C_hincrbyfloat string string u64
  | C_hkeys string
  | C_hlen string
  | C_hmget string string "string list"
  | C_hpersist string "string list"
  | C_hpexpire string int "string list"
  | C_hpexpireat string int "string list"
  | C_hpexpiretime string "string list"
  | C_hpttl string "string list"
  | C_hrandfield string "string list"
  | C_hscan string int "string list"
  | C_hset string "string list"
  | C_hsetex string "string list"
  | C_hsetnx string string string
  | C_hstrlen string string
  | C_httl string "string list"
  | C_hvals string

text \<open>Lists.\<close>

datatype list_command =
    C_blmove string string string string u64
  | C_blmpop u64 int string "string list"
  | C_blpop string "string list"
  | C_brpop string "string list"
  | C_lindex string int
  | C_linsert string string string string
  | C_llen string
  | C_lmove string string string string
  | C_lmpop int string "string list"
  | C_lpop string "string list"
  | C_lpos string string "string list"
  | C_lpush string string "string list"
  | C_lpushx string string "string list"
  | C_lrange string int int
  | C_lrem string int string
  | C_lset string int string
  | C_ltrim string int int
  | C_rpop string
  | C_rpush string string "string list"
  | C_rpushx string string "string list"

text \<open>Sets.\<close>

datatype set_command =
    C_sadd string string "string list"
  | C_scard string
  | C_sdiff string "string list"
  | C_sdiffstore string string "string list"
  | C_sinter string "string list"
  | C_sintercard int string "string list"
  | C_sinterstore string string "string list"
  | C_sismember string string
  | C_smembers string
  | C_smismember string string "string list"
  | C_smove string string string
  | C_spop string "string list"
  | C_srandmember string "string list"
  | C_srem string string "string list"
  | C_sscan string int "string list"
  | C_sunion string "string list"
  | C_sunionstore string string "string list"

text \<open>Sorted sets.\<close>

datatype zset_command =
    C_zadd string "string list"
  | C_zcard string
  | C_zcount string u64 u64
  | C_zdiff nat string "string list"
  | C_zdiffstore string nat string "string list"
  | C_zincrby string u64 string
  | C_zinter nat string "string list"
  | C_zintercard nat string "string list"
  | C_zmpop nat string "string list"
  | C_zmscore string string "string list"
  | C_zrandmember string "string list"
  | C_zrange string string string "string list"
  | C_zrank string string "string list"
  | C_zrem string string "string list"
  | C_zscan string nat "string list"
  | C_zscore string string
  | C_zunion nat string "string list"
  | C_zunionstore string nat string "string list"

text \<open>HyperLogLog.\<close>

datatype hll_command =
    C_pfadd string "string list"
  | C_pfcount string "string list"
  | C_pfmerge string string "string list"

text \<open>Bitmaps.\<close>

datatype bitmap_command =
    C_setbit string nat string
  | C_getbit string nat
  | C_bitcount string int int "string list"
  | C_bitpos string string "string list"
  | C_bitop string string string "string list"
  | C_bitfield string "string list"
  | C_bitfield_ro string "string list"

text \<open>Streams.\<close>

datatype stream_command =
    C_xadd string "string list"
  | C_xack string string string "string list"
  | C_xautoclaim string string string nat string "string list"
  | C_xdel string string "string list"
  | C_xgroup_create string string string "string list"
  | C_xgroup_createconsumer string string string
  | C_xgroup_delconsumer string string string
  | C_xgroup_destroy string string
  | C_xgroup_setid string string string "string list"
  | C_xinfo_consumers string string
  | C_xinfo_groups string
  | C_xinfo_stream string "string list"
  | C_xlen string
  | C_xpending string string "string list"
  | C_xrange string string string "string list"
  | C_xread "string list"
  | C_xreadgroup string string string "string list"
  | C_xtrim string "string list"

text \<open>Scripts.\<close>

datatype script_command =
    C_eval string nat "string list"
  | C_evalsha string nat "string list"
  | C_script_load string

text \<open>Transactions.\<close>

datatype trans_command =
    C_watch string "string list"
  | C_unwatch string
  | C_multi string
  | C_exec

text \<open>Keys and generic commands.\<close>

datatype generic_command =
    C_copy string string "string list"
  | C_del string "string list"
  | C_dump string
  | C_exists string
  | C_expire string nat "string list"
  | C_expireat string nat "string list"
  | C_expiretime string
  | C_keys string
  | C_move string nat
  | C_persist string
  | C_pexpire string nat "string list"
  | C_pexpireat string nat "string list"
  | C_pexpiretime string
  | C_pttl string
  | C_randomkey
  | C_rename string string
  | C_renamenx string string
  | C_scan nat "string list"
  | C_sort string "string list"
  | C_sort_ro string "string list"
  | C_touch string "string list"
  | C_ttl string
  | C_type string
  | C_unlink string "string list"
  | C_wait nat nat
  | C_waitaof nat nat nat

text \<open>All of them.\<close>

datatype redis_command =
    Cmd_server server_command
  | Cmd_string string_command
  | Cmd_hash hash_command
  | Cmd_list list_command
  | Cmd_set set_command
  | Cmd_zset zset_command
  | Cmd_hll hll_command
  | Cmd_bitmap bitmap_command
  | Cmd_stream stream_command
  | Cmd_script script_command
  | Cmd_trans trans_command
  | Cmd_generic generic_command

section \<open>The words of \<open>RedisClient\<close>\<close>

fun client_server :: "(u64 \<Rightarrow> string) \<Rightarrow> server_command \<Rightarrow> string list option" where
  "client_server _ C_ping = Some [''PING'']"
| "client_server _ (C_select index) = Some [''SELECT'', to_chars_nat index]"
| "client_server _ (C_flushall async) = Some [''FLUSHALL'', if async then ''ASYNC'' else ''SYNC'']"
| "client_server _ (C_flushdb async) = Some [''FLUSHDB'', if async then ''ASYNC'' else ''SYNC'']"
| "client_server _ C_dbsize = Some [''DBSIZE'']"
| "client_server _ C_save = Some [''SAVE'']"
| "client_server _ (C_shutdown args) = Some ([''SHUTDOWN''] @ args)"
| "client_server _ (C_publish channel message) = Some [''PUBLISH'', channel, message]"
| "client_server _ (C_spublish shardchannel message) = Some [''SPUBLISH'', shardchannel, message]"

fun client_string :: "(u64 \<Rightarrow> string) \<Rightarrow> string_command \<Rightarrow> string list option" where
  "client_string _ (C_append key value) = Some [''APPEND'', key, value]"
| "client_string _ (C_decr key) = Some [''DECR'', key]"
| "client_string _ (C_decrby key decrement) = Some [''DECRBY'', key, to_chars_int decrement]"
| "client_string _ (C_get key) = Some [''GET'', key]"
| "client_string _ (C_getdel key) = Some [''GETDEL'', key]"
| "client_string _ (C_getex key args) = Some ([''GETEX'', key] @ args)"
| "client_string _ (C_getrange key start end_pos) = Some [''GETRANGE'', key, to_chars_int start, to_chars_int end_pos]"
| "client_string _ (C_incr key) = Some [''INCR'', key]"
| "client_string _ (C_incrby key increment) = Some [''INCRBY'', key, to_chars_int increment]"
| "client_string dtext (C_incrbyfloat key increment) = Some [''INCRBYFLOAT'', key, dtext increment]"
| "client_string _ (C_lcs key1 key2 args) = Some ([''LCS'', key1, key2] @ args)"
| "client_string _ (C_mget first_key other_keys) = Some ([''MGET'', first_key] @ other_keys)"
| "client_string _ (C_mset args) = Some ([''MSET''] @ args)"
| "client_string _ (C_msetnx args) = Some ([''MSETNX''] @ args)"
| "client_string _ (C_psetex key milliseconds value) = Some [''PSETEX'', key, to_chars_int milliseconds, value]"
| "client_string _ (C_set key value args) = Some ([''SET'', key, value] @ args)"
| "client_string _ (C_setex key seconds value) = Some [''SETEX'', key, to_chars_int seconds, value]"
| "client_string _ (C_setnx key value) = Some [''SETNX'', key, value]"
| "client_string _ (C_setrange key offset value) = Some [''SETRANGE'', key, to_chars_int offset, value]"
| "client_string _ (C_strlen key) = Some [''STRLEN'', key]"

fun client_hash :: "(u64 \<Rightarrow> string) \<Rightarrow> hash_command \<Rightarrow> string list option" where
  "client_hash _ (C_hdel key first_field other_fields) = Some ([''HDEL'', key, first_field] @ other_fields)"
| "client_hash _ (C_hexists key field) = Some [''HEXISTS'', key, field]"
| "client_hash _ (C_hexpire key seconds fields) = Some ([''HEXPIRE'', key, to_chars_int seconds] @ fields)"
| "client_hash _ (C_hexpireat key timestamp fields) = Some ([''HEXPIREAT'', key, to_chars_int timestamp] @ fields)"
| "client_hash _ (C_hexpiretime key fields) = Some ([''HEXPIRETIME'', key] @ fields)"
| "client_hash _ (C_hget key field) = Some [''HGET'', key, field]"
| "client_hash _ (C_hgetall key) = Some [''HGETALL'', key]"
| "client_hash _ (C_hgetdel key field) = Some [''HGETDEL'', key, field]"
| "client_hash _ (C_hgetex key field args) = Some ([''HGETEX'', key, field] @ args)"
| "client_hash _ (C_hincrby key field increment) = Some [''HINCRBY'', key, field, to_chars_int increment]"
| "client_hash dtext (C_hincrbyfloat key field increment) = Some [''HINCRBYFLOAT'', key, field, dtext increment]"
| "client_hash _ (C_hkeys key) = Some [''HKEYS'', key]"
| "client_hash _ (C_hlen key) = Some [''HLEN'', key]"
| "client_hash _ (C_hmget key first_field other_fields) = Some ([''HMGET'', key, first_field] @ other_fields)"
| "client_hash _ (C_hpersist key fields) = Some ([''HPERSIST'', key] @ fields)"
| "client_hash _ (C_hpexpire key milliseconds fields) = Some ([''HPEXPIRE'', key, to_chars_int milliseconds] @ fields)"
| "client_hash _ (C_hpexpireat key milliseconds_timestamp fields) = Some ([''HPEXPIREAT'', key, to_chars_int milliseconds_timestamp] @ fields)"
| "client_hash _ (C_hpexpiretime key fields) = Some ([''HPEXPIRETIME'', key] @ fields)"
| "client_hash _ (C_hpttl key fields) = Some ([''HPTTL'', key] @ fields)"
| "client_hash _ (C_hrandfield key args) = Some ([''HRANDFIELD'', key] @ args)"
| "client_hash _ (C_hscan key cursor args) = Some ([''HSCAN'', key, to_chars_int cursor] @ args)"
| "client_hash _ (C_hset key args) = Some ([''HSET'', key] @ args)"
| "client_hash _ (C_hsetex key args) = Some ([''HSETEX'', key] @ args)"
| "client_hash _ (C_hsetnx key field value) = Some [''HSETNX'', key, field, value]"
| "client_hash _ (C_hstrlen key field) = Some [''HSTRLEN'', key, field]"
| "client_hash _ (C_httl key fields) = Some ([''HTTL'', key] @ fields)"
| "client_hash _ (C_hvals key) = Some [''HVALS'', key]"

fun client_list :: "(u64 \<Rightarrow> string) \<Rightarrow> list_command \<Rightarrow> string list option" where
  "client_list dtext (C_blmove source destination wherefrom whereto timeout) = Some [''BLMOVE'', source, destination, wherefrom, whereto, dtext timeout]"
| "client_list dtext (C_blmpop timeout numkeys first_key args) = Some ([''BLMPOP'', dtext timeout, to_chars_int numkeys, first_key] @ args)"
| "client_list _ (C_blpop first_key other_keys_and_timeout) = Some ([''BLPOP'', first_key] @ other_keys_and_timeout)"
| "client_list _ (C_brpop first_key other_keys_and_timeout) = Some ([''BRPOP'', first_key] @ other_keys_and_timeout)"
| "client_list _ (C_lindex key index) = Some [''LINDEX'', key, to_chars_int index]"
| "client_list _ (C_linsert key position pivot element) = Some [''LINSERT'', key, position, pivot, element]"
| "client_list _ (C_llen key) = Some [''LLEN'', key]"
| "client_list _ (C_lmove source destination wherefrom whereto) = Some [''LMOVE'', source, destination, wherefrom, whereto]"
| "client_list _ (C_lmpop numkeys first_key args) = Some ([''LMPOP'', to_chars_int numkeys, first_key] @ args)"
| "client_list _ (C_lpop key count) = Some ([''LPOP'', key] @ count)"
| "client_list _ (C_lpos key element args) = Some ([''LPOS'', key, element] @ args)"
| "client_list _ (C_lpush key first_val other_vals) = Some ([''LPUSH'', key, first_val] @ other_vals)"
| "client_list _ (C_lpushx key first_val other_vals) = Some ([''LPUSHX'', key, first_val] @ other_vals)"
| "client_list _ (C_lrange key start stop) = Some [''LRANGE'', key, to_chars_int start, to_chars_int stop]"
| "client_list _ (C_lrem key count element) = Some [''LREM'', key, to_chars_int count, element]"
| "client_list _ (C_lset key index element) = Some [''LSET'', key, to_chars_int index, element]"
| "client_list _ (C_ltrim key start stop) = Some [''LTRIM'', key, to_chars_int start, to_chars_int stop]"
| "client_list _ (C_rpop key) = Some [''RPOP'', key]"
| "client_list _ (C_rpush key first_val other_vals) = Some ([''RPUSH'', key, first_val] @ other_vals)"
| "client_list _ (C_rpushx key first_val other_vals) = Some ([''RPUSHX'', key, first_val] @ other_vals)"

fun client_set :: "(u64 \<Rightarrow> string) \<Rightarrow> set_command \<Rightarrow> string list option" where
  "client_set _ (C_sadd key first_member other_members) = Some ([''SADD'', key, first_member] @ other_members)"
| "client_set _ (C_scard key) = Some [''SCARD'', key]"
| "client_set _ (C_sdiff first_key other_keys) = Some ([''SDIFF'', first_key] @ other_keys)"
| "client_set _ (C_sdiffstore destination first_key other_keys) = Some ([''SDIFFSTORE'', destination, first_key] @ other_keys)"
| "client_set _ (C_sinter first_key other_keys) = Some ([''SINTER'', first_key] @ other_keys)"
| "client_set _ (C_sintercard numkeys first_key args) = Some ([''SINTERCARD'', to_chars_int numkeys, first_key] @ args)"
| "client_set _ (C_sinterstore destination first_key other_keys) = Some ([''SINTERSTORE'', destination, first_key] @ other_keys)"
| "client_set _ (C_sismember key the_member) = Some [''SISMEMBER'', key, the_member]"
| "client_set _ (C_smembers key) = Some [''SMEMBERS'', key]"
| "client_set _ (C_smismember key first_member other_members) = Some ([''SMISMEMBER'', key, first_member] @ other_members)"
| "client_set _ (C_smove source destination the_member) = Some [''SMOVE'', source, destination, the_member]"
| "client_set _ (C_spop key count) = Some ([''SPOP'', key] @ count)"
| "client_set _ (C_srandmember key count) = Some ([''SRANDMEMBER'', key] @ count)"
| "client_set _ (C_srem key first_member other_members) = Some ([''SREM'', key, first_member] @ other_members)"
| "client_set _ (C_sscan key cursor args) = Some ([''SSCAN'', key, to_chars_int cursor] @ args)"
| "client_set _ (C_sunion first_key other_keys) = Some ([''SUNION'', first_key] @ other_keys)"
| "client_set _ (C_sunionstore destination first_key other_keys) = Some ([''SUNIONSTORE'', destination, first_key] @ other_keys)"

fun client_zset :: "(u64 \<Rightarrow> string) \<Rightarrow> zset_command \<Rightarrow> string list option" where
  "client_zset _ (C_zadd key args) = Some ([''ZADD'', key] @ args)"
| "client_zset _ (C_zcard key) = Some [''ZCARD'', key]"
| "client_zset dtext (C_zcount key lower upper) = Some [''ZCOUNT'', key, dtext lower, dtext upper]"
| "client_zset _ (C_zdiff numkeys first_key other_keys) = Some ([''ZDIFF'', to_chars_nat numkeys, first_key] @ other_keys)"
| "client_zset _ (C_zdiffstore destination numkeys first_key other_keys) = Some ([''ZDIFFSTORE'', destination, to_chars_nat numkeys, first_key] @ other_keys)"
| "client_zset dtext (C_zincrby key increment the_member) = Some [''ZINCRBY'', key, dtext increment, the_member]"
| "client_zset _ (C_zinter numkeys first_key other_keys) = Some ([''ZINTER'', to_chars_nat numkeys, first_key] @ other_keys)"
| "client_zset _ (C_zintercard numkeys first_key args) = Some ([''ZINTERCARD'', to_chars_nat numkeys, first_key] @ args)"
| "client_zset _ (C_zmpop numkeys first_key args) = Some ([''ZMPOP'', to_chars_nat numkeys, first_key] @ args)"
| "client_zset _ (C_zmscore key first_member other_members) = Some ([''ZMSCORE'', key, first_member] @ other_members)"
| "client_zset _ (C_zrandmember key args) = Some ([''ZRANDMEMBER'', key] @ args)"
| "client_zset _ (C_zrange key start stop options) = Some ([''ZRANGE'', key, start, stop] @ options)"
| "client_zset _ (C_zrank key the_member args) = Some ([''ZRANK'', key, the_member] @ args)"
| "client_zset _ (C_zrem key first_member other_members) = Some ([''ZREM'', key, first_member] @ other_members)"
| "client_zset _ (C_zscan key cursor args) = Some ([''ZSCAN'', key, to_chars_nat cursor] @ args)"
| "client_zset _ (C_zscore key the_member) = Some [''ZSCORE'', key, the_member]"
| "client_zset _ (C_zunion numkeys first_key other_keys) = Some ([''ZUNION'', to_chars_nat numkeys, first_key] @ other_keys)"
| "client_zset _ (C_zunionstore destination numkeys first_key other_keys) = Some ([''ZUNIONSTORE'', destination, to_chars_nat numkeys, first_key] @ other_keys)"

fun client_hll :: "(u64 \<Rightarrow> string) \<Rightarrow> hll_command \<Rightarrow> string list option" where
  "client_hll _ (C_pfadd key elements) = Some ([''PFADD'', key] @ elements)"
| "client_hll _ (C_pfcount first_key other_keys) = Some ([''PFCOUNT'', first_key] @ other_keys)"
| "client_hll _ (C_pfmerge destkey first_srckey other_srckeys) = Some ([''PFMERGE'', destkey, first_srckey] @ other_srckeys)"

fun client_bitmap :: "(u64 \<Rightarrow> string) \<Rightarrow> bitmap_command \<Rightarrow> string list option" where
  "client_bitmap _ (C_setbit key offset value) = Some [''SETBIT'', key, to_chars_nat offset, value]"
| "client_bitmap _ (C_getbit key offset) = Some [''GETBIT'', key, to_chars_nat offset]"
| "client_bitmap _ (C_bitcount key start stop args) = Some ([''BITCOUNT'', key, to_chars_int start, to_chars_int stop] @ args)"
| "client_bitmap _ (C_bitpos key the_bit args) = Some ([''BITPOS'', key, the_bit] @ args)"
| "client_bitmap _ (C_bitop operation destkey first_srckey other_srckeys) = Some ([''BITOP'', operation, destkey, first_srckey] @ other_srckeys)"
| "client_bitmap _ (C_bitfield key args) = Some ([''BITFIELD'', key] @ args)"
| "client_bitmap _ (C_bitfield_ro key args) = Some ([''BITFIELD_RO'', key] @ args)"

fun client_stream :: "(u64 \<Rightarrow> string) \<Rightarrow> stream_command \<Rightarrow> string list option" where
  "client_stream _ (C_xadd key args) = Some ([''XADD'', key] @ args)"
| "client_stream _ (C_xack key group_name first_id other_ids) = Some ([''XACK'', key, group_name, first_id] @ other_ids)"
| "client_stream _ (C_xautoclaim key group_name consumer min_idle_time start args) = Some ([''XAUTOCLAIM'', key, group_name, consumer, to_chars_nat min_idle_time, start] @ args)"
| "client_stream _ (C_xdel key first_id other_ids) = Some ([''XDEL'', key, first_id] @ other_ids)"
| "client_stream _ (C_xgroup_create key group_name the_id args) = Some ([''XGROUP'', ''CREATE'', key, group_name, the_id] @ args)"
| "client_stream _ (C_xgroup_createconsumer key group_name consumer) = Some [''XGROUP'', ''CREATECONSUMER'', key, group_name, consumer]"
| "client_stream _ (C_xgroup_delconsumer key group_name consumer) = Some [''XGROUP'', ''DELCONSUMER'', key, group_name, consumer]"
| "client_stream _ (C_xgroup_destroy key group_name) = Some [''XGROUP'', ''DESTROY'', key, group_name]"
| "client_stream _ (C_xgroup_setid key group_name the_id args) = Some ([''XGROUP'', ''SETID'', key, group_name, the_id] @ args)"
| "client_stream _ (C_xinfo_consumers key group_name) = Some [''XINFO'', ''CONSUMERS'', key, group_name]"
| "client_stream _ (C_xinfo_groups key) = Some [''XINFO'', ''GROUPS'', key]"
| "client_stream _ (C_xinfo_stream key args) = Some ([''XINFO'', ''STREAM'', key] @ args)"
| "client_stream _ (C_xlen key) = Some [''XLEN'', key]"
| "client_stream _ (C_xpending key group_name args) = Some ([''XPENDING'', key, group_name] @ args)"
| "client_stream _ (C_xrange key start end_pos args) = Some ([''XRANGE'', key, start, end_pos] @ args)"
| "client_stream _ (C_xread args) = Some ([''XREAD''] @ args)"
| "client_stream _ (C_xreadgroup group_keyword group_name consumer args) = Some ([''XREADGROUP'', group_keyword, group_name, consumer] @ args)"
| "client_stream _ (C_xtrim key args) = Some ([''XTRIM'', key] @ args)"

fun client_script :: "(u64 \<Rightarrow> string) \<Rightarrow> script_command \<Rightarrow> string list option" where
  "client_script _ (C_eval script numkeys args) = Some ([''EVAL'', script, to_chars_nat numkeys] @ args)"
| "client_script _ (C_evalsha sha1 numkeys args) = Some ([''EVALSHA'', sha1, to_chars_nat numkeys] @ args)"
| "client_script _ (C_script_load script) = Some [''SCRIPT'', ''LOAD'', script]"

fun client_trans :: "(u64 \<Rightarrow> string) \<Rightarrow> trans_command \<Rightarrow> string list option" where
  "client_trans _ (C_watch first_key other_keys) = Some ([''WATCH'', first_key] @ other_keys)"
| "client_trans _ (C_unwatch _) = Some [''UNWATCH'']"
| "client_trans _ (C_multi _) = Some [''MULTI'']"
| "client_trans _ C_exec = None"

fun client_generic :: "(u64 \<Rightarrow> string) \<Rightarrow> generic_command \<Rightarrow> string list option" where
  "client_generic _ (C_copy source destination args) = Some ([''COPY'', source, destination] @ args)"
| "client_generic _ (C_del first_key other_keys) = Some ([''DEL'', first_key] @ other_keys)"
| "client_generic _ (C_dump key) = Some [''DUMP'', key]"
| "client_generic _ (C_exists key) = Some [''EXISTS'', key]"
| "client_generic _ (C_expire key seconds args) = Some ([''EXPIRE'', key, to_chars_nat seconds] @ args)"
| "client_generic _ (C_expireat key unix_time_seconds args) = Some ([''EXPIREAT'', key, to_chars_nat unix_time_seconds] @ args)"
| "client_generic _ (C_expiretime key) = Some [''EXPIRETIME'', key]"
| "client_generic _ (C_keys pattern) = Some [''KEYS'', pattern]"
| "client_generic _ (C_move key db) = Some [''MOVE'', key, to_chars_nat db]"
| "client_generic _ (C_persist key) = Some [''PERSIST'', key]"
| "client_generic _ (C_pexpire key milliseconds args) = Some ([''PEXPIRE'', key, to_chars_nat milliseconds] @ args)"
| "client_generic _ (C_pexpireat key unix_time_milliseconds args) = Some ([''PEXPIREAT'', key, to_chars_nat unix_time_milliseconds] @ args)"
| "client_generic _ (C_pexpiretime key) = Some [''PEXPIRETIME'', key]"
| "client_generic _ (C_pttl key) = Some [''PTTL'', key]"
| "client_generic _ C_randomkey = Some [''RANDOMKEY'']"
| "client_generic _ (C_rename key newkey) = Some [''RENAME'', key, newkey]"
| "client_generic _ (C_renamenx key newkey) = Some [''RENAMENX'', key, newkey]"
| "client_generic _ (C_scan cursor args) = Some ([''SCAN'', to_chars_nat cursor] @ args)"
| "client_generic _ (C_sort key args) = Some ([''SORT'', key] @ args)"
| "client_generic _ (C_sort_ro key args) = Some ([''SORT_RO'', key] @ args)"
| "client_generic _ (C_touch first_key other_keys) = Some ([''TOUCH'', first_key] @ other_keys)"
| "client_generic _ (C_ttl key) = Some [''TTL'', key]"
| "client_generic _ (C_type key) = Some [''TYPE'', key]"
| "client_generic _ (C_unlink first_key other_keys) = Some ([''UNLINK'', first_key] @ other_keys)"
| "client_generic _ (C_wait numreplicas timeout) = Some [''WAIT'', to_chars_nat numreplicas, to_chars_nat timeout]"
| "client_generic _ (C_waitaof numlocal numreplicas timeout) = Some [''WAITAOF'', to_chars_nat numlocal, to_chars_nat numreplicas, to_chars_nat timeout]"

fun client_words :: "(u64 \<Rightarrow> string) \<Rightarrow> redis_command \<Rightarrow> string list option" where
  "client_words dtext (Cmd_server c) = client_server dtext c"
| "client_words dtext (Cmd_string c) = client_string dtext c"
| "client_words dtext (Cmd_hash c) = client_hash dtext c"
| "client_words dtext (Cmd_list c) = client_list dtext c"
| "client_words dtext (Cmd_set c) = client_set dtext c"
| "client_words dtext (Cmd_zset c) = client_zset dtext c"
| "client_words dtext (Cmd_hll c) = client_hll dtext c"
| "client_words dtext (Cmd_bitmap c) = client_bitmap dtext c"
| "client_words dtext (Cmd_stream c) = client_stream dtext c"
| "client_words dtext (Cmd_script c) = client_script dtext c"
| "client_words dtext (Cmd_trans c) = client_trans dtext c"
| "client_words dtext (Cmd_generic c) = client_generic dtext c"

lemmas client_defs [api_simps] = client_words.simps client_server.simps client_string.simps client_hash.simps client_list.simps client_set.simps client_zset.simps client_hll.simps client_bitmap.simps client_stream.simps client_script.simps client_trans.simps client_generic.simps

section \<open>Keys\<close>

text \<open>
  The word a cluster has to route a command by: its first parameter that names a key (a
  shard channel counts as one), or nothing for a command without keys. For a variadic list
  without a named key it is the first of the list; for \<open>XREADGROUP\<close> it is the word behind
  \<open>STREAMS\<close> and for \<open>EVAL\<close> the first of the key list, as the Redis documentation says.
\<close>

fun after_word :: "string \<Rightarrow> string list \<Rightarrow> string option" where
  "after_word w (x # y # zs) = (if x = w then Some y else after_word w (y # zs))"
| "after_word _ _ = None"

definition first_word :: "string list \<Rightarrow> string option" where
  "first_word ws = (case ws of [] \<Rightarrow> None | w # _ \<Rightarrow> Some w)"

fun key_server :: "server_command \<Rightarrow> string option" where
  "key_server C_ping = None"
| "key_server (C_select _) = None"
| "key_server (C_flushall _) = None"
| "key_server (C_flushdb _) = None"
| "key_server C_dbsize = None"
| "key_server C_save = None"
| "key_server (C_shutdown _) = None"
| "key_server (C_publish channel _) = Some channel"
| "key_server (C_spublish shardchannel _) = Some shardchannel"

fun key_string :: "string_command \<Rightarrow> string option" where
  "key_string (C_append key _) = Some key"
| "key_string (C_decr key) = Some key"
| "key_string (C_decrby key _) = Some key"
| "key_string (C_get key) = Some key"
| "key_string (C_getdel key) = Some key"
| "key_string (C_getex key _) = Some key"
| "key_string (C_getrange key _ _) = Some key"
| "key_string (C_incr key) = Some key"
| "key_string (C_incrby key _) = Some key"
| "key_string (C_incrbyfloat key _) = Some key"
| "key_string (C_lcs key1 _ _) = Some key1"
| "key_string (C_mget first_key _) = Some first_key"
| "key_string (C_mset args) = first_word args"
| "key_string (C_msetnx args) = first_word args"
| "key_string (C_psetex key _ _) = Some key"
| "key_string (C_set key _ _) = Some key"
| "key_string (C_setex key _ _) = Some key"
| "key_string (C_setnx key _) = Some key"
| "key_string (C_setrange key _ _) = Some key"
| "key_string (C_strlen key) = Some key"

fun key_hash :: "hash_command \<Rightarrow> string option" where
  "key_hash (C_hdel key _ _) = Some key"
| "key_hash (C_hexists key _) = Some key"
| "key_hash (C_hexpire key _ _) = Some key"
| "key_hash (C_hexpireat key _ _) = Some key"
| "key_hash (C_hexpiretime key _) = Some key"
| "key_hash (C_hget key _) = Some key"
| "key_hash (C_hgetall key) = Some key"
| "key_hash (C_hgetdel key _) = Some key"
| "key_hash (C_hgetex key _ _) = Some key"
| "key_hash (C_hincrby key _ _) = Some key"
| "key_hash (C_hincrbyfloat key _ _) = Some key"
| "key_hash (C_hkeys key) = Some key"
| "key_hash (C_hlen key) = Some key"
| "key_hash (C_hmget key _ _) = Some key"
| "key_hash (C_hpersist key _) = Some key"
| "key_hash (C_hpexpire key _ _) = Some key"
| "key_hash (C_hpexpireat key _ _) = Some key"
| "key_hash (C_hpexpiretime key _) = Some key"
| "key_hash (C_hpttl key _) = Some key"
| "key_hash (C_hrandfield key _) = Some key"
| "key_hash (C_hscan key _ _) = Some key"
| "key_hash (C_hset key _) = Some key"
| "key_hash (C_hsetex key _) = Some key"
| "key_hash (C_hsetnx key _ _) = Some key"
| "key_hash (C_hstrlen key _) = Some key"
| "key_hash (C_httl key _) = Some key"
| "key_hash (C_hvals key) = Some key"

fun key_list :: "list_command \<Rightarrow> string option" where
  "key_list (C_blmove source _ _ _ _) = Some source"
| "key_list (C_blmpop _ _ first_key _) = Some first_key"
| "key_list (C_blpop first_key _) = Some first_key"
| "key_list (C_brpop first_key _) = Some first_key"
| "key_list (C_lindex key _) = Some key"
| "key_list (C_linsert key _ _ _) = Some key"
| "key_list (C_llen key) = Some key"
| "key_list (C_lmove source _ _ _) = Some source"
| "key_list (C_lmpop _ first_key _) = Some first_key"
| "key_list (C_lpop key _) = Some key"
| "key_list (C_lpos key _ _) = Some key"
| "key_list (C_lpush key _ _) = Some key"
| "key_list (C_lpushx key _ _) = Some key"
| "key_list (C_lrange key _ _) = Some key"
| "key_list (C_lrem key _ _) = Some key"
| "key_list (C_lset key _ _) = Some key"
| "key_list (C_ltrim key _ _) = Some key"
| "key_list (C_rpop key) = Some key"
| "key_list (C_rpush key _ _) = Some key"
| "key_list (C_rpushx key _ _) = Some key"

fun key_set :: "set_command \<Rightarrow> string option" where
  "key_set (C_sadd key _ _) = Some key"
| "key_set (C_scard key) = Some key"
| "key_set (C_sdiff first_key _) = Some first_key"
| "key_set (C_sdiffstore destination _ _) = Some destination"
| "key_set (C_sinter first_key _) = Some first_key"
| "key_set (C_sintercard _ first_key _) = Some first_key"
| "key_set (C_sinterstore destination _ _) = Some destination"
| "key_set (C_sismember key _) = Some key"
| "key_set (C_smembers key) = Some key"
| "key_set (C_smismember key _ _) = Some key"
| "key_set (C_smove source _ _) = Some source"
| "key_set (C_spop key _) = Some key"
| "key_set (C_srandmember key _) = Some key"
| "key_set (C_srem key _ _) = Some key"
| "key_set (C_sscan key _ _) = Some key"
| "key_set (C_sunion first_key _) = Some first_key"
| "key_set (C_sunionstore destination _ _) = Some destination"

fun key_zset :: "zset_command \<Rightarrow> string option" where
  "key_zset (C_zadd key _) = Some key"
| "key_zset (C_zcard key) = Some key"
| "key_zset (C_zcount key _ _) = Some key"
| "key_zset (C_zdiff _ first_key _) = Some first_key"
| "key_zset (C_zdiffstore destination _ _ _) = Some destination"
| "key_zset (C_zincrby key _ _) = Some key"
| "key_zset (C_zinter _ first_key _) = Some first_key"
| "key_zset (C_zintercard _ first_key _) = Some first_key"
| "key_zset (C_zmpop _ first_key _) = Some first_key"
| "key_zset (C_zmscore key _ _) = Some key"
| "key_zset (C_zrandmember key _) = Some key"
| "key_zset (C_zrange key _ _ _) = Some key"
| "key_zset (C_zrank key _ _) = Some key"
| "key_zset (C_zrem key _ _) = Some key"
| "key_zset (C_zscan key _ _) = Some key"
| "key_zset (C_zscore key _) = Some key"
| "key_zset (C_zunion _ first_key _) = Some first_key"
| "key_zset (C_zunionstore destination _ _ _) = Some destination"

fun key_hll :: "hll_command \<Rightarrow> string option" where
  "key_hll (C_pfadd key _) = Some key"
| "key_hll (C_pfcount first_key _) = Some first_key"
| "key_hll (C_pfmerge destkey _ _) = Some destkey"

fun key_bitmap :: "bitmap_command \<Rightarrow> string option" where
  "key_bitmap (C_setbit key _ _) = Some key"
| "key_bitmap (C_getbit key _) = Some key"
| "key_bitmap (C_bitcount key _ _ _) = Some key"
| "key_bitmap (C_bitpos key _ _) = Some key"
| "key_bitmap (C_bitop _ destkey _ _) = Some destkey"
| "key_bitmap (C_bitfield key _) = Some key"
| "key_bitmap (C_bitfield_ro key _) = Some key"

fun key_stream :: "stream_command \<Rightarrow> string option" where
  "key_stream (C_xadd key _) = Some key"
| "key_stream (C_xack key _ _ _) = Some key"
| "key_stream (C_xautoclaim key _ _ _ _ _) = Some key"
| "key_stream (C_xdel key _ _) = Some key"
| "key_stream (C_xgroup_create key _ _ _) = Some key"
| "key_stream (C_xgroup_createconsumer key _ _) = Some key"
| "key_stream (C_xgroup_delconsumer key _ _) = Some key"
| "key_stream (C_xgroup_destroy key _) = Some key"
| "key_stream (C_xgroup_setid key _ _ _) = Some key"
| "key_stream (C_xinfo_consumers key _) = Some key"
| "key_stream (C_xinfo_groups key) = Some key"
| "key_stream (C_xinfo_stream key _) = Some key"
| "key_stream (C_xlen key) = Some key"
| "key_stream (C_xpending key _ _) = Some key"
| "key_stream (C_xrange key _ _ _) = Some key"
| "key_stream (C_xread args) = after_word ''STREAMS'' args"
| "key_stream (C_xreadgroup _ _ _ args) = after_word ''STREAMS'' args"
| "key_stream (C_xtrim key _) = Some key"

fun key_script :: "script_command \<Rightarrow> string option" where
  "key_script (C_eval _ numkeys args) = (if numkeys = 0 then None else first_word args)"
| "key_script (C_evalsha _ numkeys args) = (if numkeys = 0 then None else first_word args)"
| "key_script (C_script_load _) = None"

fun key_trans :: "trans_command \<Rightarrow> string option" where
  "key_trans (C_watch first_key _) = Some first_key"
| "key_trans (C_unwatch tag) = Some tag"
| "key_trans (C_multi tag) = Some tag"
| "key_trans C_exec = None"

fun key_generic :: "generic_command \<Rightarrow> string option" where
  "key_generic (C_copy source _ _) = Some source"
| "key_generic (C_del first_key _) = Some first_key"
| "key_generic (C_dump key) = Some key"
| "key_generic (C_exists key) = Some key"
| "key_generic (C_expire key _ _) = Some key"
| "key_generic (C_expireat key _ _) = Some key"
| "key_generic (C_expiretime key) = Some key"
| "key_generic (C_keys _) = None"
| "key_generic (C_move key _) = Some key"
| "key_generic (C_persist key) = Some key"
| "key_generic (C_pexpire key _ _) = Some key"
| "key_generic (C_pexpireat key _ _) = Some key"
| "key_generic (C_pexpiretime key) = Some key"
| "key_generic (C_pttl key) = Some key"
| "key_generic C_randomkey = None"
| "key_generic (C_rename key _) = Some key"
| "key_generic (C_renamenx key _) = Some key"
| "key_generic (C_scan _ _) = None"
| "key_generic (C_sort key _) = Some key"
| "key_generic (C_sort_ro key _) = Some key"
| "key_generic (C_touch first_key _) = Some first_key"
| "key_generic (C_ttl key) = Some key"
| "key_generic (C_type key) = Some key"
| "key_generic (C_unlink first_key _) = Some first_key"
| "key_generic (C_wait _ _) = None"
| "key_generic (C_waitaof _ _ _) = None"

fun command_key :: "redis_command \<Rightarrow> string option" where
  "command_key (Cmd_server c) = key_server c"
| "command_key (Cmd_string c) = key_string c"
| "command_key (Cmd_hash c) = key_hash c"
| "command_key (Cmd_list c) = key_list c"
| "command_key (Cmd_set c) = key_set c"
| "command_key (Cmd_zset c) = key_zset c"
| "command_key (Cmd_hll c) = key_hll c"
| "command_key (Cmd_bitmap c) = key_bitmap c"
| "command_key (Cmd_stream c) = key_stream c"
| "command_key (Cmd_script c) = key_script c"
| "command_key (Cmd_trans c) = key_trans c"
| "command_key (Cmd_generic c) = key_generic c"

lemmas key_defs [api_simps] = command_key.simps key_server.simps key_string.simps key_hash.simps key_list.simps key_set.simps key_zset.simps key_hll.simps key_bitmap.simps key_stream.simps key_script.simps key_trans.simps key_generic.simps

end
