(* ===== verification/Commands_Chain.thy ===== *)
theory Commands_Chain
  imports Commands
begin

text \<open>
  The same methods written again for chaining (include/RedisCommander.hpp): on
  \<open>CommandAwaiter\<close>, which makes a pipeline of two commands, and on
  \<open>RedisCommandOperation\<close>, which appends to a pipeline, there for a single server. The
  overloads for lvalues and rvalues have the same text.
\<close>

section \<open>The words of \<open>CommandAwaiter\<close>\<close>

fun awaiter_server :: "(u64 \<Rightarrow> string) \<Rightarrow> server_command \<Rightarrow> string list option" where
  "awaiter_server _ C_ping = Some [''PING'']"
| "awaiter_server _ (C_select index) = Some [''SELECT'', to_chars_nat index]"
| "awaiter_server _ (C_flushall async) = Some [''FLUSHALL'', if async then ''ASYNC'' else ''SYNC'']"
| "awaiter_server _ (C_flushdb async) = Some [''FLUSHDB'', if async then ''ASYNC'' else ''SYNC'']"
| "awaiter_server _ C_dbsize = Some [''DBSIZE'']"
| "awaiter_server _ C_save = Some [''SAVE'']"
| "awaiter_server _ (C_shutdown args) = Some ([''SHUTDOWN''] @ args)"
| "awaiter_server _ (C_publish channel message) = Some [''PUBLISH'', channel, message]"
| "awaiter_server _ (C_spublish shardchannel message) = Some [''SPUBLISH'', shardchannel, message]"

fun awaiter_string :: "(u64 \<Rightarrow> string) \<Rightarrow> string_command \<Rightarrow> string list option" where
  "awaiter_string _ (C_append key value) = Some [''APPEND'', key, value]"
| "awaiter_string _ (C_decr key) = Some [''DECR'', key]"
| "awaiter_string _ (C_decrby key decrement) = Some [''DECRBY'', key, to_chars_int decrement]"
| "awaiter_string _ (C_get key) = Some [''GET'', key]"
| "awaiter_string _ (C_getdel key) = Some [''GETDEL'', key]"
| "awaiter_string _ (C_getex key args) = Some ([''GETEX'', key] @ args)"
| "awaiter_string _ (C_getrange key start end_pos) = Some [''GETRANGE'', key, to_chars_int start, to_chars_int end_pos]"
| "awaiter_string _ (C_incr key) = Some [''INCR'', key]"
| "awaiter_string _ (C_incrby key increment) = Some [''INCRBY'', key, to_chars_int increment]"
| "awaiter_string dtext (C_incrbyfloat key increment) = Some [''INCRBYFLOAT'', key, dtext increment]"
| "awaiter_string _ (C_lcs key1 key2 args) = Some ([''LCS'', key1, key2] @ args)"
| "awaiter_string _ (C_mget first_key other_keys) = Some ([''MGET'', first_key] @ other_keys)"
| "awaiter_string _ (C_mset args) = Some ([''MSET''] @ args)"
| "awaiter_string _ (C_msetnx args) = Some ([''MSETNX''] @ args)"
| "awaiter_string _ (C_psetex key milliseconds value) = Some [''PSETEX'', key, to_chars_int milliseconds, value]"
| "awaiter_string _ (C_set key value args) = Some ([''SET'', key, value] @ args)"
| "awaiter_string _ (C_setex key seconds value) = Some [''SETEX'', key, to_chars_int seconds, value]"
| "awaiter_string _ (C_setnx key value) = Some [''SETNX'', key, value]"
| "awaiter_string _ (C_setrange key offset value) = Some [''SETRANGE'', key, to_chars_int offset, value]"
| "awaiter_string _ (C_strlen key) = Some [''STRLEN'', key]"

fun awaiter_hash :: "(u64 \<Rightarrow> string) \<Rightarrow> hash_command \<Rightarrow> string list option" where
  "awaiter_hash _ (C_hdel key first_field other_fields) = Some ([''HDEL'', key, first_field] @ other_fields)"
| "awaiter_hash _ (C_hexists key field) = Some [''HEXISTS'', key, field]"
| "awaiter_hash _ (C_hexpire key seconds fields) = Some ([''HEXPIRE'', key, to_chars_int seconds] @ fields)"
| "awaiter_hash _ (C_hexpireat key timestamp fields) = Some ([''HEXPIREAT'', key, to_chars_int timestamp] @ fields)"
| "awaiter_hash _ (C_hexpiretime key fields) = Some ([''HEXPIRETIME'', key] @ fields)"
| "awaiter_hash _ (C_hget key field) = Some [''HGET'', key, field]"
| "awaiter_hash _ (C_hgetall key) = Some [''HGETALL'', key]"
| "awaiter_hash _ (C_hgetdel key field) = Some [''HGETDEL'', key, field]"
| "awaiter_hash _ (C_hgetex key field args) = Some ([''HGETEX'', key, field] @ args)"
| "awaiter_hash _ (C_hincrby key field increment) = Some [''HINCRBY'', key, field, to_chars_int increment]"
| "awaiter_hash dtext (C_hincrbyfloat key field increment) = Some [''HINCRBYFLOAT'', key, field, dtext increment]"
| "awaiter_hash _ (C_hkeys key) = Some [''HKEYS'', key]"
| "awaiter_hash _ (C_hlen key) = Some [''HLEN'', key]"
| "awaiter_hash _ (C_hmget key first_field other_fields) = Some ([''HMGET'', key, first_field] @ other_fields)"
| "awaiter_hash _ (C_hpersist key fields) = Some ([''HPERSIST'', key] @ fields)"
| "awaiter_hash _ (C_hpexpire key milliseconds fields) = Some ([''HPEXPIRE'', key, to_chars_int milliseconds] @ fields)"
| "awaiter_hash _ (C_hpexpireat key milliseconds_timestamp fields) = Some ([''HPEXPIREAT'', key, to_chars_int milliseconds_timestamp] @ fields)"
| "awaiter_hash _ (C_hpexpiretime key fields) = Some ([''HPEXPIRETIME'', key] @ fields)"
| "awaiter_hash _ (C_hpttl key fields) = Some ([''HPTTL'', key] @ fields)"
| "awaiter_hash _ (C_hrandfield key args) = Some ([''HRANDFIELD'', key] @ args)"
| "awaiter_hash _ (C_hscan key cursor args) = Some ([''HSCAN'', key, to_chars_int cursor] @ args)"
| "awaiter_hash _ (C_hset key args) = Some ([''HSET'', key] @ args)"
| "awaiter_hash _ (C_hsetex key args) = Some ([''HSETEX'', key] @ args)"
| "awaiter_hash _ (C_hsetnx key field value) = Some [''HSETNX'', key, field, value]"
| "awaiter_hash _ (C_hstrlen key field) = Some [''HSTRLEN'', key, field]"
| "awaiter_hash _ (C_httl key fields) = Some ([''HTTL'', key] @ fields)"
| "awaiter_hash _ (C_hvals key) = Some [''HVALS'', key]"

fun awaiter_list :: "(u64 \<Rightarrow> string) \<Rightarrow> list_command \<Rightarrow> string list option" where
  "awaiter_list dtext (C_blmove source destination wherefrom whereto timeout) = Some [''BLMOVE'', source, destination, wherefrom, whereto, dtext timeout]"
| "awaiter_list dtext (C_blmpop timeout numkeys first_key args) = Some ([''BLMPOP'', dtext timeout, to_chars_int numkeys, first_key] @ args)"
| "awaiter_list _ (C_blpop first_key other_keys_and_timeout) = Some ([''BLPOP'', first_key] @ other_keys_and_timeout)"
| "awaiter_list _ (C_brpop first_key other_keys_and_timeout) = Some ([''BRPOP'', first_key] @ other_keys_and_timeout)"
| "awaiter_list _ (C_lindex key index) = Some [''LINDEX'', key, to_chars_int index]"
| "awaiter_list _ (C_linsert key position pivot element) = Some [''LINSERT'', key, position, pivot, element]"
| "awaiter_list _ (C_llen key) = Some [''LLEN'', key]"
| "awaiter_list _ (C_lmove source destination wherefrom whereto) = Some [''LMOVE'', source, destination, wherefrom, whereto]"
| "awaiter_list _ (C_lmpop numkeys first_key args) = Some ([''LMPOP'', to_chars_int numkeys, first_key] @ args)"
| "awaiter_list _ (C_lpop key count) = Some ([''LPOP'', key] @ count)"
| "awaiter_list _ (C_lpos key element args) = Some ([''LPOS'', key, element] @ args)"
| "awaiter_list _ (C_lpush key first_val other_vals) = Some ([''LPUSH'', key, first_val] @ other_vals)"
| "awaiter_list _ (C_lpushx key first_val other_vals) = Some ([''LPUSHX'', key, first_val] @ other_vals)"
| "awaiter_list _ (C_lrange key start stop) = Some [''LRANGE'', key, to_chars_int start, to_chars_int stop]"
| "awaiter_list _ (C_lrem key count element) = Some [''LREM'', key, to_chars_int count, element]"
| "awaiter_list _ (C_lset key index element) = Some [''LSET'', key, to_chars_int index, element]"
| "awaiter_list _ (C_ltrim key start stop) = Some [''LTRIM'', key, to_chars_int start, to_chars_int stop]"
| "awaiter_list _ (C_rpop key) = Some [''RPOP'', key]"
| "awaiter_list _ (C_rpush key first_val other_vals) = Some ([''RPUSH'', key, first_val] @ other_vals)"
| "awaiter_list _ (C_rpushx key first_val other_vals) = Some ([''RPUSHX'', key, first_val] @ other_vals)"

fun awaiter_set :: "(u64 \<Rightarrow> string) \<Rightarrow> set_command \<Rightarrow> string list option" where
  "awaiter_set _ (C_sadd key first_member other_members) = Some ([''SADD'', key, first_member] @ other_members)"
| "awaiter_set _ (C_scard key) = Some [''SCARD'', key]"
| "awaiter_set _ (C_sdiff first_key other_keys) = Some ([''SDIFF'', first_key] @ other_keys)"
| "awaiter_set _ (C_sdiffstore destination first_key other_keys) = Some ([''SDIFFSTORE'', destination, first_key] @ other_keys)"
| "awaiter_set _ (C_sinter first_key other_keys) = Some ([''SINTER'', first_key] @ other_keys)"
| "awaiter_set _ (C_sintercard numkeys first_key args) = Some ([''SINTERCARD'', to_chars_int numkeys, first_key] @ args)"
| "awaiter_set _ (C_sinterstore destination first_key other_keys) = Some ([''SINTERSTORE'', destination, first_key] @ other_keys)"
| "awaiter_set _ (C_sismember key the_member) = Some [''SISMEMBER'', key, the_member]"
| "awaiter_set _ (C_smembers key) = Some [''SMEMBERS'', key]"
| "awaiter_set _ (C_smismember key first_member other_members) = Some ([''SMISMEMBER'', key, first_member] @ other_members)"
| "awaiter_set _ (C_smove source destination the_member) = Some [''SMOVE'', source, destination, the_member]"
| "awaiter_set _ (C_spop key count) = Some ([''SPOP'', key] @ count)"
| "awaiter_set _ (C_srandmember key count) = Some ([''SRANDMEMBER'', key] @ count)"
| "awaiter_set _ (C_srem key first_member other_members) = Some ([''SREM'', key, first_member] @ other_members)"
| "awaiter_set _ (C_sscan key cursor args) = Some ([''SSCAN'', key, to_chars_int cursor] @ args)"
| "awaiter_set _ (C_sunion first_key other_keys) = Some ([''SUNION'', first_key] @ other_keys)"
| "awaiter_set _ (C_sunionstore destination first_key other_keys) = Some ([''SUNIONSTORE'', destination, first_key] @ other_keys)"

fun awaiter_zset :: "(u64 \<Rightarrow> string) \<Rightarrow> zset_command \<Rightarrow> string list option" where
  "awaiter_zset _ (C_zadd key args) = Some ([''ZADD'', key] @ args)"
| "awaiter_zset _ (C_zcard key) = Some [''ZCARD'', key]"
| "awaiter_zset dtext (C_zcount key lower upper) = Some [''ZCOUNT'', key, dtext lower, dtext upper]"
| "awaiter_zset _ (C_zdiff numkeys first_key other_keys) = Some ([''ZDIFF'', to_chars_nat numkeys, first_key] @ other_keys)"
| "awaiter_zset _ (C_zdiffstore destination numkeys first_key other_keys) = Some ([''ZDIFFSTORE'', destination, to_chars_nat numkeys, first_key] @ other_keys)"
| "awaiter_zset dtext (C_zincrby key increment the_member) = Some [''ZINCRBY'', key, dtext increment, the_member]"
| "awaiter_zset _ (C_zinter numkeys first_key other_keys) = Some ([''ZINTER'', to_chars_nat numkeys, first_key] @ other_keys)"
| "awaiter_zset _ (C_zintercard numkeys first_key args) = Some ([''ZINTERCARD'', to_chars_nat numkeys, first_key] @ args)"
| "awaiter_zset _ (C_zmpop numkeys first_key args) = Some ([''ZMPOP'', to_chars_nat numkeys, first_key] @ args)"
| "awaiter_zset _ (C_zmscore key first_member other_members) = Some ([''ZMSCORE'', key, first_member] @ other_members)"
| "awaiter_zset _ (C_zrandmember key args) = Some ([''ZRANDMEMBER'', key] @ args)"
| "awaiter_zset _ (C_zrange key start stop options) = Some ([''ZRANGE'', key, start, stop] @ options)"
| "awaiter_zset _ (C_zrank key the_member args) = Some ([''ZRANK'', key, the_member] @ args)"
| "awaiter_zset _ (C_zrem key first_member other_members) = Some ([''ZREM'', key, first_member] @ other_members)"
| "awaiter_zset _ (C_zscan key cursor args) = Some ([''ZSCAN'', key, to_chars_nat cursor] @ args)"
| "awaiter_zset _ (C_zscore key the_member) = Some [''ZSCORE'', key, the_member]"
| "awaiter_zset _ (C_zunion numkeys first_key other_keys) = Some ([''ZUNION'', to_chars_nat numkeys, first_key] @ other_keys)"
| "awaiter_zset _ (C_zunionstore destination numkeys first_key other_keys) = Some ([''ZUNIONSTORE'', destination, to_chars_nat numkeys, first_key] @ other_keys)"

fun awaiter_hll :: "(u64 \<Rightarrow> string) \<Rightarrow> hll_command \<Rightarrow> string list option" where
  "awaiter_hll _ (C_pfadd key elements) = Some ([''PFADD'', key] @ elements)"
| "awaiter_hll _ (C_pfcount first_key other_keys) = Some ([''PFCOUNT'', first_key] @ other_keys)"
| "awaiter_hll _ (C_pfmerge destkey first_srckey other_srckeys) = Some ([''PFMERGE'', destkey, first_srckey] @ other_srckeys)"

fun awaiter_bitmap :: "(u64 \<Rightarrow> string) \<Rightarrow> bitmap_command \<Rightarrow> string list option" where
  "awaiter_bitmap _ (C_setbit key offset value) = Some [''SETBIT'', key, to_chars_nat offset, value]"
| "awaiter_bitmap _ (C_getbit key offset) = Some [''GETBIT'', key, to_chars_nat offset]"
| "awaiter_bitmap _ (C_bitcount key start stop args) = Some ([''BITCOUNT'', key, to_chars_int start, to_chars_int stop] @ args)"
| "awaiter_bitmap _ (C_bitpos key the_bit args) = Some ([''BITPOS'', key, the_bit] @ args)"
| "awaiter_bitmap _ (C_bitop operation destkey first_srckey other_srckeys) = Some ([''BITOP'', operation, destkey, first_srckey] @ other_srckeys)"
| "awaiter_bitmap _ (C_bitfield key args) = Some ([''BITFIELD'', key] @ args)"
| "awaiter_bitmap _ (C_bitfield_ro key args) = Some ([''BITFIELD_RO'', key] @ args)"

fun awaiter_stream :: "(u64 \<Rightarrow> string) \<Rightarrow> stream_command \<Rightarrow> string list option" where
  "awaiter_stream _ (C_xadd key args) = Some ([''XADD'', key] @ args)"
| "awaiter_stream _ (C_xack key group_name first_id other_ids) = Some ([''XACK'', key, group_name, first_id] @ other_ids)"
| "awaiter_stream _ (C_xautoclaim key group_name consumer min_idle_time start args) = Some ([''XAUTOCLAIM'', key, group_name, consumer, to_chars_nat min_idle_time, start] @ args)"
| "awaiter_stream _ (C_xdel key first_id other_ids) = Some ([''XDEL'', key, first_id] @ other_ids)"
| "awaiter_stream _ (C_xgroup_create key group_name the_id args) = Some ([''XGROUP'', ''CREATE'', key, group_name, the_id] @ args)"
| "awaiter_stream _ (C_xgroup_createconsumer key group_name consumer) = Some [''XGROUP'', ''CREATECONSUMER'', key, group_name, consumer]"
| "awaiter_stream _ (C_xgroup_delconsumer key group_name consumer) = Some [''XGROUP'', ''DELCONSUMER'', key, group_name, consumer]"
| "awaiter_stream _ (C_xgroup_destroy key group_name) = Some [''XGROUP'', ''DESTROY'', key, group_name]"
| "awaiter_stream _ (C_xgroup_setid key group_name the_id args) = Some ([''XGROUP'', ''SETID'', key, group_name, the_id] @ args)"
| "awaiter_stream _ (C_xinfo_consumers key group_name) = Some [''XINFO'', ''CONSUMERS'', key, group_name]"
| "awaiter_stream _ (C_xinfo_groups key) = Some [''XINFO'', ''GROUPS'', key]"
| "awaiter_stream _ (C_xinfo_stream key args) = Some ([''XINFO'', ''STREAM'', key] @ args)"
| "awaiter_stream _ (C_xlen key) = Some [''XLEN'', key]"
| "awaiter_stream _ (C_xpending key group_name args) = Some ([''XPENDING'', key, group_name] @ args)"
| "awaiter_stream _ (C_xrange key start end_pos args) = Some ([''XRANGE'', key, start, end_pos] @ args)"
| "awaiter_stream _ (C_xread _) = None"
| "awaiter_stream _ (C_xreadgroup group_keyword group_name consumer args) = Some ([''XREADGROUP'', group_keyword, group_name, consumer] @ args)"
| "awaiter_stream _ (C_xtrim key args) = Some ([''XTRIM'', key] @ args)"

fun awaiter_script :: "(u64 \<Rightarrow> string) \<Rightarrow> script_command \<Rightarrow> string list option" where
  "awaiter_script _ (C_eval script numkeys args) = Some ([''EVAL'', script, to_chars_nat numkeys] @ args)"
| "awaiter_script _ (C_evalsha sha1 numkeys args) = Some ([''EVALSHA'', sha1, to_chars_nat numkeys] @ args)"
| "awaiter_script _ (C_script_load script) = Some [''SCRIPT'', ''LOAD'', script]"

fun awaiter_trans :: "(u64 \<Rightarrow> string) \<Rightarrow> trans_command \<Rightarrow> string list option" where
  "awaiter_trans _ (C_watch first_key other_keys) = Some ([''WATCH'', first_key] @ other_keys)"
| "awaiter_trans _ (C_unwatch _) = Some [''UNWATCH'']"
| "awaiter_trans _ (C_multi _) = None"
| "awaiter_trans _ C_exec = Some [''EXEC'']"

fun awaiter_generic :: "(u64 \<Rightarrow> string) \<Rightarrow> generic_command \<Rightarrow> string list option" where
  "awaiter_generic _ (C_copy source destination args) = Some ([''COPY'', source, destination] @ args)"
| "awaiter_generic _ (C_del first_key other_keys) = Some ([''DEL'', first_key] @ other_keys)"
| "awaiter_generic _ (C_dump key) = Some [''DUMP'', key]"
| "awaiter_generic _ (C_exists key) = Some [''EXISTS'', key]"
| "awaiter_generic _ (C_expire key seconds args) = Some ([''EXPIRE'', key, to_chars_nat seconds] @ args)"
| "awaiter_generic _ (C_expireat key unix_time_seconds args) = Some ([''EXPIREAT'', key, to_chars_nat unix_time_seconds] @ args)"
| "awaiter_generic _ (C_expiretime key) = Some [''EXPIRETIME'', key]"
| "awaiter_generic _ (C_keys pattern) = Some [''KEYS'', pattern]"
| "awaiter_generic _ (C_move key db) = Some [''MOVE'', key, to_chars_nat db]"
| "awaiter_generic _ (C_persist key) = Some [''PERSIST'', key]"
| "awaiter_generic _ (C_pexpire key milliseconds args) = Some ([''PEXPIRE'', key, to_chars_nat milliseconds] @ args)"
| "awaiter_generic _ (C_pexpireat key unix_time_milliseconds args) = Some ([''PEXPIREAT'', key, to_chars_nat unix_time_milliseconds] @ args)"
| "awaiter_generic _ (C_pexpiretime key) = Some [''PEXPIRETIME'', key]"
| "awaiter_generic _ (C_pttl key) = Some [''PTTL'', key]"
| "awaiter_generic _ C_randomkey = Some [''RANDOMKEY'']"
| "awaiter_generic _ (C_rename key newkey) = Some [''RENAME'', key, newkey]"
| "awaiter_generic _ (C_renamenx key newkey) = Some [''RENAMENX'', key, newkey]"
| "awaiter_generic _ (C_scan cursor args) = Some ([''SCAN'', to_chars_nat cursor] @ args)"
| "awaiter_generic _ (C_sort key args) = Some ([''SORT'', key] @ args)"
| "awaiter_generic _ (C_sort_ro key args) = Some ([''SORT_RO'', key] @ args)"
| "awaiter_generic _ (C_touch first_key other_keys) = Some ([''TOUCH'', first_key] @ other_keys)"
| "awaiter_generic _ (C_ttl key) = Some [''TTL'', key]"
| "awaiter_generic _ (C_type key) = Some [''TYPE'', key]"
| "awaiter_generic _ (C_unlink first_key other_keys) = Some ([''UNLINK'', first_key] @ other_keys)"
| "awaiter_generic _ (C_wait _ _) = None"
| "awaiter_generic _ (C_waitaof _ _ _) = None"

fun awaiter_words :: "(u64 \<Rightarrow> string) \<Rightarrow> redis_command \<Rightarrow> string list option" where
  "awaiter_words dtext (Cmd_server c) = awaiter_server dtext c"
| "awaiter_words dtext (Cmd_string c) = awaiter_string dtext c"
| "awaiter_words dtext (Cmd_hash c) = awaiter_hash dtext c"
| "awaiter_words dtext (Cmd_list c) = awaiter_list dtext c"
| "awaiter_words dtext (Cmd_set c) = awaiter_set dtext c"
| "awaiter_words dtext (Cmd_zset c) = awaiter_zset dtext c"
| "awaiter_words dtext (Cmd_hll c) = awaiter_hll dtext c"
| "awaiter_words dtext (Cmd_bitmap c) = awaiter_bitmap dtext c"
| "awaiter_words dtext (Cmd_stream c) = awaiter_stream dtext c"
| "awaiter_words dtext (Cmd_script c) = awaiter_script dtext c"
| "awaiter_words dtext (Cmd_trans c) = awaiter_trans dtext c"
| "awaiter_words dtext (Cmd_generic c) = awaiter_generic dtext c"

lemmas awaiter_defs [api_simps] = awaiter_words.simps awaiter_server.simps awaiter_string.simps awaiter_hash.simps awaiter_list.simps awaiter_set.simps awaiter_zset.simps awaiter_hll.simps awaiter_bitmap.simps awaiter_stream.simps awaiter_script.simps awaiter_trans.simps awaiter_generic.simps

section \<open>The words of \<open>RedisCommandOperation\<close>\<close>

text \<open>\<open>zmpop\<close> forwards to \<open>_zintercard\<close>, as the source has it.\<close>

fun operation_server :: "(u64 \<Rightarrow> string) \<Rightarrow> server_command \<Rightarrow> string list option" where
  "operation_server _ C_ping = Some [''PING'']"
| "operation_server _ (C_select index) = Some [''SELECT'', to_chars_nat index]"
| "operation_server _ (C_flushall async) = Some [''FLUSHALL'', if async then ''ASYNC'' else ''SYNC'']"
| "operation_server _ (C_flushdb async) = Some [''FLUSHDB'', if async then ''ASYNC'' else ''SYNC'']"
| "operation_server _ C_dbsize = Some [''DBSIZE'']"
| "operation_server _ C_save = Some [''SAVE'']"
| "operation_server _ (C_shutdown args) = Some ([''SHUTDOWN''] @ args)"
| "operation_server _ (C_publish channel message) = Some [''PUBLISH'', channel, message]"
| "operation_server _ (C_spublish shardchannel message) = Some [''SPUBLISH'', shardchannel, message]"

fun operation_string :: "(u64 \<Rightarrow> string) \<Rightarrow> string_command \<Rightarrow> string list option" where
  "operation_string _ (C_append key value) = Some [''APPEND'', key, value]"
| "operation_string _ (C_decr key) = Some [''DECR'', key]"
| "operation_string _ (C_decrby key decrement) = Some [''DECRBY'', key, to_chars_int decrement]"
| "operation_string _ (C_get key) = Some [''GET'', key]"
| "operation_string _ (C_getdel key) = Some [''GETDEL'', key]"
| "operation_string _ (C_getex key args) = Some ([''GETEX'', key] @ args)"
| "operation_string _ (C_getrange key start end_pos) = Some [''GETRANGE'', key, to_chars_int start, to_chars_int end_pos]"
| "operation_string _ (C_incr key) = Some [''INCR'', key]"
| "operation_string _ (C_incrby key increment) = Some [''INCRBY'', key, to_chars_int increment]"
| "operation_string dtext (C_incrbyfloat key increment) = Some [''INCRBYFLOAT'', key, dtext increment]"
| "operation_string _ (C_lcs key1 key2 args) = Some ([''LCS'', key1, key2] @ args)"
| "operation_string _ (C_mget first_key other_keys) = Some ([''MGET'', first_key] @ other_keys)"
| "operation_string _ (C_mset args) = Some ([''MSET''] @ args)"
| "operation_string _ (C_msetnx args) = Some ([''MSETNX''] @ args)"
| "operation_string _ (C_psetex key milliseconds value) = Some [''PSETEX'', key, to_chars_int milliseconds, value]"
| "operation_string _ (C_set key value args) = Some ([''SET'', key, value] @ args)"
| "operation_string _ (C_setex key seconds value) = Some [''SETEX'', key, to_chars_int seconds, value]"
| "operation_string _ (C_setnx key value) = Some [''SETNX'', key, value]"
| "operation_string _ (C_setrange key offset value) = Some [''SETRANGE'', key, to_chars_int offset, value]"
| "operation_string _ (C_strlen key) = Some [''STRLEN'', key]"

fun operation_hash :: "(u64 \<Rightarrow> string) \<Rightarrow> hash_command \<Rightarrow> string list option" where
  "operation_hash _ (C_hdel key first_field other_fields) = Some ([''HDEL'', key, first_field] @ other_fields)"
| "operation_hash _ (C_hexists key field) = Some [''HEXISTS'', key, field]"
| "operation_hash _ (C_hexpire key seconds fields) = Some ([''HEXPIRE'', key, to_chars_int seconds] @ fields)"
| "operation_hash _ (C_hexpireat key timestamp fields) = Some ([''HEXPIREAT'', key, to_chars_int timestamp] @ fields)"
| "operation_hash _ (C_hexpiretime key fields) = Some ([''HEXPIRETIME'', key] @ fields)"
| "operation_hash _ (C_hget key field) = Some [''HGET'', key, field]"
| "operation_hash _ (C_hgetall key) = Some [''HGETALL'', key]"
| "operation_hash _ (C_hgetdel key field) = Some [''HGETDEL'', key, field]"
| "operation_hash _ (C_hgetex key field args) = Some ([''HGETEX'', key, field] @ args)"
| "operation_hash _ (C_hincrby key field increment) = Some [''HINCRBY'', key, field, to_chars_int increment]"
| "operation_hash dtext (C_hincrbyfloat key field increment) = Some [''HINCRBYFLOAT'', key, field, dtext increment]"
| "operation_hash _ (C_hkeys key) = Some [''HKEYS'', key]"
| "operation_hash _ (C_hlen key) = Some [''HLEN'', key]"
| "operation_hash _ (C_hmget key first_field other_fields) = Some ([''HMGET'', key, first_field] @ other_fields)"
| "operation_hash _ (C_hpersist key fields) = Some ([''HPERSIST'', key] @ fields)"
| "operation_hash _ (C_hpexpire key milliseconds fields) = Some ([''HPEXPIRE'', key, to_chars_int milliseconds] @ fields)"
| "operation_hash _ (C_hpexpireat key milliseconds_timestamp fields) = Some ([''HPEXPIREAT'', key, to_chars_int milliseconds_timestamp] @ fields)"
| "operation_hash _ (C_hpexpiretime key fields) = Some ([''HPEXPIRETIME'', key] @ fields)"
| "operation_hash _ (C_hpttl key fields) = Some ([''HPTTL'', key] @ fields)"
| "operation_hash _ (C_hrandfield key args) = Some ([''HRANDFIELD'', key] @ args)"
| "operation_hash _ (C_hscan key cursor args) = Some ([''HSCAN'', key, to_chars_int cursor] @ args)"
| "operation_hash _ (C_hset key args) = Some ([''HSET'', key] @ args)"
| "operation_hash _ (C_hsetex key args) = Some ([''HSETEX'', key] @ args)"
| "operation_hash _ (C_hsetnx key field value) = Some [''HSETNX'', key, field, value]"
| "operation_hash _ (C_hstrlen key field) = Some [''HSTRLEN'', key, field]"
| "operation_hash _ (C_httl key fields) = Some ([''HTTL'', key] @ fields)"
| "operation_hash _ (C_hvals key) = Some [''HVALS'', key]"

fun operation_list :: "(u64 \<Rightarrow> string) \<Rightarrow> list_command \<Rightarrow> string list option" where
  "operation_list dtext (C_blmove source destination wherefrom whereto timeout) = Some [''BLMOVE'', source, destination, wherefrom, whereto, dtext timeout]"
| "operation_list dtext (C_blmpop timeout numkeys first_key args) = Some ([''BLMPOP'', dtext timeout, to_chars_int numkeys, first_key] @ args)"
| "operation_list _ (C_blpop first_key other_keys_and_timeout) = Some ([''BLPOP'', first_key] @ other_keys_and_timeout)"
| "operation_list _ (C_brpop first_key other_keys_and_timeout) = Some ([''BRPOP'', first_key] @ other_keys_and_timeout)"
| "operation_list _ (C_lindex key index) = Some [''LINDEX'', key, to_chars_int index]"
| "operation_list _ (C_linsert key position pivot element) = Some [''LINSERT'', key, position, pivot, element]"
| "operation_list _ (C_llen key) = Some [''LLEN'', key]"
| "operation_list _ (C_lmove source destination wherefrom whereto) = Some [''LMOVE'', source, destination, wherefrom, whereto]"
| "operation_list _ (C_lmpop numkeys first_key args) = Some ([''LMPOP'', to_chars_int numkeys, first_key] @ args)"
| "operation_list _ (C_lpop key count) = Some ([''LPOP'', key] @ count)"
| "operation_list _ (C_lpos key element args) = Some ([''LPOS'', key, element] @ args)"
| "operation_list _ (C_lpush key first_val other_vals) = Some ([''LPUSH'', key, first_val] @ other_vals)"
| "operation_list _ (C_lpushx key first_val other_vals) = Some ([''LPUSHX'', key, first_val] @ other_vals)"
| "operation_list _ (C_lrange key start stop) = Some [''LRANGE'', key, to_chars_int start, to_chars_int stop]"
| "operation_list _ (C_lrem key count element) = Some [''LREM'', key, to_chars_int count, element]"
| "operation_list _ (C_lset key index element) = Some [''LSET'', key, to_chars_int index, element]"
| "operation_list _ (C_ltrim key start stop) = Some [''LTRIM'', key, to_chars_int start, to_chars_int stop]"
| "operation_list _ (C_rpop key) = Some [''RPOP'', key]"
| "operation_list _ (C_rpush key first_val other_vals) = Some ([''RPUSH'', key, first_val] @ other_vals)"
| "operation_list _ (C_rpushx key first_val other_vals) = Some ([''RPUSHX'', key, first_val] @ other_vals)"

fun operation_set :: "(u64 \<Rightarrow> string) \<Rightarrow> set_command \<Rightarrow> string list option" where
  "operation_set _ (C_sadd key first_member other_members) = Some ([''SADD'', key, first_member] @ other_members)"
| "operation_set _ (C_scard key) = Some [''SCARD'', key]"
| "operation_set _ (C_sdiff first_key other_keys) = Some ([''SDIFF'', first_key] @ other_keys)"
| "operation_set _ (C_sdiffstore destination first_key other_keys) = Some ([''SDIFFSTORE'', destination, first_key] @ other_keys)"
| "operation_set _ (C_sinter first_key other_keys) = Some ([''SINTER'', first_key] @ other_keys)"
| "operation_set _ (C_sintercard numkeys first_key args) = Some ([''SINTERCARD'', to_chars_int numkeys, first_key] @ args)"
| "operation_set _ (C_sinterstore destination first_key other_keys) = Some ([''SINTERSTORE'', destination, first_key] @ other_keys)"
| "operation_set _ (C_sismember key the_member) = Some [''SISMEMBER'', key, the_member]"
| "operation_set _ (C_smembers key) = Some [''SMEMBERS'', key]"
| "operation_set _ (C_smismember key first_member other_members) = Some ([''SMISMEMBER'', key, first_member] @ other_members)"
| "operation_set _ (C_smove source destination the_member) = Some [''SMOVE'', source, destination, the_member]"
| "operation_set _ (C_spop key count) = Some ([''SPOP'', key] @ count)"
| "operation_set _ (C_srandmember key count) = Some ([''SRANDMEMBER'', key] @ count)"
| "operation_set _ (C_srem key first_member other_members) = Some ([''SREM'', key, first_member] @ other_members)"
| "operation_set _ (C_sscan key cursor args) = Some ([''SSCAN'', key, to_chars_int cursor] @ args)"
| "operation_set _ (C_sunion first_key other_keys) = Some ([''SUNION'', first_key] @ other_keys)"
| "operation_set _ (C_sunionstore destination first_key other_keys) = Some ([''SUNIONSTORE'', destination, first_key] @ other_keys)"

fun operation_zset :: "(u64 \<Rightarrow> string) \<Rightarrow> zset_command \<Rightarrow> string list option" where
  "operation_zset _ (C_zadd key args) = Some ([''ZADD'', key] @ args)"
| "operation_zset _ (C_zcard key) = Some [''ZCARD'', key]"
| "operation_zset dtext (C_zcount key lower upper) = Some [''ZCOUNT'', key, dtext lower, dtext upper]"
| "operation_zset _ (C_zdiff numkeys first_key other_keys) = Some ([''ZDIFF'', to_chars_nat numkeys, first_key] @ other_keys)"
| "operation_zset _ (C_zdiffstore destination numkeys first_key other_keys) = Some ([''ZDIFFSTORE'', destination, to_chars_nat numkeys, first_key] @ other_keys)"
| "operation_zset dtext (C_zincrby key increment the_member) = Some [''ZINCRBY'', key, dtext increment, the_member]"
| "operation_zset _ (C_zinter numkeys first_key other_keys) = Some ([''ZINTER'', to_chars_nat numkeys, first_key] @ other_keys)"
| "operation_zset _ (C_zintercard numkeys first_key args) = Some ([''ZINTERCARD'', to_chars_nat numkeys, first_key] @ args)"
| "operation_zset _ (C_zmpop numkeys first_key args) = Some ([''ZINTERCARD'', to_chars_nat numkeys, first_key] @ args)"
| "operation_zset _ (C_zmscore key first_member other_members) = Some ([''ZMSCORE'', key, first_member] @ other_members)"
| "operation_zset _ (C_zrandmember key args) = Some ([''ZRANDMEMBER'', key] @ args)"
| "operation_zset _ (C_zrange key start stop options) = Some ([''ZRANGE'', key, start, stop] @ options)"
| "operation_zset _ (C_zrank key the_member args) = Some ([''ZRANK'', key, the_member] @ args)"
| "operation_zset _ (C_zrem key first_member other_members) = Some ([''ZREM'', key, first_member] @ other_members)"
| "operation_zset _ (C_zscan key cursor args) = Some ([''ZSCAN'', key, to_chars_nat cursor] @ args)"
| "operation_zset _ (C_zscore key the_member) = Some [''ZSCORE'', key, the_member]"
| "operation_zset _ (C_zunion numkeys first_key other_keys) = Some ([''ZUNION'', to_chars_nat numkeys, first_key] @ other_keys)"
| "operation_zset _ (C_zunionstore destination numkeys first_key other_keys) = Some ([''ZUNIONSTORE'', destination, to_chars_nat numkeys, first_key] @ other_keys)"

fun operation_hll :: "(u64 \<Rightarrow> string) \<Rightarrow> hll_command \<Rightarrow> string list option" where
  "operation_hll _ (C_pfadd key elements) = Some ([''PFADD'', key] @ elements)"
| "operation_hll _ (C_pfcount first_key other_keys) = Some ([''PFCOUNT'', first_key] @ other_keys)"
| "operation_hll _ (C_pfmerge destkey first_srckey other_srckeys) = Some ([''PFMERGE'', destkey, first_srckey] @ other_srckeys)"

fun operation_bitmap :: "(u64 \<Rightarrow> string) \<Rightarrow> bitmap_command \<Rightarrow> string list option" where
  "operation_bitmap _ (C_setbit key offset value) = Some [''SETBIT'', key, to_chars_nat offset, value]"
| "operation_bitmap _ (C_getbit key offset) = Some [''GETBIT'', key, to_chars_nat offset]"
| "operation_bitmap _ (C_bitcount key start stop args) = Some ([''BITCOUNT'', key, to_chars_int start, to_chars_int stop] @ args)"
| "operation_bitmap _ (C_bitpos key the_bit args) = Some ([''BITPOS'', key, the_bit] @ args)"
| "operation_bitmap _ (C_bitop operation destkey first_srckey other_srckeys) = Some ([''BITOP'', operation, destkey, first_srckey] @ other_srckeys)"
| "operation_bitmap _ (C_bitfield key args) = Some ([''BITFIELD'', key] @ args)"
| "operation_bitmap _ (C_bitfield_ro key args) = Some ([''BITFIELD_RO'', key] @ args)"

fun operation_stream :: "(u64 \<Rightarrow> string) \<Rightarrow> stream_command \<Rightarrow> string list option" where
  "operation_stream _ (C_xadd key args) = Some ([''XADD'', key] @ args)"
| "operation_stream _ (C_xack key group_name first_id other_ids) = Some ([''XACK'', key, group_name, first_id] @ other_ids)"
| "operation_stream _ (C_xautoclaim key group_name consumer min_idle_time start args) = Some ([''XAUTOCLAIM'', key, group_name, consumer, to_chars_nat min_idle_time, start] @ args)"
| "operation_stream _ (C_xdel key first_id other_ids) = Some ([''XDEL'', key, first_id] @ other_ids)"
| "operation_stream _ (C_xgroup_create key group_name the_id args) = Some ([''XGROUP'', ''CREATE'', key, group_name, the_id] @ args)"
| "operation_stream _ (C_xgroup_createconsumer key group_name consumer) = Some [''XGROUP'', ''CREATECONSUMER'', key, group_name, consumer]"
| "operation_stream _ (C_xgroup_delconsumer key group_name consumer) = Some [''XGROUP'', ''DELCONSUMER'', key, group_name, consumer]"
| "operation_stream _ (C_xgroup_destroy key group_name) = Some [''XGROUP'', ''DESTROY'', key, group_name]"
| "operation_stream _ (C_xgroup_setid key group_name the_id args) = Some ([''XGROUP'', ''SETID'', key, group_name, the_id] @ args)"
| "operation_stream _ (C_xinfo_consumers key group_name) = Some [''XINFO'', ''CONSUMERS'', key, group_name]"
| "operation_stream _ (C_xinfo_groups key) = Some [''XINFO'', ''GROUPS'', key]"
| "operation_stream _ (C_xinfo_stream key args) = Some ([''XINFO'', ''STREAM'', key] @ args)"
| "operation_stream _ (C_xlen key) = Some [''XLEN'', key]"
| "operation_stream _ (C_xpending key group_name args) = Some ([''XPENDING'', key, group_name] @ args)"
| "operation_stream _ (C_xrange key start end_pos args) = Some ([''XRANGE'', key, start, end_pos] @ args)"
| "operation_stream _ (C_xread _) = None"
| "operation_stream _ (C_xreadgroup group_keyword group_name consumer args) = Some ([''XREADGROUP'', group_keyword, group_name, consumer] @ args)"
| "operation_stream _ (C_xtrim key args) = Some ([''XTRIM'', key] @ args)"

fun operation_script :: "(u64 \<Rightarrow> string) \<Rightarrow> script_command \<Rightarrow> string list option" where
  "operation_script _ (C_eval script numkeys args) = Some ([''EVAL'', script, to_chars_nat numkeys] @ args)"
| "operation_script _ (C_evalsha sha1 numkeys args) = Some ([''EVALSHA'', sha1, to_chars_nat numkeys] @ args)"
| "operation_script _ (C_script_load script) = Some [''SCRIPT'', ''LOAD'', script]"

fun operation_trans :: "(u64 \<Rightarrow> string) \<Rightarrow> trans_command \<Rightarrow> string list option" where
  "operation_trans _ (C_watch first_key other_keys) = Some ([''WATCH'', first_key] @ other_keys)"
| "operation_trans _ (C_unwatch _) = Some [''UNWATCH'']"
| "operation_trans _ (C_multi _) = None"
| "operation_trans _ C_exec = Some [''EXEC'']"

fun operation_generic :: "(u64 \<Rightarrow> string) \<Rightarrow> generic_command \<Rightarrow> string list option" where
  "operation_generic _ (C_copy source destination args) = Some ([''COPY'', source, destination] @ args)"
| "operation_generic _ (C_del first_key other_keys) = Some ([''DEL'', first_key] @ other_keys)"
| "operation_generic _ (C_dump key) = Some [''DUMP'', key]"
| "operation_generic _ (C_exists key) = Some [''EXISTS'', key]"
| "operation_generic _ (C_expire key seconds args) = Some ([''EXPIRE'', key, to_chars_nat seconds] @ args)"
| "operation_generic _ (C_expireat key unix_time_seconds args) = Some ([''EXPIREAT'', key, to_chars_nat unix_time_seconds] @ args)"
| "operation_generic _ (C_expiretime key) = Some [''EXPIRETIME'', key]"
| "operation_generic _ (C_keys pattern) = Some [''KEYS'', pattern]"
| "operation_generic _ (C_move key db) = Some [''MOVE'', key, to_chars_nat db]"
| "operation_generic _ (C_persist key) = Some [''PERSIST'', key]"
| "operation_generic _ (C_pexpire key milliseconds args) = Some ([''PEXPIRE'', key, to_chars_nat milliseconds] @ args)"
| "operation_generic _ (C_pexpireat key unix_time_milliseconds args) = Some ([''PEXPIREAT'', key, to_chars_nat unix_time_milliseconds] @ args)"
| "operation_generic _ (C_pexpiretime key) = Some [''PEXPIRETIME'', key]"
| "operation_generic _ (C_pttl key) = Some [''PTTL'', key]"
| "operation_generic _ C_randomkey = Some [''RANDOMKEY'']"
| "operation_generic _ (C_rename key newkey) = Some [''RENAME'', key, newkey]"
| "operation_generic _ (C_renamenx key newkey) = Some [''RENAMENX'', key, newkey]"
| "operation_generic _ (C_scan cursor args) = Some ([''SCAN'', to_chars_nat cursor] @ args)"
| "operation_generic _ (C_sort key args) = Some ([''SORT'', key] @ args)"
| "operation_generic _ (C_sort_ro key args) = Some ([''SORT_RO'', key] @ args)"
| "operation_generic _ (C_touch first_key other_keys) = Some ([''TOUCH'', first_key] @ other_keys)"
| "operation_generic _ (C_ttl key) = Some [''TTL'', key]"
| "operation_generic _ (C_type key) = Some [''TYPE'', key]"
| "operation_generic _ (C_unlink first_key other_keys) = Some ([''UNLINK'', first_key] @ other_keys)"
| "operation_generic _ (C_wait _ _) = None"
| "operation_generic _ (C_waitaof _ _ _) = None"

fun operation_words :: "(u64 \<Rightarrow> string) \<Rightarrow> redis_command \<Rightarrow> string list option" where
  "operation_words dtext (Cmd_server c) = operation_server dtext c"
| "operation_words dtext (Cmd_string c) = operation_string dtext c"
| "operation_words dtext (Cmd_hash c) = operation_hash dtext c"
| "operation_words dtext (Cmd_list c) = operation_list dtext c"
| "operation_words dtext (Cmd_set c) = operation_set dtext c"
| "operation_words dtext (Cmd_zset c) = operation_zset dtext c"
| "operation_words dtext (Cmd_hll c) = operation_hll dtext c"
| "operation_words dtext (Cmd_bitmap c) = operation_bitmap dtext c"
| "operation_words dtext (Cmd_stream c) = operation_stream dtext c"
| "operation_words dtext (Cmd_script c) = operation_script dtext c"
| "operation_words dtext (Cmd_trans c) = operation_trans dtext c"
| "operation_words dtext (Cmd_generic c) = operation_generic dtext c"

lemmas operation_defs [api_simps] = operation_words.simps operation_server.simps operation_string.simps operation_hash.simps operation_list.simps operation_set.simps operation_zset.simps operation_hll.simps operation_bitmap.simps operation_stream.simps operation_script.simps operation_trans.simps operation_generic.simps

end
