(* ===== verification/Commands_Cluster.thy ===== *)
theory Commands_Cluster
  imports Commands_Chain
begin

text \<open>
  The methods written for a cluster: on \<open>RedisCluster\<close> (include/RedisCluster.hpp) and on a
  chain of \<open>RedisCommandOperation\<close> in cluster mode (include/RedisCommander.hpp). Besides the
  words a call has a slot, computed from the word it is routed by or, for \<open>EXEC\<close>, taken
  from the first command of the chain.
\<close>

section \<open>Routing\<close>

datatype route = Route_key string | Route_first

text \<open>\<open>command(cmd, key, args...)\<close> routes by its second word; with fewer words the call does
  not compile.\<close>

fun cluster_command :: "string list \<Rightarrow> (route \<times> string list) option" where
  "cluster_command (cmd # key # args) = Some (Route_key key, cmd # key # args)"
| "cluster_command _ = None"

section \<open>The calls of \<open>RedisCluster\<close>\<close>

fun cluster_server :: "(u64 \<Rightarrow> string) \<Rightarrow> server_command \<Rightarrow> (route \<times> string list) option" where
  "cluster_server _ C_ping = None"
| "cluster_server _ (C_select _) = None"
| "cluster_server _ (C_flushall _) = None"
| "cluster_server _ (C_flushdb _) = None"
| "cluster_server _ C_dbsize = None"
| "cluster_server _ C_save = None"
| "cluster_server _ (C_shutdown _) = None"
| "cluster_server _ (C_publish channel message) = cluster_command ([''PUBLISH'', channel, message])"
| "cluster_server _ (C_spublish shardchannel message) = cluster_command ([''SPUBLISH'', shardchannel, message])"

fun cluster_string :: "(u64 \<Rightarrow> string) \<Rightarrow> string_command \<Rightarrow> (route \<times> string list) option" where
  "cluster_string _ (C_append key value) = cluster_command ([''APPEND'', key, value])"
| "cluster_string _ (C_decr key) = cluster_command ([''DECR'', key])"
| "cluster_string _ (C_decrby key decrement) = cluster_command ([''DECRBY'', key, to_chars_int decrement])"
| "cluster_string _ (C_get key) = cluster_command ([''GET'', key])"
| "cluster_string _ (C_getdel key) = cluster_command ([''GETDEL'', key])"
| "cluster_string _ (C_getex key args) = cluster_command ([''GETEX'', key] @ args)"
| "cluster_string _ (C_getrange key start end_pos) = cluster_command ([''GETRANGE'', key, to_chars_int start, to_chars_int end_pos])"
| "cluster_string _ (C_incr key) = cluster_command ([''INCR'', key])"
| "cluster_string _ (C_incrby key increment) = cluster_command ([''INCRBY'', key, to_chars_int increment])"
| "cluster_string dtext (C_incrbyfloat key increment) = cluster_command ([''INCRBYFLOAT'', key, dtext increment])"
| "cluster_string _ (C_lcs key1 key2 args) = cluster_command ([''LCS'', key1, key2] @ args)"
| "cluster_string _ (C_mget first_key other_keys) = cluster_command ([''MGET'', first_key] @ other_keys)"
| "cluster_string _ (C_mset args) = cluster_command ([''MSET''] @ args)"
| "cluster_string _ (C_msetnx args) = cluster_command ([''MSETNX''] @ args)"
| "cluster_string _ (C_psetex key milliseconds value) = cluster_command ([''PSETEX'', key, to_chars_int milliseconds, value])"
| "cluster_string _ (C_set key value args) = cluster_command ([''SET'', key, value] @ args)"
| "cluster_string _ (C_setex key seconds value) = cluster_command ([''SETEX'', key, to_chars_int seconds, value])"
| "cluster_string _ (C_setnx key value) = cluster_command ([''SETNX'', key, value])"
| "cluster_string _ (C_setrange key offset value) = cluster_command ([''SETRANGE'', key, to_chars_int offset, value])"
| "cluster_string _ (C_strlen key) = cluster_command ([''STRLEN'', key])"

fun cluster_hash :: "(u64 \<Rightarrow> string) \<Rightarrow> hash_command \<Rightarrow> (route \<times> string list) option" where
  "cluster_hash _ (C_hdel key first_field other_fields) = cluster_command ([''HDEL'', key, first_field] @ other_fields)"
| "cluster_hash _ (C_hexists key field) = cluster_command ([''HEXISTS'', key, field])"
| "cluster_hash _ (C_hexpire key seconds fields) = cluster_command ([''HEXPIRE'', key, to_chars_int seconds] @ fields)"
| "cluster_hash _ (C_hexpireat key timestamp fields) = cluster_command ([''HEXPIREAT'', key, to_chars_int timestamp] @ fields)"
| "cluster_hash _ (C_hexpiretime key fields) = cluster_command ([''HEXPIRETIME'', key] @ fields)"
| "cluster_hash _ (C_hget key field) = cluster_command ([''HGET'', key, field])"
| "cluster_hash _ (C_hgetall key) = cluster_command ([''HGETALL'', key])"
| "cluster_hash _ (C_hgetdel key field) = cluster_command ([''HGETDEL'', key, field])"
| "cluster_hash _ (C_hgetex key field args) = cluster_command ([''HGETEX'', key, field] @ args)"
| "cluster_hash _ (C_hincrby key field increment) = cluster_command ([''HINCRBY'', key, field, to_chars_int increment])"
| "cluster_hash dtext (C_hincrbyfloat key field increment) = cluster_command ([''HINCRBYFLOAT'', key, field, dtext increment])"
| "cluster_hash _ (C_hkeys key) = cluster_command ([''HKEYS'', key])"
| "cluster_hash _ (C_hlen key) = cluster_command ([''HLEN'', key])"
| "cluster_hash _ (C_hmget key first_field other_fields) = cluster_command ([''HMGET'', key, first_field] @ other_fields)"
| "cluster_hash _ (C_hpersist key fields) = cluster_command ([''HPERSIST'', key] @ fields)"
| "cluster_hash _ (C_hpexpire key milliseconds fields) = cluster_command ([''HPEXPIRE'', key, to_chars_int milliseconds] @ fields)"
| "cluster_hash _ (C_hpexpireat key milliseconds_timestamp fields) = cluster_command ([''HPEXPIREAT'', key, to_chars_int milliseconds_timestamp] @ fields)"
| "cluster_hash _ (C_hpexpiretime key fields) = cluster_command ([''HPEXPIRETIME'', key] @ fields)"
| "cluster_hash _ (C_hpttl key fields) = cluster_command ([''HPTTL'', key] @ fields)"
| "cluster_hash _ (C_hrandfield key args) = cluster_command ([''HRANDFIELD'', key] @ args)"
| "cluster_hash _ (C_hscan key cursor args) = cluster_command ([''HSCAN'', key, to_chars_int cursor] @ args)"
| "cluster_hash _ (C_hset key args) = cluster_command ([''HSET'', key] @ args)"
| "cluster_hash _ (C_hsetex key args) = cluster_command ([''HSETEX'', key] @ args)"
| "cluster_hash _ (C_hsetnx key field value) = cluster_command ([''HSETNX'', key, field, value])"
| "cluster_hash _ (C_hstrlen key field) = cluster_command ([''HSTRLEN'', key, field])"
| "cluster_hash _ (C_httl key fields) = cluster_command ([''HTTL'', key] @ fields)"
| "cluster_hash _ (C_hvals key) = cluster_command ([''HVALS'', key])"

fun cluster_list :: "(u64 \<Rightarrow> string) \<Rightarrow> list_command \<Rightarrow> (route \<times> string list) option" where
  "cluster_list dtext (C_blmove source destination wherefrom whereto timeout) = cluster_command ([''BLMOVE'', source, destination, wherefrom, whereto, dtext timeout])"
| "cluster_list dtext (C_blmpop timeout numkeys first_key args) = Some (Route_key first_key, [''BLMPOP'', dtext timeout, to_chars_int numkeys, first_key] @ args)"
| "cluster_list _ (C_blpop first_key other_keys_and_timeout) = cluster_command ([''BLPOP'', first_key] @ other_keys_and_timeout)"
| "cluster_list _ (C_brpop first_key other_keys_and_timeout) = cluster_command ([''BRPOP'', first_key] @ other_keys_and_timeout)"
| "cluster_list _ (C_lindex key index) = cluster_command ([''LINDEX'', key, to_chars_int index])"
| "cluster_list _ (C_linsert key position pivot element) = cluster_command ([''LINSERT'', key, position, pivot, element])"
| "cluster_list _ (C_llen key) = cluster_command ([''LLEN'', key])"
| "cluster_list _ (C_lmove source destination wherefrom whereto) = cluster_command ([''LMOVE'', source, destination, wherefrom, whereto])"
| "cluster_list _ (C_lmpop numkeys first_key args) = Some (Route_key first_key, [''LMPOP'', to_chars_int numkeys, first_key] @ args)"
| "cluster_list _ (C_lpop key count) = cluster_command ([''LPOP'', key] @ count)"
| "cluster_list _ (C_lpos key element args) = cluster_command ([''LPOS'', key, element] @ args)"
| "cluster_list _ (C_lpush key first_val other_vals) = cluster_command ([''LPUSH'', key, first_val] @ other_vals)"
| "cluster_list _ (C_lpushx key first_val other_vals) = cluster_command ([''LPUSHX'', key, first_val] @ other_vals)"
| "cluster_list _ (C_lrange key start stop) = cluster_command ([''LRANGE'', key, to_chars_int start, to_chars_int stop])"
| "cluster_list _ (C_lrem key count element) = cluster_command ([''LREM'', key, to_chars_int count, element])"
| "cluster_list _ (C_lset key index element) = cluster_command ([''LSET'', key, to_chars_int index, element])"
| "cluster_list _ (C_ltrim key start stop) = cluster_command ([''LTRIM'', key, to_chars_int start, to_chars_int stop])"
| "cluster_list _ (C_rpop key) = cluster_command ([''RPOP'', key])"
| "cluster_list _ (C_rpush key first_val other_vals) = cluster_command ([''RPUSH'', key, first_val] @ other_vals)"
| "cluster_list _ (C_rpushx key first_val other_vals) = cluster_command ([''RPUSHX'', key, first_val] @ other_vals)"

fun cluster_set :: "(u64 \<Rightarrow> string) \<Rightarrow> set_command \<Rightarrow> (route \<times> string list) option" where
  "cluster_set _ (C_sadd key first_member other_members) = cluster_command ([''SADD'', key, first_member] @ other_members)"
| "cluster_set _ (C_scard key) = cluster_command ([''SCARD'', key])"
| "cluster_set _ (C_sdiff first_key other_keys) = cluster_command ([''SDIFF'', first_key] @ other_keys)"
| "cluster_set _ (C_sdiffstore destination first_key other_keys) = cluster_command ([''SDIFFSTORE'', destination, first_key] @ other_keys)"
| "cluster_set _ (C_sinter first_key other_keys) = cluster_command ([''SINTER'', first_key] @ other_keys)"
| "cluster_set _ (C_sintercard numkeys first_key args) = Some (Route_key first_key, [''SINTERCARD'', to_chars_int numkeys, first_key] @ args)"
| "cluster_set _ (C_sinterstore destination first_key other_keys) = cluster_command ([''SINTERSTORE'', destination, first_key] @ other_keys)"
| "cluster_set _ (C_sismember key the_member) = cluster_command ([''SISMEMBER'', key, the_member])"
| "cluster_set _ (C_smembers key) = cluster_command ([''SMEMBERS'', key])"
| "cluster_set _ (C_smismember key first_member other_members) = cluster_command ([''SMISMEMBER'', key, first_member] @ other_members)"
| "cluster_set _ (C_smove source destination the_member) = cluster_command ([''SMOVE'', source, destination, the_member])"
| "cluster_set _ (C_spop key count) = cluster_command ([''SPOP'', key] @ count)"
| "cluster_set _ (C_srandmember key count) = cluster_command ([''SRANDMEMBER'', key] @ count)"
| "cluster_set _ (C_srem key first_member other_members) = cluster_command ([''SREM'', key, first_member] @ other_members)"
| "cluster_set _ (C_sscan key cursor args) = cluster_command ([''SSCAN'', key, to_chars_int cursor] @ args)"
| "cluster_set _ (C_sunion first_key other_keys) = cluster_command ([''SUNION'', first_key] @ other_keys)"
| "cluster_set _ (C_sunionstore destination first_key other_keys) = cluster_command ([''SUNIONSTORE'', destination, first_key] @ other_keys)"

fun cluster_zset :: "(u64 \<Rightarrow> string) \<Rightarrow> zset_command \<Rightarrow> (route \<times> string list) option" where
  "cluster_zset _ (C_zadd key args) = cluster_command ([''ZADD'', key] @ args)"
| "cluster_zset _ (C_zcard key) = cluster_command ([''ZCARD'', key])"
| "cluster_zset dtext (C_zcount key lower upper) = cluster_command ([''ZCOUNT'', key, dtext lower, dtext upper])"
| "cluster_zset _ (C_zdiff numkeys first_key other_keys) = Some (Route_key first_key, [''ZDIFF'', to_chars_nat numkeys, first_key] @ other_keys)"
| "cluster_zset _ (C_zdiffstore destination numkeys first_key other_keys) = cluster_command ([''ZDIFFSTORE'', destination, to_chars_nat numkeys, first_key] @ other_keys)"
| "cluster_zset dtext (C_zincrby key increment the_member) = cluster_command ([''ZINCRBY'', key, dtext increment, the_member])"
| "cluster_zset _ (C_zinter numkeys first_key other_keys) = Some (Route_key first_key, [''ZINTER'', to_chars_nat numkeys, first_key] @ other_keys)"
| "cluster_zset _ (C_zintercard numkeys first_key args) = Some (Route_key first_key, [''ZINTERCARD'', to_chars_nat numkeys, first_key] @ args)"
| "cluster_zset _ (C_zmpop numkeys first_key args) = Some (Route_key first_key, [''ZMPOP'', to_chars_nat numkeys, first_key] @ args)"
| "cluster_zset _ (C_zmscore key first_member other_members) = cluster_command ([''ZMSCORE'', key, first_member] @ other_members)"
| "cluster_zset _ (C_zrandmember key args) = cluster_command ([''ZRANDMEMBER'', key] @ args)"
| "cluster_zset _ (C_zrange key start stop options) = cluster_command ([''ZRANGE'', key, start, stop] @ options)"
| "cluster_zset _ (C_zrank key the_member args) = cluster_command ([''ZRANK'', key, the_member] @ args)"
| "cluster_zset _ (C_zrem key first_member other_members) = cluster_command ([''ZREM'', key, first_member] @ other_members)"
| "cluster_zset _ (C_zscan key cursor args) = cluster_command ([''ZSCAN'', key, to_chars_nat cursor] @ args)"
| "cluster_zset _ (C_zscore key the_member) = cluster_command ([''ZSCORE'', key, the_member])"
| "cluster_zset _ (C_zunion numkeys first_key other_keys) = Some (Route_key first_key, [''ZUNION'', to_chars_nat numkeys, first_key] @ other_keys)"
| "cluster_zset _ (C_zunionstore destination numkeys first_key other_keys) = cluster_command ([''ZUNIONSTORE'', destination, to_chars_nat numkeys, first_key] @ other_keys)"

fun cluster_hll :: "(u64 \<Rightarrow> string) \<Rightarrow> hll_command \<Rightarrow> (route \<times> string list) option" where
  "cluster_hll _ (C_pfadd key elements) = cluster_command ([''PFADD'', key] @ elements)"
| "cluster_hll _ (C_pfcount first_key other_keys) = cluster_command ([''PFCOUNT'', first_key] @ other_keys)"
| "cluster_hll _ (C_pfmerge destkey first_srckey other_srckeys) = cluster_command ([''PFMERGE'', destkey, first_srckey] @ other_srckeys)"

fun cluster_bitmap :: "(u64 \<Rightarrow> string) \<Rightarrow> bitmap_command \<Rightarrow> (route \<times> string list) option" where
  "cluster_bitmap _ (C_setbit key offset value) = cluster_command ([''SETBIT'', key, to_chars_nat offset, value])"
| "cluster_bitmap _ (C_getbit key offset) = cluster_command ([''GETBIT'', key, to_chars_nat offset])"
| "cluster_bitmap _ (C_bitcount key start stop args) = cluster_command ([''BITCOUNT'', key, to_chars_int start, to_chars_int stop] @ args)"
| "cluster_bitmap _ (C_bitpos key the_bit args) = cluster_command ([''BITPOS'', key, the_bit] @ args)"
| "cluster_bitmap _ (C_bitop operation destkey first_srckey other_srckeys) = Some (Route_key destkey, [''BITOP'', operation, destkey, first_srckey] @ other_srckeys)"
| "cluster_bitmap _ (C_bitfield key args) = cluster_command ([''BITFIELD'', key] @ args)"
| "cluster_bitmap _ (C_bitfield_ro key args) = cluster_command ([''BITFIELD_RO'', key] @ args)"

fun cluster_stream :: "(u64 \<Rightarrow> string) \<Rightarrow> stream_command \<Rightarrow> (route \<times> string list) option" where
  "cluster_stream _ (C_xadd key args) = cluster_command ([''XADD'', key] @ args)"
| "cluster_stream _ (C_xack key group_name first_id other_ids) = cluster_command ([''XACK'', key, group_name, first_id] @ other_ids)"
| "cluster_stream _ (C_xautoclaim key group_name consumer min_idle_time start args) = cluster_command ([''XAUTOCLAIM'', key, group_name, consumer, to_chars_nat min_idle_time, start] @ args)"
| "cluster_stream _ (C_xdel key first_id other_ids) = cluster_command ([''XDEL'', key, first_id] @ other_ids)"
| "cluster_stream _ (C_xgroup_create key group_name the_id args) = cluster_command ([''XGROUP'', ''CREATE'', key, group_name, the_id] @ args)"
| "cluster_stream _ (C_xgroup_createconsumer key group_name consumer) = cluster_command ([''XGROUP'', ''CREATECONSUMER'', key, group_name, consumer])"
| "cluster_stream _ (C_xgroup_delconsumer key group_name consumer) = cluster_command ([''XGROUP'', ''DELCONSUMER'', key, group_name, consumer])"
| "cluster_stream _ (C_xgroup_destroy key group_name) = cluster_command ([''XGROUP'', ''DESTROY'', key, group_name])"
| "cluster_stream _ (C_xgroup_setid key group_name the_id args) = cluster_command ([''XGROUP'', ''SETID'', key, group_name, the_id] @ args)"
| "cluster_stream _ (C_xinfo_consumers key group_name) = cluster_command ([''XINFO'', ''CONSUMERS'', key, group_name])"
| "cluster_stream _ (C_xinfo_groups key) = cluster_command ([''XINFO'', ''GROUPS'', key])"
| "cluster_stream _ (C_xinfo_stream key args) = cluster_command ([''XINFO'', ''STREAM'', key] @ args)"
| "cluster_stream _ (C_xlen key) = cluster_command ([''XLEN'', key])"
| "cluster_stream _ (C_xpending key group_name args) = cluster_command ([''XPENDING'', key, group_name] @ args)"
| "cluster_stream _ (C_xrange key start end_pos args) = cluster_command ([''XRANGE'', key, start, end_pos] @ args)"
| "cluster_stream _ (C_xread _) = None"
| "cluster_stream _ (C_xreadgroup group_keyword group_name consumer args) = cluster_command ([''XREADGROUP'', group_keyword, group_name, consumer] @ args)"
| "cluster_stream _ (C_xtrim key args) = cluster_command ([''XTRIM'', key] @ args)"

fun cluster_script :: "(u64 \<Rightarrow> string) \<Rightarrow> script_command \<Rightarrow> (route \<times> string list) option" where
  "cluster_script _ (C_eval script numkeys args) = cluster_command ([''EVAL'', script, to_chars_nat numkeys] @ args)"
| "cluster_script _ (C_evalsha sha1 numkeys args) = cluster_command ([''EVALSHA'', sha1, to_chars_nat numkeys] @ args)"
| "cluster_script _ (C_script_load script) = cluster_command ([''SCRIPT'', ''LOAD'', script])"

fun cluster_trans :: "(u64 \<Rightarrow> string) \<Rightarrow> trans_command \<Rightarrow> (route \<times> string list) option" where
  "cluster_trans _ (C_watch first_key other_keys) = cluster_command ([''WATCH'', first_key] @ other_keys)"
| "cluster_trans _ (C_unwatch tag) = Some (Route_key tag, [''UNWATCH''])"
| "cluster_trans _ (C_multi tag) = Some (Route_key tag, [''MULTI''])"
| "cluster_trans _ C_exec = None"

fun cluster_generic :: "(u64 \<Rightarrow> string) \<Rightarrow> generic_command \<Rightarrow> (route \<times> string list) option" where
  "cluster_generic _ (C_copy source destination args) = cluster_command ([''COPY'', source, destination] @ args)"
| "cluster_generic _ (C_del first_key other_keys) = cluster_command ([''DEL'', first_key] @ other_keys)"
| "cluster_generic _ (C_dump key) = cluster_command ([''DUMP'', key])"
| "cluster_generic _ (C_exists key) = cluster_command ([''EXISTS'', key])"
| "cluster_generic _ (C_expire key seconds args) = cluster_command ([''EXPIRE'', key, to_chars_nat seconds] @ args)"
| "cluster_generic _ (C_expireat key unix_time_seconds args) = cluster_command ([''EXPIREAT'', key, to_chars_nat unix_time_seconds] @ args)"
| "cluster_generic _ (C_expiretime key) = cluster_command ([''EXPIRETIME'', key])"
| "cluster_generic _ (C_keys pattern) = cluster_command ([''KEYS'', pattern])"
| "cluster_generic _ (C_move key db) = cluster_command ([''MOVE'', key, to_chars_nat db])"
| "cluster_generic _ (C_persist key) = cluster_command ([''PERSIST'', key])"
| "cluster_generic _ (C_pexpire key milliseconds args) = cluster_command ([''PEXPIRE'', key, to_chars_nat milliseconds] @ args)"
| "cluster_generic _ (C_pexpireat key unix_time_milliseconds args) = cluster_command ([''PEXPIREAT'', key, to_chars_nat unix_time_milliseconds] @ args)"
| "cluster_generic _ (C_pexpiretime key) = cluster_command ([''PEXPIRETIME'', key])"
| "cluster_generic _ (C_pttl key) = cluster_command ([''PTTL'', key])"
| "cluster_generic _ C_randomkey = None"
| "cluster_generic _ (C_rename key newkey) = cluster_command ([''RENAME'', key, newkey])"
| "cluster_generic _ (C_renamenx key newkey) = cluster_command ([''RENAMENX'', key, newkey])"
| "cluster_generic _ (C_scan cursor args) = cluster_command ([''SCAN'', to_chars_nat cursor] @ args)"
| "cluster_generic _ (C_sort key args) = cluster_command ([''SORT'', key] @ args)"
| "cluster_generic _ (C_sort_ro key args) = cluster_command ([''SORT_RO'', key] @ args)"
| "cluster_generic _ (C_touch first_key other_keys) = cluster_command ([''TOUCH'', first_key] @ other_keys)"
| "cluster_generic _ (C_ttl key) = cluster_command ([''TTL'', key])"
| "cluster_generic _ (C_type key) = cluster_command ([''TYPE'', key])"
| "cluster_generic _ (C_unlink first_key other_keys) = cluster_command ([''UNLINK'', first_key] @ other_keys)"
| "cluster_generic _ (C_wait _ _) = None"
| "cluster_generic _ (C_waitaof _ _ _) = None"

fun cluster_words :: "(u64 \<Rightarrow> string) \<Rightarrow> redis_command \<Rightarrow> (route \<times> string list) option" where
  "cluster_words dtext (Cmd_server c) = cluster_server dtext c"
| "cluster_words dtext (Cmd_string c) = cluster_string dtext c"
| "cluster_words dtext (Cmd_hash c) = cluster_hash dtext c"
| "cluster_words dtext (Cmd_list c) = cluster_list dtext c"
| "cluster_words dtext (Cmd_set c) = cluster_set dtext c"
| "cluster_words dtext (Cmd_zset c) = cluster_zset dtext c"
| "cluster_words dtext (Cmd_hll c) = cluster_hll dtext c"
| "cluster_words dtext (Cmd_bitmap c) = cluster_bitmap dtext c"
| "cluster_words dtext (Cmd_stream c) = cluster_stream dtext c"
| "cluster_words dtext (Cmd_script c) = cluster_script dtext c"
| "cluster_words dtext (Cmd_trans c) = cluster_trans dtext c"
| "cluster_words dtext (Cmd_generic c) = cluster_generic dtext c"

lemmas cluster_defs [api_simps] = cluster_command.simps cluster_words.simps cluster_server.simps cluster_string.simps cluster_hash.simps cluster_list.simps cluster_set.simps cluster_zset.simps cluster_hll.simps cluster_bitmap.simps cluster_stream.simps cluster_script.simps cluster_trans.simps cluster_generic.simps

section \<open>The calls of \<open>RedisCommandOperation\<close> in cluster mode\<close>

fun chained_server :: "(u64 \<Rightarrow> string) \<Rightarrow> server_command \<Rightarrow> (route \<times> string list) option" where
  "chained_server _ C_ping = cluster_command ([''PING''])"
| "chained_server _ (C_select index) = cluster_command ([''SELECT'', to_chars_nat index])"
| "chained_server _ (C_flushall async) = cluster_command ([''FLUSHALL'', if async then ''ASYNC'' else ''SYNC''])"
| "chained_server _ (C_flushdb async) = cluster_command ([''FLUSHDB'', if async then ''ASYNC'' else ''SYNC''])"
| "chained_server _ C_dbsize = cluster_command ([''DBSIZE''])"
| "chained_server _ C_save = cluster_command ([''SAVE''])"
| "chained_server _ (C_shutdown args) = cluster_command ([''SHUTDOWN''] @ args)"
| "chained_server _ (C_publish channel message) = cluster_command ([''PUBLISH'', channel, message])"
| "chained_server _ (C_spublish shardchannel message) = cluster_command ([''SPUBLISH'', shardchannel, message])"

fun chained_string :: "(u64 \<Rightarrow> string) \<Rightarrow> string_command \<Rightarrow> (route \<times> string list) option" where
  "chained_string _ (C_append key value) = cluster_command ([''APPEND'', key, value])"
| "chained_string _ (C_decr key) = cluster_command ([''DECR'', key])"
| "chained_string _ (C_decrby key decrement) = cluster_command ([''DECRBY'', key, to_chars_int decrement])"
| "chained_string _ (C_get key) = cluster_command ([''GET'', key])"
| "chained_string _ (C_getdel key) = cluster_command ([''GETDEL'', key])"
| "chained_string _ (C_getex key args) = cluster_command ([''GETEX'', key] @ args)"
| "chained_string _ (C_getrange key start end_pos) = cluster_command ([''GETRANGE'', key, to_chars_int start, to_chars_int end_pos])"
| "chained_string _ (C_incr key) = cluster_command ([''INCR'', key])"
| "chained_string _ (C_incrby key increment) = cluster_command ([''INCRBY'', key, to_chars_int increment])"
| "chained_string dtext (C_incrbyfloat key increment) = cluster_command ([''INCRBYFLOAT'', key, dtext increment])"
| "chained_string _ (C_lcs key1 key2 args) = cluster_command ([''LCS'', key1, key2] @ args)"
| "chained_string _ (C_mget first_key other_keys) = cluster_command ([''MGET'', first_key] @ other_keys)"
| "chained_string _ (C_mset args) = cluster_command ([''MSET''] @ args)"
| "chained_string _ (C_msetnx args) = cluster_command ([''MSETNX''] @ args)"
| "chained_string _ (C_psetex key milliseconds value) = cluster_command ([''PSETEX'', key, to_chars_int milliseconds, value])"
| "chained_string _ (C_set key value args) = cluster_command ([''SET'', key, value] @ args)"
| "chained_string _ (C_setex key seconds value) = cluster_command ([''SETEX'', key, to_chars_int seconds, value])"
| "chained_string _ (C_setnx key value) = cluster_command ([''SETNX'', key, value])"
| "chained_string _ (C_setrange key offset value) = cluster_command ([''SETRANGE'', key, to_chars_int offset, value])"
| "chained_string _ (C_strlen key) = cluster_command ([''STRLEN'', key])"

fun chained_hash :: "(u64 \<Rightarrow> string) \<Rightarrow> hash_command \<Rightarrow> (route \<times> string list) option" where
  "chained_hash _ (C_hdel key first_field other_fields) = cluster_command ([''HDEL'', key, first_field] @ other_fields)"
| "chained_hash _ (C_hexists key field) = cluster_command ([''HEXISTS'', key, field])"
| "chained_hash _ (C_hexpire key seconds fields) = cluster_command ([''HEXPIRE'', key, to_chars_int seconds] @ fields)"
| "chained_hash _ (C_hexpireat key timestamp fields) = cluster_command ([''HEXPIREAT'', key, to_chars_int timestamp] @ fields)"
| "chained_hash _ (C_hexpiretime key fields) = cluster_command ([''HEXPIRETIME'', key] @ fields)"
| "chained_hash _ (C_hget key field) = cluster_command ([''HGET'', key, field])"
| "chained_hash _ (C_hgetall key) = cluster_command ([''HGETALL'', key])"
| "chained_hash _ (C_hgetdel key field) = cluster_command ([''HGETDEL'', key, field])"
| "chained_hash _ (C_hgetex key field args) = cluster_command ([''HGETEX'', key, field] @ args)"
| "chained_hash _ (C_hincrby key field increment) = cluster_command ([''HINCRBY'', key, field, to_chars_int increment])"
| "chained_hash dtext (C_hincrbyfloat key field increment) = cluster_command ([''HINCRBYFLOAT'', key, field, dtext increment])"
| "chained_hash _ (C_hkeys key) = cluster_command ([''HKEYS'', key])"
| "chained_hash _ (C_hlen key) = cluster_command ([''HLEN'', key])"
| "chained_hash _ (C_hmget key first_field other_fields) = cluster_command ([''HMGET'', key, first_field] @ other_fields)"
| "chained_hash _ (C_hpersist key fields) = cluster_command ([''HPERSIST'', key] @ fields)"
| "chained_hash _ (C_hpexpire key milliseconds fields) = cluster_command ([''HPEXPIRE'', key, to_chars_int milliseconds] @ fields)"
| "chained_hash _ (C_hpexpireat key milliseconds_timestamp fields) = cluster_command ([''HPEXPIREAT'', key, to_chars_int milliseconds_timestamp] @ fields)"
| "chained_hash _ (C_hpexpiretime key fields) = cluster_command ([''HPEXPIRETIME'', key] @ fields)"
| "chained_hash _ (C_hpttl key fields) = cluster_command ([''HPTTL'', key] @ fields)"
| "chained_hash _ (C_hrandfield key args) = cluster_command ([''HRANDFIELD'', key] @ args)"
| "chained_hash _ (C_hscan key cursor args) = cluster_command ([''HSCAN'', key, to_chars_int cursor] @ args)"
| "chained_hash _ (C_hset key args) = cluster_command ([''HSET'', key] @ args)"
| "chained_hash _ (C_hsetex key args) = cluster_command ([''HSETEX'', key] @ args)"
| "chained_hash _ (C_hsetnx key field value) = cluster_command ([''HSETNX'', key, field, value])"
| "chained_hash _ (C_hstrlen key field) = cluster_command ([''HSTRLEN'', key, field])"
| "chained_hash _ (C_httl key fields) = cluster_command ([''HTTL'', key] @ fields)"
| "chained_hash _ (C_hvals key) = cluster_command ([''HVALS'', key])"

fun chained_list :: "(u64 \<Rightarrow> string) \<Rightarrow> list_command \<Rightarrow> (route \<times> string list) option" where
  "chained_list dtext (C_blmove source destination wherefrom whereto timeout) = cluster_command ([''BLMOVE'', source, destination, wherefrom, whereto, dtext timeout])"
| "chained_list dtext (C_blmpop timeout numkeys first_key args) = Some (Route_key first_key, [''BLMPOP'', dtext timeout, to_chars_int numkeys, first_key] @ args)"
| "chained_list _ (C_blpop first_key other_keys_and_timeout) = cluster_command ([''BLPOP'', first_key] @ other_keys_and_timeout)"
| "chained_list _ (C_brpop first_key other_keys_and_timeout) = cluster_command ([''BRPOP'', first_key] @ other_keys_and_timeout)"
| "chained_list _ (C_lindex key index) = cluster_command ([''LINDEX'', key, to_chars_int index])"
| "chained_list _ (C_linsert key position pivot element) = cluster_command ([''LINSERT'', key, position, pivot, element])"
| "chained_list _ (C_llen key) = cluster_command ([''LLEN'', key])"
| "chained_list _ (C_lmove source destination wherefrom whereto) = cluster_command ([''LMOVE'', source, destination, wherefrom, whereto])"
| "chained_list _ (C_lmpop numkeys first_key args) = Some (Route_key first_key, [''LMPOP'', to_chars_int numkeys, first_key] @ args)"
| "chained_list _ (C_lpop key count) = cluster_command ([''LPOP'', key] @ count)"
| "chained_list _ (C_lpos key element args) = cluster_command ([''LPOS'', key, element] @ args)"
| "chained_list _ (C_lpush key first_val other_vals) = cluster_command ([''LPUSH'', key, first_val] @ other_vals)"
| "chained_list _ (C_lpushx key first_val other_vals) = cluster_command ([''LPUSHX'', key, first_val] @ other_vals)"
| "chained_list _ (C_lrange key start stop) = cluster_command ([''LRANGE'', key, to_chars_int start, to_chars_int stop])"
| "chained_list _ (C_lrem key count element) = cluster_command ([''LREM'', key, to_chars_int count, element])"
| "chained_list _ (C_lset key index element) = cluster_command ([''LSET'', key, to_chars_int index, element])"
| "chained_list _ (C_ltrim key start stop) = cluster_command ([''LTRIM'', key, to_chars_int start, to_chars_int stop])"
| "chained_list _ (C_rpop key) = cluster_command ([''RPOP'', key])"
| "chained_list _ (C_rpush key first_val other_vals) = cluster_command ([''RPUSH'', key, first_val] @ other_vals)"
| "chained_list _ (C_rpushx key first_val other_vals) = cluster_command ([''RPUSHX'', key, first_val] @ other_vals)"

fun chained_set :: "(u64 \<Rightarrow> string) \<Rightarrow> set_command \<Rightarrow> (route \<times> string list) option" where
  "chained_set _ (C_sadd key first_member other_members) = cluster_command ([''SADD'', key, first_member] @ other_members)"
| "chained_set _ (C_scard key) = cluster_command ([''SCARD'', key])"
| "chained_set _ (C_sdiff first_key other_keys) = cluster_command ([''SDIFF'', first_key] @ other_keys)"
| "chained_set _ (C_sdiffstore destination first_key other_keys) = cluster_command ([''SDIFFSTORE'', destination, first_key] @ other_keys)"
| "chained_set _ (C_sinter first_key other_keys) = cluster_command ([''SINTER'', first_key] @ other_keys)"
| "chained_set _ (C_sintercard numkeys first_key args) = Some (Route_key first_key, [''SINTERCARD'', to_chars_int numkeys, first_key] @ args)"
| "chained_set _ (C_sinterstore destination first_key other_keys) = cluster_command ([''SINTERSTORE'', destination, first_key] @ other_keys)"
| "chained_set _ (C_sismember key the_member) = cluster_command ([''SISMEMBER'', key, the_member])"
| "chained_set _ (C_smembers key) = cluster_command ([''SMEMBERS'', key])"
| "chained_set _ (C_smismember key first_member other_members) = cluster_command ([''SMISMEMBER'', key, first_member] @ other_members)"
| "chained_set _ (C_smove source destination the_member) = cluster_command ([''SMOVE'', source, destination, the_member])"
| "chained_set _ (C_spop key count) = cluster_command ([''SPOP'', key] @ count)"
| "chained_set _ (C_srandmember key count) = cluster_command ([''SRANDMEMBER'', key] @ count)"
| "chained_set _ (C_srem key first_member other_members) = cluster_command ([''SREM'', key, first_member] @ other_members)"
| "chained_set _ (C_sscan key cursor args) = cluster_command ([''SSCAN'', key, to_chars_int cursor] @ args)"
| "chained_set _ (C_sunion first_key other_keys) = cluster_command ([''SUNION'', first_key] @ other_keys)"
| "chained_set _ (C_sunionstore destination first_key other_keys) = cluster_command ([''SUNIONSTORE'', destination, first_key] @ other_keys)"

fun chained_zset :: "(u64 \<Rightarrow> string) \<Rightarrow> zset_command \<Rightarrow> (route \<times> string list) option" where
  "chained_zset _ (C_zadd key args) = cluster_command ([''ZADD'', key] @ args)"
| "chained_zset _ (C_zcard key) = cluster_command ([''ZCARD'', key])"
| "chained_zset dtext (C_zcount key lower upper) = cluster_command ([''ZCOUNT'', key, dtext lower, dtext upper])"
| "chained_zset _ (C_zdiff numkeys first_key other_keys) = Some (Route_key first_key, [''ZDIFF'', to_chars_nat numkeys, first_key] @ other_keys)"
| "chained_zset _ (C_zdiffstore destination numkeys first_key other_keys) = cluster_command ([''ZDIFFSTORE'', destination, to_chars_nat numkeys, first_key] @ other_keys)"
| "chained_zset dtext (C_zincrby key increment the_member) = cluster_command ([''ZINCRBY'', key, dtext increment, the_member])"
| "chained_zset _ (C_zinter numkeys first_key other_keys) = Some (Route_key first_key, [''ZINTER'', to_chars_nat numkeys, first_key] @ other_keys)"
| "chained_zset _ (C_zintercard numkeys first_key args) = Some (Route_key first_key, [''ZINTERCARD'', to_chars_nat numkeys, first_key] @ args)"
| "chained_zset _ (C_zmpop numkeys first_key args) = Some (Route_key first_key, [''ZINTERCARD'', to_chars_nat numkeys, first_key] @ args)"
| "chained_zset _ (C_zmscore key first_member other_members) = cluster_command ([''ZMSCORE'', key, first_member] @ other_members)"
| "chained_zset _ (C_zrandmember key args) = cluster_command ([''ZRANDMEMBER'', key] @ args)"
| "chained_zset _ (C_zrange key start stop options) = cluster_command ([''ZRANGE'', key, start, stop] @ options)"
| "chained_zset _ (C_zrank key the_member args) = cluster_command ([''ZRANK'', key, the_member] @ args)"
| "chained_zset _ (C_zrem key first_member other_members) = cluster_command ([''ZREM'', key, first_member] @ other_members)"
| "chained_zset _ (C_zscan key cursor args) = cluster_command ([''ZSCAN'', key, to_chars_nat cursor] @ args)"
| "chained_zset _ (C_zscore key the_member) = cluster_command ([''ZSCORE'', key, the_member])"
| "chained_zset _ (C_zunion numkeys first_key other_keys) = Some (Route_key first_key, [''ZUNION'', to_chars_nat numkeys, first_key] @ other_keys)"
| "chained_zset _ (C_zunionstore destination numkeys first_key other_keys) = cluster_command ([''ZUNIONSTORE'', destination, to_chars_nat numkeys, first_key] @ other_keys)"

fun chained_hll :: "(u64 \<Rightarrow> string) \<Rightarrow> hll_command \<Rightarrow> (route \<times> string list) option" where
  "chained_hll _ (C_pfadd key elements) = cluster_command ([''PFADD'', key] @ elements)"
| "chained_hll _ (C_pfcount first_key other_keys) = cluster_command ([''PFCOUNT'', first_key] @ other_keys)"
| "chained_hll _ (C_pfmerge destkey first_srckey other_srckeys) = cluster_command ([''PFMERGE'', destkey, first_srckey] @ other_srckeys)"

fun chained_bitmap :: "(u64 \<Rightarrow> string) \<Rightarrow> bitmap_command \<Rightarrow> (route \<times> string list) option" where
  "chained_bitmap _ (C_setbit key offset value) = cluster_command ([''SETBIT'', key, to_chars_nat offset, value])"
| "chained_bitmap _ (C_getbit key offset) = cluster_command ([''GETBIT'', key, to_chars_nat offset])"
| "chained_bitmap _ (C_bitcount key start stop args) = cluster_command ([''BITCOUNT'', key, to_chars_int start, to_chars_int stop] @ args)"
| "chained_bitmap _ (C_bitpos key the_bit args) = cluster_command ([''BITPOS'', key, the_bit] @ args)"
| "chained_bitmap _ (C_bitop operation destkey first_srckey other_srckeys) = Some (Route_key destkey, [''BITOP'', operation, destkey, first_srckey] @ other_srckeys)"
| "chained_bitmap _ (C_bitfield key args) = cluster_command ([''BITFIELD'', key] @ args)"
| "chained_bitmap _ (C_bitfield_ro key args) = cluster_command ([''BITFIELD_RO'', key] @ args)"

fun chained_stream :: "(u64 \<Rightarrow> string) \<Rightarrow> stream_command \<Rightarrow> (route \<times> string list) option" where
  "chained_stream _ (C_xadd key args) = cluster_command ([''XADD'', key] @ args)"
| "chained_stream _ (C_xack key group_name first_id other_ids) = cluster_command ([''XACK'', key, group_name, first_id] @ other_ids)"
| "chained_stream _ (C_xautoclaim key group_name consumer min_idle_time start args) = cluster_command ([''XAUTOCLAIM'', key, group_name, consumer, to_chars_nat min_idle_time, start] @ args)"
| "chained_stream _ (C_xdel key first_id other_ids) = cluster_command ([''XDEL'', key, first_id] @ other_ids)"
| "chained_stream _ (C_xgroup_create key group_name the_id args) = cluster_command ([''XGROUP'', ''CREATE'', key, group_name, the_id] @ args)"
| "chained_stream _ (C_xgroup_createconsumer key group_name consumer) = cluster_command ([''XGROUP'', ''CREATECONSUMER'', key, group_name, consumer])"
| "chained_stream _ (C_xgroup_delconsumer key group_name consumer) = cluster_command ([''XGROUP'', ''DELCONSUMER'', key, group_name, consumer])"
| "chained_stream _ (C_xgroup_destroy key group_name) = cluster_command ([''XGROUP'', ''DESTROY'', key, group_name])"
| "chained_stream _ (C_xgroup_setid key group_name the_id args) = cluster_command ([''XGROUP'', ''SETID'', key, group_name, the_id] @ args)"
| "chained_stream _ (C_xinfo_consumers key group_name) = cluster_command ([''XINFO'', ''CONSUMERS'', key, group_name])"
| "chained_stream _ (C_xinfo_groups key) = cluster_command ([''XINFO'', ''GROUPS'', key])"
| "chained_stream _ (C_xinfo_stream key args) = cluster_command ([''XINFO'', ''STREAM'', key] @ args)"
| "chained_stream _ (C_xlen key) = cluster_command ([''XLEN'', key])"
| "chained_stream _ (C_xpending key group_name args) = cluster_command ([''XPENDING'', key, group_name] @ args)"
| "chained_stream _ (C_xrange key start end_pos args) = cluster_command ([''XRANGE'', key, start, end_pos] @ args)"
| "chained_stream _ (C_xread _) = None"
| "chained_stream _ (C_xreadgroup group_keyword group_name consumer args) = cluster_command ([''XREADGROUP'', group_keyword, group_name, consumer] @ args)"
| "chained_stream _ (C_xtrim key args) = cluster_command ([''XTRIM'', key] @ args)"

fun chained_script :: "(u64 \<Rightarrow> string) \<Rightarrow> script_command \<Rightarrow> (route \<times> string list) option" where
  "chained_script _ (C_eval script numkeys args) = cluster_command ([''EVAL'', script, to_chars_nat numkeys] @ args)"
| "chained_script _ (C_evalsha sha1 numkeys args) = cluster_command ([''EVALSHA'', sha1, to_chars_nat numkeys] @ args)"
| "chained_script _ (C_script_load script) = cluster_command ([''SCRIPT'', ''LOAD'', script])"

fun chained_trans :: "(u64 \<Rightarrow> string) \<Rightarrow> trans_command \<Rightarrow> (route \<times> string list) option" where
  "chained_trans _ (C_watch first_key other_keys) = cluster_command ([''WATCH'', first_key] @ other_keys)"
| "chained_trans _ (C_unwatch tag) = Some (Route_key tag, [''UNWATCH''])"
| "chained_trans _ (C_multi _) = None"
| "chained_trans _ C_exec = Some (Route_first, [''EXEC''])"

fun chained_generic :: "(u64 \<Rightarrow> string) \<Rightarrow> generic_command \<Rightarrow> (route \<times> string list) option" where
  "chained_generic _ (C_copy source destination args) = cluster_command ([''COPY'', source, destination] @ args)"
| "chained_generic _ (C_del first_key other_keys) = cluster_command ([''DEL'', first_key] @ other_keys)"
| "chained_generic _ (C_dump key) = cluster_command ([''DUMP'', key])"
| "chained_generic _ (C_exists key) = cluster_command ([''EXISTS'', key])"
| "chained_generic _ (C_expire key seconds args) = cluster_command ([''EXPIRE'', key, to_chars_nat seconds] @ args)"
| "chained_generic _ (C_expireat key unix_time_seconds args) = cluster_command ([''EXPIREAT'', key, to_chars_nat unix_time_seconds] @ args)"
| "chained_generic _ (C_expiretime key) = cluster_command ([''EXPIRETIME'', key])"
| "chained_generic _ (C_keys pattern) = cluster_command ([''KEYS'', pattern])"
| "chained_generic _ (C_move key db) = cluster_command ([''MOVE'', key, to_chars_nat db])"
| "chained_generic _ (C_persist key) = cluster_command ([''PERSIST'', key])"
| "chained_generic _ (C_pexpire key milliseconds args) = cluster_command ([''PEXPIRE'', key, to_chars_nat milliseconds] @ args)"
| "chained_generic _ (C_pexpireat key unix_time_milliseconds args) = cluster_command ([''PEXPIREAT'', key, to_chars_nat unix_time_milliseconds] @ args)"
| "chained_generic _ (C_pexpiretime key) = cluster_command ([''PEXPIRETIME'', key])"
| "chained_generic _ (C_pttl key) = cluster_command ([''PTTL'', key])"
| "chained_generic _ C_randomkey = cluster_command ([''RANDOMKEY''])"
| "chained_generic _ (C_rename key newkey) = cluster_command ([''RENAME'', key, newkey])"
| "chained_generic _ (C_renamenx key newkey) = cluster_command ([''RENAMENX'', key, newkey])"
| "chained_generic _ (C_scan cursor args) = cluster_command ([''SCAN'', to_chars_nat cursor] @ args)"
| "chained_generic _ (C_sort key args) = cluster_command ([''SORT'', key] @ args)"
| "chained_generic _ (C_sort_ro key args) = cluster_command ([''SORT_RO'', key] @ args)"
| "chained_generic _ (C_touch first_key other_keys) = cluster_command ([''TOUCH'', first_key] @ other_keys)"
| "chained_generic _ (C_ttl key) = cluster_command ([''TTL'', key])"
| "chained_generic _ (C_type key) = cluster_command ([''TYPE'', key])"
| "chained_generic _ (C_unlink first_key other_keys) = cluster_command ([''UNLINK'', first_key] @ other_keys)"
| "chained_generic _ (C_wait _ _) = None"
| "chained_generic _ (C_waitaof _ _ _) = None"

fun chained_words :: "(u64 \<Rightarrow> string) \<Rightarrow> redis_command \<Rightarrow> (route \<times> string list) option" where
  "chained_words dtext (Cmd_server c) = chained_server dtext c"
| "chained_words dtext (Cmd_string c) = chained_string dtext c"
| "chained_words dtext (Cmd_hash c) = chained_hash dtext c"
| "chained_words dtext (Cmd_list c) = chained_list dtext c"
| "chained_words dtext (Cmd_set c) = chained_set dtext c"
| "chained_words dtext (Cmd_zset c) = chained_zset dtext c"
| "chained_words dtext (Cmd_hll c) = chained_hll dtext c"
| "chained_words dtext (Cmd_bitmap c) = chained_bitmap dtext c"
| "chained_words dtext (Cmd_stream c) = chained_stream dtext c"
| "chained_words dtext (Cmd_script c) = chained_script dtext c"
| "chained_words dtext (Cmd_trans c) = chained_trans dtext c"
| "chained_words dtext (Cmd_generic c) = chained_generic dtext c"

lemmas chained_defs [api_simps] = chained_words.simps chained_server.simps chained_string.simps chained_hash.simps chained_list.simps chained_set.simps chained_zset.simps chained_hll.simps chained_bitmap.simps chained_stream.simps chained_script.simps chained_trans.simps chained_generic.simps

end
