(* ===== verification/Commands_Spec.thy ===== *)
theory Commands_Spec
  imports Commands_Cluster
begin

text \<open>
  The five copies of the command table against each other: what a chained or a cluster call
  puts on the wire is what the plain client puts there, and a cluster routes by a key of the
  command. The exceptions are stated as they are in the source.
\<close>

section \<open>Chained commands\<close>

lemma awaiter_families:
  "awaiter_server dtext a = Some ws \<Longrightarrow> client_server dtext a = Some ws"
  "awaiter_string dtext b = Some ws \<Longrightarrow> client_string dtext b = Some ws"
  "awaiter_hash dtext h = Some ws \<Longrightarrow> client_hash dtext h = Some ws"
  "awaiter_list dtext l = Some ws \<Longrightarrow> client_list dtext l = Some ws"
  "awaiter_set dtext s = Some ws \<Longrightarrow> client_set dtext s = Some ws"
  "awaiter_zset dtext z = Some ws \<Longrightarrow> client_zset dtext z = Some ws"
  "awaiter_hll dtext p = Some ws \<Longrightarrow> client_hll dtext p = Some ws"
  "awaiter_bitmap dtext m = Some ws \<Longrightarrow> client_bitmap dtext m = Some ws"
  "awaiter_stream dtext x = Some ws \<Longrightarrow> client_stream dtext x = Some ws"
  "awaiter_script dtext e = Some ws \<Longrightarrow> client_script dtext e = Some ws"
  "awaiter_trans dtext t = Some ws \<Longrightarrow> t = C_exec \<or> client_trans dtext t = Some ws"
  "awaiter_generic dtext g = Some ws \<Longrightarrow> client_generic dtext g = Some ws"
  by (cases a, simp_all) (cases b, simp_all, cases h, simp_all, cases l, simp_all, cases s, simp_all,
    cases z, simp_all, cases p, simp_all, cases m, simp_all, cases x, simp_all, cases e, simp_all,
    cases t, simp_all, cases g, simp_all)

text \<open>A command chained to a first one by \<open>CommandAwaiter\<close> has the words it has when
  \<open>RedisClient\<close> sends it alone; only \<open>EXEC\<close> exists in a chain alone.\<close>

theorem awaiter_same_words:
  assumes "awaiter_words dtext c = Some ws"
  shows "c = Cmd_trans C_exec \<or> client_words dtext c = Some ws"
  using assms by (cases c) (auto dest: awaiter_families)

theorem awaiter_same_words_witness:
  "Cmd_string (C_setex ''k'' 5 ''v'') = Cmd_trans C_exec \<or>
   client_words (\<lambda>_. []) (Cmd_string (C_setex ''k'' 5 ''v'')) = Some [''SETEX'', ''k'', to_chars_int 5, ''v'']"
  by (rule awaiter_same_words) simp

lemma operation_families:
  "operation_server dtext a = Some ws \<Longrightarrow> client_server dtext a = Some ws"
  "operation_string dtext b = Some ws \<Longrightarrow> client_string dtext b = Some ws"
  "operation_hash dtext h = Some ws \<Longrightarrow> client_hash dtext h = Some ws"
  "operation_list dtext l = Some ws \<Longrightarrow> client_list dtext l = Some ws"
  "operation_set dtext s = Some ws \<Longrightarrow> client_set dtext s = Some ws"
  "operation_zset dtext z = Some ws \<Longrightarrow> client_zset dtext z = Some ws \<or> (\<exists>n k as. z = C_zmpop n k as)"
  "operation_hll dtext p = Some ws \<Longrightarrow> client_hll dtext p = Some ws"
  "operation_bitmap dtext m = Some ws \<Longrightarrow> client_bitmap dtext m = Some ws"
  "operation_stream dtext x = Some ws \<Longrightarrow> client_stream dtext x = Some ws"
  "operation_script dtext e = Some ws \<Longrightarrow> client_script dtext e = Some ws"
  "operation_trans dtext t = Some ws \<Longrightarrow> t = C_exec \<or> client_trans dtext t = Some ws"
  "operation_generic dtext g = Some ws \<Longrightarrow> client_generic dtext g = Some ws"
  by (cases a, simp_all) (cases b, simp_all, cases h, simp_all, cases l, simp_all, cases s, simp_all,
    cases z, simp_all, cases p, simp_all, cases m, simp_all, cases x, simp_all, cases e, simp_all,
    cases t, simp_all, cases g, simp_all)

text \<open>C35. A command appended to a longer chain by \<open>RedisCommandOperation\<close> has the words it has
  when sent alone, but for \<open>EXEC\<close> and for \<open>ZMPOP\<close>.\<close>

theorem operation_same_words:
  assumes "operation_words dtext c = Some ws"
  shows "c = Cmd_trans C_exec \<or> (\<exists>n k as. c = Cmd_zset (C_zmpop n k as)) \<or> client_words dtext c = Some ws"
  using assms by (cases c) (auto dest: operation_families)

theorem operation_same_words_witness:
  "Cmd_list (C_lmpop 1 ''k'' [''LEFT'']) = Cmd_trans C_exec \<or>
   (\<exists>n k as. Cmd_list (C_lmpop 1 ''k'' [''LEFT'']) = Cmd_zset (C_zmpop n k as)) \<or>
   client_words (\<lambda>_. []) (Cmd_list (C_lmpop 1 ''k'' [''LEFT''])) = Some [''LMPOP'', to_chars_int 1, ''k'', ''LEFT'']"
  by (rule operation_same_words) simp

text \<open>\<open>ZMPOP\<close> appended to a chain is sent as \<open>ZINTERCARD\<close>, on a single server and on a
  cluster: not what the same call sends alone.\<close>

theorem chained_zmpop:
  "operation_words dtext (Cmd_zset (C_zmpop n k as)) = client_words dtext (Cmd_zset (C_zintercard n k as)) \<and>
   chained_words dtext (Cmd_zset (C_zmpop n k as)) = cluster_words dtext (Cmd_zset (C_zintercard n k as)) \<and>
   operation_words dtext (Cmd_zset (C_zmpop n k as)) \<noteq> client_words dtext (Cmd_zset (C_zmpop n k as))"
  by simp

section \<open>Cluster calls\<close>

text \<open>The commands whose second word is a subcommand, a script or a keyword.\<close>

fun keyless_second_word :: "redis_command \<Rightarrow> bool" where
  "keyless_second_word (Cmd_stream c) = (case c of
     C_xgroup_create _ _ _ _ \<Rightarrow> True | C_xgroup_createconsumer _ _ _ \<Rightarrow> True
   | C_xgroup_delconsumer _ _ _ \<Rightarrow> True | C_xgroup_destroy _ _ \<Rightarrow> True | C_xgroup_setid _ _ _ _ \<Rightarrow> True
   | C_xinfo_consumers _ _ \<Rightarrow> True | C_xinfo_groups _ \<Rightarrow> True | C_xinfo_stream _ _ \<Rightarrow> True
   | C_xreadgroup _ _ _ _ \<Rightarrow> True | _ \<Rightarrow> False)"
| "keyless_second_word (Cmd_script c) = True"
| "keyless_second_word _ = False"

lemma cluster_command_Some:
  "cluster_command ws = Some (r, ws') \<longleftrightarrow> ws' = ws \<and> (\<exists>c k as. ws = c # k # as \<and> r = Route_key k)"
  by (cases ws rule: cluster_command.cases) auto

definition routed :: "string option \<Rightarrow> string list option \<Rightarrow> (route \<times> string list) option \<Rightarrow> bool" where
  "routed key ws call \<longleftrightarrow> (case call of None \<Rightarrow> True
     | Some (r, ws') \<Rightarrow> ws = Some ws' \<and> (\<forall>k. key = Some k \<longrightarrow> r = Route_key k))"

lemma routed_None [simp]: "routed key ws None"
  by (simp add: routed_def)

lemma routed_Some [simp]:
  "routed key ws (Some (r, ws')) \<longleftrightarrow> ws = Some ws' \<and> (\<forall>k. key = Some k \<longrightarrow> r = Route_key k)"
  by (simp add: routed_def)

lemma routed_tail [simp]:
  "routed (first_word as) (Some (c # as)) (cluster_command (c # as))"
  by (cases as) (auto simp: first_word_def)

lemma cluster_families:
  "routed (key_server a) (client_server dtext a) (cluster_server dtext a)"
  "routed (key_string b) (client_string dtext b) (cluster_string dtext b)"
  "routed (key_hash h) (client_hash dtext h) (cluster_hash dtext h)"
  "routed (key_list l) (client_list dtext l) (cluster_list dtext l)"
  "routed (key_set s) (client_set dtext s) (cluster_set dtext s)"
  "routed (key_zset z) (client_zset dtext z) (cluster_zset dtext z)"
  "routed (key_hll p) (client_hll dtext p) (cluster_hll dtext p)"
  "routed (key_bitmap m) (client_bitmap dtext m) (cluster_bitmap dtext m)"
  "\<not> keyless_second_word (Cmd_stream x) \<Longrightarrow> routed (key_stream x) (client_stream dtext x) (cluster_stream dtext x)"
  "routed (key_trans t) (client_trans dtext t) (cluster_trans dtext t)"
  "routed (key_generic g) (client_generic dtext g) (cluster_generic dtext g)"
  by (cases a, simp_all) (cases b, simp_all, cases h, simp_all, cases l, simp_all, cases s, simp_all,
    cases z, simp_all, cases p, simp_all, cases m, simp_all, cases x, simp_all,
    cases t, simp_all, cases g, simp_all)

lemma cluster_routed:
  "\<not> keyless_second_word c \<Longrightarrow> routed (command_key c) (client_words dtext c) (cluster_words dtext c)"
  by (cases c) (simp_all add: cluster_families del: keyless_second_word.simps(1))

text \<open>C34. \<open>RedisCluster\<close> sends every command with the words of \<open>RedisClient\<close>, and routes it by
  its key, unless the second word of the command is not a key.\<close>

theorem cluster_routes_by_key:
  assumes "cluster_words dtext c = Some (r, ws)" and "\<not> keyless_second_word c"
  shows "client_words dtext c = Some ws \<and> (\<forall>k. command_key c = Some k \<longrightarrow> r = Route_key k)"
  using cluster_routed[OF assms(2), of dtext] unfolding assms(1) routed_Some .

theorem cluster_routes_by_key_witness:
  "client_words (\<lambda>_. []) (Cmd_zset (C_zdiff 2 ''a'' [''b''])) = Some [''ZDIFF'', to_chars_nat 2, ''a'', ''b'']"
  using cluster_routes_by_key[of "\<lambda>_. []" "Cmd_zset (C_zdiff 2 ''a'' [''b''])" "Route_key ''a''"
      "[''ZDIFF'', to_chars_nat 2, ''a'', ''b'']"] by simp

text \<open>The calls whose second word is no key are routed by that word, whatever their key is:
  all \<open>XGROUP\<close> and \<open>XINFO\<close> calls of one kind go to one slot, and a script is routed by its
  text.\<close>

theorem cluster_misroutes:
  "cluster_words dtext (Cmd_stream (C_xgroup_create k grp ident as)) =
     Some (Route_key ''CREATE'', [''XGROUP'', ''CREATE'', k, grp, ident] @ as) \<and>
   cluster_words dtext (Cmd_stream (C_xgroup_destroy k grp)) =
     Some (Route_key ''DESTROY'', [''XGROUP'', ''DESTROY'', k, grp]) \<and>
   cluster_words dtext (Cmd_stream (C_xinfo_stream k as)) =
     Some (Route_key ''STREAM'', [''XINFO'', ''STREAM'', k] @ as) \<and>
   cluster_words dtext (Cmd_stream (C_xreadgroup ''GROUP'' grp cons as)) =
     Some (Route_key ''GROUP'', [''XREADGROUP'', ''GROUP'', grp, cons] @ as) \<and>
   cluster_words dtext (Cmd_script (C_eval script n as)) =
     Some (Route_key script, [''EVAL'', script, to_chars_nat n] @ as)"
  by simp

end
