(* ===== verification/Key_Slot.thy ===== *)
theory Key_Slot
  imports Xredis_Prelude
begin

unbundle bit_operations_syntax

text \<open>
  \<open>crc16\<close> and \<open>get_slot\<close> (src/RedisConnection.cpp): the hash slot of a key. The table-driven
  checksum is the bitwise CRC16/XMODEM, and a key with a non-empty hash tag has the slot of
  its tag.
\<close>

section \<open>The code\<close>

definition XMODEMCRC16LOOKUP :: "u16 list" where
  "XMODEMCRC16LOOKUP =
    [0x0000, 0x1021, 0x2042, 0x3063, 0x4084, 0x50a5, 0x60c6, 0x70e7,
     0x8108, 0x9129, 0xa14a, 0xb16b, 0xc18c, 0xd1ad, 0xe1ce, 0xf1ef,
     0x1231, 0x0210, 0x3273, 0x2252, 0x52b5, 0x4294, 0x72f7, 0x62d6,
     0x9339, 0x8318, 0xb37b, 0xa35a, 0xd3bd, 0xc39c, 0xf3ff, 0xe3de,
     0x2462, 0x3443, 0x0420, 0x1401, 0x64e6, 0x74c7, 0x44a4, 0x5485,
     0xa56a, 0xb54b, 0x8528, 0x9509, 0xe5ee, 0xf5cf, 0xc5ac, 0xd58d,
     0x3653, 0x2672, 0x1611, 0x0630, 0x76d7, 0x66f6, 0x5695, 0x46b4,
     0xb75b, 0xa77a, 0x9719, 0x8738, 0xf7df, 0xe7fe, 0xd79d, 0xc7bc,
     0x48c4, 0x58e5, 0x6886, 0x78a7, 0x0840, 0x1861, 0x2802, 0x3823,
     0xc9cc, 0xd9ed, 0xe98e, 0xf9af, 0x8948, 0x9969, 0xa90a, 0xb92b,
     0x5af5, 0x4ad4, 0x7ab7, 0x6a96, 0x1a71, 0x0a50, 0x3a33, 0x2a12,
     0xdbfd, 0xcbdc, 0xfbbf, 0xeb9e, 0x9b79, 0x8b58, 0xbb3b, 0xab1a,
     0x6ca6, 0x7c87, 0x4ce4, 0x5cc5, 0x2c22, 0x3c03, 0x0c60, 0x1c41,
     0xedae, 0xfd8f, 0xcdec, 0xddcd, 0xad2a, 0xbd0b, 0x8d68, 0x9d49,
     0x7e97, 0x6eb6, 0x5ed5, 0x4ef4, 0x3e13, 0x2e32, 0x1e51, 0x0e70,
     0xff9f, 0xefbe, 0xdfdd, 0xcffc, 0xbf1b, 0xaf3a, 0x9f59, 0x8f78,
     0x9188, 0x81a9, 0xb1ca, 0xa1eb, 0xd10c, 0xc12d, 0xf14e, 0xe16f,
     0x1080, 0x00a1, 0x30c2, 0x20e3, 0x5004, 0x4025, 0x7046, 0x6067,
     0x83b9, 0x9398, 0xa3fb, 0xb3da, 0xc33d, 0xd31c, 0xe37f, 0xf35e,
     0x02b1, 0x1290, 0x22f3, 0x32d2, 0x4235, 0x5214, 0x6277, 0x7256,
     0xb5ea, 0xa5cb, 0x95a8, 0x8589, 0xf56e, 0xe54f, 0xd52c, 0xc50d,
     0x34e2, 0x24c3, 0x14a0, 0x0481, 0x7466, 0x6447, 0x5424, 0x4405,
     0xa7db, 0xb7fa, 0x8799, 0x97b8, 0xe75f, 0xf77e, 0xc71d, 0xd73c,
     0x26d3, 0x36f2, 0x0691, 0x16b0, 0x6657, 0x7676, 0x4615, 0x5634,
     0xd94c, 0xc96d, 0xf90e, 0xe92f, 0x99c8, 0x89e9, 0xb98a, 0xa9ab,
     0x5844, 0x4865, 0x7806, 0x6827, 0x18c0, 0x08e1, 0x3882, 0x28a3,
     0xcb7d, 0xdb5c, 0xeb3f, 0xfb1e, 0x8bf9, 0x9bd8, 0xabbb, 0xbb9a,
     0x4a75, 0x5a54, 0x6a37, 0x7a16, 0x0af1, 0x1ad0, 0x2ab3, 0x3a92,
     0xfd2e, 0xed0f, 0xdd6c, 0xcd4d, 0xbdaa, 0xad8b, 0x9de8, 0x8dc9,
     0x7c26, 0x6c07, 0x5c64, 0x4c45, 0x3ca2, 0x2c83, 0x1ce0, 0x0cc1,
     0xef1f, 0xff3e, 0xcf5d, 0xdf7c, 0xaf9b, 0xbfba, 0x8fd9, 0x9ff8,
     0x6e17, 0x7e36, 0x4e55, 0x5e74, 0x2e93, 0x3eb2, 0x0ed1, 0x1ef0]"

text \<open>One turn of the loop; \<open>(uint8_t)data[i]\<close> is the byte of the character.\<close>

definition crc_step :: "u16 \<Rightarrow> char \<Rightarrow> u16" where
  "crc_step crc c =
     push_bit 8 crc XOR XMODEMCRC16LOOKUP ! unat ((drop_bit 8 crc XOR of_char c) AND 0xff)"

definition crc16 :: "string \<Rightarrow> u16" where
  "crc16 s = foldl crc_step 0 s"

definition get_slot :: "string \<Rightarrow> u16" where
  "get_slot sv =
     (case find_char (CHR ''{'') sv of
        None \<Rightarrow> crc16 sv mod 16384
      | Some left \<Rightarrow>
          (case find_from (CHR ''}'') sv (left + 1) of
             None \<Rightarrow> crc16 sv mod 16384
           | Some right \<Rightarrow>
               if 0 < right - left - 1
               then crc16 (take (right - left - 1) (drop (left + 1) sv)) mod 16384
               else crc16 sv mod 16384))"

section \<open>The bitwise checksum\<close>

text \<open>One bit of CRC16/XMODEM: polynomial \<open>0x1021\<close>, initial value 0, no reflection.\<close>

definition shift1 :: "u16 \<Rightarrow> u16" where
  "shift1 x = (if bit x 15 then push_bit 1 x XOR 0x1021 else push_bit 1 x)"

definition shift8 :: "u16 \<Rightarrow> u16" where
  "shift8 x = shift1 (shift1 (shift1 (shift1 (shift1 (shift1 (shift1 (shift1 x)))))))"

definition xmodem :: "string \<Rightarrow> u16" where
  "xmodem s = foldl (\<lambda>crc c. shift8 (crc XOR push_bit 8 (of_char c))) 0 s"

lemma xor_twice: "a XOR (a XOR b) = (b :: u16)"
  by (simp flip: xor.assoc)

lemma shift1_xor: "shift1 (x XOR y) = shift1 x XOR shift1 y"
  by (simp add: shift1_def bit_xor_iff push_bit_xor xor.assoc xor.left_commute[of "0x1021"]
      xor.commute[of _ "0x1021"] xor_twice)

lemma shift8_xor: "shift8 (x XOR y) = shift8 x XOR shift8 y"
  by (simp only: shift8_def shift1_xor)

text \<open>The table holds the checksums of the bytes, and eight shifts of a byte lose nothing.\<close>

lemma bytes_list:
  "[0..255::int] =
    [0, 1, 2, 3, 4, 5, 6, 7, 8, 9, 10, 11, 12, 13, 14, 15,
     16, 17, 18, 19, 20, 21, 22, 23, 24, 25, 26, 27, 28, 29, 30, 31,
     32, 33, 34, 35, 36, 37, 38, 39, 40, 41, 42, 43, 44, 45, 46, 47,
     48, 49, 50, 51, 52, 53, 54, 55, 56, 57, 58, 59, 60, 61, 62, 63,
     64, 65, 66, 67, 68, 69, 70, 71, 72, 73, 74, 75, 76, 77, 78, 79,
     80, 81, 82, 83, 84, 85, 86, 87, 88, 89, 90, 91, 92, 93, 94, 95,
     96, 97, 98, 99, 100, 101, 102, 103, 104, 105, 106, 107, 108, 109, 110, 111,
     112, 113, 114, 115, 116, 117, 118, 119, 120, 121, 122, 123, 124, 125, 126, 127,
     128, 129, 130, 131, 132, 133, 134, 135, 136, 137, 138, 139, 140, 141, 142, 143,
     144, 145, 146, 147, 148, 149, 150, 151, 152, 153, 154, 155, 156, 157, 158, 159,
     160, 161, 162, 163, 164, 165, 166, 167, 168, 169, 170, 171, 172, 173, 174, 175,
     176, 177, 178, 179, 180, 181, 182, 183, 184, 185, 186, 187, 188, 189, 190, 191,
     192, 193, 194, 195, 196, 197, 198, 199, 200, 201, 202, 203, 204, 205, 206, 207,
     208, 209, 210, 211, 212, 213, 214, 215, 216, 217, 218, 219, 220, 221, 222, 223,
     224, 225, 226, 227, 228, 229, 230, 231, 232, 233, 234, 235, 236, 237, 238, 239,
     240, 241, 242, 243, 244, 245, 246, 247, 248, 249, 250, 251, 252, 253, 254, 255]"
  by code_simp

lemma table_correct:
  "XMODEMCRC16LOOKUP = map (\<lambda>i. shift8 (push_bit 8 (word_of_int i))) [0..255]"
  unfolding XMODEMCRC16LOOKUP_def bytes_list list.map
  by (simp add: shift8_def shift1_def)

lemma shift1_push:
  fixes x :: u16
  assumes "\<And>n. 8 \<le> n \<Longrightarrow> \<not> bit x n" and "k < 8" and "j = Suc k"
  shows "shift1 (push_bit k x) = push_bit j x"
proof -
  have "\<not> bit (push_bit k x) 15" using assms by (simp add: bit_push_bit_iff)
  then show ?thesis unfolding shift1_def assms(3) by (simp only: if_False push_bit_push_bit plus_1_eq_Suc)
qed

lemma shift8_byte:
  fixes x :: u16
  assumes "\<And>n. 8 \<le> n \<Longrightarrow> \<not> bit x n"
  shows "shift8 x = push_bit 8 x"
proof -
  have s0: "shift1 (push_bit 0 x) = push_bit 1 x" by (rule shift1_push[OF assms]) simp_all
  have s1: "shift1 (push_bit 1 x) = push_bit 2 x" by (rule shift1_push[OF assms]) simp_all
  have s2: "shift1 (push_bit 2 x) = push_bit 3 x" by (rule shift1_push[OF assms]) simp_all
  have s3: "shift1 (push_bit 3 x) = push_bit 4 x" by (rule shift1_push[OF assms]) simp_all
  have s4: "shift1 (push_bit 4 x) = push_bit 5 x" by (rule shift1_push[OF assms]) simp_all
  have s5: "shift1 (push_bit 5 x) = push_bit 6 x" by (rule shift1_push[OF assms]) simp_all
  have s6: "shift1 (push_bit 6 x) = push_bit 7 x" by (rule shift1_push[OF assms]) simp_all
  have s7: "shift1 (push_bit 7 x) = push_bit 8 x" by (rule shift1_push[OF assms]) simp_all
  have "shift8 (push_bit 0 x) = push_bit 8 x"
    unfolding shift8_def s0 s1 s2 s3 s4 s5 s6 s7 ..
  then show ?thesis by simp
qed

lemma mask8: "(0xff :: u16) = mask 8"
  by (simp add: mask_eq_exp_minus_1)

lemma split_word: "x = push_bit 8 (drop_bit 8 x) XOR (x AND 0xff :: u16)"
  unfolding mask8 by (rule bit_word_eqI) (auto simp: bit_simps)

lemma table_byte:
  fixes x :: u16
  assumes "unat x < 256"
  shows "XMODEMCRC16LOOKUP ! unat x = shift8 (push_bit 8 x)"
proof -
  have "unat x < length [0..255::int]" using assms by simp
  then have "XMODEMCRC16LOOKUP ! unat x = shift8 (push_bit 8 (word_of_int ([0..255] ! unat x)))"
    unfolding table_correct by (rule nth_map)
  moreover have "0 + int (unat x) \<le> 255" using assms by linarith
  from nth_upto[OF this] have "[0..255::int] ! unat x = uint x" by simp
  ultimately show ?thesis by simp
qed

lemma bit_of_char: "bit (of_char c :: u16) n \<Longrightarrow> n < 8"
proof -
  assume b: "bit (of_char c :: u16) n"
  have "(of_char c :: u16) = of_nat (of_char c)"
    by (rule of_nat_of_char [symmetric])
  with b have "bit (of_char c :: nat) n"
    by (simp add: bit_of_nat_iff)
  moreover have "take_bit 8 (of_char c :: nat) = of_char c"
    using nat_of_char_less_256[of c] by (simp add: take_bit_nat_eq_self_iff)
  ultimately show ?thesis by (metis bit_take_bit_iff)
qed

lemma crc_step_shift8: "crc_step crc c = shift8 (crc XOR push_bit 8 (of_char c))"
proof -
  let ?x = "crc XOR push_bit 8 (of_char c)"
  let ?i = "(drop_bit 8 crc XOR of_char c) AND 0xff :: u16"
  have hi: "drop_bit 8 ?x = ?i"
    unfolding mask8 by (rule bit_word_eqI) (auto simp: bit_simps dest: bit_of_char bit_imp_le_length)
  have lo: "?x AND 0xff = crc AND 0xff"
    unfolding mask8 by (rule bit_word_eqI) (auto simp: bit_simps)
  have "shift8 ?x = shift8 (push_bit 8 ?i) XOR shift8 (crc AND 0xff)"
    by (subst split_word[of ?x]) (simp only: shift8_xor hi lo)
  moreover have "shift8 (crc AND 0xff) = push_bit 8 (crc AND 0xff)"
    unfolding mask8 by (rule shift8_byte) (simp add: bit_simps)
  moreover have "push_bit 8 (crc AND 0xff) = push_bit 8 crc"
    unfolding mask8 by (rule bit_word_eqI) (auto simp: bit_simps)
  moreover have "unat (take_bit 8 w) < 256" for w :: u16
    using take_bit_nat_less_exp[of 8 "unat w"] by (simp add: unsigned_take_bit_eq)
  then have "unat ?i < 256"
    unfolding mask8 take_bit_eq_mask[symmetric] .
  ultimately show ?thesis
    by (simp only: crc_step_def table_byte xor.commute)
qed

lemma crc16_xmodem: "crc16 s = xmodem s"
  unfolding crc16_def xmodem_def by (simp add: crc_step_shift8 fun_eq_iff cong: foldl_cong)

text \<open>C37. The table-driven checksum is CRC16/XMODEM computed bit by bit, on every string.\<close>

theorem crc16_is_xmodem: "crc16 s = xmodem s"
  by (rule crc16_xmodem)

text \<open>The published check value.\<close>

lemma xmodem_check: "xmodem ''123456789'' = 0x31C3"
  by (simp add: xmodem_def shift8_def shift1_def)

section \<open>Hash tags\<close>

text \<open>
  The part of a key that is hashed, as the cluster specification says it: what stands between
  the first \<open>{\<close> and the first \<open>}\<close> behind it, if both exist and it is not empty, and else the
  whole key.
\<close>

definition hash_tag :: "string \<Rightarrow> string" where
  "hash_tag key =
     (let rest = tl (dropWhile (\<lambda>c. c \<noteq> CHR ''{'') key); tag = takeWhile (\<lambda>c. c \<noteq> CHR ''}'') rest
      in if CHR ''{'' \<in> set key \<and> CHR ''}'' \<in> set rest \<and> tag \<noteq> [] then tag else key)"

lemma find_char_split: "find_char c s = Some i \<Longrightarrow> takeWhile (\<lambda>x. x \<noteq> c) s = take i s \<and> dropWhile (\<lambda>x. x \<noteq> c) s = drop i s"
  by (induction s arbitrary: i) (auto split: if_splits)

lemma get_slot_tag: "get_slot key = xmodem (hash_tag key) mod 16384 \<and> get_slot key < 16384"
proof -
  have "get_slot key = crc16 (hash_tag key) mod 16384"
  proof (cases "find_char (CHR ''{'') key")
    case None
    then have "CHR ''{'' \<notin> set key" by (simp add: find_char_None)
    then show ?thesis by (simp add: get_slot_def hash_tag_def None Let_def)
  next
    case (Some l)
    from find_char_Some[OF Some] have l: "l < length key" "key ! l = CHR ''{''" by auto
    have rest: "tl (dropWhile (\<lambda>c. c \<noteq> CHR ''{'') key) = drop (l + 1) key"
      using find_char_split[OF Some] by (simp add: drop_Suc tl_drop)
    have mem: "CHR ''{'' \<in> set key" using l by (metis nth_mem)
    show ?thesis
    proof (cases "find_char (CHR ''}'') (drop (l + 1) key)")
      case None
      then have "CHR ''}'' \<notin> set (drop (l + 1) key)" by (simp add: find_char_None)
      then show ?thesis using rest
        by (simp add: get_slot_def hash_tag_def find_from_def Let_def Some None[unfolded Suc_eq_plus1[symmetric]])
    next
      case r: (Some r)
      have "CHR ''}'' \<in> set (drop (l + 1) key)" using find_char_Some[OF r] by (metis nth_mem)
      moreover have "takeWhile (\<lambda>c. c \<noteq> CHR ''}'') (drop (l + 1) key) = take r (drop (l + 1) key)"
        using find_char_split[OF r] by simp
      moreover have "r < length (drop (l + 1) key)" using find_char_Some[OF r] by simp
      moreover from this have "\<not> length key \<le> Suc l" by simp
      ultimately show ?thesis
        using Some r rest mem by (simp add: get_slot_def hash_tag_def find_from_def Let_def)
    qed
  qed
  moreover have "x mod 16384 < (16384 :: u16)" for x :: u16
    by (rule word_mod_less_divisor) simp
  ultimately show ?thesis by (simp add: crc16_xmodem)
qed

text \<open>C36. The slot of a key is CRC16/XMODEM of its hash tag modulo 16384, so keys with the same
  tag share a slot, and every slot is one of the 16384.\<close>

theorem get_slot_of_tag: "get_slot key = xmodem (hash_tag key) mod 16384 \<and> get_slot key < 16384"
  by (rule get_slot_tag)

end
