(* ===== verification/Mpsc_Ring.thy ===== *)
theory Mpsc_Ring
  imports Xredis_Prelude
begin

unbundle bit_operations_syntax

text \<open>
  \<open>MPSCRing\<close> (include/mpsc\_ring.hpp), the queue between the awaiting callers and the two
  coroutines of a pipe, in the variant \<open>shared = false\<close>. The counters are 64-bit words that
  only grow; the abstraction is the list of entries between \<open>head\<close> and \<open>tail\<close>.
\<close>

section \<open>The code\<close>

text \<open>
  A handle is what \<open>resume\<close> is called on; the model leaves its type open. The template
  argument \<open>xcapacity\<close> is a field that no operation changes.
\<close>

record 'h ring =
  head :: u64
  head_committed :: u64
  tail :: u64
  handles :: "'h list"
  payloads :: "string list"
  xcapacity :: nat

definition STOP_BIT :: u64 where
  "STOP_BIT = push_bit 63 1"

definition ring_mask :: "'h ring \<Rightarrow> u64" where
  "ring_mask r = of_nat (xcapacity r) - 1"

definition new_ring :: "nat \<Rightarrow> 'h \<Rightarrow> 'h ring" where
  "new_ring cap h0 = \<lparr>head = 0, head_committed = 0, tail = 0, handles = replicate cap h0,
     payloads = replicate cap [], xcapacity = cap\<rparr>"

definition put :: "u64 \<Rightarrow> 'h \<times> string \<Rightarrow> 'h ring \<Rightarrow> 'h ring" where
  "put idx e r = r\<lparr>handles := (handles r)[unat idx := fst e], payloads := (payloads r)[unat idx := snd e]\<rparr>"

definition ring_push :: "'h \<times> string \<Rightarrow> 'h ring \<Rightarrow> int \<times> 'h ring" where
  "ring_push e r =
     (if tail r AND STOP_BIT \<noteq> 0 then (-2, r)
      else if of_nat (xcapacity r) \<le> tail r - head r then (-1, r)
      else
        let pos = tail r AND ring_mask r
        in (sint (ucast pos :: 32 word), put pos e (r\<lparr>tail := tail r + 1\<rparr>)))"

text \<open>The loop of \<open>push_n\<close>, with the loop counter \<open>i\<close>.\<close>

fun put_all :: "u64 \<Rightarrow> u64 \<Rightarrow> ('h \<times> string) list \<Rightarrow> 'h ring \<Rightarrow> 'h ring" where
  "put_all pos i [] r = r"
| "put_all pos i (e # es) r = put_all pos (i + 1) es (put ((pos + i) AND ring_mask r) e r)"

definition ring_push_n :: "('h \<times> string) list \<Rightarrow> 'h ring \<Rightarrow> int \<times> 'h ring" where
  "ring_push_n es r =
     (if tail r AND STOP_BIT \<noteq> 0 then (-2, r)
      else if of_nat (xcapacity r) \<le> tail r - head r then (-1, r)
      else
        let pos = tail r AND ring_mask r
        in (sint (ucast pos :: 32 word), put_all pos 0 es (r\<lparr>tail := tail r + of_nat (length es)\<rparr>)))"

definition ring_pop :: "'h ring \<Rightarrow> ('h \<times> string) \<times> 'h ring" where
  "ring_pop r =
     (let pos = head r AND ring_mask r
      in ((handles r ! unat pos, payloads r ! unat pos), r\<lparr>head := head r + 1\<rparr>))"

text \<open>
  \<open>prep_writev(iov, num_evs)\<close> returns the filled vector, the number of entries and the
  number of bytes.
\<close>

definition prep_writev :: "u64 \<Rightarrow> 'h ring \<Rightarrow> (string list \<times> u64 \<times> nat) \<times> 'h ring" where
  "prep_writev num_evs r =
     (let start = head_committed r; end_pos = tail r;
          n = (if end_pos - start < num_evs then end_pos - start else num_evs);
          iov = map (\<lambda>i. payloads r ! unat ((start + of_nat i) AND ring_mask r)) [0..<unat n]
      in ((iov, n, sum_list (map length iov)), r\<lparr>head_committed := head_committed r + n\<rparr>))"

text \<open>
  \<open>drain\<close> resumes every handle between \<open>head\<close> and \<open>tail\<close> with the error \<open>CONN ERR\<close>; the
  result is the list of the handles it resumes, in order.
\<close>

function drain_loop :: "u64 \<Rightarrow> u64 \<Rightarrow> 'h ring \<Rightarrow> 'h list" where
  "drain_loop i stop r =
     (if i = stop then [] else handles r ! unat (i AND ring_mask r) # drain_loop (i + 1) stop r)"
  by pat_completeness auto
termination
proof (relation "measure (\<lambda>(i, stop, r). unat (stop - i))")
  fix i stop :: u64 and r :: "'h ring"
  assume "i \<noteq> stop"
  then have "0 < stop - i" by (simp add: word_gt_0)
  then have "0 < unat (stop - i)" by (simp only: unat_gt_0 word_neq_0_conv)
  then have "unat (stop - i - 1) < unat (stop - i)" using unat_minus_one[of "stop - i"] by force
  moreover have "stop - i - 1 = stop - (i + 1)" by simp
  ultimately show "((i + 1, stop, r), i, stop, r) \<in> measure (\<lambda>(i, stop, r). unat (stop - i))"
    unfolding in_measure split_conv by metis
qed simp

declare drain_loop.simps [simp del]

definition drain :: "'h ring \<Rightarrow> 'h list \<times> 'h ring" where
  "drain r = (drain_loop (head r) (tail r) r, r\<lparr>tail := tail r OR STOP_BIT\<rparr>)"

definition ring_reset :: "'h ring \<Rightarrow> 'h ring" where
  "ring_reset r = r\<lparr>head := 0, head_committed := 0, tail := 0\<rparr>"

section \<open>The invariant and the entries\<close>

definition ring_shape :: "'h ring \<Rightarrow> bool" where
  "ring_shape r \<longleftrightarrow>
     (\<exists>k\<le>31. xcapacity r = 2 ^ k) \<and>
     length (handles r) = xcapacity r \<and> length (payloads r) = xcapacity r"

definition ring_wf :: "'h ring \<Rightarrow> bool" where
  "ring_wf r \<longleftrightarrow> ring_shape r \<and>
     unat (head r) \<le> unat (head_committed r) \<and> unat (head_committed r) \<le> unat (tail r) \<and>
     unat (tail r) \<le> unat (head r) + xcapacity r \<and> unat (tail r) \<le> 2 ^ 63"

definition entry :: "'h ring \<Rightarrow> nat \<Rightarrow> 'h \<times> string" where
  "entry r i = (handles r ! (i mod xcapacity r), payloads r ! (i mod xcapacity r))"

definition entries :: "'h ring \<Rightarrow> ('h \<times> string) list" where
  "entries r = map (entry r) [unat (head r)..<unat (tail r)]"

text \<open>Those handed to the writer and not answered, and those not handed to the writer yet.\<close>

definition in_flight :: "'h ring \<Rightarrow> ('h \<times> string) list" where
  "in_flight r = map (entry r) [unat (head r)..<unat (head_committed r)]"

definition uncommitted :: "'h ring \<Rightarrow> ('h \<times> string) list" where
  "uncommitted r = map (entry r) [unat (head_committed r)..<unat (tail r)]"

definition open_ring :: "'h ring \<Rightarrow> bool" where
  "open_ring r \<longleftrightarrow> unat (tail r) < 2 ^ 63"

lemma length_entries [simp]: "length (entries r) = unat (tail r) - unat (head r)"
  by (simp add: entries_def)

lemma ring_wf_shape [intro]: "ring_wf r \<Longrightarrow> ring_shape r"
  by (simp add: ring_wf_def)

lemma ring_shape_counters [simp]:
  "ring_shape (r\<lparr>tail := t\<rparr>) = ring_shape r" "ring_shape (r\<lparr>head := t\<rparr>) = ring_shape r"
  "ring_shape (r\<lparr>head_committed := t\<rparr>) = ring_shape r"
  by (simp_all add: ring_shape_def)

lemma ring_capD:
  assumes "ring_shape r"
  obtains k where "k \<le> 31" and "xcapacity r = 2 ^ k"
  using assms by (auto simp: ring_shape_def)

lemma cap_bounds: "ring_shape r \<Longrightarrow> 0 < xcapacity r \<and> xcapacity r \<le> 2 ^ 31"
  using power_increasing[of _ 31 "2 :: nat"] by (auto simp: ring_shape_def)

lemma unat_mask_index:
  assumes "ring_shape r"
  shows "unat (w AND ring_mask r) = unat w mod xcapacity r"
proof -
  obtain k where k: "k \<le> 31" "xcapacity r = 2 ^ k" using assms by (rule ring_capD)
  have "ring_mask r = mask k"
    using k by (simp add: ring_mask_def mask_eq_exp_minus_1)
  then show ?thesis
    by (simp add: k(2) unsigned_take_bit_eq take_bit_nat_def flip: take_bit_eq_mask)
qed

lemma unat_cap: "ring_shape r \<Longrightarrow> unat (of_nat (xcapacity r) :: u64) = xcapacity r"
  using cap_bounds[of r] by (simp add: unat_of_nat)

lemma stop_clear_iff:
  assumes "unat (w :: u64) \<le> 2 ^ 63"
  shows "w AND STOP_BIT = 0 \<longleftrightarrow> unat w < 2 ^ 63"
proof -
  have "w AND STOP_BIT = 0 \<longleftrightarrow> \<not> bit w 63"
  proof -
    have "bit (w AND STOP_BIT) n \<longleftrightarrow> n = 63 \<and> bit w 63" for n
      unfolding STOP_BIT_def bit_and_iff bit_push_bit_iff bit_1_iff
      by (auto dest: bit_imp_le_length)
    note b = this
    show ?thesis
    proof
      assume "w AND STOP_BIT = 0"
      then show "\<not> bit w 63" using b[of 63] by simp
    next
      assume "\<not> bit w 63"
      then show "w AND STOP_BIT = 0" by (intro bit_word_eqI) (simp only: b bit_0_eq bot_apply bot_bool_def simp_thms)
    qed
  qed
  moreover have "bit w 63 \<longleftrightarrow> odd (unat w div 2 ^ 63)"
  proof -
    have "bit (unat w) 63 \<longleftrightarrow> bit w 63" by (simp add: bit_unsigned_iff)
    then show ?thesis by (simp add: bit_iff_odd[of "unat w"])
  qed
  moreover have "odd (unat w div 2 ^ 63) \<longleftrightarrow> \<not> unat w < 2 ^ 63"
    using assms by (cases "unat w = 2 ^ 63") auto
  ultimately show ?thesis by simp
qed

lemma unat_Suc64: "unat (w :: u64) \<le> 2 ^ 63 \<Longrightarrow> unat (w + 1) = unat w + 1"
  by (subst unat_add_lem[THEN iffD1]) simp_all

lemma unat_distance: "unat (b :: u64) \<le> unat a \<Longrightarrow> unat (a - b) = unat a - unat b"
  by (simp add: unat_sub word_le_nat_alt)

lemma full_iff:
  assumes "ring_wf r"
  shows "of_nat (xcapacity r) \<le> tail r - head r \<longleftrightarrow> xcapacity r \<le> length (entries r)"
proof -
  have "unat (tail r - head r) = unat (tail r) - unat (head r)"
    using assms by (intro unat_distance) (simp add: ring_wf_def)
  then show ?thesis using unat_cap[OF ring_wf_shape[OF assms]] by (simp add: word_le_nat_alt)
qed

text \<open>Writing the slot of one index leaves the entries of all others within one turn.\<close>

lemma mod_eq_close:
  "(i :: nat) mod c = j mod c \<Longrightarrow> i \<le> j \<Longrightarrow> j < i + c \<Longrightarrow> i = j"
  by (metis add_diff_cancel_left' less_diff_conv2 mod_eq_dvd_iff_nat le_add_diff_inverse nat_dvd_not_less
      zero_less_diff less_le diff_is_0_eq not_less add.commute)

section \<open>Push and pop\<close>

lemma put_simps [simp]:
  "head (put i e r) = head r" "head_committed (put i e r) = head_committed r" "tail (put i e r) = tail r"
  "xcapacity (put i e r) = xcapacity r" "length (handles (put i e r)) = length (handles r)"
  "length (payloads (put i e r)) = length (payloads r)" "ring_mask (put i e r) = ring_mask r"
  "ring_shape (put i e r) = ring_shape r"
  by (simp_all add: put_def ring_mask_def ring_shape_def)

lemma entry_put:
  assumes "ring_shape r" and "unat idx = j mod xcapacity r"
  shows "entry (put idx e r) i = (if i mod xcapacity r = j mod xcapacity r then e else entry r i)"
  using assms cap_bounds[OF assms(1)]
  by (auto simp: entry_def put_def ring_shape_def nth_list_update)

lemma entry_counters [simp]:
  "entry (r\<lparr>tail := t\<rparr>) = entry r" "entry (r\<lparr>head := t\<rparr>) = entry r"
  "entry (r\<lparr>head_committed := t\<rparr>) = entry r"
  by (simp_all add: entry_def fun_eq_iff)

lemma mask_counters [simp]:
  "ring_mask (r\<lparr>tail := t\<rparr>) = ring_mask r" "ring_mask (r\<lparr>head := t\<rparr>) = ring_mask r"
  "ring_mask (r\<lparr>head_committed := t\<rparr>) = ring_mask r"
  by (simp_all add: ring_mask_def)

lemma sint_pos:
  assumes "ring_shape r"
  shows "0 \<le> sint (ucast (w AND ring_mask r) :: 32 word)"
proof -
  have "unat (w AND ring_mask r) < 2 ^ 31"
    using unat_mask_index[OF assms] cap_bounds[OF assms]
    by (metis mod_less_divisor order.strict_trans2)
  then have "\<not> bit (unat (w AND ring_mask r)) 31" by (simp add: bit_iff_odd)
  then have "\<not> bit (ucast (w AND ring_mask r) :: 32 word) 31"
    by (simp add: bit_unsigned_iff)
  then show ?thesis
    using bit_last_iff[of "ucast (w AND ring_mask r) :: 32 word"] by simp
qed

lemma push_put:
  fixes e :: "'h \<times> string"
  assumes wf: "ring_wf r" and opn: "open_ring r" and room: "length (entries r) < xcapacity r"
  defines "q \<equiv> put (tail r AND ring_mask r) e (r\<lparr>tail := tail r + 1\<rparr>)"
  shows "ring_wf q" and "entries q = entries r @ [e]" and "uncommitted q = uncommitted r @ [e]"
    and "in_flight q = in_flight r"
proof -
  have t: "unat (tail r + 1) = unat (tail r) + 1"
    using opn by (intro unat_Suc64) (simp add: open_ring_def)
  show "ring_wf q"
    using wf opn room t by (auto simp: ring_wf_def q_def open_ring_def)
  let ?r' = "r\<lparr>tail := tail r + 1\<rparr>"
  have wf': "ring_wf ?r'" using wf opn room t by (auto simp: ring_wf_def open_ring_def)
  have idx: "unat (tail r AND ring_mask r) = unat (tail r) mod xcapacity ?r'"
    using unat_mask_index[OF ring_wf_shape[OF wf]] by simp
  note e = entry_put[OF ring_wf_shape[OF wf'] idx, of e]
  have old: "entry q i = entry r i" if "unat (head r) \<le> i" "i < unat (tail r)" for i
  proof -
    have "unat (tail r) < i + xcapacity r" using that room by simp
    then have "i mod xcapacity r \<noteq> unat (tail r) mod xcapacity r"
      using mod_eq_close[of i "xcapacity r" "unat (tail r)"] that by auto
    then show ?thesis using e[of i] by (simp add: q_def)
  qed
  have new: "entry q (unat (tail r)) = e" using e[of "unat (tail r)"] by (simp add: q_def)
  have bounds: "unat (head r) \<le> unat (head_committed r)" "unat (head_committed r) \<le> unat (tail r)"
    using wf by (simp_all add: ring_wf_def)
  have tq: "unat (tail q) = Suc (unat (tail r))" using t by (simp add: q_def)
  show "entries q = entries r @ [e]"
    using old new tq bounds by (simp add: entries_def q_def)
  show "uncommitted q = uncommitted r @ [e]"
    using old new tq bounds by (simp add: uncommitted_def q_def)
  show "in_flight q = in_flight r"
    using old bounds by (simp add: in_flight_def q_def)
qed

lemma entries_split: "ring_wf r \<Longrightarrow> entries r = in_flight r @ uncommitted r"
  unfolding entries_def in_flight_def uncommitted_def map_append [symmetric]
  by (rule arg_cong[where f = "map (entry r)"], rule upt_split) (simp_all add: ring_wf_def)

lemma ring_push_cases:
  assumes "ring_wf r"
  shows "ring_push e r =
    (if \<not> open_ring r then (-2, r) else if xcapacity r \<le> length (entries r) then (-1, r)
     else (sint (ucast (tail r AND ring_mask r) :: 32 word),
           put (tail r AND ring_mask r) e (r\<lparr>tail := tail r + 1\<rparr>)))"
  using stop_clear_iff[of "tail r"] full_iff[OF assms] assms
  by (simp add: ring_push_def Let_def open_ring_def ring_wf_def)

lemma pop_entry:
  assumes wf: "ring_wf r" and fl: "in_flight r = e # es"
  shows "\<exists>r'. ring_pop r = (e, r') \<and> ring_wf r' \<and> in_flight r' = es \<and> uncommitted r' = uncommitted r \<and>
    tail r' = tail r"
proof -
  let ?r' = "r\<lparr>head := head r + 1\<rparr>"
  have lt: "unat (head r) < unat (head_committed r)"
    using fl by (cases "unat (head r) < unat (head_committed r)") (simp_all add: in_flight_def)
  have h: "unat (head r + 1) = unat (head r) + 1"
    using wf lt by (intro unat_Suc64) (simp add: ring_wf_def)
  have upt: "[unat (head r)..<unat (head_committed r)] =
      unat (head r) # [Suc (unat (head r))..<unat (head_committed r)]"
    using lt by (rule upt_conv_Cons)
  have "fst (ring_pop r) = entry r (unat (head r))"
    by (simp add: ring_pop_def Let_def entry_def unat_mask_index[OF ring_wf_shape[OF wf]])
  moreover have "snd (ring_pop r) = ?r'" by (simp add: ring_pop_def Let_def)
  moreover have "entry r (unat (head r)) = e" and "map (entry r) [Suc (unat (head r))..<unat (head_committed r)] = es"
    using fl unfolding in_flight_def upt by simp_all
  moreover have "ring_wf ?r'" using wf lt h by (auto simp: ring_wf_def)
  ultimately show ?thesis
    using h by (intro exI[of _ ?r']) (simp add: in_flight_def uncommitted_def prod_eq_iff)
qed

lemma commit_entries:
  assumes wf: "ring_wf r"
  shows "\<exists>r'. prep_writev n r =
      ((map snd (take (unat n) (uncommitted r)), of_nat (min (unat n) (length (uncommitted r))),
        sum_list (map (length \<circ> snd) (take (unat n) (uncommitted r)))), r') \<and>
    ring_wf r' \<and> in_flight r' = in_flight r @ take (unat n) (uncommitted r) \<and>
    uncommitted r' = drop (unat n) (uncommitted r) \<and> tail r' = tail r"
proof -
  let ?c = "unat (head_committed r)" and ?t = "unat (tail r)"
  have bounds: "unat (head r) \<le> ?c" "?c \<le> ?t" "?t \<le> 2 ^ 63"
    using wf by (simp_all add: ring_wf_def)
  let ?k = "if tail r - head_committed r < n then tail r - head_committed r else n"
  have d: "unat (tail r - head_committed r) = ?t - ?c" using bounds by (intro unat_distance) simp
  have k: "unat ?k = min (unat n) (?t - ?c)" using d by (simp add: word_less_nat_alt min_def)
  let ?r' = "r\<lparr>head_committed := head_committed r + ?k\<rparr>"
  have c': "unat (head_committed r + ?k) = ?c + unat ?k"
    using k bounds by (subst unat_add_lem[THEN iffD1]) simp_all
  have idx: "unat ((head_committed r + of_nat i) AND ring_mask r) = (?c + i) mod xcapacity r"
    if "i < unat ?k" for i
  proof -
    have "i < ?t - ?c" using that unfolding k by simp
    then have "?c + i < ?t" by linarith
    then have small: "i < 2 ^ 63" "?c + i < 2 ^ 64" using bounds(3) by simp_all
    then have i: "unat (of_nat i :: u64) = i" by (simp add: unat_of_nat)
    have "unat (head_committed r + of_nat i) = ?c + i"
      using small i by (subst unat_add_lem[THEN iffD1]) simp_all
    then show ?thesis by (simp add: unat_mask_index[OF ring_wf_shape[OF wf]])
  qed
  have iov: "map (\<lambda>i. payloads r ! unat ((head_committed r + of_nat i) AND ring_mask r)) [0..<unat ?k] =
      map snd (take (unat n) (uncommitted r))"
  proof (rule nth_equalityI)
    show "length (map (\<lambda>i. payloads r ! unat ((head_committed r + of_nat i) AND ring_mask r)) [0..<unat ?k]) =
        length (map snd (take (unat n) (uncommitted r)))"
      unfolding k by (simp add: uncommitted_def min.commute)
    fix i assume "i < length (map (\<lambda>i. payloads r ! unat ((head_committed r + of_nat i) AND ring_mask r)) [0..<unat ?k])"
    then have i: "i < unat ?k" by (simp only: length_map length_upt diff_zero)
    then have "i < unat n" and "i < ?t - ?c" unfolding k by simp_all
    then have "i < unat n" and "?c + i < ?t" by linarith+
    then have "map snd (take (unat n) (uncommitted r)) ! i = payloads r ! ((?c + i) mod xcapacity r)"
      by (simp add: uncommitted_def entry_def)
    moreover have "map (\<lambda>i. payloads r ! unat ((head_committed r + of_nat i) AND ring_mask r)) [0..<unat ?k] ! i =
        payloads r ! unat ((head_committed r + of_nat i) AND ring_mask r)"
      using i by (simp only: nth_map length_upt diff_zero nth_upt add_0)
    ultimately show "map (\<lambda>i. payloads r ! unat ((head_committed r + of_nat i) AND ring_mask r)) [0..<unat ?k] ! i =
        map snd (take (unat n) (uncommitted r)) ! i"
      by (simp only: idx[OF i])
  qed
  have "prep_writev n r = ((map snd (take (unat n) (uncommitted r)), ?k,
        sum_list (map (length \<circ> snd) (take (unat n) (uncommitted r)))), ?r')"
    unfolding prep_writev_def Let_def iov by (simp add: comp_def)
  moreover have "?k = of_nat (min (unat n) (length (uncommitted r)))"
    using k by (simp add: uncommitted_def flip: k)
  moreover have "ring_wf ?r'" using wf c' k by (auto simp: ring_wf_def)
  moreover have "take (unat n) [?c..<?t] = [?c..<?c + unat ?k]"
    unfolding k using bounds(2) by (cases "unat n \<le> ?t - ?c") (simp_all add: take_upt min_def)
  then have "in_flight ?r' = in_flight r @ take (unat n) (uncommitted r)"
    using upt_split[of "unat (head r)" ?c "?c + unat ?k"] bounds(1) c'
    by (simp add: in_flight_def uncommitted_def take_map)
  moreover have "drop (unat n) [?c..<?t] = [?c + unat ?k..<?t]"
    unfolding k drop_upt using bounds(2) by (cases "unat n \<le> ?t - ?c") (simp_all add: min_def)
  then have "uncommitted ?r' = drop (unat n) (uncommitted r)"
    using c' by (simp add: uncommitted_def drop_map)
  ultimately show ?thesis by (intro exI[of _ ?r']) simp
qed

section \<open>A block of entries\<close>

lemma put_all_simps [simp]:
  "head (put_all pos i es r) = head r" "head_committed (put_all pos i es r) = head_committed r"
  "tail (put_all pos i es r) = tail r" "xcapacity (put_all pos i es r) = xcapacity r"
  "ring_mask (put_all pos i es r) = ring_mask r" "ring_shape (put_all pos i es r) = ring_shape r"
  by (induction pos i es r rule: put_all.induct) simp_all

lemma put_all_other:
  assumes "ring_shape r" and "\<And>d. d < length es \<Longrightarrow> unat ((pos + i + of_nat d) AND ring_mask r) = (t + d) mod xcapacity r"
    and "\<And>d. d < length es \<Longrightarrow> j mod xcapacity r \<noteq> (t + d) mod xcapacity r"
  shows "entry (put_all pos i es r) j = entry r j"
  using assms
proof (induction es arbitrary: i t r)
  case (Cons e es)
  let ?q = "put ((pos + i) AND ring_mask r) e r"
  have "unat ((pos + i) AND ring_mask r) = t mod xcapacity r" using Cons.prems(2)[of 0] by simp
  then have "entry ?q j = entry r j"
    using entry_put[OF Cons.prems(1), of _ t e j] Cons.prems(3)[of 0] by simp
  moreover have "entry (put_all pos (i + 1) es ?q) j = entry ?q j"
  proof (rule Cons.IH[where t = "Suc t"])
    show "unat ((pos + (i + 1) + of_nat d) AND ring_mask ?q) = (Suc t + d) mod xcapacity ?q"
      if "d < length es" for d
      using Cons.prems(2)[of "Suc d"] that by (simp add: algebra_simps)
    show "j mod xcapacity ?q \<noteq> (Suc t + d) mod xcapacity ?q" if "d < length es" for d
      using Cons.prems(3)[of "Suc d"] that by simp
  qed (use Cons.prems(1) in simp)
  ultimately show ?case by simp
qed simp

lemma put_all_entry:
  assumes "ring_shape r" and "\<And>d. d < length es \<Longrightarrow> unat ((pos + i + of_nat d) AND ring_mask r) = (t + d) mod xcapacity r"
    and "length es \<le> xcapacity r" and "d < length es"
  shows "entry (put_all pos i es r) (t + d) = es ! d"
  using assms
proof (induction es arbitrary: i t r d)
  case (Cons e es)
  let ?q = "put ((pos + i) AND ring_mask r) e r"
  have idx: "unat ((pos + (i + 1) + of_nat d) AND ring_mask ?q) = (Suc t + d) mod xcapacity ?q"
    if "d < length es" for d
    using Cons.prems(2)[of "Suc d"] that by (simp add: algebra_simps)
  show ?case
  proof (cases d)
    case 0
    have "entry (put_all pos (i + 1) es ?q) t = entry ?q t"
    proof (rule put_all_other[where t = "Suc t"])
      show "t mod xcapacity ?q \<noteq> (Suc t + d) mod xcapacity ?q" if "d < length es" for d
        using mod_eq_close[of t "xcapacity r" "Suc t + d"] that Cons.prems(3) by auto
    qed (use Cons.prems(1) idx in simp_all)
    moreover have "entry ?q t = e"
      using entry_put[OF Cons.prems(1), of _ t e t] Cons.prems(2)[of 0] by simp
    ultimately show ?thesis using 0 by simp
  next
    case (Suc d')
    have "entry (put_all pos (i + 1) es ?q) (Suc t + d') = es ! d'"
      by (rule Cons.IH) (use Cons.prems idx Suc in simp_all)
    then show ?thesis using Suc by simp
  qed
qed simp

text \<open>The slots \<open>push_n\<close> writes.\<close>

lemma block_index:
  assumes "ring_shape r"
  shows "unat (((tail r AND ring_mask r) + 0 + of_nat d) AND ring_mask r) = (unat (tail r) + d) mod xcapacity r"
proof -
  obtain k where k: "k \<le> 31" "xcapacity r = 2 ^ k" using assms by (rule ring_capD)
  have m: "ring_mask r = mask k" using k by (simp add: ring_mask_def mask_eq_exp_minus_1)
  have "((tail r AND ring_mask r) + 0 + of_nat d) AND ring_mask r = take_bit k (take_bit k (tail r) + of_nat d)"
    unfolding m take_bit_eq_mask[symmetric] add_0_right by (rule refl)
  then have "unat (((tail r AND ring_mask r) + 0 + of_nat d) AND ring_mask r) =
      unat (take_bit k (tail r) + of_nat d) mod 2 ^ k"
    by (simp only: unsigned_take_bit_eq take_bit_nat_def)
  also have "unat (take_bit k (tail r) + of_nat d) = (unat (tail r) mod 2 ^ k + d) mod 2 ^ 64"
    by (simp add: unat_word_ariths unat_of_nat mod_simps unsigned_take_bit_eq take_bit_nat_def)
  also have "\<dots> mod 2 ^ k = (unat (tail r) mod 2 ^ k + d) mod 2 ^ k"
    using k by (intro mod_mod_cancel le_imp_power_dvd) simp
  finally show ?thesis by (simp add: k(2) mod_simps)
qed

lemma push_n_entries:
  assumes wf: "ring_wf r" and opn: "open_ring r" and room: "length (entries r) < xcapacity r"
    and fits: "length (entries r) + length es \<le> xcapacity r" and last: "unat (tail r) + length es \<le> 2 ^ 63"
  shows "\<exists>p r'. ring_push_n es r = (p, r') \<and> 0 \<le> p \<and> ring_wf r' \<and>
    in_flight r' = in_flight r \<and> uncommitted r' = uncommitted r @ es"
proof -
  let ?m = "of_nat (length es) :: u64"
  let ?r1 = "r\<lparr>tail := tail r + ?m\<rparr>"
  let ?q = "put_all (tail r AND ring_mask r) 0 es ?r1"
  let ?t = "unat (tail r)"
  have shape: "ring_shape r" using wf by (rule ring_wf_shape)
  have len: "unat ?m = length es" using last by (simp add: unat_of_nat)
  have t: "unat (tail r + ?m) = ?t + length es"
    using last len by (subst unat_add_lem[THEN iffD1]) simp_all
  have idx: "unat (((tail r AND ring_mask r) + 0 + of_nat d) AND ring_mask ?r1) = (?t + d) mod xcapacity ?r1" for d
    using block_index[OF shape, of d] by simp
  have bounds: "unat (head r) \<le> unat (head_committed r)" "unat (head_committed r) \<le> ?t"
    using wf by (simp_all add: ring_wf_def)
  have old: "entry ?q j = entry r j" if "unat (head r) \<le> j" "j < ?t" for j
  proof -
    have "entry ?q j = entry ?r1 j"
    proof (rule put_all_other[where t = ?t])
      fix d assume "d < length es"
      then have "?t + d < j + xcapacity r" using that fits by simp
      then show "j mod xcapacity ?r1 \<noteq> (?t + d) mod xcapacity ?r1"
        using mod_eq_close[of j "xcapacity r" "?t + d"] that by auto
    qed (use shape idx in simp_all)
    then show ?thesis by simp
  qed
  have new: "entry ?q (?t + d) = es ! d" if "d < length es" for d
    using shape idx fits that by (intro put_all_entry) simp_all
  have "map (entry ?q) [?t..<?t + length es] = es"
    using new by (intro nth_equalityI) simp_all
  then have "uncommitted ?q = uncommitted r @ es"
    using upt_split[of "unat (head_committed r)" ?t "?t + length es"] bounds old t
    by (simp add: uncommitted_def)
  moreover have "in_flight ?q = in_flight r"
    using bounds old by (simp add: in_flight_def)
  moreover have "ring_wf ?q"
    using wf fits last t by (auto simp: ring_wf_def)
  moreover have "ring_push_n es r = (sint (ucast (tail r AND ring_mask r) :: 32 word), ?q)"
    using stop_clear_iff[of "tail r"] full_iff[OF wf] wf opn room
    by (simp add: ring_push_n_def Let_def open_ring_def ring_wf_def)
  ultimately show ?thesis using sint_pos[OF shape, of "tail r"] by blast
qed

text \<open>
  A block of two on a ring with one free place: the test of \<open>push_n\<close> passes, the second entry is
  written over the oldest one, and the ring counts one entry more than it has places.
\<close>

lemma push_n_one_place:
  assumes wf: "ring_wf r" and opn: "open_ring r" and one: "length (entries r) + 1 = xcapacity r"
    and two: "2 \<le> xcapacity r" and last: "unat (tail r) + 2 \<le> 2 ^ 63"
  shows "\<exists>p r'. ring_push_n [a, b] r = (p, r') \<and> 0 \<le> p \<and> xcapacity r' = xcapacity r \<and>
    entries r' = b # tl (entries r) @ [a, b]"
proof -
  let ?c = "xcapacity r" and ?h = "unat (head r)" and ?t = "unat (tail r)"
  let ?pos = "tail r AND ring_mask r" and ?r1 = "r\<lparr>tail := tail r + 2\<rparr>"
  let ?q = "put_all ?pos 0 [a, b] ?r1"
  have shape: "ring_shape r" using wf by (rule ring_wf_shape)
  have le: "?h \<le> ?t" using wf by (simp add: ring_wf_def)
  then have t: "Suc ?t = ?h + ?c" using one by simp
  have t2: "unat (tail r + 2) = ?t + 2"
    using last by (subst unat_add_lem[THEN iffD1]) simp_all
  have idx: "unat ((?pos + 0) AND ring_mask ?r1) = ?t mod xcapacity ?r1"
    "unat ((?pos + (0 + 1)) AND ring_mask (put ((?pos + 0) AND ring_mask ?r1) a ?r1)) =
      Suc ?t mod xcapacity (put ((?pos + 0) AND ring_mask ?r1) a ?r1)"
    using block_index[OF shape, of 0] block_index[OF shape, of 1] by simp_all
  have e: "entry ?q j = (if j mod ?c = Suc ?t mod ?c then b else if j mod ?c = ?t mod ?c then a else entry r j)" for j
    using entry_put[OF _ idx(2), of b j] entry_put[OF _ idx(1), of a j] shape by simp
  have turn: "Suc ?t mod ?c = ?h mod ?c" unfolding t by simp
  have apart: "j mod ?c \<noteq> ?h mod ?c" if "?h < j" "j \<le> ?t" for j
    using mod_eq_close[of ?h ?c j] that t by auto
  have "?h < ?t" using t two by simp
  have mid: "map (entry ?q) [Suc ?h..<?t] = map (entry r) [Suc ?h..<?t]"
  proof (rule map_cong[OF refl])
    fix j assume "j \<in> set [Suc ?h..<?t]"
    then have j: "?h < j" "j < ?t" by auto
    then have "j mod ?c \<noteq> ?t mod ?c" using mod_eq_close[of j ?c ?t] t by auto
    then show "entry ?q j = entry r j" using apart[of j] j e[of j] turn by simp
  qed
  have upt: "[?h..<?t + 2] = ?h # [Suc ?h..<?t] @ [?t, Suc ?t]"
    using \<open>?h < ?t\<close> by (simp add: upt_conv_Cons)
  have "entry ?q ?h = b" "entry ?q ?t = a" "entry ?q (Suc ?t) = b"
    using e turn apart[of ?t] \<open>?h < ?t\<close> by simp_all
  then have "map (entry ?q) [?h..<?t + 2] = b # map (entry r) [Suc ?h..<?t] @ [a, b]"
    unfolding upt using mid by simp
  moreover have "entries ?q = map (entry ?q) [?h..<?t + 2]"
    unfolding entries_def using t2 by simp
  moreover have "tl (entries r) = map (entry r) [Suc ?h..<?t]"
    by (simp add: entries_def upt_conv_Cons[OF \<open>?h < ?t\<close>])
  ultimately have "entries ?q = b # tl (entries r) @ [a, b]" by simp
  moreover have "ring_push_n [a, b] r = (sint (ucast ?pos :: 32 word), ?q)"
    using stop_clear_iff[of "tail r"] full_iff[OF wf] wf opn one
    by (simp add: ring_push_n_def Let_def open_ring_def ring_wf_def)
  moreover have "xcapacity ?q = xcapacity r" by simp
  ultimately show ?thesis using sint_pos[OF shape, of "tail r"] by blast
qed

section \<open>Drain and reset\<close>

lemma drain_loop_entries:
  assumes "ring_wf r" and "unat i \<le> unat stop" and "unat stop \<le> 2 ^ 63"
  shows "drain_loop i stop r = map (\<lambda>j. fst (entry r j)) [unat i..<unat stop]"
  using assms
proof (induction i stop r rule: drain_loop.induct)
  case (1 i stop r)
  show ?case
  proof (cases "i = stop")
    case True
    then show ?thesis by (subst drain_loop.simps) simp
  next
    case False
    then have lt: "unat i < unat stop" using "1.prems"(2) by (metis le_neq_implies_less word_unat_eq_iff)
    then have s: "unat (i + 1) = Suc (unat i)" using "1.prems"(3) unat_Suc64[of i] by simp
    then have "drain_loop (i + 1) stop r = map (\<lambda>j. fst (entry r j)) [Suc (unat i)..<unat stop]"
      using "1.IH"[OF False "1.prems"(1)] "1.prems"(3) lt by simp
    then show ?thesis
      using False lt unat_mask_index[OF ring_wf_shape[OF "1.prems"(1)], of i]
      by (subst drain_loop.simps) (simp add: upt_conv_Cons entry_def)
  qed
qed

lemma drain_entries: "ring_wf r \<Longrightarrow> fst (drain r) = map fst (entries r)"
  using drain_loop_entries[of r "head r" "tail r"] by (simp add: drain_def entries_def ring_wf_def comp_def)

lemma drain_stops: "tail (snd (drain r)) AND STOP_BIT \<noteq> 0"
proof -
  have "bit ((tail r OR STOP_BIT) AND STOP_BIT) 63"
    unfolding STOP_BIT_def by (simp only: bit_and_iff bit_or_iff bit_push_bit_iff bit_1_iff) simp
  then have "(tail r OR STOP_BIT) AND STOP_BIT \<noteq> 0" by (metis bit_0_eq bot_apply bot_bool_def)
  then show ?thesis by (simp add: drain_def)
qed

lemma reset_entries:
  assumes "ring_shape r"
  shows "ring_wf (ring_reset r) \<and> open_ring (ring_reset r) \<and> entries (ring_reset r) = []"
  using assms by (auto simp: ring_reset_def ring_wf_def ring_shape_def open_ring_def entries_def)

lemma new_ring_wf: "k \<le> 31 \<Longrightarrow> ring_wf (new_ring (2 ^ k) h0) \<and> entries (new_ring (2 ^ k) h0) = []"
  by (auto simp: new_ring_def ring_wf_def ring_shape_def entries_def)

section \<open>The interface: a request queue\<close>

text \<open>
  What the pipe relies on. \<open>flying\<close> are the requests handed to the writer and not answered,
  \<open>waiting\<close> the accepted ones not handed to it yet.
\<close>

locale request_queue =
  fixes enqueue :: "'h \<times> string \<Rightarrow> 'q \<Rightarrow> int \<times> 'q"
    and commit :: "u64 \<Rightarrow> 'q \<Rightarrow> string list \<times> 'q"
    and dequeue :: "'q \<Rightarrow> ('h \<times> string) \<times> 'q"
    and good :: "'q \<Rightarrow> bool"
    and flying :: "'q \<Rightarrow> ('h \<times> string) list"
    and waiting :: "'q \<Rightarrow> ('h \<times> string) list"
  assumes enqueue_ok: "good q \<Longrightarrow> enqueue e q = (p, q') \<Longrightarrow> 0 \<le> p \<Longrightarrow>
      good q' \<and> flying q' = flying q \<and> waiting q' = waiting q @ [e]"
    and enqueue_refused: "good q \<Longrightarrow> enqueue e q = (p, q') \<Longrightarrow> p < 0 \<Longrightarrow> q' = q"
    and commit_takes: "good q \<Longrightarrow> commit n q = (iov, q') \<Longrightarrow>
      good q' \<and> iov = map snd (take (unat n) (waiting q)) \<and>
      flying q' = flying q @ take (unat n) (waiting q) \<and> waiting q' = drop (unat n) (waiting q)"
    and dequeue_first: "good q \<Longrightarrow> flying q = f # fs \<Longrightarrow> dequeue q = (e, q') \<Longrightarrow>
      e = f \<and> good q' \<and> flying q' = fs \<and> waiting q' = waiting q"

text \<open>
  The traffic of a pipe: callers enqueue, the writer commits batches, the reader dequeues
  one request per reply, so only while a written request is unanswered. The indices are the
  queue, the accepted requests, the payloads written and the requests answered.
\<close>

inductive traffic :: "('e \<Rightarrow> 'q \<Rightarrow> int \<times> 'q) \<Rightarrow> (u64 \<Rightarrow> 'q \<Rightarrow> string list \<times> 'q) \<Rightarrow>
    ('q \<Rightarrow> 'e \<times> 'q) \<Rightarrow> ('q \<Rightarrow> 'e list) \<Rightarrow> 'q \<Rightarrow> 'q \<Rightarrow> 'e list \<Rightarrow> string list \<Rightarrow> 'e list \<Rightarrow> bool"
  for enqueue commit dequeue flying q0 where
  traffic_start: "traffic enqueue commit dequeue flying q0 q0 [] [] []"
| traffic_accept: "traffic enqueue commit dequeue flying q0 q acc wire ans \<Longrightarrow>
    enqueue e q = (p, q') \<Longrightarrow> 0 \<le> p \<Longrightarrow>
    traffic enqueue commit dequeue flying q0 q' (acc @ [e]) wire ans"
| traffic_refuse: "traffic enqueue commit dequeue flying q0 q acc wire ans \<Longrightarrow>
    enqueue e q = (p, q') \<Longrightarrow> p < 0 \<Longrightarrow>
    traffic enqueue commit dequeue flying q0 q' acc wire ans"
| traffic_write: "traffic enqueue commit dequeue flying q0 q acc wire ans \<Longrightarrow>
    commit n q = (iov, q') \<Longrightarrow>
    traffic enqueue commit dequeue flying q0 q' acc (wire @ iov) ans"
| traffic_answer: "traffic enqueue commit dequeue flying q0 q acc wire ans \<Longrightarrow>
    flying q \<noteq> [] \<Longrightarrow> dequeue q = (e, q') \<Longrightarrow>
    traffic enqueue commit dequeue flying q0 q' acc wire (ans @ [e])"

context request_queue
begin

lemma traffic_invariant:
  assumes "traffic enqueue commit dequeue flying q0 q acc wire ans"
    and "good q0" and "flying q0 = []" and "waiting q0 = []"
  shows "good q \<and> acc = ans @ flying q @ waiting q \<and> wire = map snd (ans @ flying q)"
  using assms
proof (induction rule: traffic.induct)
  case (traffic_accept q acc wire ans e p q')
  then show ?case using enqueue_ok[of q e p q'] by simp
next
  case (traffic_refuse q acc wire ans e p q')
  then show ?case using enqueue_refused[of q e p q'] by simp
next
  case (traffic_write q acc wire ans n iov q')
  then have inv: "good q" "acc = ans @ flying q @ waiting q" "wire = map snd (ans @ flying q)" by simp_all
  show ?case using commit_takes[OF inv(1) traffic_write.hyps(2)] inv(2,3) by simp
next
  case (traffic_answer q acc wire ans e q')
  then obtain f fs where f: "flying q = f # fs" by (cases "flying q") simp_all
  from traffic_answer have inv: "good q" "acc = ans @ flying q @ waiting q" "wire = map snd (ans @ flying q)" by simp_all
  show ?case using dequeue_first[OF inv(1) f traffic_answer.hyps(3)] inv(2,3) f by simp
qed simp

end

text \<open>The batch of \<open>prep_writev\<close>, without its counts.\<close>

definition ring_commit :: "u64 \<Rightarrow> 'h ring \<Rightarrow> string list \<times> 'h ring" where
  "ring_commit n r = (fst (fst (prep_writev n r)), snd (prep_writev n r))"

lemma ring_push_accepted:
  assumes wf: "ring_wf r" and push: "ring_push e r = (p, r')" and ok: "0 \<le> p"
  shows "ring_wf r' \<and> in_flight r' = in_flight r \<and> uncommitted r' = uncommitted r @ [e]"
proof -
  have opn: "open_ring r" and room: "length (entries r) < xcapacity r"
    using ring_push_cases[OF wf, of e] push ok by (auto split: if_splits)
  then have "r' = put (tail r AND ring_mask r) e (r\<lparr>tail := tail r + 1\<rparr>)"
    using ring_push_cases[OF wf, of e] push by simp
  then show ?thesis using push_put[OF wf opn room, of e] by simp
qed

lemma ring_push_spec_cases:
  assumes "ring_wf r"
  shows "0 \<le> fst (ring_push e r) \<longleftrightarrow> open_ring r \<and> length (entries r) < xcapacity r"
  using ring_push_cases[OF assms, of e] sint_pos[OF ring_wf_shape[OF assms], of "tail r"] by auto

lemma ring_push_refused:
  assumes wf: "ring_wf r" and push: "ring_push e r = (p, r')" and no: "p < 0"
  shows "r' = r"
  using ring_push_cases[OF wf, of e] push no sint_pos[OF ring_wf_shape[OF wf], of "tail r"]
  by (auto split: if_splits)

interpretation rq: request_queue ring_push ring_commit ring_pop ring_wf in_flight uncommitted
proof
  show "ring_wf r' \<and> iov = map snd (take (unat n) (uncommitted r)) \<and>
      in_flight r' = in_flight r @ take (unat n) (uncommitted r) \<and> uncommitted r' = drop (unat n) (uncommitted r)"
    if "ring_wf r" and "ring_commit n r = (iov, r')" for r :: "'h ring" and n iov r'
    using commit_entries[OF that(1), of n] that(2) by (auto simp: ring_commit_def)
  show "e = f \<and> ring_wf r' \<and> in_flight r' = fs \<and> uncommitted r' = uncommitted r"
    if "ring_wf r" and "in_flight r = f # fs" and "ring_pop r = (e, r')" for r :: "'h ring" and f fs e r'
    using pop_entry[OF that(1,2)] that(3) by auto
qed (auto dest: ring_push_accepted ring_push_refused)

section \<open>Properties\<close>

text \<open>\<open>push\<close> answers -2 on a ring that \<open>drain\<close> closed and -1 on a full one, and changes
  neither; otherwise it returns the slot of the new entry, which the ring now holds last, all
  other entries unchanged.\<close>
theorem ring_push_spec:
  assumes "ring_wf r"
  shows "(\<not> open_ring r \<longrightarrow> ring_push e r = (-2, r)) \<and>
    (open_ring r \<and> xcapacity r \<le> length (entries r) \<longrightarrow> ring_push e r = (-1, r)) \<and>
    (open_ring r \<and> length (entries r) < xcapacity r \<longrightarrow>
       (let r' = snd (ring_push e r) in
          0 \<le> fst (ring_push e r) \<and> ring_wf r' \<and> entries r' = entries r @ [e] \<and> in_flight r' = in_flight r))"
  using ring_push_cases[OF assms, of e] push_put[OF assms, of e] sint_pos[OF ring_wf_shape[OF assms], of "tail r"]
  by (simp add: Let_def)

lemmas ring_eval = ring_push_def ring_push_n_def ring_pop_def new_ring_def STOP_BIT_def ring_mask_def
  put_def word_le_nat_alt

definition demo_ring1 :: "nat ring" where
  "demo_ring1 = \<lparr>head = 0, head_committed = 0, tail = 1, handles = [10, 0], payloads = [''a'', []], xcapacity = 2\<rparr>"

definition demo_ring :: "nat ring" where
  "demo_ring = \<lparr>head = 0, head_committed = 0, tail = 2, handles = [10, 11], payloads = [''a'', ''b''], xcapacity = 2\<rparr>"

lemma replicate_two: "replicate 2 x = [x, x]"
  by (simp add: numeral_2_eq_2)

lemma demo_pushes:
  "ring_push (10, ''a'') (new_ring 2 0) = (0, demo_ring1)" "ring_push (11, ''b'') demo_ring1 = (1, demo_ring)"
  by (simp_all add: demo_ring1_def demo_ring_def ring_eval replicate_two)

lemma demo_wf: "ring_wf demo_ring1" "ring_wf demo_ring" "open_ring demo_ring1" "open_ring demo_ring"
  by (simp_all add: demo_ring1_def demo_ring_def ring_wf_def ring_shape_def open_ring_def exI[of _ 1])

lemma demo_fields: "xcapacity demo_ring1 = 2" "head demo_ring1 = 0" "tail demo_ring1 = 1"
  by (simp_all add: demo_ring1_def)

lemma demo_entries:
  "entries demo_ring1 = [(10, ''a'')]" "entries demo_ring = [(10, ''a''), (11, ''b'')]"
  by (simp_all add: demo_ring1_def demo_ring_def entries_def entry_def upt_rec)

theorem ring_push_spec_witness:
  "ring_push (12, ''c'') demo_ring = (-1, demo_ring)"
  using ring_push_spec[OF demo_wf(2), of "(12, ''c'')"] demo_wf(4) demo_entries(2)
  by (simp add: demo_ring_def)

text \<open>C8. However pushes, batches of \<open>prep_writev\<close> and pops interleave, one pop per written
  request: the requests answered, those in flight and those waiting are together the accepted
  ones in the order of their \<open>push\<close>; the bytes handed to the socket are the payloads of the
  first two groups in that order, so the k-th reply goes to the coroutine of the k-th request
  written; and a \<open>drain\<close> resumes the handle of every other accepted request once, in order.\<close>
theorem ring_fifo:
  assumes "traffic ring_push ring_commit ring_pop in_flight (new_ring (2 ^ k) h0) r acc wire ans" and "k \<le> 31"
  shows "acc = ans @ in_flight r @ uncommitted r \<and> wire = map snd (ans @ in_flight r) \<and>
    map fst acc = map fst ans @ fst (drain r)"
proof -
  have "in_flight (new_ring (2 ^ k) h0) = []" and "uncommitted (new_ring (2 ^ k) h0) = []"
    by (simp_all add: new_ring_def in_flight_def uncommitted_def)
  then have inv: "ring_wf r \<and> acc = ans @ in_flight r @ uncommitted r \<and> wire = map snd (ans @ in_flight r)"
    using rq.traffic_invariant[OF assms(1)] new_ring_wf[OF assms(2), of h0] by blast
  then have "fst (drain r) = map fst (in_flight r @ uncommitted r)"
    using drain_entries[of r] entries_split[of r] by simp
  then show ?thesis using inv by simp
qed

theorem ring_fifo_witness:
  "fst (drain demo_ring) = [10, 11]"
proof -
  let ?new = "new_ring (2 ^ 1) (0 :: nat)"
  have "traffic ring_push ring_commit ring_pop in_flight ?new demo_ring1 ([] @ [(10, ''a'')]) [] []"
    by (rule traffic_accept[OF traffic_start, of _ _ _ 0]) (simp_all add: demo_pushes)
  then have "traffic ring_push ring_commit ring_pop in_flight ?new demo_ring (([] @ [(10, ''a'')]) @ [(11, ''b'')]) [] []"
    by (rule traffic_accept[of _ _ _ _ _ _ _ _ _ _ 1]) (simp_all add: demo_pushes)
  from ring_fifo[OF this] show ?thesis by simp
qed

text \<open>\<open>push_n\<close> of a block that fits in the free slots appends the block, in order, after the
  entries the ring holds, and touches none of those.\<close>
theorem ring_push_n_appends:
  assumes "ring_wf r" and "open_ring r" and "length (entries r) < xcapacity r"
    and "length (entries r) + length es \<le> xcapacity r" and "unat (tail r) + length es \<le> 2 ^ 63"
  shows "0 \<le> fst (ring_push_n es r) \<and> ring_wf (snd (ring_push_n es r)) \<and>
    entries (snd (ring_push_n es r)) = entries r @ es"
  using push_n_entries[OF assms] entries_split[OF assms(1)] by (auto simp: entries_split)

theorem ring_push_n_appends_witness:
  "entries (snd (ring_push_n [(11, ''b'')] demo_ring1)) = [(10, ''a''), (11, ''b'')]"
  using ring_push_n_appends[OF demo_wf(1,3), of "[(11, ''b'')]"] demo_entries(1)
  by (simp add: demo_ring1_def)

text \<open>\<open>push_n\<close> asks only for one free slot: a block longer than the free part of the ring is
  accepted, and overwrites requests that were accepted before and not answered.\<close>
theorem ring_push_n_overwrites:
  "let r = snd (ring_push (10, ''a'') (new_ring 2 (0 :: nat))); (p, r') = ring_push_n [(11, ''b''), (12, ''c'')] r
   in entries r = [(10, ''a'')] \<and> p = 1 \<and> fst (ring_pop r') = (12, ''c'')"
proof -
  have "ring_push_n [(11, ''b''), (12, ''c'')] demo_ring1 =
      (1, \<lparr>head = 0, head_committed = 0, tail = 3, handles = [12, 11], payloads = [''c'', ''b''], xcapacity = 2\<rparr>)"
    by (simp add: demo_ring1_def ring_eval)
  then show ?thesis using demo_entries(1) by (simp add: demo_pushes Let_def ring_pop_def)
qed

text \<open>After a \<open>drain\<close>, which resumes the handle of every entry once and in order, pushes
  answer -2 until \<open>reset\<close>, which leaves an open and empty ring.\<close>
theorem ring_drain_closes:
  assumes "ring_wf r"
  shows "fst (drain r) = map fst (entries r) \<and>
    ring_push e (snd (drain r)) = (-2, snd (drain r)) \<and> ring_push_n es (snd (drain r)) = (-2, snd (drain r)) \<and>
    ring_wf (ring_reset (snd (drain r))) \<and> open_ring (ring_reset (snd (drain r))) \<and>
    entries (ring_reset (snd (drain r))) = []"
proof -
  have "ring_shape (snd (drain r))" using assms by (simp add: drain_def ring_wf_shape)
  moreover have "tail (snd (drain r)) AND STOP_BIT \<noteq> 0" by (rule drain_stops)
  ultimately show ?thesis
    using drain_entries[OF assms] reset_entries[of "snd (drain r)"]
    by (simp add: ring_push_def ring_push_n_def)
qed

theorem ring_drain_closes_witness:
  "fst (drain demo_ring) = [10, 11] \<and> ring_push (12, ''c'') (snd (drain demo_ring)) = (-2, snd (drain demo_ring))"
  using ring_drain_closes[OF demo_wf(2), of "(12, ''c'')" "[]"] demo_entries(2) by simp

end
