(* ===== verification/Shared_Ring.thy ===== *)
theory Shared_Ring
  imports Mpsc_Ring
begin

text \<open>
  The ring of include/mpsc\_ring.hpp in the variant \<open>shared = true\<close>: many producers, one consumer,
  and no locks. Every access to an atomic variable and every write of a slot is a step, and
  steps of different threads interleave in any order; the memory is taken to be sequentially
  consistent. The entries are popped in the order in which the producers took their tickets,
  none is lost, and a producer that waits for another does not wait for ever.
\<close>

section \<open>The ring\<close>

text \<open>\<open>core\<close> has the members of the plain ring; \<open>tail_allocated\<close> hands out tickets.\<close>

record 'h shared_ring =
  core :: "'h ring"
  tail_allocated :: u64

definition new_shared_ring :: "nat \<Rightarrow> 'h \<Rightarrow> 'h shared_ring" where
  "new_shared_ring cap h0 = \<lparr>core = new_ring cap h0, tail_allocated = 0\<rparr>"

section \<open>Producers\<close>

text \<open>
  A thread between the atomic accesses of \<open>_push_n\<close>, with its block and the ticket \<open>t_alloc\<close>;
  while it writes, with the index of the entry. \<open>_push\<close> is the case of one entry.
\<close>

datatype 'h producer =
    Idle
  | Load "('h \<times> string) list"
  | Check "('h \<times> string) list" u64
  | Cas "('h \<times> string) list" u64
  | Write_handle "('h \<times> string) list" u64 nat
  | Write_payload "('h \<times> string) list" u64 nat
  | Spin "('h \<times> string) list" u64
  | Publish "('h \<times> string) list" u64
  | Done int

definition write_handle :: "u64 \<Rightarrow> 'h \<Rightarrow> 'h ring \<Rightarrow> 'h ring" where
  "write_handle idx h r = r\<lparr>handles := (handles r)[unat idx := h]\<rparr>"

definition write_payload :: "u64 \<Rightarrow> string \<Rightarrow> 'h ring \<Rightarrow> 'h ring" where
  "write_payload idx sv r = r\<lparr>payloads := (payloads r)[unat idx := sv]\<rparr>"

text \<open>The slot of entry \<open>i\<close> of a block with ticket \<open>t\<close>.\<close>

definition slot_index :: "u64 \<Rightarrow> nat \<Rightarrow> 'h ring \<Rightarrow> u64" where
  "slot_index t i r = ((t AND ring_mask r) + of_nat i) AND ring_mask r"

text \<open>One step of a thread. \<open>weak\<close> tells that \<open>compare_exchange_weak\<close> fails without a reason.\<close>

fun producer_step :: "bool \<Rightarrow> 'h producer \<Rightarrow> 'h shared_ring \<Rightarrow> 'h producer \<times> 'h shared_ring" where
  "producer_step weak (Load es) r = (Check es (tail_allocated r), r)"
| "producer_step weak (Check es t) r =
     (if t AND STOP_BIT \<noteq> 0 then (Done (-2), r)
      else if of_nat (xcapacity (core r)) \<le> t - head (core r) then (Done (-1), r)
      else (Cas es t, r))"
| "producer_step weak (Cas es t) r =
     (if weak \<or> tail_allocated r \<noteq> t then (Load es, r)
      else (if es = [] then Spin es t else Write_handle es t 0, r\<lparr>tail_allocated := t + of_nat (length es)\<rparr>))"
| "producer_step weak (Write_handle es t i) r =
     (Write_payload es t i, r\<lparr>core := write_handle (slot_index t i (core r)) (fst (es ! i)) (core r)\<rparr>)"
| "producer_step weak (Write_payload es t i) r =
     (if Suc i < length es then Write_handle es t (Suc i) else Spin es t,
      r\<lparr>core := write_payload (slot_index t i (core r)) (snd (es ! i)) (core r)\<rparr>)"
| "producer_step weak (Spin es t) r = (if tail (core r) \<noteq> t then Spin es t else Publish es t, r)"
| "producer_step weak (Publish es t) r =
     (Done (sint (ucast (t AND ring_mask (core r)) :: 32 word)),
      r\<lparr>core := (core r)\<lparr>tail := t + of_nat (length es)\<rparr>\<rparr>)"
| "producer_step weak p r = (p, r)"

definition start_push :: "'h \<times> string \<Rightarrow> 'h producer" where
  "start_push e = Load [e]"

section \<open>The consumer\<close>

text \<open>
  The consumer is one thread. Between its atomic accesses it holds what it has loaded: for
  \<open>prep_writev\<close> the counters \<open>start\<close> and \<open>end\<close>, for \<open>pop\<close> the entry and \<open>head\<close>, for \<open>drain\<close> the
  ticket at which the ring was stopped.
\<close>

datatype 'h consumer = Ready | Prep u64 u64 u64 | Popping "'h \<times> string" u64 | Draining u64 | Closed

definition prep_load :: "u64 \<Rightarrow> 'h shared_ring \<Rightarrow> 'h consumer" where
  "prep_load num_evs r = Prep (head_committed (core r)) (tail (core r)) num_evs"

definition prep_take :: "u64 \<Rightarrow> u64 \<Rightarrow> u64 \<Rightarrow> 'h shared_ring \<Rightarrow> string list \<times> 'h shared_ring" where
  "prep_take start end_pos num_evs r =
     (let n = (if end_pos - start < num_evs then end_pos - start else num_evs);
          iov = map (\<lambda>i. payloads (core r) ! unat ((start + of_nat i) AND ring_mask (core r))) [0..<unat n]
      in (iov, r\<lparr>core := (core r)\<lparr>head_committed := head_committed (core r) + n\<rparr>\<rparr>))"

definition pop_read :: "'h shared_ring \<Rightarrow> 'h consumer" where
  "pop_read r =
     (let h_val = head (core r); pos = h_val AND ring_mask (core r)
      in Popping (handles (core r) ! unat pos, payloads (core r) ! unat pos) h_val)"

definition pop_store :: "u64 \<Rightarrow> 'h shared_ring \<Rightarrow> 'h shared_ring" where
  "pop_store h_val r = r\<lparr>core := (core r)\<lparr>head := h_val + 1\<rparr>\<rparr>"

definition drain_stop :: "'h shared_ring \<Rightarrow> 'h consumer \<times> 'h shared_ring" where
  "drain_stop r = (Draining (tail_allocated r), r\<lparr>tail_allocated := tail_allocated r OR STOP_BIT\<rparr>)"

text \<open>\<open>drain\<close> spins until all tickets are published and then resumes every handle.\<close>

definition drain_end :: "u64 \<Rightarrow> 'h shared_ring \<Rightarrow> 'h list option" where
  "drain_end old r = (if tail (core r) \<noteq> old then None else Some (drain_loop (head (core r)) old (core r)))"

definition shared_reset :: "'h shared_ring \<Rightarrow> 'h shared_ring" where
  "shared_reset r = \<lparr>core = (core r)\<lparr>head := 0, head_committed := 0, tail := 0\<rparr>, tail_allocated = 0\<rparr>"

section \<open>All threads together\<close>

text \<open>
  The last four fields record what happened: the entries in the order in which their tickets
  were taken, the entries popped, the payloads given to \<open>writev\<close>, the handles \<open>drain\<close> resumed.
\<close>

record 'h ring_system =
  shared :: "'h shared_ring"
  producers :: "'h producer list"
  consumer_at :: "'h consumer"
  log :: "('h \<times> string) list"
  popped :: "('h \<times> string) list"
  wrote :: "string list"
  drained :: "'h list"

definition new_ring_system :: "nat \<Rightarrow> 'h \<Rightarrow> nat \<Rightarrow> 'h ring_system" where
  "new_ring_system cap h0 threads = \<lparr>shared = new_shared_ring cap h0, producers = replicate threads Idle,
     consumer_at = Ready, log = [], popped = [], wrote = [], drained = []\<rparr>"

datatype 'h ring_event =
    Start nat "'h \<times> string" | Run nat bool | Prep_load u64 | Prep_take | Pop_read | Pop_store | Drain_stop | Drain_end

fun at_rest :: "'h producer \<Rightarrow> bool" where
  "at_rest Idle = True" | "at_rest (Done i) = True" | "at_rest p = False"

fun takes_ticket :: "bool \<Rightarrow> 'h producer \<Rightarrow> 'h shared_ring \<Rightarrow> ('h \<times> string) list" where
  "takes_ticket weak (Cas es t) r = (if weak \<or> tail_allocated r \<noteq> t then [] else es)"
| "takes_ticket weak p r = []"

text \<open>What an event does, \<open>None\<close> when its thread is not there. A reply, and so a pop, comes only for
  a request that was written.\<close>

fun fire :: "'h ring_event \<Rightarrow> 'h ring_system \<Rightarrow> 'h ring_system option" where
  "fire (Start i e) s =
     (if i < length (producers s) \<and> at_rest (producers s ! i)
      then Some (s\<lparr>producers := (producers s)[i := start_push e]\<rparr>) else None)"
| "fire (Run i weak) s =
     (if i < length (producers s)
      then let (p, r) = producer_step weak (producers s ! i) (shared s)
           in Some (s\<lparr>shared := r, producers := (producers s)[i := p],
                log := log s @ takes_ticket weak (producers s ! i) (shared s)\<rparr>)
      else None)"
| "fire (Prep_load n) s =
     (case consumer_at s of Ready \<Rightarrow> Some (s\<lparr>consumer_at := prep_load n (shared s)\<rparr>) | _ \<Rightarrow> None)"
| "fire Prep_take s =
     (case consumer_at s of
        Prep start end_pos n \<Rightarrow>
          let (iov, r) = prep_take start end_pos n (shared s)
          in Some (s\<lparr>shared := r, consumer_at := Ready, wrote := wrote s @ iov\<rparr>)
      | _ \<Rightarrow> None)"
| "fire Pop_read s =
     (case consumer_at s of
        Ready \<Rightarrow> if head (core (shared s)) \<noteq> head_committed (core (shared s))
          then Some (s\<lparr>consumer_at := pop_read (shared s)\<rparr>) else None
      | _ \<Rightarrow> None)"
| "fire Pop_store s =
     (case consumer_at s of
        Popping e h_val \<Rightarrow> Some (s\<lparr>shared := pop_store h_val (shared s), consumer_at := Ready, popped := popped s @ [e]\<rparr>)
      | _ \<Rightarrow> None)"
| "fire Drain_stop s =
     (case consumer_at s of
        Ready \<Rightarrow> let (c, r) = drain_stop (shared s) in Some (s\<lparr>shared := r, consumer_at := c\<rparr>)
      | _ \<Rightarrow> None)"
| "fire Drain_end s =
     (case consumer_at s of
        Draining old \<Rightarrow> (case drain_end old (shared s) of
            None \<Rightarrow> Some s
          | Some hs \<Rightarrow> Some (s\<lparr>consumer_at := Closed, drained := hs\<rparr>))
      | _ \<Rightarrow> None)"

inductive ring_reach :: "'h ring_system \<Rightarrow> 'h ring_system \<Rightarrow> bool" for s0 where
  ring_reach_start: "ring_reach s0 s0"
| ring_reach_step: "ring_reach s0 s \<Longrightarrow> fire ev s = Some s' \<Longrightarrow> ring_reach s0 s'"

section \<open>The invariant\<close>

text \<open>The ticket a thread holds: the index of its entry in the order of all entries.\<close>

fun ticket :: "'h producer \<Rightarrow> nat option" where
  "ticket (Write_handle es t i) = Some (unat t)"
| "ticket (Write_payload es t i) = Some (unat t)"
| "ticket (Spin es t) = Some (unat t)"
| "ticket (Publish es t) = Some (unat t)"
| "ticket p = None"

definition tickets_ok :: "'h producer list \<Rightarrow> nat \<Rightarrow> nat \<Rightarrow> bool" where
  "tickets_ok ps lo hi \<longleftrightarrow>
     (\<forall>i<length ps. \<forall>j<length ps. \<forall>t. ticket (ps ! i) = Some t \<longrightarrow> ticket (ps ! j) = Some t \<longrightarrow> i = j) \<and>
     (\<forall>t. lo \<le> t \<longrightarrow> t < hi \<longrightarrow> (\<exists>i<length ps. ticket (ps ! i) = Some t))"

lemma tickets_inj:
  "tickets_ok ps lo hi \<Longrightarrow> i < length ps \<Longrightarrow> j < length ps \<Longrightarrow> ticket (ps ! i) = Some t \<Longrightarrow> ticket (ps ! j) = Some t \<Longrightarrow> i = j"
  unfolding tickets_ok_def by blast

lemma tickets_held:
  assumes "tickets_ok ps lo hi" and "lo \<le> t" and "t < hi"
  obtains i where "i < length ps" and "ticket (ps ! i) = Some t"
  using assms unfolding tickets_ok_def by blast

lemma tickets_same:
  assumes "i < length ps" and "ticket p = ticket (ps ! i)" and "tickets_ok ps lo hi"
  shows "tickets_ok (ps[i := p]) lo hi"
proof -
  have "ticket (ps[i := p] ! j) = ticket (ps ! j)" if "j < length ps" for j
    using that assms(2) by (cases "j = i") simp_all
  then show ?thesis using assms(3) by (simp add: tickets_ok_def cong: conj_cong)
qed

lemma tickets_take:
  assumes i: "i < length ps" and none: "ticket (ps ! i) = None" and mine: "ticket p = Some hi" and ok: "tickets_ok ps lo hi"
    and below: "\<And>j t. j < length ps \<Longrightarrow> ticket (ps ! j) = Some t \<Longrightarrow> t < hi"
  shows "tickets_ok (ps[i := p]) lo (Suc hi)"
  unfolding tickets_ok_def
proof (intro conjI allI impI)
  fix i' j' t assume "i' < length (ps[i := p])" "j' < length (ps[i := p])"
    and "ticket (ps[i := p] ! i') = Some t" "ticket (ps[i := p] ! j') = Some t"
  then show "i' = j'"
    using tickets_inj[OF ok, of i' j' t] below[of i' t] below[of j' t] mine by (cases "i' = i"; cases "j' = i") auto
next
  fix t assume t: "lo \<le> t" "t < Suc hi"
  show "\<exists>k<length (ps[i := p]). ticket (ps[i := p] ! k) = Some t"
  proof (cases "t = hi")
    case True
    then show ?thesis using i mine by (intro exI[of _ i]) simp
  next
    case False
    then have "t < hi" using t by simp
    from tickets_held[OF ok t(1) this] obtain k where k: "k < length ps" "ticket (ps ! k) = Some t" .
    then have "k \<noteq> i" using none by auto
    then show ?thesis using k by (intro exI[of _ k]) simp
  qed
qed

lemma tickets_publish:
  assumes i: "i < length ps" and mine: "ticket (ps ! i) = Some lo" and none: "ticket p = None" and ok: "tickets_ok ps lo hi"
  shows "tickets_ok (ps[i := p]) (Suc lo) hi" and "\<And>j. j < length ps \<Longrightarrow> j \<noteq> i \<Longrightarrow> ticket (ps ! j) \<noteq> Some lo"
proof -
  note inj = tickets_inj[OF ok]
  show "ticket (ps ! j) \<noteq> Some lo" if "j < length ps" "j \<noteq> i" for j using inj[OF that(1) i _ mine] that by blast
  show "tickets_ok (ps[i := p]) (Suc lo) hi"
    unfolding tickets_ok_def
  proof (intro conjI allI impI)
    fix i' j' t assume "i' < length (ps[i := p])" "j' < length (ps[i := p])"
      and "ticket (ps[i := p] ! i') = Some t" "ticket (ps[i := p] ! j') = Some t"
    then show "i' = j'" using inj[of i' j' t] none by (cases "i' = i"; cases "j' = i") auto
  next
    fix t assume t: "Suc lo \<le> t" "t < hi"
    then have "lo \<le> t" by simp
    from tickets_held[OF ok this t(2)] obtain k where k: "k < length ps" "ticket (ps ! k) = Some t" .
    then have "k \<noteq> i" using t mine by auto
    then show "\<exists>k<length (ps[i := p]). ticket (ps[i := p] ! k) = Some t" using k by (intro exI[of _ k]) simp
  qed
qed

text \<open>
  What a thread relies on: a ticket it has seen was handed out, there was room for it when it was
  compared, and what it has written so far is there.
\<close>

fun producer_ok :: "'h ring \<Rightarrow> ('h \<times> string) list \<Rightarrow> 'h producer \<Rightarrow> bool" where
  "producer_ok r lg (Load es) \<longleftrightarrow> length es = 1"
| "producer_ok r lg (Check es t) \<longleftrightarrow> length es = 1 \<and> (t AND STOP_BIT = 0 \<longrightarrow> unat t \<le> length lg)"
| "producer_ok r lg (Cas es t) \<longleftrightarrow> length es = 1 \<and> t AND STOP_BIT = 0 \<and> unat t < unat (head r) + xcapacity r"
| "producer_ok r lg (Write_handle es t i) \<longleftrightarrow>
     i = 0 \<and> unat (tail r) \<le> unat t \<and> unat t < length lg \<and> es = [lg ! unat t]"
| "producer_ok r lg (Write_payload es t i) \<longleftrightarrow>
     i = 0 \<and> unat (tail r) \<le> unat t \<and> unat t < length lg \<and> es = [lg ! unat t] \<and> fst (entry r (unat t)) = fst (lg ! unat t)"
| "producer_ok r lg (Spin es t) \<longleftrightarrow>
     unat (tail r) \<le> unat t \<and> unat t < length lg \<and> length es = 1 \<and> entry r (unat t) = lg ! unat t"
| "producer_ok r lg (Publish es t) \<longleftrightarrow>
     unat t = unat (tail r) \<and> unat t < length lg \<and> length es = 1 \<and> entry r (unat t) = lg ! unat t"
| "producer_ok r lg p \<longleftrightarrow> True"

fun consumer_ok :: "'h ring \<Rightarrow> ('h \<times> string) list \<Rightarrow> 'h list \<Rightarrow> 'h consumer \<Rightarrow> bool" where
  "consumer_ok r lg dr (Prep start end_pos n) \<longleftrightarrow>
     start = head_committed r \<and> unat start \<le> unat end_pos \<and> unat end_pos \<le> unat (tail r)"
| "consumer_ok r lg dr (Popping e h_val) \<longleftrightarrow>
     h_val = head r \<and> unat (head r) < unat (head_committed r) \<and> e = lg ! unat (head r)"
| "consumer_ok r lg dr (Draining old) \<longleftrightarrow> unat old = length lg"
| "consumer_ok r lg dr Closed \<longleftrightarrow> unat (tail r) = length lg \<and> dr = map fst (drop (unat (head r)) lg)"
| "consumer_ok r lg dr Ready \<longleftrightarrow> True"

fun stopped :: "'h consumer \<Rightarrow> bool" where
  "stopped (Draining old) = True" | "stopped Closed = True" | "stopped c = False"

definition counters_ok :: "'h ring \<Rightarrow> nat \<Rightarrow> bool" where
  "counters_ok r n \<longleftrightarrow> ring_shape r \<and> unat (head r) \<le> unat (head_committed r) \<and> unat (head_committed r) \<le> unat (tail r) \<and>
     unat (tail r) \<le> n \<and> n \<le> unat (head r) + xcapacity r \<and> n \<le> 2 ^ 63"

definition contents_ok :: "'h ring \<Rightarrow> ('h \<times> string) list \<Rightarrow> bool" where
  "contents_ok r lg \<longleftrightarrow> (\<forall>t. unat (head r) \<le> t \<longrightarrow> t < unat (tail r) \<longrightarrow> entry r t = lg ! t)"

definition system_ok :: "'h ring_system \<Rightarrow> bool" where
  "system_ok s \<longleftrightarrow>
     (let r = core (shared s); n = length (log s) in
        counters_ok r n \<and> contents_ok r (log s) \<and>
        tail_allocated (shared s) = (if stopped (consumer_at s) then of_nat n OR STOP_BIT else of_nat n) \<and>
        tickets_ok (producers s) (unat (tail r)) n \<and>
        (\<forall>i<length (producers s). producer_ok r (log s) (producers s ! i)) \<and>
        consumer_ok r (log s) (drained s) (consumer_at s) \<and>
        popped s = take (unat (head r)) (log s) \<and> wrote s = map snd (take (unat (head_committed r)) (log s)))"

lemma new_ring_system_ok: "k \<le> 31 \<Longrightarrow> system_ok (new_ring_system (2 ^ k) h0 threads)"
  by (auto simp: system_ok_def new_ring_system_def new_shared_ring_def new_ring_def counters_ok_def contents_ok_def
      ring_shape_def tickets_ok_def)

subsection \<open>Steps that leave the ring alone\<close>

lemma system_local:
  assumes "system_ok s" and "i < length (producers s)" and "ticket p = ticket (producers s ! i)"
    and "producer_ok (core (shared s)) (log s) p"
  shows "system_ok (s\<lparr>producers := (producers s)[i := p]\<rparr>)"
  using assms tickets_same[OF assms(2,3)] by (auto simp: system_ok_def Let_def nth_list_update)

lemma ticket_bounds:
  "producer_ok r lg p \<Longrightarrow> ticket p = Some t \<Longrightarrow> unat (tail r) \<le> t \<and> t < length lg"
  by (cases p) auto

subsection \<open>Writing a slot\<close>

lemma slot_index_0: "slot_index t 0 r = t AND ring_mask r"
  by (simp add: slot_index_def and.assoc)

lemma write_simps [simp]:
  "head (write_handle idx h r) = head r" "head_committed (write_handle idx h r) = head_committed r"
  "tail (write_handle idx h r) = tail r" "xcapacity (write_handle idx h r) = xcapacity r"
  "ring_shape (write_handle idx h r) = ring_shape r"
  "head (write_payload idx sv r) = head r" "head_committed (write_payload idx sv r) = head_committed r"
  "tail (write_payload idx sv r) = tail r" "xcapacity (write_payload idx sv r) = xcapacity r"
  "ring_shape (write_payload idx sv r) = ring_shape r"
  by (simp_all add: write_handle_def write_payload_def ring_shape_def)

lemma entry_write:
  assumes "ring_shape r" and "unat idx = j mod xcapacity r"
  shows "entry (write_handle idx h r) i = (if i mod xcapacity r = j mod xcapacity r then (h, snd (entry r i)) else entry r i)"
    and "entry (write_payload idx sv r) i = (if i mod xcapacity r = j mod xcapacity r then (fst (entry r i), sv) else entry r i)"
  using assms cap_bounds[OF assms(1)]
  by (auto simp: entry_def write_handle_def write_payload_def ring_shape_def nth_list_update)

text \<open>Indices from \<open>head\<close> to one turn behind it have different slots.\<close>

lemma same_slot:
  assumes "h \<le> i" "i < h + c" "h \<le> j" "j < h + c" and "i mod c = j mod c"
  shows "i = (j :: nat)"
proof (cases "i \<le> j")
  case True
  then show ?thesis using mod_eq_close[of i c j] assms by simp
next
  case False
  then show ?thesis using mod_eq_close[of j c i] assms by simp
qed

text \<open>What a thread that is not writing this slot sees does not change.\<close>

lemma producer_ok_frame:
  assumes "producer_ok r lg p" and "ticket p \<noteq> Some t"
    and "\<And>u. unat (tail r) \<le> u \<Longrightarrow> u < length lg \<Longrightarrow> u \<noteq> t \<Longrightarrow> entry r' u = entry r u"
    and "head r' = head r" "tail r' = tail r" "xcapacity r' = xcapacity r"
  shows "producer_ok r' lg p"
  using assms by (cases p) auto

lemma system_write:
  assumes ok: "system_ok s" and i: "i < length (producers s)" and tick: "ticket (producers s ! i) = Some t" "ticket p = Some t"
    and r': "head r' = head (core (shared s))" "head_committed r' = head_committed (core (shared s))"
      "tail r' = tail (core (shared s))" "xcapacity r' = xcapacity (core (shared s))" "ring_shape r'"
    and others: "\<And>u. u mod xcapacity r' \<noteq> t mod xcapacity r' \<Longrightarrow> entry r' u = entry (core (shared s)) u"
    and p: "producer_ok r' (log s) p"
  shows "system_ok (s\<lparr>shared := (shared s)\<lparr>core := r'\<rparr>, producers := (producers s)[i := p]\<rparr>)"
proof -
  let ?r = "core (shared s)" and ?n = "length (log s)"
  have c: "counters_ok ?r ?n" and con: "contents_ok ?r (log s)" and tk: "tickets_ok (producers s) (unat (tail ?r)) ?n"
    and ps: "\<And>j. j < length (producers s) \<Longrightarrow> producer_ok ?r (log s) (producers s ! j)"
    and co: "consumer_ok ?r (log s) (drained s) (consumer_at s)"
    using ok by (auto simp: system_ok_def Let_def)
  have t: "unat (tail ?r) \<le> t" "t < ?n" using ticket_bounds[OF ps[OF i] tick(1)] by auto
  have lim: "unat (head ?r) \<le> unat (tail ?r)" "?n \<le> unat (head ?r) + xcapacity ?r" using c by (auto simp: counters_ok_def)
  have same: "entry r' u = entry ?r u" if "unat (head ?r) \<le> u" "u < ?n" "u \<noteq> t" for u
    using same_slot[of "unat (head ?r)" u "xcapacity ?r" t] that t lim r'(4) others[of u] by fastforce
  have "producer_ok r' (log s) ((producers s)[i := p] ! j)" if "j < length (producers s)" for j
  proof (cases "j = i")
    case True
    then show ?thesis using p i by simp
  next
    case False
    then have "ticket (producers s ! j) \<noteq> Some t" using tickets_inj[OF tk that i _ tick(1)] by blast
    from producer_ok_frame[OF ps[OF that] this, of r'] same lim r' False show ?thesis by simp
  qed
  moreover have "contents_ok r' (log s)" using con same t r' c by (auto simp: contents_ok_def counters_ok_def)
  moreover have "tickets_ok ((producers s)[i := p]) (unat (tail ?r)) ?n" using tickets_same[OF i _ tk] tick by simp
  moreover have "consumer_ok r' (log s) (drained s) (consumer_at s)" using co r' by (cases "consumer_at s") auto
  moreover have "counters_ok r' ?n" using c r' by (simp add: counters_ok_def)
  ultimately show ?thesis using ok r' by (simp add: system_ok_def Let_def)
qed

subsection \<open>Taking and publishing a ticket\<close>

lemma producer_ok_log:
  assumes "producer_ok r lg p"
  shows "producer_ok r (lg @ [e]) p"
  using assms by (cases p) (auto simp: nth_append)

lemma producer_ok_head:
  assumes "producer_ok r lg p" and "unat (head r) \<le> unat (head r')" and "tail r' = tail r" "xcapacity r' = xcapacity r"
    and "entry r' = entry r"
  shows "producer_ok r' lg p"
  using assms by (cases p) auto

lemma stop_or: "(w OR STOP_BIT) AND STOP_BIT \<noteq> (0 :: u64)"
proof
  assume "(w OR STOP_BIT) AND STOP_BIT = 0"
  then have "STOP_BIT = 0" by (simp add: bit.conj_disj_distrib2)
  then show False by (simp add: STOP_BIT_def)
qed

text \<open>A ticket without the stop bit that is still the next one means that the ring is not stopped.\<close>

lemma alloc_unstopped:
  assumes "system_ok s" and "tail_allocated (shared s) = t" and "t AND STOP_BIT = 0"
  shows "\<not> stopped (consumer_at s)" and "unat t = length (log s)" and "length (log s) < 2 ^ 63"
proof -
  let ?n = "length (log s)"
  have a: "tail_allocated (shared s) = (if stopped (consumer_at s) then of_nat ?n OR STOP_BIT else of_nat ?n)"
    and n: "?n \<le> 2 ^ 63" using assms(1) by (auto simp: system_ok_def Let_def counters_ok_def)
  show no: "\<not> stopped (consumer_at s)" using a assms(2,3) stop_or[of "of_nat ?n"] by auto
  then have t: "t = of_nat ?n" using a assms(2) by simp
  then show u: "unat t = ?n" using n by (simp add: unat_of_nat)
  show "?n < 2 ^ 63" using stop_clear_iff[of t] assms(3) u n by simp
qed

lemma system_take:
  assumes ok: "system_ok s" and i: "i < length (producers s)" and at: "producers s ! i = Cas es t"
    and now: "tail_allocated (shared s) = t"
  shows "\<exists>e. es = [e] \<and> system_ok (s\<lparr>shared := (shared s)\<lparr>tail_allocated := t + 1\<rparr>,
    producers := (producers s)[i := Write_handle [e] t 0], log := log s @ [e]\<rparr>)"
proof -
  let ?r = "core (shared s)" and ?n = "length (log s)"
  have c: "counters_ok ?r ?n" and con: "contents_ok ?r (log s)" and tk: "tickets_ok (producers s) (unat (tail ?r)) ?n"
    and ps: "\<And>j. j < length (producers s) \<Longrightarrow> producer_ok ?r (log s) (producers s ! j)"
    and co: "consumer_ok ?r (log s) (drained s) (consumer_at s)"
    and hist: "popped s = take (unat (head ?r)) (log s)" "wrote s = map snd (take (unat (head_committed ?r)) (log s))"
    using ok by (auto simp: system_ok_def Let_def)
  have cas: "length es = 1" "t AND STOP_BIT = 0" "unat t < unat (head ?r) + xcapacity ?r" using ps[OF i] at by auto
  obtain e where e: "es = [e]" using cas(1) by (cases es) auto
  note u = alloc_unstopped[OF ok now cas(2)]
  have alloc: "t + 1 = of_nat (Suc ?n)" unfolding u(2)[symmetric] by simp
  let ?ps = "(producers s)[i := Write_handle [e] t 0]"
  have "producer_ok ?r (log s @ [e]) (?ps ! j)" if "j < length (producers s)" for j
    using producer_ok_log[OF ps[OF that]] i c u(2) by (cases "j = i") (auto simp: counters_ok_def)
  moreover have "tickets_ok ?ps (unat (tail ?r)) (Suc ?n)"
  proof (rule tickets_take[OF i _ _ tk])
    show "t' < ?n" if "j < length (producers s)" "ticket (producers s ! j) = Some t'" for j t'
      using ticket_bounds[OF ps[OF that(1)] that(2)] by simp
  qed (simp_all add: at u(2))
  moreover have "counters_ok ?r (Suc ?n)" using c cas(3) u(2,3) by (auto simp: counters_ok_def)
  moreover have "contents_ok ?r (log s @ [e])" using con c by (auto simp: contents_ok_def counters_ok_def nth_append)
  moreover have "consumer_ok ?r (log s @ [e]) (drained s) (consumer_at s)"
    using co u(1) c by (cases "consumer_at s") (auto simp: counters_ok_def nth_append)
  ultimately show ?thesis
    using e u(1) hist c alloc by (auto simp: system_ok_def Let_def counters_ok_def)
qed

lemma system_publish:
  assumes ok: "system_ok s" and i: "i < length (producers s)" and at: "producers s ! i = Publish es t"
  shows "length es = 1 \<and> system_ok (s\<lparr>shared := (shared s)\<lparr>core := (core (shared s))\<lparr>tail := t + 1\<rparr>\<rparr>,
    producers := (producers s)[i := Done x]\<rparr>)"
proof -
  let ?r = "core (shared s)" and ?n = "length (log s)"
  let ?r' = "?r\<lparr>tail := t + 1\<rparr>"
  have c: "counters_ok ?r ?n" and con: "contents_ok ?r (log s)" and tk: "tickets_ok (producers s) (unat (tail ?r)) ?n"
    and ps: "\<And>j. j < length (producers s) \<Longrightarrow> producer_ok ?r (log s) (producers s ! j)"
    and co: "consumer_ok ?r (log s) (drained s) (consumer_at s)"
    using ok by (auto simp: system_ok_def Let_def)
  have pub: "unat t = unat (tail ?r)" "unat t < ?n" "length es = 1" "entry ?r (unat t) = log s ! unat t"
    using ps[OF i] at by auto
  have t': "unat (t + 1) = Suc (unat (tail ?r))" using unat_Suc64[of t] pub c by (simp add: counters_ok_def)
  have tick: "ticket (producers s ! i) = Some (unat (tail ?r))" using at pub(1) by simp
  note tp = tickets_publish[OF i tick _ tk, of "Done x"]
  have "producer_ok ?r' (log s) ((producers s)[i := Done x] ! j)" if "j < length (producers s)" for j
  proof (cases "j = i")
    case False
    have "ticket (producers s ! j) \<noteq> Some (unat (tail ?r))" using tp(2)[OF _ that False] by simp
    then show ?thesis using ps[OF that] False t' by (cases "producers s ! j") auto
  qed (use i in simp)
  moreover have "contents_ok ?r' (log s)"
    using con pub(1,4) t' by (auto simp: contents_ok_def less_Suc_eq)
  moreover have "counters_ok ?r' ?n" using c pub t' by (simp add: counters_ok_def)
  moreover have "consumer_ok ?r' (log s) (drained s) (consumer_at s)"
    using co t' pub(1,2) by (cases "consumer_at s") auto
  ultimately show ?thesis using ok tp(1) t' pub(3) by (simp add: system_ok_def Let_def)
qed

lemma entry_core [simp]: "entry (core (r\<lparr>tail_allocated := x\<rparr>)) = entry (core r)"
  by simp

lemma system_run:
  assumes ok: "system_ok s" and fired: "fire (Run i weak) s = Some s'"
  shows "system_ok s'"
proof -
  have i: "i < length (producers s)" using fired by (simp split: if_splits)
  let ?p = "producers s ! i" and ?r = "core (shared s)"
  have pok: "producer_ok ?r (log s) ?p" and c: "counters_ok ?r (length (log s))"
    and alloc: "tail_allocated (shared s) = (if stopped (consumer_at s) then of_nat (length (log s)) OR STOP_BIT else of_nat (length (log s)))"
    using ok i by (auto simp: system_ok_def Let_def)
  have shape: "ring_shape ?r" using c by (simp add: counters_ok_def)
  have keep: "s\<lparr>shared := shared s, producers := ps, log := log s @ []\<rparr> = s\<lparr>producers := ps\<rparr>" for ps by simp
  show ?thesis
  proof (cases ?p)
    case (Load es)
    have "unat (tail_allocated (shared s)) \<le> length (log s)" if "tail_allocated (shared s) AND STOP_BIT = 0"
      using alloc_unstopped[OF ok refl that] by simp
    then have "producer_ok ?r (log s) (Check es (tail_allocated (shared s)))" using pok Load by simp
    from system_local[OF ok i _ this] show ?thesis using fired Load i by simp
  next
    case (Check es t)
    have cas: "unat t < unat (head ?r) + xcapacity ?r" if "\<not> of_nat (xcapacity ?r) \<le> t - head ?r"
    proof (cases "unat (head ?r) \<le> unat t")
      case True
      then show ?thesis
        using that unat_distance[OF True] unat_cap[OF shape] by (simp add: word_le_nat_alt)
    qed (use cap_bounds[OF shape] in simp)
    show ?thesis
    proof (cases "t AND STOP_BIT \<noteq> 0 \<or> of_nat (xcapacity ?r) \<le> t - head ?r")
      case True
      then have "\<exists>x. producer_step weak (Check es t) (shared s) = (Done x, shared s)" by simp
      then obtain x where "producer_step weak (Check es t) (shared s) = (Done x, shared s)" by blast
      then show ?thesis using system_local[OF ok i, of "Done x"] fired Check i by simp
    next
      case False
      then have "producer_ok ?r (log s) (Cas es t)" using pok Check cas by simp
      from system_local[OF ok i _ this] show ?thesis using fired Check i False by simp
    qed
  next
    case (Cas es t)
    show ?thesis
    proof (cases "weak \<or> tail_allocated (shared s) \<noteq> t")
      case True
      then show ?thesis using system_local[OF ok i, of "Load es"] fired Cas i pok by auto
    next
      case False
      then show ?thesis using system_take[OF ok i Cas] fired Cas i by auto
    qed
  next
    case (Write_handle es t k)
    have es: "k = 0" "es = [log s ! unat t]" "unat (tail ?r) \<le> unat t" "unat t < length (log s)" using pok Write_handle by auto
    let ?r' = "write_handle (slot_index t 0 ?r) (fst (log s ! unat t)) ?r"
    have idx: "unat (slot_index t 0 ?r) = unat t mod xcapacity ?r"
      using unat_mask_index[OF shape] by (simp add: slot_index_0)
    have "system_ok (s\<lparr>shared := (shared s)\<lparr>core := ?r'\<rparr>, producers := (producers s)[i := Write_payload es t 0]\<rparr>)"
      using es Write_handle shape by (intro system_write[OF ok i, of "unat t"]) (simp_all add: entry_write(1)[OF shape idx])
    then show ?thesis using fired Write_handle i es by simp
  next
    case (Write_payload es t k)
    have es: "k = 0" "es = [log s ! unat t]" "unat (tail ?r) \<le> unat t" "unat t < length (log s)"
      "fst (entry ?r (unat t)) = fst (log s ! unat t)" using pok Write_payload by auto
    let ?r' = "write_payload (slot_index t 0 ?r) (snd (log s ! unat t)) ?r"
    have idx: "unat (slot_index t 0 ?r) = unat t mod xcapacity ?r"
      using unat_mask_index[OF shape] by (simp add: slot_index_0)
    have "system_ok (s\<lparr>shared := (shared s)\<lparr>core := ?r'\<rparr>, producers := (producers s)[i := Spin es t]\<rparr>)"
      using es Write_payload shape by (intro system_write[OF ok i, of "unat t"]) (simp_all add: entry_write(2)[OF shape idx])
    then show ?thesis using fired Write_payload i es by simp
  next
    case (Spin es t)
    show ?thesis
    proof (cases "tail ?r = t")
      case True
      then have "producer_ok ?r (log s) (Publish es t)" using pok Spin by simp
      from system_local[OF ok i _ this] show ?thesis using fired Spin i True by simp
    next
      case False
      then show ?thesis using system_local[OF ok i, of ?p] fired Spin i pok by simp
    qed
  next
    case (Publish es t)
    then show ?thesis using system_publish[OF ok i Publish] fired i by auto
  qed (use fired i system_local[OF ok i refl pok] in auto)
qed

subsection \<open>The consumer's steps\<close>

lemma system_consumer:
  assumes ok: "system_ok s" and fired: "fire ev s = Some s'" and ev: "\<forall>i e. ev \<noteq> Start i e" "\<forall>i w. ev \<noteq> Run i w"
  shows "system_ok s'"
proof -
  let ?r = "core (shared s)" and ?n = "length (log s)"
  have c: "counters_ok ?r ?n" and con: "contents_ok ?r (log s)"
    and ps: "\<And>j. j < length (producers s) \<Longrightarrow> producer_ok ?r (log s) (producers s ! j)"
    and co: "consumer_ok ?r (log s) (drained s) (consumer_at s)"
    and alloc: "tail_allocated (shared s) = (if stopped (consumer_at s) then of_nat ?n OR STOP_BIT else of_nat ?n)"
    and hist: "popped s = take (unat (head ?r)) (log s)" "wrote s = map snd (take (unat (head_committed ?r)) (log s))"
    using ok by (auto simp: system_ok_def Let_def)
  have shape: "ring_shape ?r" and le: "unat (head ?r) \<le> unat (head_committed ?r)" "unat (head_committed ?r) \<le> unat (tail ?r)"
    "unat (tail ?r) \<le> ?n" "?n \<le> 2 ^ 63" using c by (auto simp: counters_ok_def)
  show ?thesis
  proof (cases ev)
    case (Prep_load m)
    then show ?thesis
      using fired ok le by (cases "consumer_at s") (auto simp: system_ok_def prep_load_def Let_def)
  next
    case Prep_take
    then obtain start end_pos m where at: "consumer_at s = Prep start end_pos m"
      using fired by (cases "consumer_at s") auto
    have st: "start = head_committed ?r" "unat start \<le> unat end_pos" "unat end_pos \<le> unat (tail ?r)" using co at by auto
    let ?k = "if end_pos - start < m then end_pos - start else m"
    let ?C = "unat (head_committed ?r)"
    have k: "unat ?k \<le> unat end_pos - ?C"
      using unat_distance[OF st(2)] st(1) by (simp add: word_less_nat_alt)
    have C': "unat (head_committed ?r + ?k) = ?C + unat ?k"
      using k st le by (subst unat_add_lem[THEN iffD1]) simp_all
    have iov: "map (\<lambda>j. payloads ?r ! unat ((start + of_nat j) AND ring_mask ?r)) [0..<unat ?k] =
        map snd (take (unat ?k) (drop ?C (log s)))"
    proof (rule nth_equalityI)
      show "length (map (\<lambda>j. payloads ?r ! unat ((start + of_nat j) AND ring_mask ?r)) [0..<unat ?k]) =
          length (map snd (take (unat ?k) (drop ?C (log s))))" using k st le by simp
      fix j assume "j < length (map (\<lambda>j. payloads ?r ! unat ((start + of_nat j) AND ring_mask ?r)) [0..<unat ?k])"
      then have j: "j < unat ?k" by (simp only: length_map length_upt diff_zero)
      then have at_j: "?C + j < unat (tail ?r)" "unat (head ?r) \<le> ?C + j" using k st le by linarith+
      have small: "unat (of_nat j :: u64) = j" using at_j le by (simp add: unat_of_nat)
      have "unat (start + of_nat j) = ?C + j"
        using small at_j le st(1) by (subst unat_add_lem[THEN iffD1]) simp_all
      then have "payloads ?r ! unat ((start + of_nat j) AND ring_mask ?r) = snd (entry ?r (?C + j))"
        by (simp add: unat_mask_index[OF shape] entry_def)
      also have "\<dots> = snd (log s ! (?C + j))" using con at_j by (simp add: contents_ok_def)
      finally show "map (\<lambda>j. payloads ?r ! unat ((start + of_nat j) AND ring_mask ?r)) [0..<unat ?k] ! j =
          map snd (take (unat ?k) (drop ?C (log s))) ! j" using j at_j le by simp
    qed
    let ?r' = "?r\<lparr>head_committed := head_committed ?r + ?k\<rparr>"
    have "counters_ok ?r' ?n" using c C' k st by (simp add: counters_ok_def)
    moreover have "contents_ok ?r' (log s)" using con by (simp add: contents_ok_def)
    moreover have "producer_ok ?r' (log s) (producers s ! j)" if "j < length (producers s)" for j
      by (rule producer_ok_head[OF ps[OF that]]) simp_all
    moreover have "wrote s @ map snd (take (unat ?k) (drop ?C (log s))) = map snd (take (?C + unat ?k) (log s))"
      by (simp add: hist take_add)
    ultimately show ?thesis
      using fired Prep_take at ok C' alloc hist
      by (auto simp: system_ok_def Let_def prep_take_def iov)
  next
    case Pop_read
    then have at: "consumer_at s = Ready" "head ?r \<noteq> head_committed ?r" and s': "s' = s\<lparr>consumer_at := pop_read (shared s)\<rparr>"
      using fired by (cases "consumer_at s"; auto split: if_splits)+
    have lt: "unat (head ?r) < unat (head_committed ?r)" using at(2) le by (simp add: less_le word_unat_eq_iff)
    have "(handles ?r ! unat (head ?r AND ring_mask ?r), payloads ?r ! unat (head ?r AND ring_mask ?r)) = entry ?r (unat (head ?r))"
      by (simp add: entry_def unat_mask_index[OF shape])
    also have "\<dots> = log s ! unat (head ?r)" using con lt le by (simp add: contents_ok_def)
    finally have "pop_read (shared s) = Popping (log s ! unat (head ?r)) (head ?r)" by (simp add: pop_read_def Let_def)
    then show ?thesis using ok s' at(1) lt by (auto simp: system_ok_def Let_def)
  next
    case Pop_store
    then obtain e h where at: "consumer_at s = Popping e h" using fired by (cases "consumer_at s") auto
    then have e: "h = head ?r" "unat (head ?r) < unat (head_committed ?r)" "e = log s ! unat (head ?r)" using co by auto
    have h': "unat (head ?r + 1) = Suc (unat (head ?r))" using unat_Suc64[of "head ?r"] e(2) le by simp
    let ?r' = "?r\<lparr>head := head ?r + 1\<rparr>"
    have "counters_ok ?r' ?n" using c e(2) h' by (simp add: counters_ok_def)
    moreover have "contents_ok ?r' (log s)" using con h' by (simp add: contents_ok_def)
    moreover have "producer_ok ?r' (log s) (producers s ! j)" if "j < length (producers s)" for j
      using h' by (intro producer_ok_head[OF ps[OF that]]) simp_all
    moreover have "popped s @ [e] = take (Suc (unat (head ?r))) (log s)"
      using e(2,3) le by (simp add: hist take_Suc_conv_app_nth)
    ultimately show ?thesis
      using fired Pop_store at e(1) ok h' by (auto simp: system_ok_def Let_def pop_store_def)
  next
    case Drain_stop
    then have at: "consumer_at s = Ready" using fired by (cases "consumer_at s") auto
    have "unat (of_nat ?n :: u64) = ?n" using le(4) by (simp add: unat_of_nat)
    then show ?thesis using fired Drain_stop at ok by (auto simp: system_ok_def Let_def drain_stop_def)
  next
    case Drain_end
    then obtain old where at: "consumer_at s = Draining old" using fired by (cases "consumer_at s") auto
    then have old: "unat old = ?n" using co by simp
    show ?thesis
    proof (cases "tail ?r = old")
      case True
      have wf: "ring_wf ?r" using c True old le(4) by (auto simp: ring_wf_def counters_ok_def)
      have "drain_loop (head ?r) old ?r = map fst (map (entry ?r) [unat (head ?r)..<?n])"
        using drain_loop_entries[OF wf, of "head ?r" old] old le by (simp add: comp_def)
      moreover have "map (entry ?r) [unat (head ?r)..<?n] = drop (unat (head ?r)) (log s)"
        using con True old by (intro nth_equalityI) (auto simp: contents_ok_def)
      ultimately show ?thesis using fired Drain_end at ok True old by (auto simp: system_ok_def Let_def drain_end_def)
    next
      case False
      then show ?thesis using fired Drain_end at ok by (simp add: drain_end_def)
    qed
  qed (use ev in auto)
qed

lemma system_start:
  assumes ok: "system_ok s" and fired: "fire (Start i e) s = Some s'"
  shows "system_ok s'"
proof -
  have i: "i < length (producers s)" "at_rest (producers s ! i)" and s': "s' = s\<lparr>producers := (producers s)[i := start_push e]\<rparr>"
    using fired by (auto split: if_splits)
  show ?thesis unfolding s'
  proof (rule system_local[OF ok i(1)])
    show "ticket (start_push e) = ticket (producers s ! i)"
      using i(2) by (cases "producers s ! i") (auto simp: start_push_def)
  qed (simp add: start_push_def)
qed

lemma system_fire: "system_ok s \<Longrightarrow> fire ev s = Some s' \<Longrightarrow> system_ok s'"
  using system_start system_run system_consumer by (cases ev) blast+

lemma fire_capacity: "fire ev s = Some s' \<Longrightarrow> xcapacity (core (shared s')) = xcapacity (core (shared s))"
proof (cases ev)
  case (Run i weak)
  assume "fire ev s = Some s'"
  then show ?thesis using Run by (cases "producers s ! i") (auto simp: Let_def split: if_splits)
qed (auto simp: Let_def prep_take_def pop_store_def drain_stop_def split: if_splits consumer.splits option.splits)

lemma system_reach:
  assumes "ring_reach (new_ring_system (2 ^ k) h0 threads) s" and "k \<le> 31"
  shows "system_ok s \<and> xcapacity (core (shared s)) = 2 ^ k"
  using assms
proof induction
  case ring_reach_start
  then show ?case using new_ring_system_ok[of k h0 threads]
    by (simp add: new_ring_system_def new_shared_ring_def new_ring_def)
next
  case (ring_reach_step s ev s')
  then show ?case using system_fire fire_capacity by metis
qed

section \<open>The properties\<close>

lemma shared_ring_order:
  assumes "ring_reach (new_ring_system (2 ^ k) h0 threads) s" and "k \<le> 31"
  shows "popped s = take (length (popped s)) (log s)" and "wrote s = map snd (take (length (wrote s)) (log s))"
    and "length (popped s) \<le> length (wrote s)" and "length (log s) \<le> length (popped s) + 2 ^ k"
    and "consumer_at s = Closed \<Longrightarrow> map fst (popped s) @ drained s = map fst (log s)"
proof -
  let ?r = "core (shared s)"
  have ok: "counters_ok ?r (length (log s))" "popped s = take (unat (head ?r)) (log s)"
    "wrote s = map snd (take (unat (head_committed ?r)) (log s))" "consumer_ok ?r (log s) (drained s) (consumer_at s)"
    "xcapacity ?r = 2 ^ k"
    using system_reach[OF assms] by (auto simp: system_ok_def Let_def)
  have len: "length (popped s) = unat (head ?r)" "length (wrote s) = unat (head_committed ?r)"
    using ok(1-3) by (auto simp: counters_ok_def)
  show "popped s = take (length (popped s)) (log s)" "wrote s = map snd (take (length (wrote s)) (log s))"
    using ok(2,3) len by simp_all
  show "length (popped s) \<le> length (wrote s)" "length (log s) \<le> length (popped s) + 2 ^ k"
    using ok(1,5) len by (auto simp: counters_ok_def)
  show "map fst (popped s) @ drained s = map fst (log s)" if "consumer_at s = Closed"
    using ok(2,4) that by (simp flip: map_append)
qed

text \<open>Several events, one after the other.\<close>

fun fire_all :: "'h ring_event list \<Rightarrow> 'h ring_system \<Rightarrow> 'h ring_system option" where
  "fire_all [] s = Some s"
| "fire_all (ev # evs) s = (case fire ev s of None \<Rightarrow> None | Some s' \<Rightarrow> fire_all evs s')"

lemma fire_all_append: "fire_all (xs @ ys) s = (case fire_all xs s of None \<Rightarrow> None | Some s' \<Rightarrow> fire_all ys s')"
  by (induction xs arbitrary: s) (auto split: option.splits)

lemma fire_all_reach: "ring_reach s0 s \<Longrightarrow> fire_all evs s = Some s' \<Longrightarrow> ring_reach s0 s'"
  by (induction evs arbitrary: s) (auto split: option.splits intro: ring_reach_step)

text \<open>The thread that holds the ticket \<open>tail\<close> publishes it by at most four steps of its own.\<close>

fun steps_left :: "'h producer \<Rightarrow> nat" where
  "steps_left (Write_handle es t i) = 4"
| "steps_left (Write_payload es t i) = 3"
| "steps_left (Spin es t) = 2"
| "steps_left (Publish es t) = 1"
| "steps_left p = 0"

lemma holder_step:
  assumes ok: "system_ok s" and i: "i < length (producers s)"
    and mine: "ticket (producers s ! i) = Some (unat (tail (core (shared s))))"
  shows "\<exists>s'. fire (Run i weak) s = Some s' \<and> log s' = log s \<and> consumer_at s' = consumer_at s \<and> popped s' = popped s \<and>
    (if steps_left (producers s ! i) = 1 then tail (core (shared s')) = tail (core (shared s)) + 1
     else tail (core (shared s')) = tail (core (shared s)) \<and> length (producers s') = length (producers s) \<and>
       ticket (producers s' ! i) = Some (unat (tail (core (shared s)))) \<and>
       steps_left (producers s' ! i) = steps_left (producers s ! i) - 1)"
proof -
  have "producer_ok (core (shared s)) (log s) (producers s ! i)" using ok i by (auto simp: system_ok_def Let_def)
  then show ?thesis using i mine by (cases "producers s ! i") (auto simp flip: word_unat_eq_iff)
qed

lemma holder_publishes:
  assumes "ring_reach (new_ring_system (2 ^ k) h0 threads) s" and "k \<le> 31" and "i < length (producers s)"
    and "ticket (producers s ! i) = Some (unat (tail (core (shared s))))"
  shows "\<exists>evs s'. length evs \<le> 4 \<and> fire_all evs s = Some s' \<and> log s' = log s \<and> consumer_at s' = consumer_at s \<and>
    popped s' = popped s \<and> tail (core (shared s')) = tail (core (shared s)) + 1"
proof -
  have "\<exists>evs s'. length evs \<le> steps_left (producers s ! i) \<and> fire_all evs s = Some s' \<and> log s' = log s \<and>
      consumer_at s' = consumer_at s \<and> popped s' = popped s \<and> tail (core (shared s')) = tail (core (shared s)) + 1"
    using assms
  proof (induction "steps_left (producers s ! i)" arbitrary: s)
    case 0
    then show ?case by (cases "producers s ! i") auto
  next
    case (Suc m)
    from system_reach[OF Suc.prems(1,2)] have ok: "system_ok s" by simp
    from holder_step[OF ok Suc.prems(3,4), of False] obtain s1 where s1: "fire (Run i False) s = Some s1" "log s1 = log s"
      "consumer_at s1 = consumer_at s" "popped s1 = popped s" and
      next_step: "if steps_left (producers s ! i) = 1 then tail (core (shared s1)) = tail (core (shared s)) + 1
        else tail (core (shared s1)) = tail (core (shared s)) \<and> length (producers s1) = length (producers s) \<and>
          ticket (producers s1 ! i) = Some (unat (tail (core (shared s)))) \<and>
          steps_left (producers s1 ! i) = steps_left (producers s ! i) - 1" by blast
    show ?case
    proof (cases "steps_left (producers s ! i) = 1")
      case True
      then show ?thesis using s1 next_step by (intro exI[of _ "[Run i False]"] exI[of _ s1]) simp
    next
      case False
      then have n: "tail (core (shared s1)) = tail (core (shared s))" "length (producers s1) = length (producers s)"
        "ticket (producers s1 ! i) = Some (unat (tail (core (shared s))))" "m = steps_left (producers s1 ! i)"
        using next_step Suc.hyps(2) by simp_all
      have "ring_reach (new_ring_system (2 ^ k) h0 threads) s1" using ring_reach_step[OF Suc.prems(1) s1(1)] .
      from Suc.hyps(1)[OF n(4) this Suc.prems(2)] Suc.prems(3) n obtain evs s' where
        "length evs \<le> m" "fire_all evs s1 = Some s'" "log s' = log s1" "consumer_at s' = consumer_at s1" "popped s' = popped s1"
        "tail (core (shared s')) = tail (core (shared s)) + 1" by auto
      then show ?thesis using s1 n Suc.hyps(2) by (intro exI[of _ "Run i False # evs"] exI[of _ s']) simp
    qed
  qed
  moreover have "steps_left (producers s ! i) \<le> 4" by (cases "producers s ! i") auto
  ultimately show ?thesis using le_trans by blast
qed

lemma tail_catches_up:
  assumes "ring_reach (new_ring_system (2 ^ k) h0 threads) s" and "k \<le> 31"
  shows "\<exists>evs s'. length evs \<le> 4 * (length (log s) - unat (tail (core (shared s)))) \<and> fire_all evs s = Some s' \<and>
    log s' = log s \<and> consumer_at s' = consumer_at s \<and> popped s' = popped s \<and>
    unat (tail (core (shared s'))) = length (log s)"
  using assms
proof (induction "length (log s) - unat (tail (core (shared s)))" arbitrary: s)
  case 0
  then have "unat (tail (core (shared s))) = length (log s)"
    using system_reach[OF 0(2,3)] by (auto simp: system_ok_def counters_ok_def Let_def)
  then show ?case by (intro exI[of _ "[]"] exI[of _ s]) simp
next
  case (Suc m)
  let ?tl = "tail (core (shared s))" and ?n = "length (log s)"
  have tk: "tickets_ok (producers s) (unat ?tl) ?n" and n: "?n \<le> 2 ^ 63"
    using system_reach[OF Suc.prems] by (auto simp: system_ok_def counters_ok_def Let_def)
  have lt: "unat ?tl < ?n" using Suc.hyps(2) by simp
  from tickets_held[OF tk le_refl lt] obtain i where i: "i < length (producers s)" "ticket (producers s ! i) = Some (unat ?tl)" .
  from holder_publishes[OF Suc.prems i] obtain evs s1 where s1: "length evs \<le> 4" "fire_all evs s = Some s1" "log s1 = log s"
    "consumer_at s1 = consumer_at s" "popped s1 = popped s" "tail (core (shared s1)) = ?tl + 1" by blast
  have up: "unat (?tl + 1) = Suc (unat ?tl)" using unat_Suc64[of ?tl] lt n by simp
  have m: "m = length (log s1) - unat (tail (core (shared s1)))" using Suc.hyps(2) s1 up by simp
  from Suc.hyps(1)[OF m fire_all_reach[OF Suc.prems(1) s1(2)] Suc.prems(2)] obtain evs' s' where s':
    "length evs' \<le> 4 * m" "fire_all evs' s1 = Some s'" "log s' = log s1" "consumer_at s' = consumer_at s1"
    "popped s' = popped s1" "unat (tail (core (shared s'))) = length (log s1)" unfolding m[symmetric] by blast
  have "length (evs @ evs') \<le> 4 * (?n - unat ?tl)" using s1(1) s'(1) Suc.hyps(2)[symmetric] by simp
  then show ?case using s1 s' by (intro exI[of _ "evs @ evs'"] exI[of _ s']) (simp add: fire_all_append)
qed

lemma shared_drain_done:
  assumes reach: "ring_reach (new_ring_system (2 ^ k) h0 threads) s" and k: "k \<le> 31" and at: "consumer_at s = Draining old"
  shows "\<exists>evs s'. length evs \<le> 4 * 2 ^ k + 1 \<and> fire_all evs s = Some s' \<and> consumer_at s' = Closed \<and>
    map fst (popped s') @ drained s' = map fst (log s)"
proof -
  let ?r = "core (shared s)"
  have ok: "counters_ok ?r (length (log s))" "xcapacity ?r = 2 ^ k"
    and old: "unat old = length (log s)" using system_reach[OF reach k] at by (auto simp: system_ok_def Let_def)
  from tail_catches_up[OF reach k] obtain evs s1 where s1: "length evs \<le> 4 * (length (log s) - unat (tail ?r))"
    "fire_all evs s = Some s1" "log s1 = log s" "consumer_at s1 = consumer_at s" "popped s1 = popped s"
    "unat (tail (core (shared s1))) = length (log s)" by blast
  have "tail (core (shared s1)) = old" using s1(6) old by (simp add: word_unat_eq_iff)
  then obtain s' where s': "fire Drain_end s1 = Some s'" "consumer_at s' = Closed" "log s' = log s1"
    using s1(4) at by (auto simp: drain_end_def)
  have run: "fire_all (evs @ [Drain_end]) s = Some s'" using s1 s' by (simp add: fire_all_append)
  from shared_ring_order(5)[OF fire_all_reach[OF reach run] k s'(2)] s'(3) s1(3)
  have "map fst (popped s') @ drained s' = map fst (log s)" by simp
  moreover have "length (evs @ [Drain_end]) \<le> 4 * 2 ^ k + 1" using s1(1) ok by (auto simp: counters_ok_def)
  ultimately show ?thesis using run s'(2) by blast
qed

text \<open>C12. The shared ring is a queue: however the steps of the producers and of the consumer
  interleave, the entries come out in the order in which \<open>tail\_allocated\<close> handed out the tickets,
  each once; what is written to the socket is the same sequence and never behind the pops;
  at most \<open>xcapacity\<close> entries are waiting; and after \<open>drain\<close> every request that took a ticket
  was either popped or resumed.\<close>

theorem shared_ring_fifo:
  assumes "ring_reach (new_ring_system (2 ^ k) h0 threads) s" and "k \<le> 31"
  shows "popped s = take (length (popped s)) (log s) \<and> wrote s = map snd (take (length (wrote s)) (log s)) \<and>
    length (popped s) \<le> length (wrote s) \<and> length (log s) \<le> length (popped s) + 2 ^ k \<and>
    (consumer_at s = Closed \<longrightarrow> map fst (popped s) @ drained s = map fst (log s))"
  using shared_ring_order[OF assms] by blast

text \<open>Two threads, a ring of two entries: thread 1 overtakes thread 0 after its ticket is taken.\<close>

definition two_pushes :: "nat ring_event list" where
  "two_pushes = [Start 0 (7, ''A''), Start 1 (8, ''B''), Run 0 False, Run 0 False, Run 0 False,
     Run 1 False, Run 1 False, Run 1 False, Run 1 False, Run 1 False, Run 1 False,
     Run 0 False, Run 0 False, Run 0 False, Run 0 False, Run 1 False, Run 1 False]"

lemma two_pushes_run:
  "map_option (\<lambda>s. (log s, popped s, wrote s, consumer_at s, drained s))
     (fire_all (two_pushes @ [Prep_load 5, Prep_take, Pop_read, Pop_store, Drain_stop, Drain_end]) (new_ring_system (2 ^ 1) 0 2)) =
   Some ([(7, ''A''), (8, ''B'')], [(7, ''A'')], [''A'', ''B''], Closed, [8])"
  by code_simp

lemma shared_ring_fifo_witness:
  "\<exists>s :: nat ring_system. log s = [(7, ''A''), (8, ''B'')] \<and> consumer_at s = Closed \<and> map fst (popped s) @ drained s = [7, 8]"
proof -
  obtain s where run: "fire_all (two_pushes @ [Prep_load 5, Prep_take, Pop_read, Pop_store, Drain_stop, Drain_end])
      (new_ring_system (2 ^ 1) 0 2) = Some s"
    and s: "log s = [(7, ''A''), (8, ''B'')]" "consumer_at s = Closed"
    using two_pushes_run by (auto simp: map_option_case split: option.splits)
  have "ring_reach (new_ring_system (2 ^ 1) 0 2) s" by (rule fire_all_reach[OF ring_reach_start run])
  from shared_ring_fifo[OF this] s show ?thesis by (intro exI[of _ s]) simp
qed

text \<open>C40. A shared \<open>drain\<close> comes to its end: when the ring has been stopped, some thread holds the ticket
  that the others wait for, and after at most four steps per waiting entry, of producers only,
  every ticket is published; \<open>drain\<close> then resumes the handles of all entries that were not popped, in order.\<close>

theorem shared_drain_finishes:
  assumes "ring_reach (new_ring_system (2 ^ k) h0 threads) s" and "k \<le> 31" and "consumer_at s = Draining old"
  shows "\<exists>evs s'. length evs \<le> 4 * 2 ^ k + 1 \<and> fire_all evs s = Some s' \<and> consumer_at s' = Closed \<and>
    map fst (popped s') @ drained s' = map fst (log s)"
  using shared_drain_done[OF assms] .

lemma shared_drain_finishes_witness:
  "\<exists>s old. consumer_at s = Draining old \<and> log s = [(7 :: nat, ''A''), (8, ''B'')] \<and>
    (\<exists>evs s'. fire_all evs s = Some s' \<and> consumer_at s' = Closed \<and> map fst (popped s') @ drained s' = [7, 8])"
proof -
  have "map_option (\<lambda>s. (log s, consumer_at s)) (fire_all (take 6 two_pushes @ [Run 1 False, Run 1 False, Drain_stop]) (new_ring_system (2 ^ 1) 0 2)) =
      Some ([(7, ''A''), (8, ''B'')], Draining 2)" by code_simp
  then obtain s where run: "fire_all (take 6 two_pushes @ [Run 1 False, Run 1 False, Drain_stop]) (new_ring_system (2 ^ 1) 0 2) = Some s"
    and s: "log s = [(7, ''A''), (8, ''B'')]" "consumer_at s = Draining 2"
    by (auto simp: map_option_case split: option.splits)
  have "ring_reach (new_ring_system (2 ^ 1) 0 2) s" by (rule fire_all_reach[OF ring_reach_start run])
  from shared_drain_finishes[OF this _ s(2)] s obtain evs s' where "fire_all evs s = Some s'" "consumer_at s' = Closed"
    "map fst (popped s') @ drained s' = [7, 8]" by auto
  then show ?thesis using s by blast
qed

section \<open>What interleaving allows\<close>

text \<open>
  A push that loads \<open>tail\_allocated\<close>, is overtaken, and then loads \<open>head\<close> reports an overflow of a ring
  that is empty: \<open>t\_alloc - head\<close> wraps around.
\<close>

lemma shared_push_false_overflow:
  "map_option (\<lambda>s. (producers s ! 0, log s, popped s))
     (fire_all ([Start 0 (7, ''A''), Run 0 False] @ Start 1 (8, ''B'') # replicate 7 (Run 1 False) @
        [Prep_load 5, Prep_take, Pop_read, Pop_store, Run 0 False]) (new_ring_system 1024 0 2)) =
   Some (Done (-1), [(8 :: nat, ''B'')], [(8, ''B'')])"
  by code_simp

text \<open>
  \<open>reset\<close> lets the tickets start again at 0. A thread that compared its ticket before the reset may find
  the same ticket after it, when there is no room: it overwrites an entry that was not popped.
\<close>

definition reset_system :: "'h ring_system \<Rightarrow> 'h ring_system" where
  "reset_system s = s\<lparr>shared := shared_reset (shared s), consumer_at := Ready, log := [], popped := [], wrote := [], drained := []\<rparr>"

lemma shared_reset_race:
  "map_option (\<lambda>s. (log s, popped s, entry (core (shared s)) 0, tail_allocated (shared s)))
     (Option.bind (fire_all (Start 0 (7, ''A'') # replicate 7 (Run 0 False) @ [Prep_load 5, Prep_take, Pop_read, Pop_store,
          Start 0 (8, ''B''), Run 0 False, Run 0 False, Drain_stop, Drain_end]) (new_ring_system 1 0 2))
        (\<lambda>s. fire_all (Start 1 (9, ''C'') # replicate 7 (Run 1 False) @ replicate 5 (Run 0 False)) (reset_system s))) =
   Some ([(9 :: nat, ''C''), (8, ''B'')], [], (8, ''B''), 2)"
  by code_simp

end
