(* ===== verification/Ipv4_Text.thy ===== *)
theory Ipv4_Text
  imports Charconv
begin

unbundle bit_operations_syntax

text \<open>
  \<open>iptouint32\<close> and \<open>uint32toip\<close> (src/RedisConnection.cpp): the dotted form of an IPv4 address.
  \<open>mem\<close> is the memory from the pointer on, of which the first \<open>len\<close> bytes are the text: the
  code looks at the byte behind an octet even when the text ends there.
\<close>

definition read_at :: "string \<Rightarrow> nat \<Rightarrow> char outcome" where
  "read_at mem p = (if p < length mem then Ret (mem ! p) else UB)"

text \<open>
  The loop over the octets from index \<open>i\<close> down to 0, at position \<open>p\<close>; calling \<open>from_chars\<close> with a
  range that ends before it begins is undefined. \<open>None\<close> is the early \<open>return 0\<close>.
\<close>

fun octets_loop :: "nat \<Rightarrow> string \<Rightarrow> nat \<Rightarrow> nat \<Rightarrow> u32 \<Rightarrow> (u32 \<times> nat) option outcome" where
  "octets_loop i mem len p result =
     (if len < p then UB
      else case from_chars_unsigned 255 (drop p (take len mem)) of (n, ec, v) \<Rightarrow>
        if ec \<noteq> Errc_ok then Ret None
        else
          let result' = result OR push_bit (i * 8) (of_int (the v)) in
          (case i of
             0 \<Rightarrow> Ret (Some (result', p + n + 1))
           | Suc j \<Rightarrow> bind_outcome (read_at mem (p + n)) (\<lambda>c.
               if c \<noteq> CHR ''.'' then Ret None else octets_loop j mem len (p + n + 1) result')))"

declare octets_loop.simps [simp del]

definition iptouint32 :: "string \<Rightarrow> nat \<Rightarrow> u32 outcome" where
  "iptouint32 mem len = bind_outcome (octets_loop 3 mem len 0 0) (\<lambda>res.
     case res of None \<Rightarrow> Ret 0 | Some (result, p) \<Rightarrow> Ret (if p = len + 1 then result else 0))"

definition octet :: "u32 \<Rightarrow> nat \<Rightarrow> nat" where
  "octet ip i = unat (drop_bit (i * 8) ip AND 0xFF)"

text \<open>What \<open>uint32toip\<close> writes ahead of the terminating zero, and the length it returns.\<close>

definition ip_text :: "u32 \<Rightarrow> string" where
  "ip_text ip = to_chars_nat (octet ip 3) @ ''.'' @ to_chars_nat (octet ip 2) @ ''.'' @
     to_chars_nat (octet ip 1) @ ''.'' @ to_chars_nat (octet ip 0)"

definition uint32toip :: "u32 \<Rightarrow> string \<times> nat" where
  "uint32toip ip =
     (let buffer = ip_text ip @ [CHR 0x00]; ptr = length (ip_text ip) in (buffer, ptr - 1))"

section \<open>Reading back what was written\<close>

lemma octet_le: "octet ip i \<le> 255"
proof -
  have "drop_bit (i * 8) ip AND 0xFF = take_bit 8 (drop_bit (i * 8) ip)"
    by (simp add: take_bit_eq_mask mask_eq_exp_minus_1)
  then have "octet ip i = take_bit 8 (unat (drop_bit (i * 8) ip))"
    by (simp add: octet_def unsigned_take_bit_eq)
  then show ?thesis using take_bit_nat_less_exp[of 8 "unat (drop_bit (i * 8) ip)"] by simp
qed

lemma octets_join:
  "0 OR push_bit 24 (of_nat (octet ip 3)) OR push_bit 16 (of_nat (octet ip 2)) OR
   push_bit 8 (of_nat (octet ip 1)) OR of_nat (octet ip 0) = (ip :: u32)"
proof -
  have mask: "(0xFF :: u32) = mask 8" by (simp add: mask_eq_exp_minus_1)
  have bits: "bit (octet ip i) n \<longleftrightarrow> n < 8 \<and> bit ip (i * 8 + n)" for i n
    unfolding octet_def mask by (auto simp: bit_simps dest: bit_imp_le_length)
  show ?thesis
  proof (rule bit_word_eqI)
    fix n assume "n < LENGTH(32)"
    then show "bit (0 OR push_bit 24 (of_nat (octet ip 3)) OR push_bit 16 (of_nat (octet ip 2)) OR
        push_bit 8 (of_nat (octet ip 1)) OR of_nat (octet ip 0) :: u32) n = bit ip n"
      by (cases "24 \<le> n"; cases "16 \<le> n"; cases "8 \<le> n") (auto simp: bit_simps bits)
  qed
qed

lemma octets_loop_dot:
  assumes "drop p (take len mem) = to_chars_nat o' @ CHR ''.'' # rest" and "o' \<le> 255"
  shows "i = Suc j \<Longrightarrow> octets_loop i mem len p r =
      octets_loop j mem len (p + length (to_chars_nat o') + 1) (r OR push_bit (i * 8) (of_nat o'))"
    and "drop (p + length (to_chars_nat o') + 1) (take len mem) = rest"
proof -
  let ?n = "length (to_chars_nat o')"
  have scan: "from_chars_unsigned 255 (drop p (take len mem)) = (?n, Errc_ok, Some (int o'))"
    unfolding assms(1) using assms(2) by (intro from_chars_unsigned_to_chars) simp_all
  have "?n < length (drop p (take len mem))" unfolding assms(1) by simp
  then have in_mem: "p + ?n < len" "p + ?n < length mem" by simp_all
  have "take len mem ! (p + ?n) = CHR ''.''"
    using arg_cong[OF assms(1), of "\<lambda>xs. xs ! ?n"] in_mem by (simp add: nth_append)
  then have "read_at mem (p + ?n) = Ret (CHR ''.'')" using in_mem by (simp add: read_at_def)
  then show "i = Suc j \<Longrightarrow> octets_loop i mem len p r =
      octets_loop j mem len (p + ?n + 1) (r OR push_bit (i * 8) (of_nat o'))"
    using scan in_mem by (subst octets_loop.simps) simp
  have "drop (?n + 1) (drop p (take len mem)) = rest" unfolding assms(1) by simp
  then show "drop (p + ?n + 1) (take len mem) = rest" by (simp add: add.commute add.left_commute)
qed

lemma octets_loop_last:
  assumes "drop p (take len mem) = to_chars_nat o'" and "o' \<le> 255"
  shows "octets_loop 0 mem len p r = Ret (Some (r OR of_nat o', p + length (to_chars_nat o') + 1))"
proof -
  have "from_chars_unsigned 255 (to_chars_nat o' @ []) = (length (to_chars_nat o'), Errc_ok, Some (int o'))"
    using assms(2) by (intro from_chars_unsigned_to_chars) simp_all
  then have scan: "from_chars_unsigned 255 (drop p (take len mem)) = (length (to_chars_nat o'), Errc_ok, Some (int o'))"
    using assms(1) by simp
  have "drop p (take len mem) \<noteq> []" unfolding assms(1) by simp
  then have "p \<le> len" by simp
  then show ?thesis using scan by (subst octets_loop.simps) simp
qed

lemma iptouint32_text: "iptouint32 (ip_text ip @ rest) (length (ip_text ip)) = Ret ip"
proof -
  let ?t = "\<lambda>i. to_chars_nat (octet ip i)" and ?len = "length (ip_text ip)" and ?mem = "ip_text ip @ rest"
  have start: "drop 0 (take ?len ?mem) = ?t 3 @ CHR ''.'' # ?t 2 @ CHR ''.'' # ?t 1 @ CHR ''.'' # ?t 0"
  proof -
    have "drop 0 (take ?len ?mem) = ip_text ip" by simp
    then show ?thesis by (simp only: ip_text_def append_Cons append_Nil)
  qed
  note d3 = octets_loop_dot(2)[OF start octet_le]
  note d2 = octets_loop_dot(2)[OF d3 octet_le]
  note d1 = octets_loop_dot(2)[OF d2 octet_le]
  have i: "3 = Suc 2" "2 = Suc 1" "1 = Suc 0" by simp_all
  note s3 = octets_loop_dot(1)[OF start octet_le i(1)]
  note s2 = octets_loop_dot(1)[OF d3 octet_le i(2)]
  note s1 = octets_loop_dot(1)[OF d2 octet_le i(3)]
  note s0 = octets_loop_last[OF d1 octet_le]
  have "octets_loop 3 ?mem ?len 0 0 = Ret (Some (0 OR push_bit 24 (of_nat (octet ip 3)) OR push_bit 16 (of_nat (octet ip 2)) OR
      push_bit 8 (of_nat (octet ip 1)) OR of_nat (octet ip 0), ?len + 1))"
    unfolding s3 s2 s1 s0 by (simp add: ip_text_def or.assoc)
  then show ?thesis by (simp add: iptouint32_def octets_join[simplified])
qed

text \<open>\<open>iptouint32\<close> reads back the address from the text that \<open>uint32toip\<close> writes into its buffer.\<close>
theorem ip_text_roundtrip: "iptouint32 (fst (uint32toip ip)) (length (ip_text ip)) = Ret ip"
  by (simp add: uint32toip_def Let_def iptouint32_text)

text \<open>The length that \<open>uint32toip\<close> returns is one short: the text of that length, which
  \<open>RedisCluster\<close> uses as the address of a shard, lacks its last digit and names another host
  or none.\<close>
theorem uint32toip_cuts:
  "take (snd (uint32toip ip)) (fst (uint32toip ip)) = butlast (ip_text ip) \<and>
   take (snd (uint32toip 0x0A00000C)) (fst (uint32toip 0x0A00000C)) = ip_text 0x0A000001"
proof
  have "ip_text ip \<noteq> []" by (simp add: ip_text_def)
  then show "take (snd (uint32toip ip)) (fst (uint32toip ip)) = butlast (ip_text ip)"
    by (simp add: uint32toip_def butlast_conv_take Let_def)
  show "take (snd (uint32toip 0x0A00000C)) (fst (uint32toip 0x0A00000C)) = ip_text 0x0A000001"
    by (simp add: uint32toip_def ip_text_def octet_def to_chars_nat.simps Let_def)
qed

lemma iptouint32_total:
  assumes "len < length mem" and "mem ! len \<noteq> CHR ''.''"
  shows "\<exists>ip. iptouint32 mem len = Ret ip"
proof -
  have "\<exists>res. octets_loop i mem len p r = Ret res" if "p \<le> len" for i p r
    using that
  proof (induction i arbitrary: p r)
    case (Suc i)
    obtain n ec v where scan: "from_chars_unsigned 255 (drop p (take len mem)) = (n, ec, v)" by (cases rule: prod_cases3)
    have "n \<le> length (drop p (take len mem))"
      using scan length_takeWhile_le[of is_digit "drop p (take len mem)"]
      by (auto simp: from_chars_unsigned_def Let_def split: if_splits)
    then have le: "p + n \<le> len" using Suc.prems assms(1) by simp
    then have rd: "read_at mem (p + n) = Ret (mem ! (p + n))" using assms(1) by (simp add: read_at_def)
    have "p + n + 1 \<le> len" if "mem ! (p + n) = CHR ''.''" using le that assms(2) by (cases "p + n = len") auto
    then show ?case using scan rd Suc.prems Suc.IH[of "p + n + 1"] by (subst octets_loop.simps) auto
  qed (subst octets_loop.simps, auto split: prod.split)
  from this[of 0 3 0] show ?thesis
    by (auto simp: iptouint32_def split: option.split)
qed

text \<open>\<open>iptouint32\<close> on any text with a byte behind it that is no dot reads no further and
  returns an address.\<close>
theorem iptouint32_safe:
  assumes "len < length mem" and "mem ! len \<noteq> CHR ''.''"
  shows "\<exists>ip. iptouint32 mem len = Ret ip"
  using assms by (rule iptouint32_total)

theorem iptouint32_safe_witness: "\<exists>ip. iptouint32 ''1.2.3.4:80'' 7 = Ret ip"
  by (rule iptouint32_safe) simp_all

end
