(* ===== verification/Cluster_Table.thy ===== *)
theory Cluster_Table
  imports Ipv4_Text
begin

text \<open>
  The shard table of \<open>RedisCluster\<close> (include/RedisCluster.hpp): an open-addressing hash table
  of a fixed size from addresses to shards, in the variant \<open>shared = false\<close>. A pointer to a
  shard is its index in the list of all shards made so far.
\<close>

section \<open>The code\<close>

text \<open>\<open>connected\<close> is 0 for a new shard, 1 while it connects, 2 when connected, 3 when dead.\<close>

record shard =
  connected :: nat
  shard_ip :: u32
  shard_port :: u16
  shard_pipe :: "nat option"

definition new_shard :: "u32 \<Rightarrow> u16 \<Rightarrow> shard" where
  "new_shard i p = \<lparr>connected = 0, shard_ip = i, shard_port = p, shard_pipe = None\<rparr>"

record router =
  slots :: "nat option list"
  table :: "nat option list"
  heap :: "shard list"

definition num_slot :: nat where "num_slot = 16384"

definition new_router :: "nat \<Rightarrow> router" where
  "new_router num_shards = \<lparr>slots = replicate num_slot None, table = replicate num_shards None, heap = []\<rparr>"

definition mix :: "u64 \<Rightarrow> u64" where
  "mix combined =
     (let c1 = combined XOR drop_bit 33 combined;
          c2 = c1 * 0xff51afd7ed558ccd;
          c3 = c2 XOR drop_bit 33 c2;
          c4 = c3 * 0xc4ceb9fe1a85ec53
      in c4 XOR drop_bit 33 c4)"

definition router_hash :: "nat \<Rightarrow> u32 \<Rightarrow> u16 \<Rightarrow> nat" where
  "router_hash num_shards i p = unat (mix (push_bit 16 (ucast i) OR ucast p)) mod num_shards"

definition at_address :: "u32 \<Rightarrow> u16 \<Rightarrow> shard \<Rightarrow> bool" where
  "at_address i p sh \<longleftrightarrow> shard_ip sh = i \<and> shard_port sh = p"

text \<open>
  The loop of \<open>find_shard\<close> from turn \<open>k\<close> on with \<open>left\<close> turns to go, and the loop by which
  \<open>connect\<close> enters a shard that is new.
\<close>

fun find_loop :: "nat \<Rightarrow> nat \<Rightarrow> nat \<Rightarrow> u32 \<Rightarrow> u16 \<Rightarrow> router \<Rightarrow> nat option \<times> router" where
  "find_loop 0 k start i p r = (None, r)"
| "find_loop (Suc left) k start i p r =
     (let idx = (start + k) mod length (table r) in
      case table r ! idx of
        Some s \<Rightarrow> if at_address i p (heap r ! s) then (Some s, r) else find_loop left (Suc k) start i p r
      | None \<Rightarrow> (Some (length (heap r)), r\<lparr>table := (table r)[idx := Some (length (heap r))], heap := heap r @ [new_shard i p]\<rparr>))"

definition find_shard :: "u32 \<Rightarrow> u16 \<Rightarrow> router \<Rightarrow> nat option \<times> router" where
  "find_shard i p r = find_loop (length (table r)) 0 (router_hash (length (table r)) i p) i p r"

fun enter_loop :: "nat \<Rightarrow> nat \<Rightarrow> nat \<Rightarrow> nat \<Rightarrow> router \<Rightarrow> router option" where
  "enter_loop 0 k start s r = None"
| "enter_loop (Suc left) k start s r =
     (let idx = (start + k) mod length (table r) in
      case table r ! idx of
        Some _ \<Rightarrow> enter_loop left (Suc k) start s r
      | None \<Rightarrow> Some (r\<lparr>table := (table r)[idx := Some s]\<rparr>))"

definition enter_shard :: "nat \<Rightarrow> router \<Rightarrow> router option" where
  "enter_shard s r =
     enter_loop (length (table r)) 0 (router_hash (length (table r)) (shard_ip (heap r ! s)) (shard_port (heap r ! s))) s r"

section \<open>The invariant\<close>

text \<open>
  Every entry is a shard, no address is entered twice, and from the hash of an entry to its
  place no cell is empty.
\<close>

definition home :: "router \<Rightarrow> nat \<Rightarrow> nat" where
  "home r s = router_hash (length (table r)) (shard_ip (heap r ! s)) (shard_port (heap r ! s))"

definition same_address :: "shard \<Rightarrow> shard \<Rightarrow> bool" where
  "same_address a b \<longleftrightarrow> shard_ip a = shard_ip b \<and> shard_port a = shard_port b"

definition table_ok :: "router \<Rightarrow> bool" where
  "table_ok r \<longleftrightarrow> table r \<noteq> [] \<and>
     (\<forall>j<length (table r). \<forall>s. table r ! j = Some s \<longrightarrow> s < length (heap r) \<and>
        (\<exists>d<length (table r). j = (home r s + d) mod length (table r) \<and>
           (\<forall>e<d. table r ! ((home r s + e) mod length (table r)) \<noteq> None))) \<and>
     (\<forall>j<length (table r). \<forall>k<length (table r). \<forall>s t. table r ! j = Some s \<longrightarrow> table r ! k = Some t \<longrightarrow>
        same_address (heap r ! s) (heap r ! t) \<longrightarrow> j = k)"

text \<open>The shard an address leads to.\<close>

definition holds :: "router \<Rightarrow> u32 \<Rightarrow> u16 \<Rightarrow> nat \<Rightarrow> bool" where
  "holds r i p s \<longleftrightarrow> Some s \<in> set (table r) \<and> at_address i p (heap r ! s)"

lemma router_hash_less: "0 < n \<Longrightarrow> router_hash n i p < n"
  by (simp add: router_hash_def)

definition cell :: "router \<Rightarrow> nat \<Rightarrow> nat \<Rightarrow> nat option" where
  "cell r start e = table r ! ((start + e) mod length (table r))"

lemma update_empty_cell:
  "j < length xs \<Longrightarrow> xs ! j = None \<Longrightarrow> Some t \<in> set (xs[j := Some s]) \<longleftrightarrow> t = s \<or> Some t \<in> set xs"
  by (auto simp: in_set_conv_nth nth_list_update) (metis option.distinct(1))+

text \<open>The entry of a shard at turn \<open>k\<close> of its own probe sequence, behind non-empty cells.\<close>

lemma table_ok_enter:
  assumes ok: "table_ok r" and k: "k < length (table r)"
    and before: "\<forall>e<k. cell r start e \<noteq> None"
    and heap': "length (heap r) \<le> length (heap r')" "s < length (heap r')" "\<And>t. t < length (heap r) \<Longrightarrow> heap r' ! t = heap r ! t"
    and start: "start = router_hash (length (table r)) (shard_ip (heap r' ! s)) (shard_port (heap r' ! s))"
    and fresh: "\<And>t. Some t \<in> set (table r) \<Longrightarrow> \<not> same_address (heap r' ! s) (heap r ! t)"
    and table': "table r' = (table r)[(start + k) mod length (table r) := Some s]"
  shows "table_ok r'"
proof -
  let ?n = "length (table r)" and ?j = "(start + k) mod length (table r)"
  have n: "0 < ?n" and len: "length (table r') = ?n" using ok table' by (auto simp: table_ok_def)
  then have j: "?j < ?n" by simp
  have at: "table r' ! m = (if m = ?j then Some s else table r ! m)" if "m < ?n" for m
    using that by (simp add: table')
  have old: "table r ! m = Some t \<Longrightarrow> m < ?n \<Longrightarrow> t < length (heap r)" for m t
    using ok by (auto simp: table_ok_def)
  have home_old: "home r' t = home r t" if "t < length (heap r)" for t
    using heap'(3)[OF that] len by (simp add: home_def)
  have path: "t < length (heap r') \<and> (\<exists>d<?n. m = (home r' t + d) mod ?n \<and>
      (\<forall>e<d. table r' ! ((home r' t + e) mod ?n) \<noteq> None))" if m: "m < ?n" and e: "table r' ! m = Some t" for m t
  proof (cases "m = ?j")
    case True
    then have t: "t = s" using e at[OF m] by simp
    have "home r' s = start" using start len by (simp add: home_def)
    moreover have "table r' ! ((start + e) mod ?n) \<noteq> None" if "e < k" for e
      using before that n by (auto simp: cell_def at)
    ultimately show ?thesis using True k heap'(2) t by auto
  next
    case False
    then have e': "table r ! m = Some t" using e at[OF m] by simp
    with ok m obtain d where d: "d < ?n" "m = (home r t + d) mod ?n"
      "\<forall>e<d. table r ! ((home r t + e) mod ?n) \<noteq> None" unfolding table_ok_def by blast
    then have "table r' ! ((home r t + e) mod ?n) \<noteq> None" if "e < d" for e
      using that n by (auto simp: at)
    then show ?thesis using d home_old[OF old[OF e' m]] old[OF e' m] heap'(1) by auto
  qed
  have unique: "m = m'" if m: "m < ?n" "m' < ?n" "table r' ! m = Some t" "table r' ! m' = Some t'"
    and same: "same_address (heap r' ! t) (heap r' ! t')" for m m' t t'
  proof -
    consider "m = ?j" "m' = ?j" | "m = ?j" "m' \<noteq> ?j" | "m \<noteq> ?j" "m' = ?j" | "m \<noteq> ?j" "m' \<noteq> ?j" by blast
    then show ?thesis
    proof cases
      case 2
      then have "table r ! m' = Some t'" "t = s" using m at by auto
      then show ?thesis using fresh[of t'] old[of m' t'] heap'(3) same m(2) by (metis nth_mem)
    next
      case 3
      then have "table r ! m = Some t" "t' = s" using m at by auto
      then show ?thesis using fresh[of t] old[of m t] heap'(3) same m(1)
        by (metis nth_mem same_address_def)
    next
      case 4
      then have e: "table r ! m = Some t" "table r ! m' = Some t'" using m at by auto
      then have "same_address (heap r ! t) (heap r ! t')" using same old[of m t] old[of m' t'] heap'(3) m by simp
      then show ?thesis using ok e m(1,2) unfolding table_ok_def by blast
    qed simp
  qed
  have "table r' \<noteq> []" using n len by auto
  then show ?thesis unfolding table_ok_def len using path unique by blast
qed

text \<open>An address that is not met before an empty cell, or in the whole table, is not in the table.\<close>

lemma not_held:
  assumes ok: "table_ok r" and start: "start = router_hash (length (table r)) i p"
    and miss: "\<forall>e<k. \<forall>s. cell r start e = Some s \<longrightarrow> \<not> at_address i p (heap r ! s)"
    and stop: "k = length (table r) \<or> cell r start k = None"
  shows "\<not> holds r i p s"
proof
  assume h: "holds r i p s"
  then obtain j where j: "j < length (table r)" "table r ! j = Some s" by (auto simp: holds_def in_set_conv_nth)
  with ok obtain d where d: "d < length (table r)" "j = (home r s + d) mod length (table r)"
    "\<forall>e<d. table r ! ((home r s + e) mod length (table r)) \<noteq> None" unfolding table_ok_def by blast
  have home: "home r s = start" using h start by (auto simp: holds_def home_def at_address_def)
  then have "cell r start d = Some s" "\<forall>e<d. cell r start e \<noteq> None" using d j by (auto simp: cell_def)
  moreover have "d < k" using calculation stop d(1) by (cases "d < k") (auto simp: not_less le_less)
  ultimately show False using miss h by (auto simp: holds_def)
qed

lemma find_loop_spec:
  assumes ok: "table_ok r" and start: "start = router_hash (length (table r)) i p"
    and before: "\<forall>e<k. \<exists>s. cell r start e = Some s \<and> \<not> at_address i p (heap r ! s)"
    and left: "left + k = length (table r)"
  shows "case find_loop left k start i p r of (res, r') \<Rightarrow> table_ok r' \<and> slots r' = slots r \<and> length (table r') = length (table r) \<and>
    (case res of
       None \<Rightarrow> r' = r \<and> None \<notin> set (table r) \<and> (\<forall>s. \<not> holds r i p s)
     | Some s \<Rightarrow> holds r' i p s \<and>
         (if \<exists>t. holds r i p t then r' = r else s = length (heap r) \<and> heap r' = heap r @ [new_shard i p] \<and>
            (\<forall>t i' p'. t < length (heap r) \<longrightarrow> holds r' i' p' t = holds r i' p' t)))"
  using before left
proof (induction left arbitrary: k)
  case 0
  let ?n = "length (table r)"
  have k: "k = ?n" using "0.prems"(2) by simp
  have none: "\<not> holds r i p s" for s
  proof (rule not_held[OF ok start])
    show "\<forall>e<k. \<forall>s. cell r start e = Some s \<longrightarrow> \<not> at_address i p (heap r ! s)" using "0.prems"(1) by fastforce
    show "k = ?n \<or> cell r start k = None" using k by simp
  qed
  have "None \<notin> set (table r)"
  proof
    assume "None \<in> set (table r)"
    then obtain j where j: "j < ?n" "table r ! j = None" by (auto simp: in_set_conv_nth)
    have st: "start < ?n" using start router_hash_less[of ?n i p] ok by (simp add: table_ok_def)
    let ?e = "if start \<le> j then j - start else j + ?n - start"
    have "?e < ?n" and "(start + ?e) mod ?n = j" using st j(1) by (auto simp: not_le)
    then show False using "0.prems"(1) k j(2) unfolding cell_def by (metis option.distinct(1))
  qed
  then show ?case using ok none by simp
next
  case (Suc left)
  let ?idx = "(start + k) mod length (table r)"
  have k: "k < length (table r)" using Suc.prems(2) by simp
  then have idx: "?idx < length (table r)" by (intro mod_less_divisor) linarith
  show ?case
  proof (cases "cell r start k")
    case None
    have miss: "\<not> holds r i p s" for s
    proof (rule not_held[OF ok start])
      show "\<forall>e<k. \<forall>s. cell r start e = Some s \<longrightarrow> \<not> at_address i p (heap r ! s)" using Suc.prems(1) by fastforce
      show "k = length (table r) \<or> cell r start k = None" using None by simp
    qed
    let ?r' = "r\<lparr>table := (table r)[?idx := Some (length (heap r))], heap := heap r @ [new_shard i p]\<rparr>"
    have "table_ok ?r'"
    proof (rule table_ok_enter[OF ok k, where start = start and s = "length (heap r)"])
      show "\<forall>e<k. cell r start e \<noteq> None" using Suc.prems(1) by auto
      show "\<not> same_address (heap ?r' ! length (heap r)) (heap r ! t)" if "Some t \<in> set (table r)" for t
        using miss[of t] that by (auto simp: holds_def at_address_def same_address_def new_shard_def)
    qed (simp_all add: start new_shard_def nth_append)
    moreover have "holds ?r' i p (length (heap r))"
      using idx set_update_memI[OF idx] by (simp add: holds_def at_address_def new_shard_def)
    moreover have "holds ?r' i' p' t = holds r i' p' t" if "t < length (heap r)" for t i' p'
    proof -
      have "Some t \<in> set ((table r)[?idx := Some (length (heap r))]) \<longleftrightarrow> Some t \<in> set (table r)"
        using that update_empty_cell[OF idx None[unfolded cell_def]] by simp
      then show ?thesis using that by (simp add: holds_def nth_append)
    qed
    moreover have none: "Ex (holds r i p) = False" using miss by blast
    ultimately show ?thesis using None by (simp add: cell_def Let_def none)
  next
    case (Some s)
    show ?thesis
    proof (cases "at_address i p (heap r ! s)")
      case True
      have "Some s \<in> set (table r)" using Some idx unfolding cell_def by (metis nth_mem)
      then have "holds r i p s" using True by (simp add: holds_def)
      then show ?thesis using Some True ok by (auto simp: cell_def Let_def)
    next
      case False
      then have "\<forall>e<Suc k. \<exists>s. cell r start e = Some s \<and> \<not> at_address i p (heap r ! s)"
        using Suc.prems(1) Some by (auto simp: less_Suc_eq)
      from Suc.IH[OF this] Suc.prems(2) Some False show ?thesis by (simp add: cell_def Let_def)
    qed
  qed
qed

lemma find_shard_cases:
  assumes "table_ok r"
  shows "case find_shard i p r of (res, r') \<Rightarrow> table_ok r' \<and> slots r' = slots r \<and> length (table r') = length (table r) \<and>
    (case res of
       None \<Rightarrow> r' = r \<and> None \<notin> set (table r) \<and> (\<forall>s. \<not> holds r i p s)
     | Some s \<Rightarrow> holds r' i p s \<and>
         (if \<exists>t. holds r i p t then r' = r else s = length (heap r) \<and> heap r' = heap r @ [new_shard i p] \<and>
            (\<forall>t i' p'. t < length (heap r) \<longrightarrow> holds r' i' p' t = holds r i' p' t)))"
  unfolding find_shard_def by (rule find_loop_spec[OF assms refl]) simp_all

text \<open>A full table finds only what it holds.\<close>

lemma find_loop_full:
  "None \<notin> set (table r) \<Longrightarrow> table r \<noteq> [] \<Longrightarrow> find_loop left k start i p r = (Some s, r') \<Longrightarrow> holds r i p s"
proof (induction left arbitrary: k)
  case (Suc left)
  let ?idx = "(start + k) mod length (table r)"
  have "?idx < length (table r)" using Suc.prems(2) by simp
  then have in_table: "table r ! ?idx \<in> set (table r)" by (rule nth_mem)
  then have "table r ! ?idx \<noteq> None" using Suc.prems(1) by metis
  then obtain t where t: "table r ! ?idx = Some t" by blast
  with in_table show ?case using Suc by (auto simp: Let_def holds_def split: if_splits)
qed simp

lemma holds_unique: "table_ok r \<Longrightarrow> holds r i p s \<Longrightarrow> holds r i p t \<Longrightarrow> s = t"
  unfolding table_ok_def holds_def at_address_def same_address_def in_set_conv_nth
  by (metis option.inject)

lemma find_shard_held:
  assumes "table_ok r" and "holds r i p s"
  shows "find_shard i p r = (Some s, r)"
proof -
  obtain res r' where f: "find_shard i p r = (res, r')" by fastforce
  have "res \<noteq> None" using find_shard_cases[OF assms(1), of i p] assms(2) f by (cases res) auto
  then obtain t where "res = Some t" "holds r' i p t" "r' = r"
    using find_shard_cases[OF assms(1), of i p] assms(2) f by (cases res) (auto split: if_splits)
  then show ?thesis using f holds_unique[OF assms(1,2), of t] by simp
qed

lemma new_router_ok: "0 < n \<Longrightarrow> table_ok (new_router n)"
  by (simp add: table_ok_def new_router_def)

section \<open>The table as a directory\<close>

text \<open>
  What the handling of replies relies on: a lookup that finds or makes an entry, keeps the others,
  and finds what is held. So an address that was found once is found again after any lookups.
\<close>

fun lookups :: "(u32 \<Rightarrow> u16 \<Rightarrow> 'r \<Rightarrow> nat option \<times> 'r) \<Rightarrow> (u32 \<times> u16) list \<Rightarrow> 'r \<Rightarrow> 'r" where
  "lookups look [] r = r"
| "lookups look ((i, p) # as) r = lookups look as (snd (look i p r))"

locale shard_directory =
  fixes look :: "u32 \<Rightarrow> u16 \<Rightarrow> 'r \<Rightarrow> nat option \<times> 'r"
    and ok :: "'r \<Rightarrow> bool"
    and held :: "'r \<Rightarrow> u32 \<Rightarrow> u16 \<Rightarrow> nat \<Rightarrow> bool"
  assumes look_found: "ok r \<Longrightarrow> look i p r = (Some s, r') \<Longrightarrow> ok r' \<and> held r' i p s"
    and look_full: "ok r \<Longrightarrow> look i p r = (None, r') \<Longrightarrow> r' = r"
    and look_held: "ok r \<Longrightarrow> held r i p s \<Longrightarrow> look i p r = (Some s, r)"
    and look_keeps: "ok r \<Longrightarrow> look i' p' r = (Some s', r') \<Longrightarrow> held r i p s \<Longrightarrow> held r' i p s"
begin

lemma look_step: "ok r \<Longrightarrow> held r i p s \<Longrightarrow> ok (snd (look i' p' r)) \<and> held (snd (look i' p' r)) i p s"
  using look_found look_full look_keeps by (cases "look i' p' r"; cases "fst (look i' p' r)") (auto, blast+)

lemma lookups_hold: "ok r \<Longrightarrow> held r i p s \<Longrightarrow> ok (lookups look as r) \<and> held (lookups look as r) i p s"
proof (induction "as" arbitrary: r)
  case (Cons a "as")
  obtain i' p' where "a = (i', p')" by fastforce
  then show ?case using Cons.IH[of "snd (look i' p' r)"] look_step[OF Cons.prems, of i' p'] by simp
qed simp

lemma look_again:
  assumes "ok r" and "look i p r = (Some s, r')"
  shows "look i p (lookups look as r') = (Some s, lookups look as r')"
  using look_found[OF assms] lookups_hold look_held by blast

end

lemma holds_in_heap: "table_ok r \<Longrightarrow> holds r i p s \<Longrightarrow> s < length (heap r)"
  by (auto simp: table_ok_def holds_def in_set_conv_nth)

interpretation sd: shard_directory find_shard table_ok holds
proof
  fix r r' :: router and i i' :: u32 and p p' :: u16 and s s' :: nat
  assume ok: "table_ok r"
  show "table_ok r' \<and> holds r' i p s" if "find_shard i p r = (Some s, r')"
    using find_shard_cases[OF ok, of i p] that by simp
  show "r' = r" if "find_shard i p r = (None, r')" using find_shard_cases[OF ok, of i p] that by simp
  show "find_shard i p r = (Some s, r)" if "holds r i p s" using ok that by (rule find_shard_held)
  show "holds r' i p s" if f: "find_shard i' p' r = (Some s', r')" and h: "holds r i p s"
  proof (cases "\<exists>t. holds r i' p' t")
    case True
    then have "r' = r" using find_shard_cases[OF ok, of i' p'] f by simp
    then show ?thesis using h by simp
  next
    case False
    then have "\<forall>t i'' p''. t < length (heap r) \<longrightarrow> holds r' i'' p'' t = holds r i'' p'' t"
      using find_shard_cases[OF ok, of i' p'] f by (simp split: if_splits)
    then show ?thesis using h holds_in_heap[OF ok h] by blast
  qed
qed

text \<open>C30. \<open>find_shard\<close> keeps the table in order and returns the shard of the address: the one the table
  has, and then nothing changes, or a new one that does not disturb any other; it returns none
  only if the table is full and does not have the address. Asked again after any other calls, it
  returns the same.\<close>
theorem find_shard_correct:
  assumes "table_ok r"
  shows "case find_shard i p r of (res, r') \<Rightarrow> table_ok r' \<and> slots r' = slots r \<and>
    (case res of
       None \<Rightarrow> r' = r \<and> None \<notin> set (table r) \<and> (\<forall>s. \<not> holds r i p s)
     | Some s \<Rightarrow> holds r' i p s \<and> fst (find_shard i p (lookups find_shard others r')) = Some s \<and>
         (if \<exists>t. holds r i p t then r' = r else s = length (heap r) \<and> heap r' = heap r @ [new_shard i p] \<and>
            (\<forall>t i' p'. t < length (heap r) \<longrightarrow> holds r' i' p' t = holds r i' p' t)))"
proof -
  obtain res r' where f: "find_shard i p r = (res, r')" by fastforce
  note c = find_shard_cases[OF assms, of i p, unfolded f]
  show ?thesis
  proof (cases res)
    case None
    with c f assms show ?thesis by auto
  next
    case (Some s)
    then have "find_shard i p (lookups find_shard others r') = (Some s, lookups find_shard others r')"
      using f by (intro sd.look_again[OF assms]) simp
    with c f Some show ?thesis by simp
  qed
qed

theorem find_shard_correct_witness:
  "\<exists>s r'. find_shard 0x0A000001 6379 (new_router 2) = (Some s, r') \<and> table_ok r' \<and> holds r' 0x0A000001 6379 s \<and>
     fst (find_shard 0x0A000001 6379 (lookups find_shard [(0x0A000002, 6379)] r')) = Some s"
proof -
  obtain res r' where f: "find_shard 0x0A000001 6379 (new_router 2) = (res, r')" by fastforce
  have ok: "table_ok (new_router 2)" by (rule new_router_ok) simp
  have "None \<in> set (table (new_router 2))" by (simp add: new_router_def)
  then show ?thesis
    using find_shard_correct[OF ok, of "0x0A000001" 6379 "[(0x0A000002, 6379)]", unfolded f]
    by (cases res) (auto simp: f)
qed

text \<open>Entering a shard whose address the table does not have.\<close>

lemma enter_loop_spec:
  assumes ok: "table_ok r" and s: "s < length (heap r)" and start: "start = home r s"
    and fresh: "\<And>t. Some t \<in> set (table r) \<Longrightarrow> \<not> same_address (heap r ! s) (heap r ! t)"
    and before: "\<forall>e<k. cell r start e \<noteq> None" and left: "left + k = length (table r)"
  shows "case enter_loop left k start s r of
       None \<Rightarrow> None \<notin> set (table r)
     | Some r' \<Rightarrow> table_ok r' \<and> slots r' = slots r \<and> heap r' = heap r \<and> length (table r') = length (table r) \<and>
         (\<forall>t. Some t \<in> set (table r') \<longleftrightarrow> t = s \<or> Some t \<in> set (table r))"
  using before left
proof (induction left arbitrary: k)
  case 0
  let ?n = "length (table r)"
  have k: "k = ?n" using "0.prems"(2) by simp
  have "None \<notin> set (table r)"
  proof
    assume "None \<in> set (table r)"
    then obtain j where j: "j < ?n" "table r ! j = None" by (auto simp: in_set_conv_nth)
    have st: "start < ?n" using start router_hash_less[of ?n] ok by (simp add: table_ok_def home_def)
    let ?e = "if start \<le> j then j - start else j + ?n - start"
    have "?e < ?n" and "(start + ?e) mod ?n = j" using st j(1) by (auto simp: not_le)
    then show False using "0.prems"(1) k j(2) unfolding cell_def by metis
  qed
  then show ?case by simp
next
  case (Suc left)
  let ?idx = "(start + k) mod length (table r)"
  have k: "k < length (table r)" using Suc.prems(2) by simp
  then have idx: "?idx < length (table r)" by (intro mod_less_divisor) linarith
  show ?case
  proof (cases "cell r start k")
    case None
    let ?r' = "r\<lparr>table := (table r)[?idx := Some s]\<rparr>"
    have "table_ok ?r'"
      by (rule table_ok_enter[OF ok k Suc.prems(1), where s = s]) (use s start fresh in \<open>simp_all add: home_def\<close>)
    moreover have "Some t \<in> set ((table r)[?idx := Some s]) \<longleftrightarrow> t = s \<or> Some t \<in> set (table r)" for t
      using idx None unfolding cell_def by (rule update_empty_cell)
    ultimately show ?thesis using None by (simp add: cell_def Let_def)
  next
    case (Some t)
    then have "\<forall>e<Suc k. cell r start e \<noteq> None" using Suc.prems(1) by (auto simp: less_Suc_eq)
    from Suc.IH[OF this] Suc.prems(2) Some show ?thesis by (simp add: cell_def Let_def)
  qed
qed

lemma enter_shard_spec:
  assumes "table_ok r" and "s < length (heap r)"
    and "\<And>t. Some t \<in> set (table r) \<Longrightarrow> \<not> same_address (heap r ! s) (heap r ! t)"
  shows "case enter_shard s r of
       None \<Rightarrow> None \<notin> set (table r)
     | Some r' \<Rightarrow> table_ok r' \<and> slots r' = slots r \<and> heap r' = heap r \<and> length (table r') = length (table r) \<and>
         (\<forall>t. Some t \<in> set (table r') \<longleftrightarrow> t = s \<or> Some t \<in> set (table r))"
  unfolding enter_shard_def by (rule enter_loop_spec[OF assms(1,2) _ assms(3)]) (simp_all add: home_def)

end
