(* ===== verification/Command_Awaiters.thy ===== *)
theory Command_Awaiters
  imports Mpsc_Ring Redis_Value
begin

text \<open>
  The awaiters of include/RedisCommander.hpp: \<open>CommandAwaiter\<close> for one command,
  \<open>RedisCommandOperationAwaiter\<close> for a chain on one pipe and \<open>ClusterCommandOperationAwaiter\<close>
  for a chain over several pipes. An awaiter either leaves its coroutine suspended, with its
  requests in the rings, or lets it go on at once with error values; the lemmas show that
  there is no third case and that a suspended coroutine is resumed once, with every reply in
  its place, whatever the order in which the replies arrive.
\<close>

section \<open>A pipe as the awaiters see it\<close>

text \<open>The ring, and what was added to the counter of the eventfd.\<close>

record 'h pipe_end =
  ring_of :: "'h ring"
  signals :: nat

definition RING_OVERFLOW :: string where "RING_OVERFLOW = ''RING OVERFLOW''"
definition CONN_ERR :: string where "CONN_ERR = ''CONN ERR''"
definition OP_CANCELLED :: string where "OP_CANCELLED = ''OP CANCELLED''"
definition CROSS_SLOT :: string where "CROSS_SLOT = ''CROSS SLOT''"

definition push_error :: "int \<Rightarrow> redis_value" where
  "push_error i = Simple_error (if i = -1 then RING_OVERFLOW else CONN_ERR)"

text \<open>
  The eventfd is written through a submission entry of the ring of io\_uring, or directly when
  there is none left; either way its counter grows by one.
\<close>

definition notify :: "'h pipe_end \<Rightarrow> 'h pipe_end" where
  "notify p = p\<lparr>signals := signals p + 1\<rparr>"

section \<open>One command\<close>

text \<open>
  \<open>await_suspend\<close>: the answer of the promise's \<open>xcoro_hook\<close>, if it has one, the handle and
  the payload. The results are whether the coroutine stays suspended, and the value put into
  the result slot, \<open>None\<close> when the slot is not touched.
\<close>

definition command_suspend :: "bool option \<Rightarrow> 'h \<Rightarrow> string \<Rightarrow> 'h pipe_end \<Rightarrow>
    bool \<times> redis_value option \<times> 'h pipe_end" where
  "command_suspend hook h data p =
     (if hook = Some False then (False, Some (Simple_error OP_CANCELLED), p)
      else
        let (i, r) = ring_push (h, data) (ring_of p); p' = p\<lparr>ring_of := r\<rparr>
        in if 0 \<le> i then (True, None, notify p') else (False, Some (push_error i), p'))"

section \<open>A chain on one pipe\<close>

text \<open>The result tuple, the number of workers that are done, and how often the awaiting
  coroutine was resumed.\<close>

record operation =
  results :: "redis_value list"
  finished :: nat
  resumed :: nat

definition new_operation :: "nat \<Rightarrow> operation" where
  "new_operation num_ops = \<lparr>results = replicate num_ops Nullptr, finished = 0, resumed = 0\<rparr>"

text \<open>A worker coroutine, resumed when its reply is in the result slot.\<close>

definition worker_resumed :: "nat \<Rightarrow> redis_value \<Rightarrow> operation \<Rightarrow> operation" where
  "worker_resumed i v a =
     (let a' = a\<lparr>results := (results a)[i := v], finished := finished a + 1\<rparr>
      in if finished a' = length (results a') then a'\<lparr>resumed := resumed a' + 1\<rparr> else a')"

definition set_all_cancelled :: "string \<Rightarrow> operation \<Rightarrow> operation" where
  "set_all_cancelled e a = a\<lparr>results := map (\<lambda>_. Simple_error e) (results a)\<rparr>"

text \<open>
  \<open>await_suspend\<close> with the handles of the workers and their payloads; the \<open>destroy\<close> of the
  workers on the error path has no counterpart, their handles are in no ring.
\<close>

definition operation_suspend :: "bool option \<Rightarrow> ('h \<times> string) list \<Rightarrow> operation \<Rightarrow> 'h pipe_end \<Rightarrow>
    bool \<times> operation \<times> 'h pipe_end" where
  "operation_suspend hook ops a p =
     (if hook = Some False then (False, set_all_cancelled OP_CANCELLED a, p)
      else
        let (i, r) = ring_push_n ops (ring_of p); p' = p\<lparr>ring_of := r\<rparr>
        in if 0 \<le> i then (True, a, notify p')
           else (False, set_all_cancelled (if i = -1 then RING_OVERFLOW else CONN_ERR) a, p'))"

section \<open>A chain over several pipes\<close>

text \<open>\<open>await_ready\<close> of the variant that wants all commands in one slot.\<close>

definition cross_slot :: "bool \<Rightarrow> u16 list \<Rightarrow> bool" where
  "cross_slot multi slots \<longleftrightarrow> multi \<and> (\<exists>s\<in>set (tl slots). s \<noteq> hd slots)"

definition cluster_ready :: "bool \<Rightarrow> u16 list \<Rightarrow> operation \<Rightarrow> bool \<times> operation" where
  "cluster_ready multi slots a =
     (if cross_slot multi slots then (True, set_all_cancelled CROSS_SLOT a) else (False, a))"

text \<open>
  The pipes by index, the array \<open>pipes_set\<close> of the pipes to be signalled, and the operation.
  \<open>claim_set\<close> is the search for \<open>pipe\<close> in that array: it stops at the pipe or fills the first
  empty place, whose index it returns.
\<close>

record 'h push_state =
  pipes :: "'h pipe_end list"
  pipes_set :: "nat option list"
  op :: operation

fun claim_set :: "nat \<Rightarrow> nat option list \<Rightarrow> nat option list \<times> nat option" where
  "claim_set pipe [] = ([], None)"
| "claim_set pipe (None # s) = (Some pipe # s, Some 0)"
| "claim_set pipe (Some q # s) =
     (if q = pipe then (Some q # s, None)
      else let (s', i) = claim_set pipe s in (Some q # s', map_option Suc i))"

text \<open>
  \<open>get_pipe\<close> is the cluster's choice of a pipe for a slot; calling a member of the null
  pipe it may return is undefined.
\<close>

definition push_pipe :: "(u16 \<Rightarrow> nat option) \<Rightarrow> nat \<Rightarrow> u16 \<Rightarrow> 'h \<times> string \<Rightarrow> 'h push_state \<Rightarrow> 'h push_state outcome" where
  "push_pipe get_pipe idx slot e st =
     (case get_pipe slot of
        None \<Rightarrow> UB
      | Some pipe \<Rightarrow>
          if length (pipes st) \<le> pipe then UB
          else
            let (s, w) = claim_set pipe (pipes_set st);
                (i, r) = ring_push e (ring_of (pipes st ! pipe));
                ps = (pipes st)[pipe := (pipes st ! pipe)\<lparr>ring_of := r\<rparr>]
            in if i < 0
               then Ret (st\<lparr>pipes := ps,
                 pipes_set := (case w of None \<Rightarrow> s | Some j \<Rightarrow> s[j := None]),
                 op := (op st)\<lparr>results := (results (op st))[idx := push_error i], finished := finished (op st) + 1\<rparr>\<rparr>)
               else Ret (st\<lparr>pipes := ps, pipes_set := s\<rparr>))"

fun push_all_pipe :: "(u16 \<Rightarrow> nat option) \<Rightarrow> nat \<Rightarrow> (u16 \<times> 'h \<times> string) list \<Rightarrow> 'h push_state \<Rightarrow> 'h push_state outcome" where
  "push_all_pipe get_pipe idx [] st = Ret st"
| "push_all_pipe get_pipe idx ((slot, e) # es) st =
     bind_outcome (push_pipe get_pipe idx slot e st) (push_all_pipe get_pipe (Suc idx) es)"

text \<open>The loop that signals the pipes of the set up to the first empty place.\<close>

fun notify_set :: "nat option list \<Rightarrow> 'h pipe_end list \<Rightarrow> 'h pipe_end list" where
  "notify_set (Some pipe # s) ps = notify_set s (ps[pipe := notify (ps ! pipe)])"
| "notify_set _ ps = ps"

definition cluster_suspend :: "bool option \<Rightarrow> bool \<Rightarrow> (u16 \<Rightarrow> nat option) \<Rightarrow> (u16 \<times> 'h \<times> string) list \<Rightarrow>
    operation \<Rightarrow> 'h pipe_end list \<Rightarrow> (bool \<times> operation \<times> 'h pipe_end list) outcome" where
  "cluster_suspend hook multi get_pipe ops a ps =
     (if hook = Some False then Ret (False, set_all_cancelled OP_CANCELLED a, ps)
      else if multi then
        (case get_pipe (fst (hd ops)) of
           None \<Rightarrow> UB
         | Some pipe \<Rightarrow>
             if length ps \<le> pipe then UB
             else
               let (i, r) = ring_push_n (map snd ops) (ring_of (ps ! pipe)); p' = (ps ! pipe)\<lparr>ring_of := r\<rparr>
               in if 0 \<le> i then Ret (True, a, ps[pipe := notify p'])
                  else Ret (False, set_all_cancelled (if i = -1 then RING_OVERFLOW else CONN_ERR) a, ps[pipe := p']))
      else
        bind_outcome (push_all_pipe get_pipe 0 ops \<lparr>pipes = ps, pipes_set = replicate (length ops) None, op = a\<rparr>)
          (\<lambda>st. Ret (finished (op st) \<noteq> length ops, op st, notify_set (pipes_set st) (pipes st))))"

section \<open>Replies to a chain\<close>

text \<open>The workers are resumed in any order, each with its reply.\<close>

definition deliver :: "(nat \<times> redis_value) list \<Rightarrow> operation \<Rightarrow> operation" where
  "deliver ds a = fold (\<lambda>(i, v). worker_resumed i v) ds a"

lemma deliver_simps [simp]:
  "deliver [] a = a" "deliver ((i, v) # ds) a = deliver ds (worker_resumed i v a)"
  by (simp_all add: deliver_def)

lemma worker_resumed_simps [simp]:
  "results (worker_resumed i v a) = (results a)[i := v]" "finished (worker_resumed i v a) = finished a + 1"
  "resumed (worker_resumed i v a) = resumed a + (if finished a + 1 = length (results a) then 1 else 0)"
  by (simp_all add: worker_resumed_def Let_def)

lemma deliver_counts_all:
  "finished a + length ds \<le> length (results a) \<Longrightarrow>
   length (results (deliver ds a)) = length (results a) \<and> finished (deliver ds a) = finished a + length ds \<and>
   resumed (deliver ds a) =
     resumed a + (if ds \<noteq> [] \<and> finished a + length ds = length (results a) then 1 else 0)"
proof (induction ds arbitrary: a)
  case (Cons d ds)
  obtain j v where d: "d = (j, v)" by (cases d)
  have "finished (worker_resumed j v a) + length ds \<le> length (results (worker_resumed j v a))"
    using Cons.prems by simp
  from Cons.IH[OF this] Cons.prems d show ?case by (cases ds) auto
qed simp

lemma deliver_counts:
  assumes "finished a + length ds \<le> length (results a)"
  shows "length (results (deliver ds a)) = length (results a)" and "finished (deliver ds a) = finished a + length ds"
    and "resumed (deliver ds a) =
      resumed a + (if ds \<noteq> [] \<and> finished a + length ds = length (results a) then 1 else 0)"
  using deliver_counts_all[OF assms] by auto

lemma deliver_results:
  assumes "distinct (map fst ds)" and "i < length (results a)"
  shows "results (deliver ds a) ! i = (case map_of ds i of None \<Rightarrow> results a ! i | Some v \<Rightarrow> v)"
  using assms
proof (induction ds arbitrary: a)
  case (Cons d ds)
  obtain j v where d: "d = (j, v)" by (cases d)
  have "map_of ds j = None" using Cons.prems(1) d by (simp add: map_of_eq_None_iff)
  with Cons d show ?case by (cases "i = j") (auto split: option.split)
qed simp

lemma distinct_indices_length:
  assumes "distinct (map fst ds)" and "set (map fst ds) = {..<n :: nat}"
  shows "length ds = n"
  using distinct_card[OF assms(1)] assms(2) by simp

text \<open>When the replies to all commands of a chain have arrived, in whatever order, every
  place of the result tuple holds the reply to its own command, and the awaiting coroutine has
  been resumed once, by the last of them and by none before.\<close>
theorem operation_completes:
  assumes "distinct (map fst ds)" and "set (map fst ds) = {..<n}" and "0 < n"
  shows "results (deliver ds (new_operation n)) = map (\<lambda>i. the (map_of ds i)) [0..<n] \<and>
    resumed (deliver ds (new_operation n)) = 1 \<and>
    (\<forall>m<n. resumed (deliver (take m ds) (new_operation n)) = 0)"
proof (intro conjI allI impI)
  have len: "length ds = n" using distinct_indices_length[OF assms(1,2)] .
  let ?a = "new_operation n"
  have a: "finished ?a = 0" "resumed ?a = 0" "length (results ?a) = n" by (simp_all add: new_operation_def)
  note all = deliver_counts[of ?a ds]
  show "results (deliver ds ?a) = map (\<lambda>i. the (map_of ds i)) [0..<n]"
  proof (rule nth_equalityI)
    show "length (results (deliver ds ?a)) = length (map (\<lambda>i. the (map_of ds i)) [0..<n])"
      using all(1) a len by simp
    fix i assume "i < length (results (deliver ds ?a))"
    then have i: "i < n" using all(1) a len by simp
    then have "map_of ds i \<noteq> None" using assms(2) by (simp add: map_of_eq_None_iff)
    then show "results (deliver ds ?a) ! i = map (\<lambda>i. the (map_of ds i)) [0..<n] ! i"
      using deliver_results[OF assms(1), of i ?a] i a by auto
  qed
  show "resumed (deliver ds ?a) = 1" using all(3) a len assms(3) by auto
  fix m assume "m < n"
  then show "resumed (deliver (take m ds) ?a) = 0"
    using deliver_counts(3)[of ?a "take m ds"] a len by simp
qed

theorem operation_completes_witness:
  "results (deliver [(1, Integer 7), (0, Bool True)] (new_operation 2)) = [Bool True, Integer 7]"
proof -
  have "set (map fst [(1 :: nat, Integer 7), (0, Bool True)]) = {..<2}" by auto
  then show ?thesis
    using operation_completes[of "[(1, Integer 7), (0, Bool True)]" 2] by (simp add: upt_rec)
qed

section \<open>One pipe\<close>

text \<open>A command is either accepted, and then its coroutine stays suspended, its request is the
  last of the ring and the pipe is signalled once, or its coroutine goes on at once with the
  error that says why, and the pipe is untouched.\<close>
theorem command_suspend_spec:
  assumes "ring_wf (ring_of p)"
  shows "case command_suspend hook h data p of (susp, v, p') \<Rightarrow>
    (susp \<longleftrightarrow> hook \<noteq> Some False \<and> open_ring (ring_of p) \<and> length (entries (ring_of p)) < xcapacity (ring_of p)) \<and>
    (if susp then v = None \<and> ring_wf (ring_of p') \<and> signals p' = signals p + 1 \<and>
         entries (ring_of p') = entries (ring_of p) @ [(h, data)]
     else p' = p \<and> v = Some (Simple_error (if hook = Some False then OP_CANCELLED
         else if open_ring (ring_of p) then RING_OVERFLOW else CONN_ERR)))"
proof (cases "open_ring (ring_of p) \<and> length (entries (ring_of p)) < xcapacity (ring_of p)")
  case True
  obtain i r where push: "ring_push (h, data) (ring_of p) = (i, r)" by fastforce
  with True have "0 \<le> i" using ring_push_spec_cases[OF assms, of "(h, data)"] by simp
  then have "ring_wf r" "entries r = entries (ring_of p) @ [(h, data)]"
    using ring_push_accepted[OF assms push] entries_split[OF assms] entries_split[of r] by auto
  then show ?thesis using True push \<open>0 \<le> i\<close> by (simp add: command_suspend_def notify_def)
next
  case False
  then show ?thesis
    using ring_push_cases[OF assms, of "(h, data)"] by (auto simp: command_suspend_def push_error_def)
qed

text \<open>A chain on one pipe that fits is accepted as a whole: its requests follow each other at
  the end of the ring and the pipe is signalled once. A chain that is refused leaves the pipe
  as it was, and every place of its result tuple holds the same error.\<close>
theorem operation_suspend_spec:
  assumes "ring_wf (ring_of p)" and "ops \<noteq> []"
    and "length (entries (ring_of p)) + length ops \<le> xcapacity (ring_of p)"
    and "unat (tail (ring_of p)) + length ops \<le> 2 ^ 63"
  shows "case operation_suspend hook ops a p of (susp, a', p') \<Rightarrow>
    (susp \<longleftrightarrow> hook \<noteq> Some False \<and> open_ring (ring_of p)) \<and>
    (if susp then a' = a \<and> ring_wf (ring_of p') \<and> signals p' = signals p + 1 \<and>
         entries (ring_of p') = entries (ring_of p) @ ops
     else p' = p \<and> results a' = replicate (length (results a))
         (Simple_error (if hook = Some False then OP_CANCELLED else CONN_ERR)))"
proof (cases "open_ring (ring_of p)")
  case True
  have "0 < length ops" using assms(2) by simp
  then have room: "length (entries (ring_of p)) < xcapacity (ring_of p)" using assms(3) by linarith
  obtain i r where push: "ring_push_n ops (ring_of p) = (i, r)" by fastforce
  then have "0 \<le> i" "ring_wf r" "entries r = entries (ring_of p) @ ops"
    using push_n_entries[OF assms(1) True room assms(3,4)] entries_split[OF assms(1)] entries_split[of r] by auto
  then show ?thesis
    using True push by (simp add: operation_suspend_def notify_def set_all_cancelled_def map_replicate_const)
next
  case False
  then have "tail (ring_of p) AND STOP_BIT \<noteq> 0"
    using stop_clear_iff[of "tail (ring_of p)"] assms(1) by (simp add: open_ring_def ring_wf_def)
  then show ?thesis
    using False by (simp add: operation_suspend_def ring_push_n_def set_all_cancelled_def map_replicate_const)
qed

definition demo_pipe :: "nat pipe_end" where
  "demo_pipe = \<lparr>ring_of = demo_ring1, signals = 0\<rparr>"

theorem command_suspend_spec_witness:
  "fst (command_suspend None 11 ''b'' demo_pipe) \<and>
   entries (ring_of (snd (snd (command_suspend None 11 ''b'' demo_pipe)))) = [(10, ''a''), (11, ''b'')]"
proof -
  have "ring_wf (ring_of demo_pipe)" by (simp add: demo_pipe_def demo_wf)
  from command_suspend_spec[OF this, of None 11 "''b''"] show ?thesis
    by (auto simp: demo_pipe_def demo_wf demo_entries demo_fields split: prod.splits if_splits)
qed

theorem operation_suspend_spec_witness:
  "fst (operation_suspend None [(11, ''b'')] (new_operation 1) demo_pipe) \<and>
   entries (ring_of (snd (snd (operation_suspend None [(11, ''b'')] (new_operation 1) demo_pipe)))) =
     [(10, ''a''), (11, ''b'')]"
proof -
  have "ring_wf (ring_of demo_pipe)" and "open_ring (ring_of demo_pipe)"
    and "length (entries (ring_of demo_pipe)) + length [(11 :: nat, ''b'')] \<le> xcapacity (ring_of demo_pipe)"
    and "unat (tail (ring_of demo_pipe)) + length [(11 :: nat, ''b'')] \<le> 2 ^ 63"
    by (simp_all add: demo_pipe_def demo_wf demo_fields)
  with operation_suspend_spec[of demo_pipe "[(11, ''b'')]" None "new_operation 1"] show ?thesis
    by (auto simp: demo_pipe_def demo_entries split: prod.splits if_splits)
qed

section \<open>Several pipes\<close>

lemma claim_set_queue:
  "claim_set p (map Some qs @ replicate m None) =
    (if p \<in> set qs then (map Some qs @ replicate m None, None)
     else if m = 0 then (map Some qs, None)
     else (map Some (qs @ [p]) @ replicate (m - 1) None, Some (length qs)))"
proof (induction qs)
  case Nil
  then show ?case by (cases m) simp_all
qed auto

lemma notify_set_queue:
  assumes "distinct qs" and "\<forall>q\<in>set qs. q < length ps"
  shows "length (notify_set (map Some qs @ replicate m None) ps) = length ps \<and>
    (\<forall>p<length ps. notify_set (map Some qs @ replicate m None) ps ! p =
       (if p \<in> set qs then notify (ps ! p) else ps ! p))"
  using assms
proof (induction qs arbitrary: ps)
  case Nil
  then show ?case by (cases m) simp_all
next
  case (Cons q qs)
  then show ?case using Cons.IH[of "ps[q := notify (ps ! q)]"] by (auto simp: nth_list_update)
qed

text \<open>The requests of \<open>ops\<close> that went to pipe \<open>p\<close>, when \<open>acc\<close> tells which were accepted.\<close>

definition accepted_on :: "(u16 \<Rightarrow> nat option) \<Rightarrow> nat \<Rightarrow> (u16 \<times> 'h \<times> string) list \<Rightarrow> bool list \<Rightarrow> ('h \<times> string) list" where
  "accepted_on get_pipe p ops acc =
     map (\<lambda>((slot, e), ok). e) (filter (\<lambda>((slot, e), ok). ok \<and> get_pipe slot = Some p) (zip ops acc))"

lemma accepted_on_snoc [simp]:
  "length acc = length ops \<Longrightarrow> accepted_on get_pipe p (ops @ [(slot, e)]) (acc @ [ok]) =
     accepted_on get_pipe p ops acc @ (if ok \<and> get_pipe slot = Some p then [e] else [])"
  by (simp add: accepted_on_def)

lemma accepted_on_Nil [simp]: "accepted_on get_pipe p [] acc = []"
  by (simp add: accepted_on_def)

definition refused :: "redis_value \<Rightarrow> bool" where
  "refused v \<longleftrightarrow> v = Simple_error RING_OVERFLOW \<or> v = Simple_error CONN_ERR"

lemma refused_push_error [simp]: "refused (push_error i)"
  by (simp add: refused_def push_error_def)

text \<open>
  What holds after the commands \<open>ops\<close> were tried, with \<open>acc\<close> for those accepted: the entries of
  the rings, the results and the count of the refused ones, and the set of pipes, which holds
  the pipes that accepted something, each once, ahead of the empty places.
\<close>

definition placed :: "(u16 \<Rightarrow> nat option) \<Rightarrow> operation \<Rightarrow> 'h pipe_end list \<Rightarrow> (u16 \<times> 'h \<times> string) list \<Rightarrow> bool list \<Rightarrow>
    'h push_state \<Rightarrow> bool" where
  "placed get_pipe a ps ops acc st \<longleftrightarrow>
     length acc = length ops \<and> length (pipes st) = length ps \<and> length (results (op st)) = length (results a) \<and>
     (\<forall>p<length ps. ring_wf (ring_of (pipes st ! p)) \<and> signals (pipes st ! p) = signals (ps ! p) \<and>
        entries (ring_of (pipes st ! p)) = entries (ring_of (ps ! p)) @ accepted_on get_pipe p ops acc) \<and>
     (\<forall>i<length (results a). if i < length ops \<and> \<not> acc ! i then refused (results (op st) ! i)
        else results (op st) ! i = results a ! i) \<and>
     finished (op st) = finished a + length (filter Not acc) \<and> resumed (op st) = resumed a \<and>
     (\<exists>qs. distinct qs \<and> length qs \<le> length ops \<and> (\<forall>p. p \<in> set qs \<longleftrightarrow> accepted_on get_pipe p ops acc \<noteq> []) \<and>
        pipes_set st = map Some qs @ replicate (length (results a) - length qs) None)"

lemma placed_start:
  assumes "\<forall>p<length ps. ring_wf (ring_of (ps ! p))"
  shows "placed get_pipe a ps [] [] \<lparr>pipes = ps, pipes_set = replicate (length (results a)) None, op = a\<rparr>"
  using assms by (simp add: placed_def)

lemma placed_step:
  assumes pl: "placed get_pipe a ps ops acc st" and more: "length ops < length (results a)"
    and gp: "get_pipe slot = Some p" and p: "p < length ps"
  shows "\<exists>st' ok. push_pipe get_pipe (length ops) slot e st = Ret st' \<and>
    placed get_pipe a ps (ops @ [(slot, e)]) (acc @ [ok]) st'"
proof -
  let ?n = "length (results a)" and ?r = "ring_of (pipes st ! p)"
  from pl obtain qs where len: "length acc = length ops" "length (pipes st) = length ps"
      "length (results (op st)) = ?n"
    and rings: "\<And>q. q < length ps \<Longrightarrow> ring_wf (ring_of (pipes st ! q)) \<and> signals (pipes st ! q) = signals (ps ! q) \<and>
        entries (ring_of (pipes st ! q)) = entries (ring_of (ps ! q)) @ accepted_on get_pipe q ops acc"
    and res: "\<And>i. i < ?n \<Longrightarrow> if i < length ops \<and> \<not> acc ! i then refused (results (op st) ! i)
        else results (op st) ! i = results a ! i"
    and fin: "finished (op st) = finished a + length (filter Not acc)" "resumed (op st) = resumed a"
    and qs: "distinct qs" "length qs \<le> length ops" "\<And>q. q \<in> set qs \<longleftrightarrow> accepted_on get_pipe q ops acc \<noteq> []"
      "pipes_set st = map Some qs @ replicate (?n - length qs) None"
    unfolding placed_def by blast
  have room: "?n - length qs \<noteq> 0" using more qs(2) by linarith
  obtain i r where push: "ring_push e ?r = (i, r)" by fastforce
  have wf: "ring_wf ?r" using rings[OF p] by simp
  let ?ps = "(pipes st)[p := (pipes st ! p)\<lparr>ring_of := r\<rparr>]"
  obtain s w where cl: "claim_set p (pipes_set st) = (s, w)" by fastforce
  show ?thesis
  proof (cases "i < 0")
    case True
    have "r = ?r" using ring_push_refused[OF wf push True] .
    then have same: "?ps = pipes st" using p len by simp
    have "(case w of None \<Rightarrow> s | Some j \<Rightarrow> s[j := None]) = pipes_set st"
      using cl room unfolding qs(4) claim_set_queue
      by (cases "?n - length qs") (auto simp: list_update_append split: if_splits)
    then have "push_pipe get_pipe (length ops) slot e st = Ret (st\<lparr>op := (op st)\<lparr>results :=
        (results (op st))[length ops := push_error i], finished := finished (op st) + 1\<rparr>\<rparr>)"
      using gp p len True by (simp add: push_pipe_def cl push same)
    moreover have "placed get_pipe a ps (ops @ [(slot, e)]) (acc @ [False]) (st\<lparr>op := (op st)\<lparr>results :=
        (results (op st))[length ops := push_error i], finished := finished (op st) + 1\<rparr>\<rparr>)"
      using len rings res fin qs more unfolding placed_def
      by (auto simp: nth_append nth_list_update less_Suc_eq intro!: exI[of _ qs])
    ultimately show ?thesis by blast
  next
    case False
    then have "0 \<le> i" by simp
    note acc = ring_push_accepted[OF wf push this]
    then have ents: "entries r = entries ?r @ [e]" using entries_split[OF wf] entries_split[of r] by simp
    let ?qs = "if p \<in> set qs then qs else qs @ [p]"
    have "s = map Some ?qs @ replicate (?n - length ?qs) None"
      using cl room unfolding qs(4) claim_set_queue by (auto split: if_splits)
    moreover have "push_pipe get_pipe (length ops) slot e st = Ret (st\<lparr>pipes := ?ps, pipes_set := s\<rparr>)"
      using gp p len False by (simp add: push_pipe_def cl push)
    moreover have "placed get_pipe a ps (ops @ [(slot, e)]) (acc @ [True]) (st\<lparr>pipes := ?ps, pipes_set := s\<rparr>)"
      using len rings res fin qs more acc ents gp p \<open>s = _\<close> unfolding placed_def
      by (auto simp: nth_append nth_list_update less_Suc_eq intro!: exI[of _ ?qs])
    ultimately show ?thesis by blast
  qed
qed

lemma placed_all:
  assumes "placed get_pipe a ps ops acc st" and "length ops + length es \<le> length (results a)"
    and "\<forall>(slot, e)\<in>set es. \<exists>p<length ps. get_pipe slot = Some p"
  shows "\<exists>st' acc'. push_all_pipe get_pipe (length ops) es st = Ret st' \<and>
    placed get_pipe a ps (ops @ es) acc' st'"
  using assms
proof (induction es arbitrary: ops acc st)
  case (Cons x es)
  obtain slot e where x: "x = (slot, e)" by (cases x)
  from Cons.prems(3) x obtain p where "get_pipe slot = Some p" "p < length ps" by auto
  from placed_step[OF Cons.prems(1) _ this, of e] Cons.prems(2) obtain st' ok where
    step: "push_pipe get_pipe (length ops) slot e st = Ret st'"
    "placed get_pipe a ps (ops @ [x]) (acc @ [ok]) st'" using x by auto
  from Cons.IH[OF step(2)] Cons.prems(2,3) step(1) x show ?case by auto
qed auto

definition routed_ops :: "(u16 \<Rightarrow> nat option) \<Rightarrow> (u16 \<times> 'h \<times> string) list \<Rightarrow> 'h pipe_end list \<Rightarrow> bool" where
  "routed_ops get_pipe ops ps \<longleftrightarrow> (\<forall>(slot, e)\<in>set ops. \<exists>p<length ps. get_pipe slot = Some p) \<and>
     (\<forall>p<length ps. ring_wf (ring_of (ps ! p)))"

lemma count_not: "length (filter Not acc) \<noteq> length acc \<longleftrightarrow> True \<in> set acc"
  by (induction acc) (auto simp: le_imp_less_Suc dest: sym, metis Suc_n_not_le_n length_filter_le)

text \<open>A chain over the pipes of a cluster is split by command: an accepted one is appended to the
  ring of the pipe its slot leads to, in the order of the chain, a refused one has its error in
  its place and counts as done. Every pipe that accepted something is signalled once, no other
  is, and the coroutine stays suspended unless every command was refused.\<close>
theorem cluster_suspend_spec:
  assumes "hook \<noteq> Some False" and "routed_ops get_pipe ops ps"
    and "length (results a) = length ops" and "finished a = 0"
  shows "\<exists>acc a' ps'. cluster_suspend hook False get_pipe ops a ps = Ret (True \<in> set acc, a', ps') \<and>
    length acc = length ops \<and> length ps' = length ps \<and> finished a' = length (filter Not acc) \<and> resumed a' = resumed a \<and>
    length (results a') = length ops \<and>
    (\<forall>i<length ops. if acc ! i then results a' ! i = results a ! i else refused (results a' ! i)) \<and>
    (\<forall>p<length ps. ring_wf (ring_of (ps' ! p)) \<and>
       entries (ring_of (ps' ! p)) = entries (ring_of (ps ! p)) @ accepted_on get_pipe p ops acc \<and>
       signals (ps' ! p) = signals (ps ! p) + (if accepted_on get_pipe p ops acc \<noteq> [] then 1 else 0))"
proof -
  let ?st0 = "\<lparr>pipes = ps, pipes_set = replicate (length (results a)) None, op = a\<rparr>"
  have "placed get_pipe a ps [] [] ?st0" using assms(2) by (intro placed_start) (simp add: routed_ops_def)
  from placed_all[OF this, of ops] assms(2,3) obtain st acc where
    run: "push_all_pipe get_pipe 0 ops ?st0 = Ret st" and pl: "placed get_pipe a ps ops acc st"
    by (auto simp: routed_ops_def)
  from pl obtain qs where len: "length acc = length ops" "length (pipes st) = length ps" "length (results (op st)) = length ops"
    and rings: "\<And>p. p < length ps \<Longrightarrow> ring_wf (ring_of (pipes st ! p)) \<and> signals (pipes st ! p) = signals (ps ! p) \<and>
        entries (ring_of (pipes st ! p)) = entries (ring_of (ps ! p)) @ accepted_on get_pipe p ops acc"
    and res: "\<And>i. i < length ops \<Longrightarrow> if \<not> acc ! i then refused (results (op st) ! i)
        else results (op st) ! i = results a ! i"
    and fin: "finished (op st) = length (filter Not acc)" "resumed (op st) = resumed a"
    and qs: "distinct qs" "\<And>q. q \<in> set qs \<longleftrightarrow> accepted_on get_pipe q ops acc \<noteq> []"
      "pipes_set st = map Some qs @ replicate (length ops - length qs) None"
    using assms(3,4) unfolding placed_def by auto
  have "q < length ps" if "q \<in> set qs" for q
    using that assms(2) unfolding qs(2) accepted_on_def routed_ops_def
    by (force simp: filter_empty_conv dest: set_zip_leftD)
  then have inr: "\<forall>q\<in>set qs. q < length (pipes st)" using len(2) by simp
  let ?ps' = "notify_set (pipes_set st) (pipes st)"
  have sig: "length ?ps' = length ps"
    "\<And>p. p < length ps \<Longrightarrow> ?ps' ! p = (if p \<in> set qs then notify (pipes st ! p) else pipes st ! p)"
    using notify_set_queue[OF qs(1) inr, of "length ops - length qs"] len(2) unfolding qs(3) by auto
  have "cluster_suspend hook False get_pipe ops a ps = Ret (True \<in> set acc, op st, ?ps')"
    using assms(1,3) run fin(1) len(1) count_not[of acc] by (simp add: cluster_suspend_def)
  then show ?thesis
    using len fin res rings sig qs(2)
    by (intro exI[of _ acc] exI[of _ "op st"] exI[of _ ?ps']) (auto simp: notify_def)
qed

text \<open>C22. A coroutine that awaits a chain over several pipes and stays suspended is resumed once, by
  the last of the replies to the accepted commands, in whatever order the pipes deliver them;
  then each place holds its reply, or its error if the command was refused.\<close>
theorem cluster_operation_completes:
  assumes "hook \<noteq> Some False" and "routed_ops get_pipe ops ps"
    and "cluster_suspend hook False get_pipe ops (new_operation (length ops)) ps = Ret (True, a', ps')"
  shows "\<exists>acc. length acc = length ops \<and>
    (\<forall>p<length ps. entries (ring_of (ps' ! p)) = entries (ring_of (ps ! p)) @ accepted_on get_pipe p ops acc) \<and>
    (\<forall>ds. distinct (map fst ds) \<longrightarrow> set (map fst ds) = {i. i < length ops \<and> acc ! i} \<longrightarrow>
       resumed (deliver ds a') = 1 \<and> (\<forall>m<length ds. resumed (deliver (take m ds) a') = 0) \<and>
       (\<forall>i<length ops. if acc ! i then results (deliver ds a') ! i = the (map_of ds i)
          else refused (results (deliver ds a') ! i)))"
proof -
  have new: "length (results (new_operation (length ops))) = length ops" "finished (new_operation (length ops)) = 0"
    "resumed (new_operation (length ops)) = 0" by (simp_all add: new_operation_def)
  from cluster_suspend_spec[OF assms(1,2) new(1,2)] assms(3) new(3) obtain acc where
    acc: "True \<in> set acc" "length acc = length ops" "finished a' = length (filter Not acc)" "resumed a' = 0"
      "length (results a') = length ops"
    and res: "\<And>i. i < length ops \<Longrightarrow> \<not> acc ! i \<Longrightarrow> refused (results a' ! i)"
    and ents: "\<forall>p<length ps. entries (ring_of (ps' ! p)) = entries (ring_of (ps ! p)) @ accepted_on get_pipe p ops acc"
    by auto
  have done_all: "resumed (deliver ds a') = 1 \<and> (\<forall>m<length ds. resumed (deliver (take m ds) a') = 0) \<and>
      (\<forall>i<length ops. if acc ! i then results (deliver ds a') ! i = the (map_of ds i)
         else refused (results (deliver ds a') ! i))"
    if d: "distinct (map fst ds)" and set: "set (map fst ds) = {i. i < length ops \<and> acc ! i}" for ds
  proof -
    have "length ds = card {i. i < length acc \<and> acc ! i}"
      using distinct_card[OF d] unfolding set by (simp add: acc(2))
    also have "\<dots> = length (filter (\<lambda>x. x) acc)" by (simp add: length_filter_conv_card)
    finally have len: "length (filter Not acc) + length ds = length ops"
      using sum_length_filter_compl[of "\<lambda>x. x" acc] acc(2) by (simp add: add.commute)
    have "ds \<noteq> []" using set acc(1,2) by (auto simp: in_set_conv_nth)
    then have "resumed (deliver ds a') = 1" using deliver_counts(3)[of a' ds] acc len by simp
    moreover have "resumed (deliver (take m ds) a') = 0" if "m < length ds" for m
      using deliver_counts(3)[of a' "take m ds"] acc len that by auto
    moreover have "if acc ! i then results (deliver ds a') ! i = the (map_of ds i)
        else refused (results (deliver ds a') ! i)" if "i < length ops" for i
    proof -
      have "map_of ds i = None \<longleftrightarrow> \<not> acc ! i"
        using set that by (metis (mono_tags, lifting) image_set map_of_eq_None_iff mem_Collect_eq)
      then show ?thesis using deliver_results[OF d, of i a'] that acc(5) res[OF that] by (auto split: option.splits)
    qed
    ultimately show ?thesis by blast
  qed
  show ?thesis by (rule exI[of _ acc]) (use acc(2) ents done_all in blast)
qed

definition demo_ops :: "(u16 \<times> nat \<times> string) list" where
  "demo_ops = [(0, 11, ''b'')]"

lemma demo_routed: "routed_ops (\<lambda>_. Some 0) demo_ops [demo_pipe]"
  by (simp add: routed_ops_def demo_ops_def demo_pipe_def demo_wf)

theorem cluster_suspend_spec_witness:
  "\<exists>acc a' ps'. cluster_suspend None False (\<lambda>_. Some 0) demo_ops (new_operation 1) [demo_pipe] =
     Ret (True \<in> set acc, a', ps') \<and> length acc = 1 \<and> length ps' = 1"
proof -
  have "length (results (new_operation 1)) = length demo_ops" "finished (new_operation 1) = 0"
    by (simp_all add: new_operation_def demo_ops_def)
  from cluster_suspend_spec[OF _ demo_routed this, of None] show ?thesis by (auto simp: demo_ops_def)
qed

theorem cluster_operation_completes_witness:
  "resumed (deliver [(0, Integer 7)] (new_operation 1)) = 1"
proof -
  let ?ps' = "[\<lparr>ring_of = demo_ring, signals = 1\<rparr>]"
  have "cluster_suspend None False (\<lambda>_. Some 0) demo_ops (new_operation (length demo_ops)) [demo_pipe] =
      Ret (True, new_operation 1, ?ps')"
    by (simp add: cluster_suspend_def demo_ops_def demo_pipe_def push_pipe_def demo_pushes notify_def new_operation_def)
  from cluster_operation_completes[OF _ demo_routed this] obtain acc where
    acc: "length acc = 1" "entries demo_ring = entries demo_ring1 @ accepted_on (\<lambda>_. Some 0) 0 demo_ops acc"
    and all: "\<And>ds. distinct (map fst ds) \<Longrightarrow> set (map fst ds) = {i. i < 1 \<and> acc ! i} \<Longrightarrow>
      resumed (deliver ds (new_operation 1)) = 1"
    by (auto simp: demo_ops_def demo_pipe_def)
  from acc have "acc = [True]"
    by (cases acc) (auto simp: demo_entries demo_ops_def accepted_on_def split: if_splits)
  then have "set (map fst [(0 :: nat, Integer 7)]) = {i. i < 1 \<and> acc ! i}" by auto
  then show ?thesis by (intro all) simp_all
qed

end
