(* ===== verification/Redis_Parser.thy ===== *)
theory Redis_Parser
  imports Redis_Value
begin

text \<open>
  \<open>RedisParser\<close> (include/RedisParser.h, src/RedisParser.cpp): the incremental RESP2/RESP3
  reader over a socket, as the coroutine \<open>parse\<close> and as the non-blocking \<open>try_parse\<close> and
  \<open>try_parse_n\<close>. The socket is the list of results that successive calls of \<open>recv\<close>
  deliver; the rest of the state is that of the class.
\<close>

section \<open>State\<close>

text \<open>
  One event per call of \<open>recv\<close>: the bytes it stored in \<open>sockbuffer\<close> (none at an orderly
  close) or its error code.
\<close>

datatype recv_event = Recv_data string | Recv_fail int

text \<open>
  \<open>mem_limit\<close> is the largest block, in bytes, that the allocator grants
  (\<open>vector::reserve\<close> throws beyond it). The members \<open>linebuffer\<close>, \<open>pos\<close> and \<open>timed\<close>
  are those of the class; the contents of \<open>sockbuffer\<close> are appended to \<open>linebuffer\<close> as
  soon as \<open>recv\<close> returns, so they are not part of the state.
\<close>

record parser =
  linebuffer :: string
  pos :: nat
  timed :: int
  stream :: "recv_event list"
  mem_limit :: nat

definition new_parser :: "nat \<Rightarrow> recv_event list \<Rightarrow> parser" where
  "new_parser mem es =
     \<lparr>linebuffer = [], pos = 0, timed = 10, stream = es, mem_limit = mem\<rparr>"

definition max_bulk_size :: nat where
  "max_bulk_size = 1024 * 1024 * 512"

definition sizeof_RedisValue :: nat where "sizeof_RedisValue = 16"
definition sizeof_RedisPair :: nat where "sizeof_RedisPair = 32"

definition ECANCELED :: int where "ECANCELED = 125"

definition CR :: char where "CR = CHR 0x0D"
definition LF :: char where "LF = CHR 0x0A"

lemma CR_neq_LF [simp]: "CR \<noteq> LF" "LF \<noteq> CR"
  by (simp_all add: CR_def LF_def)

text \<open>What a reading call returns: a value and an error code, and the new state.\<close>

type_synonym 'a read = "('a io_result \<times> parser) outcome"

section \<open>recv\<close>

text \<open>
  What a reader sees when no event is left: \<open>None\<close> when it stays suspended, otherwise an
  error code. The awaited \<open>recv\<close> stays suspended without a timeout and is cancelled with
  one; the non-blocking \<open>::recv\<close> fails with \<open>EAGAIN\<close>.
\<close>

definition co_stall :: "parser \<Rightarrow> int option" where
  "co_stall p = (if timed p \<le> 0 then None else Some ECANCELED)"

definition sys_stall :: "parser \<Rightarrow> int option" where
  "sys_stall p = Some EAGAIN"

definition recv_with :: "(parser \<Rightarrow> int option) \<Rightarrow> parser \<Rightarrow> string read" where
  "recv_with stall p = (case stream p of
     [] \<Rightarrow> (case stall p of None \<Rightarrow> Suspended | Some e \<Rightarrow> Ret (([], e), p))
   | Recv_data bs # es \<Rightarrow> Ret ((bs, 0), p\<lparr>stream := es\<rparr>)
   | Recv_fail e # es \<Rightarrow> Ret (([], e), p\<lparr>stream := es\<rparr>))"

text \<open>\<open>result.err || *result == 0\<close> and the error that is reported then.\<close>

definition recv_error :: "string io_result \<Rightarrow> int option" where
  "recv_error r =
     (if res_err r \<noteq> 0 then Some (res_err r) else if res_val r = [] then Some ECONNRESET else None)"

lemma recv_shrinks:
  "recv_with stall p = Ret (r, p') \<Longrightarrow> recv_error r = None \<Longrightarrow>
   length (stream p') < length (stream p)"
  by (auto simp: recv_with_def recv_error_def
      split: list.splits recv_event.splits if_splits option.splits)

section \<open>Lines and bulks\<close>

text \<open>
  A read of one byte of a buffer or view: the index is the signed offset that the code
  computes, and a read in front of the bytes or behind them is \<open>UB\<close>. Every index
  expression of the parser goes through it.
\<close>

definition byte_at :: "string \<Rightarrow> int \<Rightarrow> (char \<Rightarrow> 'a outcome) \<Rightarrow> 'a outcome" where
  "byte_at s i f = (if 0 \<le> i \<and> i < int (length s) then f (s ! nat i) else UB)"

lemma byte_at_inside: "n < length s \<Longrightarrow> byte_at s (int n) f = f (s ! n)"
  by (simp add: byte_at_def)

text \<open>
  The view \<open>string_view(data + pos + 1, fd - (pos + 2))\<close> of a line that ends at \<open>fd\<close>.
  For the line \<open>"\r\n"\<close> the size wraps to \<open>2 ^ 64 - 1\<close>; \<open>None\<close> stands for that view and
  for one that ends behind the buffer, and the model makes any read of it \<open>UB\<close>.
\<close>

definition line_view :: "string \<Rightarrow> nat \<Rightarrow> nat \<Rightarrow> string option" where
  "line_view buf from fd =
     (if fd < from + 2 \<or> length buf < fd - 1 then None
      else Some (take (fd - (from + 2)) (drop (from + 1) buf)))"

text \<open>The result of a line: the prefix character and the view of what follows it.\<close>

type_synonym line = "char \<times> string option"

definition no_line :: line where
  "no_line = (CHR 0x00, Some [])"

text \<open>
  The loop of \<open>read_line\<close>, with \<open>fd\<close> where the search for the line feed resumes. The
  non-blocking twin is the same loop over its own \<open>recv\<close>.
\<close>

function line_loop :: "(parser \<Rightarrow> int option) \<Rightarrow> nat \<Rightarrow> parser \<Rightarrow> line read" where
  "line_loop stall fd p =
     (case find_from LF (linebuffer p) fd of
        Some i \<Rightarrow>
          if i = pos p then Ret ((no_line, -1), p)
          else byte_at (linebuffer p) (int i - 1) (\<lambda>c.
            if c \<noteq> CR then Ret ((no_line, -1), p)
            else byte_at (linebuffer p) (int (pos p)) (\<lambda>ch.
              Ret (((ch, line_view (linebuffer p) (pos p) i), 0), p\<lparr>pos := i + 1\<rparr>)))
      | None \<Rightarrow>
          bind_outcome (recv_with stall p) (\<lambda>(r, p').
            case recv_error r of
              Some e \<Rightarrow> Ret ((no_line, e), p')
            | None \<Rightarrow>
                if max_bulk_size \<le> length (linebuffer p') + length (res_val r)
                then Ret ((no_line, EOVERFLOW), p')
                else line_loop stall (length (linebuffer p))
                       (p'\<lparr>linebuffer := linebuffer p' @ res_val r\<rparr>)))"
  by pat_completeness auto
termination
  by (relation "measure (\<lambda>(stall, fd, p). length (stream p))") (auto dest: recv_shrinks)

declare line_loop.simps [simp del]

text \<open>With the position inside the buffer both reads of a found line are inside it.\<close>

lemma line_loop_Some:
  assumes "find_from LF (linebuffer p) fd = Some i" and "pos p \<le> i" and "i < length (linebuffer p)"
  shows "line_loop stall fd p =
    (if i = pos p \<or> linebuffer p ! (i - 1) \<noteq> CR then Ret ((no_line, -1), p)
     else Ret (((linebuffer p ! pos p, line_view (linebuffer p) (pos p) i), 0), p\<lparr>pos := i + 1\<rparr>))"
proof (cases "i = pos p")
  case True
  then show ?thesis using assms(1) by (subst line_loop.simps) simp
next
  case False
  with assms(2,3) have "int i - 1 = int (i - 1)" "i - 1 < length (linebuffer p)" by simp_all
  with False assms show ?thesis
    by (subst line_loop.simps) (simp add: byte_at_inside del: of_nat_diff)
qed

definition read_line :: "parser \<Rightarrow> line read" where
  "read_line p = line_loop co_stall (pos p) p"

definition try_read_line :: "parser \<Rightarrow> line read" where
  "try_read_line p = line_loop sys_stall (pos p) p"

text \<open>
  The loop of \<open>read_bulk\<close>. \<open>size() - pos\<close> is unsigned: with the position behind the
  buffer it wraps and the test succeeds. The bytes \<open>base[bytes]\<close> and \<open>base[bytes + 1]\<close> are
  those at \<open>pos + bytes\<close> and after it; the second is read when the first is a carriage
  return.
\<close>

function bulk_loop :: "(parser \<Rightarrow> int option) \<Rightarrow> nat \<Rightarrow> parser \<Rightarrow> string read" where
  "bulk_loop stall bytes p =
     (if length (linebuffer p) < pos p \<or> bytes + 2 \<le> length (linebuffer p) - pos p then
        byte_at (linebuffer p) (int (pos p) + int bytes) (\<lambda>c.
          if c \<noteq> CR then Ret (([], -2), p)
          else byte_at (linebuffer p) (int (pos p) + int bytes + 1) (\<lambda>d.
            if d \<noteq> LF then Ret (([], -2), p)
            else Ret ((take bytes (drop (pos p) (linebuffer p)), 0),
                      p\<lparr>pos := pos p + (bytes + 2)\<rparr>)))
      else
        bind_outcome (recv_with stall p) (\<lambda>(r, p').
          case recv_error r of
            Some e \<Rightarrow> Ret (([], e), p')
          | None \<Rightarrow> bulk_loop stall bytes (p'\<lparr>linebuffer := linebuffer p' @ res_val r\<rparr>)))"
  by pat_completeness auto
termination
  by (relation "measure (\<lambda>(stall, n, p). length (stream p))") (auto dest: recv_shrinks)

declare bulk_loop.simps [simp del]

lemma bulk_loop_take:
  assumes "pos p \<le> length (linebuffer p)" and "bytes + 2 \<le> length (linebuffer p) - pos p"
  shows "bulk_loop stall bytes p =
    (let base = drop (pos p) (linebuffer p)
     in if base ! bytes \<noteq> CR \<or> base ! (bytes + 1) \<noteq> LF then Ret (([], -2), p)
        else Ret ((take bytes base, 0), p\<lparr>pos := pos p + (bytes + 2)\<rparr>))"
proof -
  have at: "byte_at (linebuffer p) (int (pos p) + int bytes) f = f (linebuffer p ! (pos p + bytes))"
    "byte_at (linebuffer p) (int (pos p) + int bytes + 1) f = f (linebuffer p ! (pos p + bytes + 1))"
    for f :: "char \<Rightarrow> string read"
    using assms by (simp_all add: byte_at_def nat_add_distrib) linarith+
  from assms show ?thesis
    by (subst bulk_loop.simps) (simp add: at Let_def)
qed

definition bulk_with :: "(parser \<Rightarrow> int option) \<Rightarrow> nat \<Rightarrow> parser \<Rightarrow> string read" where
  "bulk_with stall bytes p =
     (if max_bulk_size \<le> bytes then Ret (([], EOVERFLOW), p) else bulk_loop stall bytes p)"

definition read_bulk :: "nat \<Rightarrow> parser \<Rightarrow> string read" where
  "read_bulk = bulk_with co_stall"

definition try_read_bulk :: "nat \<Rightarrow> parser \<Rightarrow> string read" where
  "try_read_bulk = bulk_with sys_stall"

definition consume :: "parser \<Rightarrow> parser" where
  "consume p = p\<lparr>linebuffer := drop (pos p) (linebuffer p), pos := 0\<rparr>"

definition reset_parser :: "parser \<Rightarrow> parser" where
  "reset_parser p = p\<lparr>linebuffer := [], pos := 0\<rparr>"

section \<open>Numbers in a line\<close>

definition stoll_view :: "string \<Rightarrow> int io_result" where
  "stoll_view sv =
     (if sv = [] then (0, EINVAL)
      else case from_chars_signed int64_min int64_max sv of
        (n, ec, v) \<Rightarrow>
          if ec = Errc_ok \<and> n = length sv then (the v, 0)
          else (0, if ec = Errc_result_out_of_range then ERANGE else EINVAL))"

definition stod_view :: "string \<Rightarrow> u64 io_result" where
  "stod_view sv =
     (if sv = [] then (0, EINVAL)
      else case from_chars_double sv of
        (n, ec, v) \<Rightarrow>
          if ec = Errc_ok \<and> n = length sv then (the v, 0)
          else (0, if ec = Errc_result_out_of_range then ERANGE else EINVAL))"

section \<open>One reply\<close>

text \<open>
  \<open>parse_recursion\<close> and \<open>try_parse_recursion\<close> are one text over two readers. The cases
  of their switch are written once, with the bulk reader \<open>rb\<close>, the recursive call \<open>rc\<close>
  and the effect \<open>oom\<close> of an exception thrown by \<open>reserve\<close> as arguments. Each case
  takes the view behind the prefix character and the state after the line; every read of
  the view goes through \<open>with_view\<close>. A value is returned as \<open>Nullptr\<close>, what the caller
  passed in, unless the case sets it.
\<close>

type_synonym reply_read = "redis_value read"

definition with_view :: "string option \<Rightarrow> (string \<Rightarrow> 'a outcome) \<Rightarrow> 'a outcome" where
  "with_view view f = (case view of None \<Rightarrow> UB | Some line \<Rightarrow> f line)"

definition reply_integer :: "string option \<Rightarrow> parser \<Rightarrow> reply_read" where
  "reply_integer view p = with_view view (\<lambda>line.
     let (i, err) = stoll_view line
     in Ret ((if err = 0 then Integer i else Nullptr, err), p))"

definition reply_bulk_string ::
  "(nat \<Rightarrow> parser \<Rightarrow> string read) \<Rightarrow> string option \<Rightarrow> parser \<Rightarrow> reply_read" where
  "reply_bulk_string rb view p = with_view view (\<lambda>line.
     let (len, err) = stoll_view line in
     if err \<noteq> 0 \<or> len < 0
     then Ret ((Nullptr, if err \<noteq> 0 then err else if len = -1 then 0 else EINVAL), p)
     else bind_outcome (rb (nat len) p) (\<lambda>((data, e), p').
       if e \<noteq> 0 then Ret ((Nullptr, e), p') else Ret ((Bulk_string data, 0), p')))"

definition reply_bulk_error ::
  "(nat \<Rightarrow> parser \<Rightarrow> string read) \<Rightarrow> string option \<Rightarrow> parser \<Rightarrow> reply_read" where
  "reply_bulk_error rb view p = with_view view (\<lambda>line.
     let (len, err) = stoll_view line in
     if err \<noteq> 0 \<or> len < 0 then Ret ((Nullptr, if err \<noteq> 0 then err else EINVAL), p)
     else bind_outcome (rb (nat len) p) (\<lambda>((data, e), p').
       if e \<noteq> 0 then Ret ((Nullptr, e), p') else Ret ((Bulk_error data, 0), p')))"

definition reply_verbatim_string ::
  "(nat \<Rightarrow> parser \<Rightarrow> string read) \<Rightarrow> string option \<Rightarrow> parser \<Rightarrow> reply_read" where
  "reply_verbatim_string rb view p = with_view view (\<lambda>line.
     let (len, err) = stoll_view line in
     if err \<noteq> 0 \<or> len < 0 then Ret ((Nullptr, if err \<noteq> 0 then err else EINVAL), p)
     else bind_outcome (rb (nat len) p) (\<lambda>((data, e), p').
       if e \<noteq> 0 then Ret ((Nullptr, e), p') else Ret ((Verbatim_string data, 0), p')))"

definition reply_bool :: "string option \<Rightarrow> parser \<Rightarrow> reply_read" where
  "reply_bool view p = with_view view (\<lambda>line.
     if length line = 1
     then byte_at line 0 (\<lambda>tof.
       if tof = CHR ''t'' \<or> tof = CHR ''f'' then Ret ((Bool (tof = CHR ''t''), 0), p)
       else Ret ((Nullptr, EINVAL), p))
     else Ret ((Nullptr, EINVAL), p))"

definition reply_double :: "string option \<Rightarrow> parser \<Rightarrow> reply_read" where
  "reply_double view p = with_view view (\<lambda>line.
     let (d, err) = stod_view line
     in Ret ((if err = 0 then Double d else Nullptr, err), p))"

text \<open>The cases whose value is the rest of the line.\<close>

definition reply_text ::
  "(string \<Rightarrow> redis_value) \<Rightarrow> string option \<Rightarrow> parser \<Rightarrow> reply_read" where
  "reply_text mk view p = with_view view (\<lambda>line. Ret ((mk line, 0), p))"

text \<open>
  The count of an aggregate and the \<open>reserve(count)\<close> of its vector, which throws when the
  block is larger than the allocator grants.
\<close>

definition with_count ::
  "(parser \<Rightarrow> reply_read) \<Rightarrow> nat \<Rightarrow> string option \<Rightarrow> parser \<Rightarrow> (nat \<Rightarrow> reply_read) \<Rightarrow> reply_read"
where
  "with_count oom elem_size view p k = with_view view (\<lambda>line.
     let (count, err) = stoll_view line in
     if err \<noteq> 0 \<or> count < 0 then Ret ((Nullptr, if err \<noteq> 0 then err else EINVAL), p)
     else if mem_limit p < elem_size * nat count then oom p
     else k (nat count))"

text \<open>
  The loops over \<open>count\<close> elements and over \<open>count\<close> key/value pairs, with the vector
  filled so far; the first error ends them.
\<close>

function read_elements ::
  "(parser \<Rightarrow> reply_read) \<Rightarrow> nat \<Rightarrow> redis_value list \<Rightarrow> parser \<Rightarrow> redis_value list read" where
  "read_elements rc count vec p =
     (if count = 0 then Ret ((vec, 0), p)
      else bind_outcome (rc p) (\<lambda>((v, e), p').
        if e \<noteq> 0 then Ret (([], e), p') else read_elements rc (count - 1) (vec @ [v]) p'))"
  by pat_completeness auto
termination
  by (relation "measure (\<lambda>(rc, count, vec, p). count)") auto

function read_entries ::
  "(parser \<Rightarrow> reply_read) \<Rightarrow> nat \<Rightarrow> (redis_value \<times> redis_value) list \<Rightarrow> parser \<Rightarrow>
   (redis_value \<times> redis_value) list read" where
  "read_entries rc count mp p =
     (if count = 0 then Ret ((mp, 0), p)
      else bind_outcome (rc p) (\<lambda>((key, e), p').
        if e \<noteq> 0 then Ret (([], e), p')
        else bind_outcome (rc p') (\<lambda>((val, e'), p'').
          if e' \<noteq> 0 then Ret (([], e'), p'')
          else read_entries rc (count - 1) (mp @ [(key, val)]) p'')))"
  by pat_completeness auto
termination
  by (relation "measure (\<lambda>(rc, count, mp, p). count)") auto

declare read_elements.simps [simp del] read_entries.simps [simp del]

definition reply_array ::
  "(parser \<Rightarrow> reply_read) \<Rightarrow> (parser \<Rightarrow> reply_read) \<Rightarrow> string option \<Rightarrow> parser \<Rightarrow> reply_read" where
  "reply_array oom rc view p = with_count oom sizeof_RedisValue view p (\<lambda>count.
     bind_outcome (read_elements rc count [] p) (\<lambda>((vec, e), p').
       Ret ((if e \<noteq> 0 then Nullptr else Array vec, e), p')))"

definition reply_set ::
  "(parser \<Rightarrow> reply_read) \<Rightarrow> (parser \<Rightarrow> reply_read) \<Rightarrow> string option \<Rightarrow> parser \<Rightarrow> reply_read" where
  "reply_set oom rc view p = with_count oom sizeof_RedisValue view p (\<lambda>count.
     bind_outcome (read_elements rc count [] p) (\<lambda>((vec, e), p').
       Ret ((if e \<noteq> 0 then Nullptr else Set vec, e), p')))"

definition reply_push ::
  "(parser \<Rightarrow> reply_read) \<Rightarrow> (parser \<Rightarrow> reply_read) \<Rightarrow> string option \<Rightarrow> parser \<Rightarrow> reply_read" where
  "reply_push oom rc view p = with_count oom sizeof_RedisValue view p (\<lambda>count.
     bind_outcome (read_elements rc count [] p) (\<lambda>((vec, e), p').
       Ret ((if e \<noteq> 0 then Nullptr else Push vec, e), p')))"

definition reply_map ::
  "(parser \<Rightarrow> reply_read) \<Rightarrow> (parser \<Rightarrow> reply_read) \<Rightarrow> string option \<Rightarrow> parser \<Rightarrow> reply_read" where
  "reply_map oom rc view p = with_count oom sizeof_RedisPair view p (\<lambda>count.
     bind_outcome (read_entries rc count [] p) (\<lambda>((mp, e), p').
       Ret ((if e \<noteq> 0 then Nullptr else Map mp, e), p')))"

definition reply_attribute ::
  "(parser \<Rightarrow> reply_read) \<Rightarrow> (parser \<Rightarrow> reply_read) \<Rightarrow> string option \<Rightarrow> parser \<Rightarrow> reply_read" where
  "reply_attribute oom rc view p = with_count oom sizeof_RedisPair view p (\<lambda>count.
     bind_outcome (read_entries rc count [] p) (\<lambda>((metadata, e), p').
       if e \<noteq> 0 then Ret ((Nullptr, e), p')
       else bind_outcome (rc p') (\<lambda>((val, e'), p'').
         Ret ((if e' \<noteq> 0 then Nullptr else Attribute metadata val, e'), p''))))"

text \<open>The switch on the prefix character.\<close>

definition reply_switch ::
  "(nat \<Rightarrow> parser \<Rightarrow> string read) \<Rightarrow> (parser \<Rightarrow> reply_read) \<Rightarrow> (parser \<Rightarrow> reply_read) \<Rightarrow>
   char \<Rightarrow> string option \<Rightarrow> parser \<Rightarrow> reply_read" where
  "reply_switch rb oom rc prefix view p =
     (if prefix = CHR ''+'' then reply_text Simple_string view p
      else if prefix = CHR ''-'' then reply_text Simple_error view p
      else if prefix = CHR '':'' then reply_integer view p
      else if prefix = CHR ''$'' then reply_bulk_string rb view p
      else if prefix = CHR ''*'' then reply_array oom rc view p
      else if prefix = CHR ''_'' then Ret ((Nullptr, 0), p)
      else if prefix = CHR ''#'' then reply_bool view p
      else if prefix = CHR '','' then reply_double view p
      else if prefix = CHR ''('' then reply_text Big_number view p
      else if prefix = CHR ''!'' then reply_bulk_error rb view p
      else if prefix = CHR ''='' then reply_verbatim_string rb view p
      else if prefix = CHR ''%'' then reply_map oom rc view p
      else if prefix = CHR ''|'' then reply_attribute oom rc view p
      else if prefix = CHR ''~'' then reply_set oom rc view p
      else if prefix = CHR ''>'' then reply_push oom rc view p
      else Ret ((Nullptr, -3), p))"

section \<open>The recursion\<close>

text \<open>
  An exception thrown in a coroutine is swallowed by \<open>unhandled_exception() noexcept {}\<close>
  of the promise, and the awaiting caller sees the promise's initial \<open>value\<close>, 0: the
  nested \<open>parse_recursion\<close> "succeeds" with the value untouched. The non-blocking twin is
  an ordinary \<open>noexcept\<close> function, so the same exception ends the process.
\<close>

definition co_oom :: "parser \<Rightarrow> reply_read" where
  "co_oom p = Ret ((Nullptr, 0), p)"

definition try_oom :: "parser \<Rightarrow> reply_read" where
  "try_oom p = Terminate"

text \<open>The first argument bounds the depth of the recursion; see \<open>depth_fuel\<close>.\<close>

fun parse_recursion :: "nat \<Rightarrow> parser \<Rightarrow> reply_read" where
  "parse_recursion 0 p = No_fuel"
| "parse_recursion (Suc n) p =
     bind_outcome (read_line p) (\<lambda>(((prefix, view), err), p').
       if err \<noteq> 0 then Ret ((Nullptr, err), p')
       else reply_switch read_bulk co_oom (parse_recursion n) prefix view p')"

fun try_parse_recursion :: "nat \<Rightarrow> parser \<Rightarrow> reply_read" where
  "try_parse_recursion 0 p = No_fuel"
| "try_parse_recursion (Suc n) p =
     bind_outcome (try_read_line p) (\<lambda>(((prefix, view), err), p').
       if err \<noteq> 0 then Ret ((Nullptr, err), p')
       else reply_switch try_read_bulk try_oom (try_parse_recursion n) prefix view p')"

text \<open>
  The bytes that can still be read before the socket stalls: those behind \<open>pos\<close> and those
  of the leading data events. Every nesting level takes at least one line, of at least two
  bytes, so one more than their number is enough depth.
\<close>

fun avail :: "recv_event list \<Rightarrow> string" where
  "avail (Recv_data bs # es) = (if bs = [] then [] else bs @ avail es)"
| "avail _ = []"

definition unread :: "parser \<Rightarrow> string" where
  "unread p = drop (pos p) (linebuffer p @ avail (stream p))"

definition depth_fuel :: "parser \<Rightarrow> nat" where
  "depth_fuel p = Suc (length (unread p))"

section \<open>The public operations\<close>

definition parse :: "int \<Rightarrow> parser \<Rightarrow> reply_read" where
  "parse timeout p =
     (let p0 = p\<lparr>timed := timeout\<rparr> in
      bind_outcome (parse_recursion (depth_fuel p0) p0) (\<lambda>((v, err), p').
        Ret ((v, err), if err = 0 then consume p' else p')))"

definition try_parse :: "parser \<Rightarrow> reply_read" where
  "try_parse p =
     bind_outcome (try_parse_recursion (depth_fuel p) p) (\<lambda>((v, err), p').
       Ret ((v, err), (if err = 0 then consume p' else p')\<lparr>pos := 0\<rparr>))"

text \<open>
  \<open>int pivot = this->pos\<close> keeps the low 32 bits of \<open>pos\<close>; \<open>erase(0, pivot)\<close> converts
  back, so a negative pivot erases everything.
\<close>

definition int32_of :: "nat \<Rightarrow> int" where
  "int32_of n = sint (of_nat n :: 32 word)"

definition erase_front :: "int \<Rightarrow> string \<Rightarrow> string" where
  "erase_front pivot buf = (if pivot < 0 then [] else drop (nat pivot) buf)"

text \<open>
  The loop of \<open>try_parse_n\<close> with \<open>i\<close> entries filled: the values stored so far, the error
  codes stored so far, and \<open>left\<close> entries to go. The \<open>io_result<size_t>\<close> is the number
  of parsed replies and the error.
\<close>

fun try_parse_loop :: "nat \<Rightarrow> redis_value list \<Rightarrow> int list \<Rightarrow> parser \<Rightarrow>
    (redis_value list \<times> int list \<times> nat) read" where
  "try_parse_loop 0 values errs p =
     Ret (((values, errs, length values), 0), p\<lparr>linebuffer := drop (pos p) (linebuffer p), pos := 0\<rparr>)"
| "try_parse_loop (Suc left) values errs p =
     (let pivot = int32_of (pos p) in
      bind_outcome (try_parse_recursion (depth_fuel p) p) (\<lambda>((v, err), p').
        if err = EAGAIN then
          Ret (((values, errs @ [err], length values), 0),
               p'\<lparr>linebuffer := erase_front pivot (linebuffer p'), pos := 0\<rparr>)
        else if err \<noteq> 0 then Ret (((values, errs @ [err], length values), err), p'\<lparr>pos := 0\<rparr>)
        else try_parse_loop left (values @ [v]) (errs @ [err]) p'))"

definition try_parse_n :: "nat \<Rightarrow> parser \<Rightarrow> (redis_value list \<times> int list \<times> nat) read" where
  "try_parse_n n p = try_parse_loop n [] [] p"

end
