(* ===== verification/Resp_Framing.thy ===== *)
theory Resp_Framing
  imports Redis_Parser
begin

text \<open>
  The framing layer of the parser against an abstract byte stream. \<open>unread\<close> is the byte
  string that remains to be read; \<open>scan_line\<close> and \<open>scan_bulk\<close> say what a line and a bulk
  of a byte string are, with no buffer, no position and no chunks; the loops of the parser
  are shown to compute them, however the bytes are cut into \<open>recv\<close> results.
\<close>

section \<open>The stream behind a state\<close>

fun after :: "recv_event list \<Rightarrow> recv_event list" where
  "after (Recv_data bs # es) = (if bs = [] then Recv_data bs # es else after es)"
| "after es = es"

definition all_bytes :: "parser \<Rightarrow> string" where
  "all_bytes p = linebuffer p @ avail (stream p)"

definition pos_ok :: "parser \<Rightarrow> bool" where
  "pos_ok p \<longleftrightarrow> pos p \<le> length (linebuffer p)"

text \<open>All bytes to come fit the parser's limit, so \<open>EOVERFLOW\<close> cannot strike.\<close>

definition sized :: "parser \<Rightarrow> bool" where
  "sized p \<longleftrightarrow> pos_ok p \<and> length (all_bytes p) < max_bulk_size"

text \<open>
  Progress over the same stream: the position moves on, bytes move from the socket into
  the buffer and none is lost.
\<close>

definition progress :: "parser \<Rightarrow> parser \<Rightarrow> bool" where
  "progress p p' \<longleftrightarrow> all_bytes p' = all_bytes p \<and> after (stream p') = after (stream p) \<and>
     pos p \<le> pos p' \<and> pos_ok p' \<and> timed p' = timed p \<and> mem_limit p' = mem_limit p"

lemma unread_all_bytes: "unread p = drop (pos p) (all_bytes p)"
  by (simp add: unread_def all_bytes_def)

lemma all_bytes_pos [simp]: "all_bytes (p\<lparr>pos := n\<rparr>) = all_bytes p"
  by (simp add: all_bytes_def)

lemma unread_split: "pos_ok p \<Longrightarrow> unread p = drop (pos p) (linebuffer p) @ avail (stream p)"
  by (simp add: unread_def pos_ok_def)

lemma progress_refl [intro]: "pos_ok p \<Longrightarrow> progress p p"
  by (simp add: progress_def)

lemma progress_trans [trans]: "progress p q \<Longrightarrow> progress q r \<Longrightarrow> progress p r"
  by (simp add: progress_def)

lemma progress_sized: "progress p q \<Longrightarrow> sized p \<Longrightarrow> sized q"
  by (simp add: progress_def sized_def)

lemma sized_pos_ok: "sized p \<Longrightarrow> pos_ok p"
  by (simp add: sized_def)

text \<open>
  What is reported when the bytes run out: \<open>None\<close> is suspension, otherwise the error code
  (never 0) and the events behind it.
\<close>

definition end_of :: "(parser \<Rightarrow> int option) \<Rightarrow> parser \<Rightarrow> (int \<times> recv_event list) option" where
  "end_of stall p = (case after (stream p) of
     [] \<Rightarrow> map_option (\<lambda>e. (if e = 0 then ECONNRESET else e, [])) (stall p)
   | Recv_fail e # es \<Rightarrow> Some (if e = 0 then ECONNRESET else e, es)
   | Recv_data bs # es \<Rightarrow> Some (ECONNRESET, es))"

definition stalled :: "(parser \<Rightarrow> int option) \<Rightarrow> parser \<Rightarrow> 'a read \<Rightarrow> bool" where
  "stalled stall p r \<longleftrightarrow> (case end_of stall p of
     None \<Rightarrow> r = Suspended
   | Some (e, es) \<Rightarrow> (\<exists>x p'. r = Ret ((x, e), p') \<and> linebuffer p' = all_bytes p \<and> stream p' = es \<and>
       pos p \<le> pos p' \<and> pos_ok p' \<and> timed p' = timed p \<and> mem_limit p' = mem_limit p))"

lemma end_of_nonzero: "end_of stall p = Some (e, es) \<Longrightarrow> e \<noteq> 0"
  by (auto simp: end_of_def ECONNRESET_def split: list.splits recv_event.splits if_splits option.splits)

text \<open>The stall behaviour of a reader depends on the timeout only.\<close>

definition frame_stall :: "(parser \<Rightarrow> int option) \<Rightarrow> bool" where
  "frame_stall stall \<longleftrightarrow> (\<forall>p q. timed p = timed q \<longrightarrow> stall p = stall q)"

lemma frame_stall_co [simp]: "frame_stall co_stall"
  by (simp add: frame_stall_def co_stall_def)

lemma frame_stall_sys [simp]: "frame_stall sys_stall"
  by (simp add: frame_stall_def sys_stall_def)

lemma end_of_progress: "frame_stall stall \<Longrightarrow> progress p q \<Longrightarrow> end_of stall q = end_of stall p"
proof -
  assume "frame_stall stall" and pr: "progress p q"
  then have "stall q = stall p"
    unfolding frame_stall_def progress_def by metis
  with pr show ?thesis
    by (auto simp: end_of_def progress_def split: list.splits recv_event.splits)
qed

lemma stalled_progress:
  assumes "frame_stall stall" and "progress p q" and "stalled stall q r"
  shows "stalled stall p r"
  using assms(2,3) end_of_progress[OF assms(1,2)]
  unfolding stalled_def progress_def
  by (cases "end_of stall p") (simp, fastforce)

section \<open>Lines and bulks of a byte string\<close>

datatype 'a scanned = Got 'a string | Bad 'a int | More

definition scan_line :: "string \<Rightarrow> line scanned" where
  "scan_line s = (case find_char LF s of
     None \<Rightarrow> More
   | Some i \<Rightarrow> if i = 0 \<or> s ! (i - 1) \<noteq> CR then Bad no_line (-1)
              else Got (s ! 0, line_view s 0 i) (drop (i + 1) s))"

definition scan_bulk :: "nat \<Rightarrow> string \<Rightarrow> string scanned" where
  "scan_bulk n s =
     (if max_bulk_size \<le> n then Bad [] EOVERFLOW
      else if length s < n + 2 then More
      else if s ! n \<noteq> CR \<or> s ! (n + 1) \<noteq> LF then Bad [] (-2)
      else Got (take n s) (drop (n + 2) s))"

fun framed :: "(parser \<Rightarrow> int option) \<Rightarrow> parser \<Rightarrow> 'a scanned \<Rightarrow> 'a read \<Rightarrow> bool" where
  "framed stall p (Got a rest) r \<longleftrightarrow> (\<exists>p'. r = Ret ((a, 0), p') \<and> progress p p' \<and> unread p' = rest)"
| "framed stall p (Bad x e) r \<longleftrightarrow> (\<exists>p'. r = Ret ((x, e), p') \<and> progress p p' \<and> unread p' = unread p)"
| "framed stall p More r \<longleftrightarrow> stalled stall p r"

lemma framed_progress:
  assumes "frame_stall stall" and "progress p q" and "unread q = unread p" and "framed stall q sc r"
  shows "framed stall p sc r"
  using assms(2-) progress_trans[OF assms(2)] stalled_progress[OF assms(1,2)]
  by (cases sc) auto

text \<open>A complete line, a complete bulk.\<close>

lemma scan_line_complete:
  assumes "LF \<notin> set l" and "c \<noteq> LF"
  shows "scan_line (c # l @ [CR, LF] @ rest) = Got (c, Some l) rest"
proof -
  have "find_char LF ((c # l @ [CR]) @ LF # rest) = Some (length (c # l @ [CR]))"
    using assms by (intro find_char_first) auto
  then have f: "find_char LF (c # l @ [CR, LF] @ rest) = Some (length l + 2)" by simp
  have n: "(c # l @ [CR, LF] @ rest) ! (length l + 1) = CR"
    by (simp add: nth_append)
  show ?thesis using f n by (simp add: scan_line_def line_view_def)
qed

lemma scan_bulk_complete:
  "length data < max_bulk_size \<Longrightarrow>
   scan_bulk (length data) (data @ [CR, LF] @ rest) = Got data rest"
  by (simp add: scan_bulk_def nth_append)

section \<open>recv feeds the buffer\<close>

text \<open>One receive: either the stream is at its end, or a chunk moves into the buffer.\<close>

lemma recv_with_cases:
  assumes "frame_stall stall" and "pos_ok p"
  obtains (stop) "avail (stream p) = []"
      and "recv_with stall p = Suspended" and "end_of stall p = None"
    | (fail) r e es p' where "avail (stream p) = []"
      and "recv_with stall p = Ret (r, p')" and "recv_error r = Some e"
      and "end_of stall p = Some (e, es)" and "p' = p\<lparr>stream := es\<rparr>"
    | (data) bs es where "stream p = Recv_data bs # es" and "bs \<noteq> []"
      and "recv_with stall p = Ret ((bs, 0), p\<lparr>stream := es\<rparr>)"
      and "recv_error ((bs, 0) :: string io_result) = None"
proof (cases "stream p")
  case Nil
  then show ?thesis
  proof (cases "stall p")
    case None
    with Nil show ?thesis by (intro stop) (simp_all add: recv_with_def end_of_def)
  next
    case (Some e)
    with Nil show ?thesis
      by (intro fail[of "([], e)" p "if e = 0 then ECONNRESET else e" "[]"])
         (simp_all add: recv_with_def end_of_def recv_error_def)
  qed
next
  case (Cons ev es)
  show ?thesis
  proof (cases ev)
    case (Recv_fail e)
    with Cons show ?thesis
      by (intro fail[of "([], e)" "p\<lparr>stream := es\<rparr>" "if e = 0 then ECONNRESET else e" es])
         (simp_all add: recv_with_def end_of_def recv_error_def)
  next
    case (Recv_data bs)
    show ?thesis
    proof (cases "bs = []")
      case True
      with Recv_data Cons show ?thesis
        by (intro fail[of "([], 0)" "p\<lparr>stream := es\<rparr>" ECONNRESET es])
           (simp_all add: recv_with_def end_of_def recv_error_def)
    next
      case False
      with Recv_data Cons show ?thesis
        by (intro data[of bs es]) (simp_all add: recv_with_def recv_error_def)
    qed
  qed
qed

lemma feed_progress:
  assumes "pos_ok p" and "stream p = Recv_data bs # es" and "bs \<noteq> []"
  shows "progress p (p\<lparr>stream := es, linebuffer := linebuffer p @ bs\<rparr>)"
    and "unread (p\<lparr>stream := es, linebuffer := linebuffer p @ bs\<rparr>) = unread p"
  using assms by (simp_all add: progress_def all_bytes_def pos_ok_def unread_def)

lemma stalled_at_end:
  assumes "pos_ok p" and "avail (stream p) = []" and "end_of stall p = Some (e, es)"
  shows "stalled stall p (Ret ((x, e), p\<lparr>stream := es\<rparr>))"
  using assms by (simp add: stalled_def all_bytes_def pos_ok_def)

section \<open>The loops compute the framing\<close>

lemma find_in_buffer:
  assumes "pos_ok p" and "find_from LF (linebuffer p) (pos p) = Some i"
  shows "pos p \<le> i" and "i < length (linebuffer p)"
    and "find_char LF (unread p) = Some (i - pos p)"
    and "\<And>k. k \<le> i \<Longrightarrow> pos p \<le> k \<Longrightarrow> unread p ! (k - pos p) = linebuffer p ! k"
proof -
  from find_from_Some[OF assms(2)] show i: "pos p \<le> i" "i < length (linebuffer p)" by auto
  have "find_char LF (drop (pos p) (linebuffer p)) = Some (i - pos p)"
    using assms(2) by (auto simp: find_from_def)
  then show "find_char LF (unread p) = Some (i - pos p)"
    by (simp add: unread_split[OF assms(1)] find_char_append)
  fix k assume "k \<le> i" "pos p \<le> k"
  moreover from calculation i have "k - pos p < length (linebuffer p) - pos p" by linarith
  ultimately show "unread p ! (k - pos p) = linebuffer p ! k"
    by (simp add: unread_split[OF assms(1)] nth_append)
qed

lemma line_loop_found:
  assumes ok: "sized p" and f: "find_from LF (linebuffer p) (pos p) = Some i"
  shows "framed stall p (scan_line (unread p))
     (if i = pos p \<or> linebuffer p ! (i - 1) \<noteq> CR then Ret ((no_line, -1), p)
      else Ret (((linebuffer p ! pos p, line_view (linebuffer p) (pos p) i), 0), p\<lparr>pos := i + 1\<rparr>))"
proof -
  note pk = sized_pos_ok[OF ok]
  note fb = find_in_buffer[OF pk f]
  show ?thesis
  proof (cases "i = pos p")
    case True
    with fb(3) pk show ?thesis by (auto simp: scan_line_def)
  next
    case False
    then have less: "pos p < i" using fb(1) by simp
    have prev: "unread p ! (i - pos p - 1) = linebuffer p ! (i - 1)"
      using fb(4)[of "i - 1"] less by simp
    have first: "unread p ! 0 = linebuffer p ! pos p"
      using fb(4)[of "pos p"] less by simp
    have rest: "drop (i - pos p + 1) (unread p) = unread (p\<lparr>pos := i + 1\<rparr>)"
      using less by (simp add: unread_all_bytes all_bytes_pos)
    have view: "line_view (unread p) 0 (i - pos p) = line_view (linebuffer p) (pos p) i"
      using less fb(2) by (auto simp: line_view_def unread_split[OF pk])
    have prog: "progress p (p\<lparr>pos := i + 1\<rparr>)"
      using less fb(2) by (simp add: progress_def all_bytes_def pos_ok_def)
    show ?thesis
      using False less fb(3) prev first rest view prog pk
      by (auto simp: scan_line_def)
  qed
qed

lemma line_loop_framed:
  assumes "frame_stall stall" and "sized p" and "pos p \<le> fd" and "fd \<le> length (linebuffer p)"
    and "LF \<notin> set (take (fd - pos p) (drop (pos p) (linebuffer p)))"
  shows "framed stall p (scan_line (unread p)) (line_loop stall fd p)"
  using assms
proof (induction stall fd p rule: line_loop.induct)
  case (1 stall fd p)
  note pk = sized_pos_ok[OF "1.prems"(2)]
  have skip: "find_from LF (linebuffer p) fd = find_from LF (linebuffer p) (pos p)"
    using "1.prems"(3-5) by (rule find_from_skip)
  show ?case
  proof (cases "find_from LF (linebuffer p) fd")
    case (Some i)
    then have f: "find_from LF (linebuffer p) (pos p) = Some i" by (simp add: skip)
    have "pos p \<le> i" "i < length (linebuffer p)" using find_from_Some[OF f] by auto
    with line_loop_found[OF "1.prems"(2) f, of stall] show ?thesis
      by (simp add: line_loop_Some[OF Some])
  next
    case None
    with skip have "find_from LF (linebuffer p) (pos p) = None" by simp
    then have none: "find_char LF (drop (pos p) (linebuffer p)) = None"
      by (simp add: find_from_def)
    from "1.prems"(1) pk show ?thesis
    proof (cases rule: recv_with_cases)
      case stop
      then show ?thesis using None none
        by (subst line_loop.simps)
           (simp add: outcome_simps stalled_def unread_split[OF pk] scan_line_def)
    next
      case (fail r e es p')
      then show ?thesis using None none stalled_at_end[OF pk fail(1,4)]
        by (subst line_loop.simps) (simp add: outcome_simps unread_split[OF pk] scan_line_def)
    next
      case (data bs es)
      let ?q = "p\<lparr>stream := es, linebuffer := linebuffer p @ bs\<rparr>"
      note fp = feed_progress[OF pk data(1,2)]
      have sz: "sized ?q" by (rule progress_sized[OF fp(1) "1.prems"(2)])
      have small: "\<not> max_bulk_size \<le> length (linebuffer p) + length bs"
        using "1.prems"(2) data by (simp add: sized_def all_bytes_def)
      have clean: "LF \<notin> set (take (length (linebuffer p) - pos ?q) (drop (pos ?q) (linebuffer ?q)))"
        using pk none by (simp add: pos_ok_def find_char_None)
      have step: "line_loop stall fd p = line_loop stall (length (linebuffer p)) ?q"
        using None data small by (subst line_loop.simps) (simp add: outcome_simps)
      have "framed stall ?q (scan_line (unread ?q)) (line_loop stall (length (linebuffer p)) ?q)"
        using "1.IH"[OF None, of "((bs, 0), p\<lparr>stream := es\<rparr>)" "(bs, 0)" "p\<lparr>stream := es\<rparr>"]
          "1.prems"(1) data small sz clean pk
        by (simp add: pos_ok_def)
      then have "framed stall p (scan_line (unread ?q)) (line_loop stall (length (linebuffer p)) ?q)"
        by (rule framed_progress[OF "1.prems"(1) fp])
      then show ?thesis by (simp only: step fp(2))
    qed
  qed
qed

lemma line_framed:
  assumes "frame_stall stall" and "sized p"
  shows "framed stall p (scan_line (unread p)) (line_loop stall (pos p) p)"
  using assms sized_pos_ok[OF assms(2)] by (intro line_loop_framed) (simp_all add: pos_ok_def)

lemma bulk_loop_enough:
  assumes ok: "sized p" and enough: "n + 2 \<le> length (linebuffer p) - pos p" and n: "n < max_bulk_size"
  shows "framed stall p (scan_bulk n (unread p))
     (let base = drop (pos p) (linebuffer p)
      in if base ! n \<noteq> CR \<or> base ! (n + 1) \<noteq> LF then Ret (([], -2), p)
         else Ret ((take n base, 0), p\<lparr>pos := pos p + (n + 2)\<rparr>))"
proof -
  note pk = sized_pos_ok[OF ok]
  let ?base = "drop (pos p) (linebuffer p)"
  have base: "unread p = ?base @ avail (stream p)" by (rule unread_split[OF pk])
  have nth: "unread p ! n = ?base ! n" "unread p ! (n + 1) = ?base ! (n + 1)"
    "unread p ! Suc n = ?base ! Suc n"
    using enough by (simp_all add: base nth_append)
  have tk: "take n (unread p) = take n ?base" using enough by (simp add: base)
  have rest: "drop (n + 2) (unread p) = unread (p\<lparr>pos := pos p + (n + 2)\<rparr>)"
    by (simp add: unread_all_bytes all_bytes_pos add.commute)
  have prog: "progress p (p\<lparr>pos := pos p + (n + 2)\<rparr>)"
    using enough pk by (simp add: progress_def all_bytes_def pos_ok_def)
  have long: "n + 2 \<le> length (unread p)" using enough by (simp add: base)
  show ?thesis
    using n nth tk rest prog long pk by (auto simp: scan_bulk_def Let_def)
qed

lemma bulk_loop_framed:
  assumes "frame_stall stall" and "sized p" and "n < max_bulk_size"
  shows "framed stall p (scan_bulk n (unread p)) (bulk_loop stall n p)"
  using assms
proof (induction stall n p rule: bulk_loop.induct)
  case (1 stall n p)
  note pk = sized_pos_ok[OF "1.prems"(2)]
  show ?case
  proof (cases "n + 2 \<le> length (linebuffer p) - pos p")
    case True
    with bulk_loop_enough[OF "1.prems"(2) True "1.prems"(3), of stall] show ?thesis
      using pk by (simp add: bulk_loop_take pos_ok_def)
  next
    case False
    then have wait: "\<not> (length (linebuffer p) < pos p \<or> n + 2 \<le> length (linebuffer p) - pos p)"
      using pk by (simp add: pos_ok_def)
    have short: "avail (stream p) = [] \<Longrightarrow> length (unread p) < n + 2"
      using False by (simp add: unread_split[OF pk])
    from "1.prems"(1) pk show ?thesis
    proof (cases rule: recv_with_cases)
      case stop
      with short have "length (unread p) < n + 2" by simp
      then show ?thesis using wait stop "1.prems"(3)
        by (subst bulk_loop.simps) (simp add: outcome_simps stalled_def scan_bulk_def)
    next
      case (fail r e es p')
      with short have "length (unread p) < n + 2" by simp
      then show ?thesis using wait fail "1.prems"(3) stalled_at_end[OF pk fail(1,4)]
        by (subst bulk_loop.simps) (simp add: outcome_simps scan_bulk_def)
    next
      case (data bs es)
      let ?q = "p\<lparr>stream := es, linebuffer := linebuffer p @ bs\<rparr>"
      note fp = feed_progress[OF pk data(1,2)]
      have sz: "sized ?q" by (rule progress_sized[OF fp(1) "1.prems"(2)])
      have step: "bulk_loop stall n p = bulk_loop stall n ?q"
        using wait data by (subst bulk_loop.simps) (simp add: outcome_simps)
      have "framed stall ?q (scan_bulk n (unread ?q)) (bulk_loop stall n ?q)"
        using "1.IH"[OF wait, of "((bs, 0), p\<lparr>stream := es\<rparr>)" "(bs, 0)" "p\<lparr>stream := es\<rparr>"]
          "1.prems" data sz
        by simp
      then have "framed stall p (scan_bulk n (unread ?q)) (bulk_loop stall n ?q)"
        by (rule framed_progress[OF "1.prems"(1) fp])
      then show ?thesis by (simp only: step fp(2))
    qed
  qed
qed

lemma bulk_framed:
  assumes "frame_stall stall" and "sized p"
  shows "framed stall p (scan_bulk n (unread p)) (bulk_with stall n p)"
proof (cases "max_bulk_size \<le> n")
  case True
  then show ?thesis
    using sized_pos_ok[OF assms(2)] by (auto simp: bulk_with_def scan_bulk_def)
next
  case False
  with bulk_loop_framed[OF assms, of n] show ?thesis by (simp add: bulk_with_def)
qed

end
