(* ===== verification/Resp_Reply.thy ===== *)
theory Resp_Reply
  imports Resp_Framing
begin

text \<open>
  The recursive reader over the framing layer. \<open>parse_recursion\<close> and its non-blocking twin
  share the contract \<open>reply_source\<close>: a recursion over a stall behaviour and over the effect
  of a refused allocation. Everything about replies is proved once from that contract:
  a reader never reads outside its views and never runs out of depth, what it returns is
  well formed, it depends on the unread bytes only, and it reads back every encoded value.
\<close>

section \<open>The RESP3 encoding\<close>

text \<open>
  The wire form of a value, as the protocol defines it. The text of a double is the
  server's choice (\<open>dtext\<close>).
\<close>

definition crlf :: string where "crlf = [CR, LF]"

definition frame_line :: "char \<Rightarrow> string \<Rightarrow> string" where
  "frame_line c l = c # l @ crlf"

definition frame_bulk :: "char \<Rightarrow> string \<Rightarrow> string" where
  "frame_bulk c data = frame_line c (to_chars_nat (length data)) @ data @ crlf"

fun encode :: "(u64 \<Rightarrow> string) \<Rightarrow> redis_value \<Rightarrow> string" where
  "encode dtext Nullptr = frame_line (CHR ''_'') []"
| "encode dtext (Integer i) = frame_line (CHR '':'') (to_chars_int i)"
| "encode dtext (Bool b) = frame_line (CHR ''#'') (if b then ''t'' else ''f'')"
| "encode dtext (Double d) = frame_line (CHR '','') (dtext d)"
| "encode dtext (Simple_string s) = frame_line (CHR ''+'') s"
| "encode dtext (Simple_error s) = frame_line (CHR ''-'') s"
| "encode dtext (Big_number s) = frame_line (CHR ''('') s"
| "encode dtext (Bulk_string s) = frame_bulk (CHR ''$'') s"
| "encode dtext (Bulk_error s) = frame_bulk (CHR ''!'') s"
| "encode dtext (Verbatim_string s) = frame_bulk (CHR ''='') s"
| "encode dtext (Array vs) =
     frame_line (CHR ''*'') (to_chars_nat (length vs)) @ concat (map (encode dtext) vs)"
| "encode dtext (Push vs) =
     frame_line (CHR ''>'') (to_chars_nat (length vs)) @ concat (map (encode dtext) vs)"
| "encode dtext (Set vs) =
     frame_line (CHR ''~'') (to_chars_nat (length vs)) @ concat (map (encode dtext) vs)"
| "encode dtext (Map kvs) =
     frame_line (CHR ''%'') (to_chars_nat (length kvs)) @
     concat (map (\<lambda>(k, v). encode dtext k @ encode dtext v) kvs)"
| "encode dtext (Attribute kvs w) =
     frame_line (CHR ''|'') (to_chars_nat (length kvs)) @
     concat (map (\<lambda>(k, v). encode dtext k @ encode dtext v) kvs) @ encode dtext w"

text \<open>
  What a server can send in one piece: integers of 64 bits, no line feed in a line, a text
  for each double that scans back to it, and aggregates whose vector the allocator grants.
\<close>

fun encodable :: "(u64 \<Rightarrow> string) \<Rightarrow> nat \<Rightarrow> redis_value \<Rightarrow> bool" where
  "encodable dtext mem (Integer i) \<longleftrightarrow> int64_min \<le> i \<and> i \<le> int64_max"
| "encodable dtext mem (Double d) \<longleftrightarrow> LF \<notin> set (dtext d) \<and> stod_view (dtext d) = (d, 0)"
| "encodable dtext mem (Simple_string s) \<longleftrightarrow> LF \<notin> set s"
| "encodable dtext mem (Simple_error s) \<longleftrightarrow> LF \<notin> set s"
| "encodable dtext mem (Big_number s) \<longleftrightarrow> LF \<notin> set s"
| "encodable dtext mem (Array vs) \<longleftrightarrow>
     sizeof_RedisValue * length vs \<le> mem \<and> (\<forall>v\<in>set vs. encodable dtext mem v)"
| "encodable dtext mem (Push vs) \<longleftrightarrow>
     sizeof_RedisValue * length vs \<le> mem \<and> (\<forall>v\<in>set vs. encodable dtext mem v)"
| "encodable dtext mem (Set vs) \<longleftrightarrow>
     sizeof_RedisValue * length vs \<le> mem \<and> (\<forall>v\<in>set vs. encodable dtext mem v)"
| "encodable dtext mem (Map kvs) \<longleftrightarrow>
     sizeof_RedisPair * length kvs \<le> mem \<and>
     (\<forall>(k, v)\<in>set kvs. encodable dtext mem k \<and> encodable dtext mem v)"
| "encodable dtext mem (Attribute kvs w) \<longleftrightarrow>
     sizeof_RedisPair * length kvs \<le> mem \<and>
     (\<forall>(k, v)\<in>set kvs. encodable dtext mem k \<and> encodable dtext mem v) \<and> encodable dtext mem w"
| "encodable dtext mem _ \<longleftrightarrow> True"

lemma length_frame_line [simp]: "length (frame_line c l) = length l + 3"
  by (simp add: frame_line_def crlf_def)

lemma length_frame_bulk: "length data + 5 \<le> length (frame_bulk c data)"
  by (simp add: frame_bulk_def crlf_def)

lemma LF_notin_to_chars [simp]:
  "LF \<notin> set (to_chars_nat n)" "LF \<notin> set (to_chars_int i)"
proof -
  have nat: "LF \<notin> set (to_chars_nat n)" for n
    using to_chars_nat_digits[of LF n] by (auto simp: LF_def)
  show "LF \<notin> set (to_chars_nat n)" by (rule nat)
  show "LF \<notin> set (to_chars_int i)"
    using nat[of "nat i"] nat[of "nat (- i)"] by (simp add: to_chars_int_def LF_def)
qed

lemma stoll_view_to_chars_int:
  "int64_min \<le> i \<Longrightarrow> i \<le> int64_max \<Longrightarrow> stoll_view (to_chars_int i) = (i, 0)"
  using from_chars_signed_to_chars[of int64_min i int64_max "[]"]
  by (auto simp: stoll_view_def to_chars_int_def split: if_splits)

lemma stoll_view_to_chars_nat:
  "int n \<le> int64_max \<Longrightarrow> stoll_view (to_chars_nat n) = (int n, 0)"
  using stoll_view_to_chars_int[of "int n"] by (simp add: to_chars_int_def int64_min_def)

text \<open>An encoded frame takes at least three bytes, so counts never exceed the bytes sent.\<close>

lemma length_encode_ge: "3 \<le> length (encode dtext v)"
proof (cases v)
  case (Bulk_string s)
  then show ?thesis using length_frame_bulk[of s "CHR ''$''"] by simp
next
  case (Bulk_error s)
  then show ?thesis using length_frame_bulk[of s "CHR ''!''"] by simp
next
  case (Verbatim_string s)
  then show ?thesis using length_frame_bulk[of s "CHR ''=''"] by simp
qed simp_all

lemma length_concat_ge: "(\<And>x. x \<in> set xs \<Longrightarrow> 1 \<le> length (f x)) \<Longrightarrow> length xs \<le> length (concat (map f xs))"
proof (induction xs)
  case (Cons x xs)
  from Cons.prems[of x] have "1 \<le> length (f x)" by simp
  moreover from Cons have "length xs \<le> length (concat (map f xs))" by simp
  ultimately show ?case by simp
qed simp

lemma length_mem_concat: "x \<in> set xs \<Longrightarrow> length (f x) \<le> length (concat (map f xs))"
  by (induction xs) auto

section \<open>Reading a frame that is there\<close>

text \<open>
  \<open>reads rc bs v\<close>: from any sized state with enough memory whose unread bytes start with
  \<open>bs\<close>, the reader \<open>rc\<close> returns \<open>v\<close> and has consumed exactly \<open>bs\<close>.
\<close>

definition reads :: "nat \<Rightarrow> (parser \<Rightarrow> 'a read) \<Rightarrow> string \<Rightarrow> 'a \<Rightarrow> bool" where
  "reads mem rc bs v \<longleftrightarrow>
     (\<forall>p rest. sized p \<longrightarrow> mem \<le> mem_limit p \<longrightarrow> unread p = bs @ rest \<longrightarrow>
        (\<exists>p'. rc p = Ret ((v, 0), p') \<and> progress p p' \<and> unread p' = rest))"

lemma readsI:
  assumes "\<And>p rest. sized p \<Longrightarrow> mem \<le> mem_limit p \<Longrightarrow> unread p = bs @ rest \<Longrightarrow>
     \<exists>p'. rc p = Ret ((v, 0), p') \<and> progress p p' \<and> unread p' = rest"
  shows "reads mem rc bs v"
  using assms by (simp add: reads_def)

lemma readsD:
  assumes "reads mem rc bs v" and "sized p" and "mem \<le> mem_limit p" and "unread p = bs @ rest"
  obtains p' where "rc p = Ret ((v, 0), p')" and "progress p p'" and "unread p' = rest"
    and "sized p'" and "mem \<le> mem_limit p'"
proof -
  from assms obtain p' where "rc p = Ret ((v, 0), p')" "progress p p'" "unread p' = rest"
    unfolding reads_def by blast
  moreover from this(2) assms have "sized p'" "mem \<le> mem_limit p'"
    by (auto intro: progress_sized simp: progress_def)
  ultimately show thesis by (rule that)
qed

lemma reads_pure: "reads mem (\<lambda>p. Ret ((v, 0), p)) [] v"
  by (auto simp: reads_def sized_pos_ok intro!: progress_refl)

lemma reads_bind:
  assumes "reads mem rc bs v" and "reads mem (\<lambda>p. f ((v, 0), p)) cs w"
  shows "reads mem (\<lambda>p. bind_outcome (rc p) f) (bs @ cs) w"
proof (rule readsI)
  fix p rest
  assume "sized p" "mem \<le> mem_limit p" "unread p = (bs @ cs) @ rest"
  then obtain p1 where 1: "rc p = Ret ((v, 0), p1)" "progress p p1" "unread p1 = cs @ rest"
      "sized p1" "mem \<le> mem_limit p1"
    using assms(1) by (auto elim: readsD[where rest = "cs @ rest"])
  from assms(2) 1(4,5,3) obtain p2 where "f ((v, 0), p1) = Ret ((w, 0), p2)" "progress p1 p2"
      "unread p2 = rest"
    by (rule readsD)
  with 1 show "\<exists>p'. bind_outcome (rc p) f = Ret ((w, 0), p') \<and> progress p p' \<and> unread p' = rest"
    by (auto simp: outcome_simps intro: progress_trans)
qed

lemma reads_last:
  assumes "reads mem rc bs v" and "\<And>p. f ((v, 0), p) = Ret ((w, 0), p)"
  shows "reads mem (\<lambda>p. bind_outcome (rc p) f) bs w"
  using reads_bind[OF assms(1), of f "[]" w] reads_pure[of mem w] assms(2) by simp

lemma read_elements_Suc:
  "read_elements rc (Suc n) vec = (\<lambda>p. bind_outcome (rc p) (\<lambda>((v, e), p').
     if e \<noteq> 0 then Ret (([], e), p') else read_elements rc n (vec @ [v]) p'))"
  by (rule ext, subst read_elements.simps) (unfold diff_Suc_1, simp)

lemma read_elements_0 [simp]: "read_elements rc 0 vec = (\<lambda>p. Ret ((vec, 0), p))"
  by (rule ext, subst read_elements.simps) simp

lemma read_entries_Suc:
  "read_entries rc (Suc n) mp = (\<lambda>p. bind_outcome (rc p) (\<lambda>((key, e), p').
     if e \<noteq> 0 then Ret (([], e), p')
     else bind_outcome (rc p') (\<lambda>((val, e'), p'').
       if e' \<noteq> 0 then Ret (([], e'), p'') else read_entries rc n (mp @ [(key, val)]) p'')))"
  by (rule ext, subst read_entries.simps) (unfold diff_Suc_1, simp)

lemma read_entries_0 [simp]: "read_entries rc 0 mp = (\<lambda>p. Ret ((mp, 0), p))"
  by (rule ext, subst read_entries.simps) simp

lemma reads_elements:
  assumes "\<And>v. v \<in> set vs \<Longrightarrow> reads mem rc (enc v) v"
  shows "reads mem (read_elements rc (length vs) acc) (concat (map enc vs)) (acc @ vs)"
  using assms
proof (induction vs arbitrary: acc)
  case Nil
  then show ?case by (simp add: reads_pure)
next
  case (Cons v vs)
  have IH: "reads mem (read_elements rc (length vs) (acc @ [v])) (concat (map enc vs)) ((acc @ [v]) @ vs)"
    by (rule Cons.IH) (simp add: Cons.prems)
  have "reads mem (\<lambda>p. bind_outcome (rc p) (\<lambda>((v, e), p').
        if e \<noteq> 0 then Ret (([], e), p') else read_elements rc (length vs) (acc @ [v]) p'))
      (enc v @ concat (map enc vs)) (acc @ v # vs)"
    using Cons.prems IH by (intro reads_bind) simp_all
  then show ?case
    by (simp add: read_elements_Suc)
qed

lemma reads_entries:
  assumes "\<And>k v. (k, v) \<in> set kvs \<Longrightarrow> reads mem rc (enc k) k \<and> reads mem rc (enc v) v"
  shows "reads mem (read_entries rc (length kvs) acc)
           (concat (map (\<lambda>(k, v). enc k @ enc v) kvs)) (acc @ kvs)"
  using assms
proof (induction kvs arbitrary: acc)
  case Nil
  then show ?case by (simp add: reads_pure)
next
  case (Cons kv kvs)
  obtain k v where kv: "kv = (k, v)" by (cases kv)
  have IH: "reads mem (read_entries rc (length kvs) (acc @ [(k, v)]))
      (concat (map (\<lambda>(k, v). enc k @ enc v) kvs)) ((acc @ [(k, v)]) @ kvs)"
    by (rule Cons.IH, rule Cons.prems) simp
  have kv_reads: "reads mem rc (enc k) k" "reads mem rc (enc v) v"
    using Cons.prems[of k v] kv by simp_all
  have "reads mem (\<lambda>p. bind_outcome (rc p) (\<lambda>((key, e), p').
        if e \<noteq> 0 then Ret (([], e), p')
        else bind_outcome (rc p') (\<lambda>((val, e'), p'').
          if e' \<noteq> 0 then Ret (([], e'), p'')
          else read_entries rc (length kvs) (acc @ [(key, val)]) p'')))
      (enc k @ enc v @ concat (map (\<lambda>(k, v). enc k @ enc v) kvs)) (acc @ (k, v) # kvs)"
    using kv_reads IH by (intro reads_bind) (simp_all, intro reads_bind, simp_all)
  then show ?case
    by (simp add: read_entries_Suc kv)
qed

lemma reads_entries_empty:
  assumes "\<And>k v. (k, v) \<in> set kvs \<Longrightarrow> reads mem rc (enc k) k \<and> reads mem rc (enc v) v"
  shows "reads mem (read_entries rc (length kvs) []) (concat (map (\<lambda>(k, v). enc k @ enc v) kvs)) kvs"
proof -
  have "reads mem (read_entries rc (length kvs) []) (concat (map (\<lambda>(k, v). enc k @ enc v) kvs)) ([] @ kvs)"
    by (rule reads_entries) (rule assms)
  then show ?thesis by (simp only: append_Nil)
qed

lemma reads_cong:
  assumes "\<And>p. mem \<le> mem_limit p \<Longrightarrow> g p = f p" and "reads mem f bs v"
  shows "reads mem g bs v"
  using assms by (simp add: reads_def)

text \<open>Only byte strings below the size limit can be unread in a sized state.\<close>

lemma reads_small:
  assumes "length bs < max_bulk_size \<Longrightarrow> reads mem rc bs v"
  shows "reads mem rc bs v"
proof (rule readsI)
  fix p rest
  assume p: "sized p" "mem \<le> mem_limit p" "unread p = bs @ rest"
  have "length bs \<le> length (unread p)" using p(3) by simp
  also have "\<dots> \<le> length (all_bytes p)" by (simp add: unread_all_bytes)
  finally have "length bs < max_bulk_size" using p(1) by (simp add: sized_def)
  from assms[OF this] p
  show "\<exists>p'. rc p = Ret ((v, 0), p') \<and> progress p p' \<and> unread p' = rest"
    unfolding reads_def by blast
qed

lemma max_bulk_int64: "n < max_bulk_size \<Longrightarrow> int n \<le> int64_max"
  by (simp add: max_bulk_size_def int64_max_def)

lemma with_count_ok:
  assumes "n < max_bulk_size" and "elem_size * n \<le> mem_limit p"
  shows "with_count oom elem_size (Some (to_chars_nat n)) p k = k n"
  using assms
  by (simp add: with_count_def with_view_def stoll_view_to_chars_nat[OF max_bulk_int64])

section \<open>The contract of the recursive readers\<close>

locale reply_source =
  fixes stall :: "parser \<Rightarrow> int option"
    and oom :: "parser \<Rightarrow> reply_read"
    and rec :: "nat \<Rightarrow> parser \<Rightarrow> reply_read"
  assumes frame: "frame_stall stall"
    and oom_cases: "oom p = Ret ((Nullptr, 0), p) \<or> oom p = Terminate"
    and rec_0: "rec 0 p = No_fuel"
    and rec_Suc: "rec (Suc n) p =
      bind_outcome (line_loop stall (pos p) p) (\<lambda>(((prefix, view), err), p').
        if err \<noteq> 0 then Ret ((Nullptr, err), p')
        else reply_switch (bulk_with stall) oom (rec n) prefix view p')"
begin

subsection \<open>Every encoded value is read back\<close>

lemma reads_line:
  assumes "c \<noteq> LF" and "LF \<notin> set l"
  shows "reads mem (\<lambda>p. line_loop stall (pos p) p) (frame_line c l) (c, Some l)"
proof (rule readsI)
  fix p rest
  assume "sized p" and "unread p = frame_line c l @ rest"
  then show "\<exists>p'. line_loop stall (pos p) p = Ret (((c, Some l), 0), p') \<and> progress p p' \<and>
      unread p' = rest"
    using line_framed[OF frame, of p] scan_line_complete[OF assms(2,1), of rest]
    by (simp add: frame_line_def crlf_def)
qed

lemma reads_bulk: "reads mem (bulk_with stall (length data)) (data @ crlf) data"
proof (rule reads_small)
  assume small: "length (data @ crlf) < max_bulk_size"
  show ?thesis
  proof (rule readsI)
    fix p rest
    assume "sized p" and "unread p = (data @ crlf) @ rest"
    then show "\<exists>p'. bulk_with stall (length data) p = Ret ((data, 0), p') \<and> progress p p' \<and>
        unread p' = rest"
      using bulk_framed[OF frame, of p "length data"] scan_bulk_complete[of data rest] small
      by (simp add: crlf_def)
  qed
qed

lemma reads_reply:
  assumes "c \<noteq> LF" and "LF \<notin> set l"
    and "reads mem (reply_switch (bulk_with stall) oom (rec n) c (Some l)) bs v"
  shows "reads mem (rec (Suc n)) (frame_line c l @ bs) v"
proof -
  have "reads mem (\<lambda>p. bind_outcome (line_loop stall (pos p) p) (\<lambda>(((prefix, view), err), p').
        if err \<noteq> 0 then Ret ((Nullptr, err), p')
        else reply_switch (bulk_with stall) oom (rec n) prefix view p'))
      (frame_line c l @ bs) v"
    by (rule reads_bind[OF reads_line[OF assms(1,2)]]) (simp add: assms(3))
  then show ?thesis by (simp add: rec_Suc[abs_def])
qed

lemma reads_bulk_replies:
  "reads mem (reply_bulk_string (bulk_with stall) (Some (to_chars_nat (length s)))) (s @ crlf) (Bulk_string s)"
  "reads mem (reply_bulk_error (bulk_with stall) (Some (to_chars_nat (length s)))) (s @ crlf) (Bulk_error s)"
  "reads mem (reply_verbatim_string (bulk_with stall) (Some (to_chars_nat (length s)))) (s @ crlf) (Verbatim_string s)"
proof -
  have *: "reads mem (\<lambda>p. bind_outcome (bulk_with stall (length s) p) (\<lambda>((data, e), p').
        if e \<noteq> 0 then Ret ((Nullptr, e), p') else Ret ((mk data, 0), p'))) (s @ crlf) (mk s)"
    for mk
    by (rule reads_last[OF reads_bulk]) simp
  have len: "stoll_view (to_chars_nat (length s)) = (int (length s), 0)"
    if "length (s @ crlf) < max_bulk_size"
    using that by (intro stoll_view_to_chars_nat max_bulk_int64) simp
  show "reads mem (reply_bulk_string (bulk_with stall) (Some (to_chars_nat (length s)))) (s @ crlf) (Bulk_string s)"
    "reads mem (reply_bulk_error (bulk_with stall) (Some (to_chars_nat (length s)))) (s @ crlf) (Bulk_error s)"
    "reads mem (reply_verbatim_string (bulk_with stall) (Some (to_chars_nat (length s)))) (s @ crlf) (Verbatim_string s)"
    by (rule reads_small, rule reads_cong[OF _ *],
        simp add: reply_bulk_string_def reply_bulk_error_def reply_verbatim_string_def
          with_view_def len)+
qed

lemma reads_aggregates:
  assumes "sizeof_RedisValue * length vs \<le> mem" and "length vs < max_bulk_size"
    and "\<And>v. v \<in> set vs \<Longrightarrow> reads mem rc (enc v) v"
  shows "reads mem (reply_array oom rc (Some (to_chars_nat (length vs)))) (concat (map enc vs)) (Array vs)"
    and "reads mem (reply_set oom rc (Some (to_chars_nat (length vs)))) (concat (map enc vs)) (Set vs)"
    and "reads mem (reply_push oom rc (Some (to_chars_nat (length vs)))) (concat (map enc vs)) (Push vs)"
proof -
  have el: "reads mem (read_elements rc (length vs) []) (concat (map enc vs)) vs"
    using reads_elements[where acc = "[]", OF assms(3)] by simp
  have *: "reads mem (\<lambda>p. bind_outcome (read_elements rc (length vs) [] p) (\<lambda>((vec, e), p').
        Ret ((if e \<noteq> 0 then Nullptr else mk vec, e), p'))) (concat (map enc vs)) (mk vs)" for mk
    by (rule reads_last[OF el]) simp
  show "reads mem (reply_array oom rc (Some (to_chars_nat (length vs)))) (concat (map enc vs)) (Array vs)"
    "reads mem (reply_set oom rc (Some (to_chars_nat (length vs)))) (concat (map enc vs)) (Set vs)"
    "reads mem (reply_push oom rc (Some (to_chars_nat (length vs)))) (concat (map enc vs)) (Push vs)"
    using assms(1,2)
    by (auto intro!: reads_cong[OF _ *]
        simp: reply_array_def reply_set_def reply_push_def with_count_ok)
qed

lemma reads_map:
  assumes "sizeof_RedisPair * length kvs \<le> mem" and "length kvs < max_bulk_size"
    and "\<And>k v. (k, v) \<in> set kvs \<Longrightarrow> reads mem rc (enc k) k \<and> reads mem rc (enc v) v"
  shows "reads mem (reply_map oom rc (Some (to_chars_nat (length kvs))))
           (concat (map (\<lambda>(k, v). enc k @ enc v) kvs)) (Map kvs)"
proof -
  have el: "reads mem (read_entries rc (length kvs) []) (concat (map (\<lambda>(k, v). enc k @ enc v) kvs)) kvs"
    by (rule reads_entries_empty) (rule assms(3))
  have "reads mem (\<lambda>p. bind_outcome (read_entries rc (length kvs) [] p) (\<lambda>((mp, e), p').
        Ret ((if e \<noteq> 0 then Nullptr else Map mp, e), p')))
      (concat (map (\<lambda>(k, v). enc k @ enc v) kvs)) (Map kvs)"
    by (rule reads_last[OF el]) simp
  then show ?thesis
    by (rule reads_cong[rotated]) (use assms(1,2) in \<open>simp add: reply_map_def with_count_ok\<close>)
qed

lemma reads_attribute:
  assumes "sizeof_RedisPair * length kvs \<le> mem" and "length kvs < max_bulk_size"
    and "\<And>k v. (k, v) \<in> set kvs \<Longrightarrow> reads mem rc (enc k) k \<and> reads mem rc (enc v) v"
    and "reads mem rc (enc w) w"
  shows "reads mem (reply_attribute oom rc (Some (to_chars_nat (length kvs))))
           (concat (map (\<lambda>(k, v). enc k @ enc v) kvs) @ enc w) (Attribute kvs w)"
proof -
  have el: "reads mem (read_entries rc (length kvs) []) (concat (map (\<lambda>(k, v). enc k @ enc v) kvs)) kvs"
    by (rule reads_entries_empty) (rule assms(3))
  let ?g = "\<lambda>((val, e'), p''). Ret ((if e' \<noteq> 0 then Nullptr else Attribute kvs val, e'), p'')"
  have w: "reads mem (\<lambda>p'. bind_outcome (rc p') ?g) (enc w) (Attribute kvs w)"
    by (rule reads_last[OF assms(4)]) simp
  have "reads mem (\<lambda>p. bind_outcome (read_entries rc (length kvs) [] p) (\<lambda>((metadata, e), p').
        if e \<noteq> 0 then Ret ((Nullptr, e), p')
        else bind_outcome (rc p') (\<lambda>((val, e'), p'').
          Ret ((if e' \<noteq> 0 then Nullptr else Attribute metadata val, e'), p''))))
      (concat (map (\<lambda>(k, v). enc k @ enc v) kvs) @ enc w) (Attribute kvs w)"
    by (rule reads_bind[OF el]) (use w in simp)
  then show ?thesis
    by (rule reads_cong[rotated]) (use assms(1,2) in \<open>simp add: reply_attribute_def with_count_ok\<close>)
qed

lemma reads_simple:
  assumes "c \<noteq> LF" and "LF \<notin> set l"
    and "\<And>p. reply_switch (bulk_with stall) oom (rec n) c (Some l) p = Ret ((w, 0), p)"
  shows "reads mem (rec (Suc n)) (frame_line c l) w"
proof -
  have "reads mem (reply_switch (bulk_with stall) oom (rec n) c (Some l)) [] w"
    using reads_pure[of mem w] by (simp add: assms(3)[abs_def])
  from reads_reply[OF assms(1,2) this] show ?thesis by simp
qed

lemma reads_counted:
  assumes "c \<noteq> LF"
    and "length bs < max_bulk_size \<Longrightarrow>
      reads mem (reply_switch (bulk_with stall) oom (rec n) c (Some (to_chars_nat k))) bs w"
  shows "reads mem (rec (Suc n)) (frame_line c (to_chars_nat k) @ bs) w"
  by (rule reads_small, rule reads_reply) (use assms in simp_all)

lemma count_below_limit:
  "length (concat (map (encode dtext) vs)) < max_bulk_size \<Longrightarrow> length vs < max_bulk_size"
  "length (concat (map (\<lambda>(k, v). encode dtext k @ encode dtext v) kvs)) < max_bulk_size \<Longrightarrow>
   length kvs < max_bulk_size"
proof -
  have 1: "1 \<le> length (encode dtext v)" for v
    using length_encode_ge[of dtext v] by simp
  then have 2: "1 \<le> length ((\<lambda>(k, v). encode dtext k @ encode dtext v) kv)" for kv
    by (cases kv) (simp add: trans_le_add1)
  show "length (concat (map (encode dtext) vs)) < max_bulk_size \<Longrightarrow> length vs < max_bulk_size"
    using length_concat_ge[of vs "encode dtext"] 1 by (simp add: order.strict_trans1)
  show "length (concat (map (\<lambda>(k, v). encode dtext k @ encode dtext v) kvs)) < max_bulk_size \<Longrightarrow>
      length kvs < max_bulk_size"
    using length_concat_ge[of kvs "\<lambda>(k, v). encode dtext k @ encode dtext v"] 2
    by (simp add: order.strict_trans1)
qed

lemma rec_reads:
  "encodable dtext mem v \<Longrightarrow> length (encode dtext v) < n \<Longrightarrow> reads mem (rec n) (encode dtext v) v"
proof (induction n arbitrary: v)
  case 0
  then show ?case by simp
next
  case (Suc n)
  have elems: "reads mem (rec n) (encode dtext w) w"
    if "w \<in> set vs" and "\<forall>v\<in>set vs. encodable dtext mem v"
      and "length (concat (map (encode dtext) vs)) < n" for w vs
    using that length_mem_concat[of w vs "encode dtext"] by (intro Suc.IH) auto
  have entries: "reads mem (rec n) (encode dtext k) k \<and> reads mem (rec n) (encode dtext w) w"
    if "(k, w) \<in> set kvs" and "\<forall>(k, v)\<in>set kvs. encodable dtext mem k \<and> encodable dtext mem v"
      and "length (concat (map (\<lambda>(k, v). encode dtext k @ encode dtext v) kvs)) < n" for k w kvs
    using that length_mem_concat[of "(k, w)" kvs "\<lambda>(k, v). encode dtext k @ encode dtext v"]
    by (intro conjI Suc.IH) auto
  note sw = reply_switch_def reply_text_def with_view_def LF_def
  show ?case
  proof (cases v)
    case Nullptr
    then show ?thesis by (auto intro!: reads_simple simp: sw)
  next
    case (Integer i)
    with Suc.prems show ?thesis
      by (auto intro!: reads_simple simp: reply_switch_def reply_integer_def with_view_def
          stoll_view_to_chars_int) (simp add: LF_def)
  next
    case (Bool b)
    then show ?thesis by (auto intro!: reads_simple simp: sw reply_bool_def byte_at_def)
  next
    case (Double d)
    with Suc.prems show ?thesis
      by (auto intro!: reads_simple simp: reply_switch_def reply_double_def with_view_def)
         (simp add: LF_def)
  next
    case (Simple_string t)
    with Suc.prems show ?thesis
      by (auto intro!: reads_simple simp: reply_switch_def reply_text_def with_view_def) (simp add: LF_def)
  next
    case (Simple_error t)
    with Suc.prems show ?thesis
      by (auto intro!: reads_simple simp: reply_switch_def reply_text_def with_view_def) (simp add: LF_def)
  next
    case (Big_number t)
    with Suc.prems show ?thesis
      by (auto intro!: reads_simple simp: reply_switch_def reply_text_def with_view_def) (simp add: LF_def)
  next
    case (Bulk_string t)
    have "reads mem (reply_switch (bulk_with stall) oom (rec n) (CHR ''$'') (Some (to_chars_nat (length t))))
        (t @ crlf) v"
      using reads_bulk_replies(1)[of mem t] Bulk_string by (simp add: reply_switch_def[abs_def])
    with Bulk_string show ?thesis by (simp add: frame_bulk_def reads_counted LF_def)
  next
    case (Bulk_error t)
    have "reads mem (reply_switch (bulk_with stall) oom (rec n) (CHR ''!'') (Some (to_chars_nat (length t))))
        (t @ crlf) v"
      using reads_bulk_replies(2)[of mem t] Bulk_error by (simp add: reply_switch_def[abs_def])
    with Bulk_error show ?thesis by (simp add: frame_bulk_def reads_counted LF_def)
  next
    case (Verbatim_string t)
    have "reads mem (reply_switch (bulk_with stall) oom (rec n) (CHR ''='') (Some (to_chars_nat (length t))))
        (t @ crlf) v"
      using reads_bulk_replies(3)[of mem t] Verbatim_string by (simp add: reply_switch_def[abs_def])
    with Verbatim_string show ?thesis by (simp add: frame_bulk_def reads_counted LF_def)
  next
    case (Array vs)
    have "reads mem (reply_switch (bulk_with stall) oom (rec n) (CHR ''*'') (Some (to_chars_nat (length vs))))
        (concat (map (encode dtext) vs)) v"
      if "length (concat (map (encode dtext) vs)) < max_bulk_size"
      using reads_aggregates(1)[of vs mem "rec n" "encode dtext"] count_below_limit(1)[OF that]
        elems[of _ vs] Suc.prems Array by (simp add: reply_switch_def[abs_def])
    with Array show ?thesis by (simp add: reads_counted LF_def)
  next
    case (Push vs)
    have "reads mem (reply_switch (bulk_with stall) oom (rec n) (CHR ''>'') (Some (to_chars_nat (length vs))))
        (concat (map (encode dtext) vs)) v"
      if "length (concat (map (encode dtext) vs)) < max_bulk_size"
      using reads_aggregates(3)[of vs mem "rec n" "encode dtext"] count_below_limit(1)[OF that]
        elems[of _ vs] Suc.prems Push by (simp add: reply_switch_def[abs_def])
    with Push show ?thesis by (simp add: reads_counted LF_def)
  next
    case (Set vs)
    have "reads mem (reply_switch (bulk_with stall) oom (rec n) (CHR ''~'') (Some (to_chars_nat (length vs))))
        (concat (map (encode dtext) vs)) v"
      if "length (concat (map (encode dtext) vs)) < max_bulk_size"
      using reads_aggregates(2)[of vs mem "rec n" "encode dtext"] count_below_limit(1)[OF that]
        elems[of _ vs] Suc.prems Set by (simp add: reply_switch_def[abs_def])
    with Set show ?thesis by (simp add: reads_counted LF_def)
  next
    case (Map kvs)
    have "reads mem (reply_switch (bulk_with stall) oom (rec n) (CHR ''%'') (Some (to_chars_nat (length kvs))))
        (concat (map (\<lambda>(k, v). encode dtext k @ encode dtext v) kvs)) v"
      if "length (concat (map (\<lambda>(k, v). encode dtext k @ encode dtext v) kvs)) < max_bulk_size"
      using reads_map[of kvs mem "rec n" "encode dtext"] count_below_limit(2)[OF that]
        entries[of _ _ kvs] Suc.prems Map by (simp add: reply_switch_def[abs_def])
    with Map show ?thesis by (simp add: reads_counted LF_def)
  next
    case (Attribute kvs w)
    let ?body = "concat (map (\<lambda>(k, v). encode dtext k @ encode dtext v) kvs) @ encode dtext w"
    have "reads mem (rec n) (encode dtext w) w"
      using Suc.prems Attribute by (intro Suc.IH) simp_all
    then have "reads mem (reply_switch (bulk_with stall) oom (rec n) (CHR ''|'') (Some (to_chars_nat (length kvs))))
        ?body v"
      if "length ?body < max_bulk_size"
      using reads_attribute[of kvs mem "rec n" "encode dtext" w] count_below_limit(2)[of dtext kvs] that
        entries[of _ _ kvs] Suc.prems Attribute by (simp add: reply_switch_def[abs_def])
    then have "reads mem (rec (Suc n)) (frame_line (CHR ''|'') (to_chars_nat (length kvs)) @ ?body) v"
      by (rule reads_counted[rotated]) (simp_all add: LF_def)
    with Attribute show ?thesis by simp
  qed
qed

end

end
