(* ===== verification/Resp_Safety.thy ===== *)
theory Resp_Safety
  imports Resp_Reply
begin

text \<open>
  What holds of a recursive reader on every input, malformed, oversized or cut short: no
  read outside a view or the buffer, never out of depth, well-formed values, a position
  inside the buffer, and at least two bytes consumed by every reply.
\<close>

section \<open>Safe results\<close>

text \<open>
  \<open>safe k Q p r\<close>: \<open>r\<close> is neither \<open>UB\<close> nor \<open>No_fuel\<close>; a value it returns satisfies \<open>Q\<close>
  and leaves the position inside the buffer; without an error at least \<open>k\<close> bytes less are
  unread.
\<close>

definition safe :: "nat \<Rightarrow> ('a \<Rightarrow> bool) \<Rightarrow> parser \<Rightarrow> 'a read \<Rightarrow> bool" where
  "safe k Q p r \<longleftrightarrow> r \<noteq> UB \<and> r \<noteq> No_fuel \<and>
     (\<forall>v e p'. r = Ret ((v, e), p') \<longrightarrow> pos_ok p' \<and> Q v \<and>
        (e = 0 \<longrightarrow> length (unread p') + k \<le> length (unread p)))"

lemma safe_Ret [simp]:
  "safe k Q p (Ret ((v, e), p')) \<longleftrightarrow>
     pos_ok p' \<and> Q v \<and> (e = 0 \<longrightarrow> length (unread p') + k \<le> length (unread p))"
  by (auto simp: safe_def)

lemma safe_outcomes [simp]:
  "safe k Q p Suspended" "safe k Q p Terminate" "\<not> safe k Q p UB" "\<not> safe k Q p No_fuel"
  by (simp_all add: safe_def)

lemma safe_weaken:
  "safe k Q p r \<Longrightarrow> j \<le> k \<Longrightarrow> (\<And>v. Q v \<Longrightarrow> R v) \<Longrightarrow> safe j R p r"
  by (fastforce simp: safe_def)

lemma safe_from:
  "safe j Q p' r \<Longrightarrow> length (unread p') + k \<le> length (unread p) \<Longrightarrow> safe (k + j) Q p r"
  by (fastforce simp: safe_def)

lemma safe_bind:
  assumes "safe k Q p m"
    and "\<And>v p'. Q v \<Longrightarrow> pos_ok p' \<Longrightarrow> length (unread p') + k \<le> length (unread p) \<Longrightarrow>
      safe j R p' (f ((v, 0), p'))"
    and "\<And>v e p'. e \<noteq> 0 \<Longrightarrow> Q v \<Longrightarrow> pos_ok p' \<Longrightarrow> safe (k + j) R p (f ((v, e), p'))"
  shows "safe (k + j) R p (bind_outcome m f)"
proof (cases m)
  case (Ret x)
  obtain v e p' where x: "x = ((v, e), p')" by (metis surj_pair)
  with Ret assms(1) have q: "pos_ok p'" "Q v" "e = 0 \<longrightarrow> length (unread p') + k \<le> length (unread p)"
    by auto
  have "safe (k + j) R p (f ((v, e), p'))"
  proof (cases "e = 0")
    case True
    with q have "safe j R p' (f ((v, 0), p'))" by (intro assms(2)) simp_all
    with True q show ?thesis by (auto intro: safe_from)
  next
    case False
    with q show ?thesis by (intro assms(3)) simp_all
  qed
  with Ret x show ?thesis by (simp add: outcome_simps)
qed (use assms(1) in \<open>auto simp: outcome_simps\<close>)

section \<open>Lines and bulks\<close>

definition line_ok :: "line \<Rightarrow> bool" where
  "line_ok l \<longleftrightarrow> (snd l = None \<longrightarrow> fst l = CR)"

lemma pos_ok_feed: "pos_ok p \<Longrightarrow> pos_ok (p\<lparr>stream := es, linebuffer := linebuffer p @ bs\<rparr>)"
  by (simp add: pos_ok_def)

lemma unread_pos_less:
  assumes "pos p + k \<le> n" and "n \<le> length (linebuffer p)"
  shows "length (unread (p\<lparr>pos := n\<rparr>)) + k \<le> length (unread p)"
  using assms by (simp add: unread_all_bytes all_bytes_def)

lemma line_found_safe:
  assumes "pos_ok p" and "find_from LF (linebuffer p) fd = Some i" and "pos p \<le> fd"
  shows "safe 2 line_ok p
     (if i = pos p \<or> linebuffer p ! (i - 1) \<noteq> CR then Ret ((no_line, -1), p)
      else Ret (((linebuffer p ! pos p, line_view (linebuffer p) (pos p) i), 0), p\<lparr>pos := i + 1\<rparr>))"
proof -
  from find_from_Some[OF assms(2)] assms(3) have i: "pos p \<le> i" "i < length (linebuffer p)" by auto
  show ?thesis
  proof (cases "i = pos p \<or> linebuffer p ! (i - 1) \<noteq> CR")
    case True
    then show ?thesis using assms(1) by (auto simp: no_line_def line_ok_def)
  next
    case False
    then have "pos p + 2 \<le> i + 1" using i by simp
    moreover have "line_ok (linebuffer p ! pos p, line_view (linebuffer p) (pos p) i)"
    proof (cases "i < pos p + 2")
      case True
      with False i have "i = Suc (pos p)" by auto
      with False show ?thesis by (simp add: line_ok_def)
    next
      case False
      with i show ?thesis by (auto simp: line_ok_def line_view_def)
    qed
    ultimately show ?thesis
      using False i unread_pos_less[of p 2 "i + 1"] by (simp add: pos_ok_def)
  qed
qed

lemma line_loop_safe:
  assumes "frame_stall stall" and "pos_ok p" and "pos p \<le> fd"
  shows "safe 2 line_ok p (line_loop stall fd p)"
  using assms
proof (induction stall fd p rule: line_loop.induct)
  case (1 stall fd p)
  show ?case
  proof (cases "find_from LF (linebuffer p) fd")
    case (Some i)
    have "pos p \<le> i" "i < length (linebuffer p)"
      using find_from_Some[OF Some] "1.prems"(3) by auto
    with line_found_safe[OF "1.prems"(2) Some "1.prems"(3)] show ?thesis
      by (simp add: line_loop_Some[OF Some])
  next
    case None
    from "1.prems"(1,2) show ?thesis
    proof (cases rule: recv_with_cases)
      case stop
      then show ?thesis using None by (subst line_loop.simps) (simp add: outcome_simps)
    next
      case (fail r e es p')
      then show ?thesis using None "1.prems"(2) end_of_nonzero[OF fail(4)]
        by (subst line_loop.simps) (simp add: outcome_simps no_line_def line_ok_def pos_ok_def)
    next
      case (data bs es)
      let ?q = "p\<lparr>stream := es, linebuffer := linebuffer p @ bs\<rparr>"
      show ?thesis
      proof (cases "max_bulk_size \<le> length (linebuffer p) + length bs")
        case True
        then show ?thesis using None data "1.prems"(2)
          by (subst line_loop.simps)
             (simp add: outcome_simps no_line_def line_ok_def pos_ok_def EOVERFLOW_def)
      next
        case False
        have step: "line_loop stall fd p = line_loop stall (length (linebuffer p)) ?q"
          using None data False by (subst line_loop.simps) (simp add: outcome_simps)
        have "safe 2 line_ok ?q (line_loop stall (length (linebuffer p)) ?q)"
          using "1.IH"[OF None, of "((bs, 0), p\<lparr>stream := es\<rparr>)" "(bs, 0)" "p\<lparr>stream := es\<rparr>"]
            "1.prems" data False by (simp add: pos_ok_def)
        then show ?thesis
          using feed_progress(2)[OF "1.prems"(2) data(1,2)] by (simp add: step safe_def)
      qed
    qed
  qed
qed

lemma bulk_loop_safe:
  assumes "frame_stall stall" and "pos_ok p"
  shows "safe 2 (\<lambda>_. True) p (bulk_loop stall n p)"
  using assms
proof (induction stall n p rule: bulk_loop.induct)
  case (1 stall n p)
  show ?case
  proof (cases "n + 2 \<le> length (linebuffer p) - pos p")
    case True
    then have "pos p + 2 \<le> pos p + (n + 2)" "pos p + (n + 2) \<le> length (linebuffer p)"
      using "1.prems"(2) by (simp_all add: pos_ok_def)
    from unread_pos_less[OF this] this True "1.prems"(2) show ?thesis
      by (simp add: bulk_loop_take Let_def pos_ok_def)
  next
    case False
    then have wait: "\<not> (length (linebuffer p) < pos p \<or> n + 2 \<le> length (linebuffer p) - pos p)"
      using "1.prems"(2) by (simp add: pos_ok_def)
    from "1.prems"(1,2) show ?thesis
    proof (cases rule: recv_with_cases)
      case stop
      then show ?thesis using wait by (subst bulk_loop.simps) (simp add: outcome_simps)
    next
      case (fail r e es p')
      then show ?thesis using wait "1.prems"(2) end_of_nonzero[OF fail(4)]
        by (subst bulk_loop.simps) (simp add: outcome_simps pos_ok_def)
    next
      case (data bs es)
      let ?q = "p\<lparr>stream := es, linebuffer := linebuffer p @ bs\<rparr>"
      have step: "bulk_loop stall n p = bulk_loop stall n ?q"
        using wait data by (subst bulk_loop.simps) (simp add: outcome_simps)
      have "safe 2 (\<lambda>_. True) ?q (bulk_loop stall n ?q)"
        using "1.IH"[OF wait, of "((bs, 0), p\<lparr>stream := es\<rparr>)" "(bs, 0)" "p\<lparr>stream := es\<rparr>"]
          "1.prems" data by (simp add: pos_ok_def)
      then show ?thesis
        using feed_progress(2)[OF "1.prems"(2) data(1,2)] by (simp add: step safe_def)
    qed
  qed
qed

lemma bulk_with_safe:
  "frame_stall stall \<Longrightarrow> pos_ok p \<Longrightarrow> safe 0 (\<lambda>_. True) p (bulk_with stall n p)"
  using safe_weaken[OF bulk_loop_safe, of stall p 0 "\<lambda>_. True" n]
  by (simp add: bulk_with_def EOVERFLOW_def)

section \<open>The cases of the switch\<close>

text \<open>A reader that is safe on every state with at most \<open>L\<close> unread bytes.\<close>

definition safe_upto :: "nat \<Rightarrow> (parser \<Rightarrow> reply_read) \<Rightarrow> bool" where
  "safe_upto L rc \<longleftrightarrow>
     (\<forall>p. pos_ok p \<longrightarrow> length (unread p) \<le> L \<longrightarrow> safe 0 wf_value p (rc p))"

lemma read_elements_safe:
  assumes "safe_upto L rc" and "pos_ok p" and "length (unread p) \<le> L"
    and "\<forall>v\<in>set vec. wf_value v"
  shows "safe 0 (\<lambda>vs. \<forall>v\<in>set vs. wf_value v) p (read_elements rc n vec p)"
  using assms(2-)
proof (induction n arbitrary: vec p)
  case 0
  then show ?case by simp
next
  case (Suc n)
  have first: "safe 0 wf_value p (rc p)"
    using assms(1) Suc.prems by (simp add: safe_upto_def)
  have "safe (0 + 0) (\<lambda>vs. \<forall>v\<in>set vs. wf_value v) p (read_elements rc (Suc n) vec p)"
    unfolding read_elements_Suc by (rule safe_bind[OF first]) (use Suc in auto)
  then show ?case by simp
qed

lemma read_entries_safe:
  assumes "safe_upto L rc" and "pos_ok p" and "length (unread p) \<le> L"
    and "\<forall>(k, v)\<in>set mp. wf_value k \<and> wf_value v"
  shows "safe 0 (\<lambda>kvs. \<forall>(k, v)\<in>set kvs. wf_value k \<and> wf_value v) p (read_entries rc n mp p)"
  using assms(2-)
proof (induction n arbitrary: mp p)
  case 0
  then show ?case by simp
next
  case (Suc n)
  let ?Q = "\<lambda>kvs. \<forall>(k, v)\<in>set kvs. wf_value k \<and> wf_value v"
  have rc: "safe 0 wf_value q (rc q)" if "pos_ok q" "length (unread q) \<le> length (unread p)" for q
    using assms(1) Suc.prems(2) that by (simp add: safe_upto_def)
  have inner: "safe (0 + 0) ?Q q (bind_outcome (rc q) (\<lambda>((val, e'), p'').
       if e' \<noteq> 0 then Ret (([], e'), p'') else read_entries rc n (mp @ [(key, val)]) p''))"
    if "wf_value key" "pos_ok q" "length (unread q) + 0 \<le> length (unread p)" for key q
    by (rule safe_bind[OF rc]) (use that Suc in auto)
  have "safe (0 + 0) ?Q p (read_entries rc (Suc n) mp p)"
    unfolding read_entries_Suc
    by (rule safe_bind[OF rc]) (use inner Suc.prems in auto)
  then show ?case by simp
qed

lemma stoll_view_range:
  "stoll_view l = (i, 0) \<Longrightarrow> int64_min \<le> i \<and> i \<le> int64_max"
  using from_chars_signed_ok[of int64_min int64_max l] from_chars_signed_range[of int64_min int64_max l]
  by (fastforce simp: stoll_view_def EINVAL_def ERANGE_def split: if_splits prod.splits)

lemma bulk_reply_safe:
  assumes "frame_stall stall" and "pos_ok p" and "\<And>d. wf_value (mk d)"
  shows "safe 0 wf_value p (bind_outcome (bulk_with stall n p) (\<lambda>((data, e), p').
    if e \<noteq> 0 then Ret ((Nullptr, e), p') else Ret ((mk data, 0), p')))"
proof -
  have "safe (0 + 0) wf_value p (bind_outcome (bulk_with stall n p) (\<lambda>((data, e), p').
    if e \<noteq> 0 then Ret ((Nullptr, e), p') else Ret ((mk data, 0), p')))"
    by (rule safe_bind[OF bulk_with_safe[OF assms(1,2)]]) (use assms(3) in auto)
  then show ?thesis by simp
qed

lemma elements_reply_safe:
  assumes "safe_upto (length (unread p)) rc" and "pos_ok p"
    and "\<And>vs. \<forall>v\<in>set vs. wf_value v \<Longrightarrow> wf_value (mk vs)"
  shows "safe 0 wf_value p (bind_outcome (read_elements rc n [] p) (\<lambda>((vec, e), p').
    Ret ((if e \<noteq> 0 then Nullptr else mk vec, e), p')))"
proof -
  have "safe 0 (\<lambda>vs. \<forall>v\<in>set vs. wf_value v) p (read_elements rc n [] p)"
    using assms(1,2) by (intro read_elements_safe[of "length (unread p)"]) simp_all
  then have "safe (0 + 0) wf_value p (bind_outcome (read_elements rc n [] p) (\<lambda>((vec, e), p').
    Ret ((if e \<noteq> 0 then Nullptr else mk vec, e), p')))"
    by (rule safe_bind) (use assms(3) in auto)
  then show ?thesis by simp
qed

lemma map_reply_safe:
  assumes "safe_upto (length (unread p)) rc" and "pos_ok p"
  shows "safe 0 wf_value p (bind_outcome (read_entries rc n [] p) (\<lambda>((mp, e), p').
    Ret ((if e \<noteq> 0 then Nullptr else Map mp, e), p')))"
proof -
  have "safe 0 (\<lambda>kvs. \<forall>(k, v)\<in>set kvs. wf_value k \<and> wf_value v) p (read_entries rc n [] p)"
    using assms by (intro read_entries_safe[of "length (unread p)"]) simp_all
  then have "safe (0 + 0) wf_value p (bind_outcome (read_entries rc n [] p) (\<lambda>((mp, e), p').
    Ret ((if e \<noteq> 0 then Nullptr else Map mp, e), p')))"
    by (rule safe_bind) auto
  then show ?thesis by simp
qed

lemma attribute_reply_safe:
  assumes "safe_upto (length (unread p)) rc" and "pos_ok p"
  shows "safe 0 wf_value p (bind_outcome (read_entries rc n [] p) (\<lambda>((metadata, e), p').
       if e \<noteq> 0 then Ret ((Nullptr, e), p')
       else bind_outcome (rc p') (\<lambda>((val, e'), p'').
         Ret ((if e' \<noteq> 0 then Nullptr else Attribute metadata val, e'), p''))))"
proof -
  let ?Q = "\<lambda>kvs. \<forall>(k, v)\<in>set kvs. wf_value k \<and> wf_value v"
  have entries: "safe 0 ?Q p (read_entries rc n [] p)"
    using assms by (intro read_entries_safe[of "length (unread p)"]) simp_all
  have inner: "safe (0 + 0) wf_value q (bind_outcome (rc q) (\<lambda>((val, e'), p'').
         Ret ((if e' \<noteq> 0 then Nullptr else Attribute metadata val, e'), p'')))"
    if "?Q metadata" "pos_ok q" "length (unread q) + 0 \<le> length (unread p)" for metadata q
  proof (rule safe_bind)
    show "safe 0 wf_value q (rc q)" using assms(1) that by (simp add: safe_upto_def)
  qed (use that in auto)
  have "safe (0 + 0) wf_value p (bind_outcome (read_entries rc n [] p) (\<lambda>((metadata, e), p').
       if e \<noteq> 0 then Ret ((Nullptr, e), p')
       else bind_outcome (rc p') (\<lambda>((val, e'), p'').
         Ret ((if e' \<noteq> 0 then Nullptr else Attribute metadata val, e'), p''))))"
    by (rule safe_bind[OF entries]) (use inner in auto)
  then show ?thesis by simp
qed

lemma with_count_safe:
  assumes "pos_ok p" and "oom p = Ret ((Nullptr, 0), p) \<or> oom p = Terminate"
    and "\<And>n. safe 0 wf_value p (k n)" and "view \<noteq> None"
  shows "safe 0 wf_value p (with_count oom sz view p k)"
  using assms by (auto simp: with_count_def with_view_def EINVAL_def split: option.splits prod.splits)

lemma reply_switch_safe:
  assumes "frame_stall stall" and "pos_ok p" and "safe_upto (length (unread p)) rc"
    and "oom p = Ret ((Nullptr, 0), p) \<or> oom p = Terminate" and "line_ok (c, view)"
  shows "safe 0 wf_value p (reply_switch (bulk_with stall) oom rc c view p)"
proof (cases view)
  case None
  with assms(2,5) show ?thesis by (simp add: line_ok_def reply_switch_def CR_def)
next
  case (Some l)
  note wc = with_count_safe[where oom = oom and p = p, OF assms(2,4)]
  have agg: "safe 0 wf_value p (reply_array oom rc view p)" "safe 0 wf_value p (reply_set oom rc view p)"
    "safe 0 wf_value p (reply_push oom rc view p)"
    unfolding reply_array_def reply_set_def reply_push_def
    by (rule wc, rule elements_reply_safe[OF assms(3,2)], use Some in simp_all)+
  have mp: "safe 0 wf_value p (reply_map oom rc view p)"
    "safe 0 wf_value p (reply_attribute oom rc view p)"
    unfolding reply_map_def reply_attribute_def
    by (rule wc, rule map_reply_safe[OF assms(3,2)], use Some in simp)
       (rule wc, rule attribute_reply_safe[OF assms(3,2)], use Some in simp)
  have bulk: "safe 0 wf_value p (reply_bulk_string (bulk_with stall) view p)"
    "safe 0 wf_value p (reply_bulk_error (bulk_with stall) view p)"
    "safe 0 wf_value p (reply_verbatim_string (bulk_with stall) view p)"
    using bulk_reply_safe[OF assms(1,2)] assms(2) Some
    by (auto simp: reply_bulk_string_def reply_bulk_error_def reply_verbatim_string_def
        with_view_def split: prod.splits)
  have num: "safe 0 wf_value p (reply_integer view p)" "safe 0 wf_value p (reply_bool view p)"
    "safe 0 wf_value p (reply_double view p)"
    using assms(2) Some stoll_view_range[of l]
    by (auto simp: reply_integer_def reply_bool_def reply_double_def with_view_def byte_at_def split: prod.splits)
  have plain: "safe 0 wf_value p (reply_text Simple_string view p)"
    "safe 0 wf_value p (reply_text Simple_error view p)" "safe 0 wf_value p (reply_text Big_number view p)"
    using assms(2) Some by (simp_all add: reply_text_def with_view_def)
  show ?thesis
    unfolding reply_switch_def using agg mp bulk num plain assms(2) by simp
qed

context reply_source
begin

lemma rec_safe: "pos_ok p \<Longrightarrow> length (unread p) < n \<Longrightarrow> safe 2 wf_value p (rec n p)"
proof (induction n arbitrary: p)
  case 0
  then show ?case by simp
next
  case (Suc n)
  have line: "safe 2 line_ok p (line_loop stall (pos p) p)"
    using frame Suc.prems(1) by (intro line_loop_safe) simp_all
  let ?f = "\<lambda>(((prefix, view), err), p').
      if err \<noteq> 0 then Ret ((Nullptr, err), p')
      else reply_switch (bulk_with stall) oom (rec n) prefix view p'"
  have "safe (2 + 0) wf_value p (bind_outcome (line_loop stall (pos p) p) ?f)"
  proof (rule safe_bind[OF line])
    fix l p'
    assume l: "line_ok l" "pos_ok p'" "length (unread p') + 2 \<le> length (unread p)"
    have "safe 0 wf_value q (rec n q)" if "pos_ok q" "length (unread q) \<le> length (unread p')" for q
      using that l(3) Suc.prems(2) by (intro safe_weaken[OF Suc.IH]) simp_all
    then have "safe_upto (length (unread p')) (rec n)" by (simp add: safe_upto_def)
    with l frame oom_cases[of p']
    show "safe 0 wf_value p' (?f ((l, 0), p'))"
      by (auto split: prod.splits intro: reply_switch_safe)
  qed (auto split: prod.splits)
  then show ?case by (simp add: rec_Suc)
qed

end

end
