(* ===== verification/Resp_Agree.thy ===== *)
theory Resp_Agree
  imports Resp_Safety
begin

text \<open>
  Two runs, the second over the unread bytes of the first and possibly more. Whatever the
  chunks, the positions and the buffers are, and whether the reader awaits the socket or
  polls it, the second run returns the value and the error of the first and leaves the
  extra bytes behind what the first leaves, unless the first runs out of bytes; with no
  extra bytes both run out. The only exception is the polling reader ending the process at
  a refused allocation.
\<close>

section \<open>The relation\<close>

definition same_input :: "string \<Rightarrow> parser \<Rightarrow> parser \<Rightarrow> bool" where
  "same_input x p q \<longleftrightarrow>
     sized p \<and> sized q \<and> unread q = unread p @ x \<and> mem_limit p = mem_limit q"

definition agree :: "string \<Rightarrow> (parser \<Rightarrow> int option) \<Rightarrow> parser \<Rightarrow> 'a read \<Rightarrow>
    (parser \<Rightarrow> int option) \<Rightarrow> parser \<Rightarrow> 'a read \<Rightarrow> bool" where
  "agree x s1 p r1 s2 q r2 \<longleftrightarrow>
     r2 = Terminate \<or>
     (stalled s1 p r1 \<and> (x = [] \<longrightarrow> stalled s2 q r2)) \<or>
     (\<exists>v e p' q'. r1 = Ret ((v, e), p') \<and> r2 = Ret ((v, e), q') \<and>
        progress p p' \<and> progress q q' \<and> unread q' = unread p' @ x) \<or>
     r1 = No_fuel \<or> r2 = No_fuel \<or> (r1 = UB \<and> r2 = UB)"

lemma same_input_progress:
  "same_input x p q \<Longrightarrow> progress p p' \<Longrightarrow> progress q q' \<Longrightarrow> unread q' = unread p' @ x \<Longrightarrow> same_input x p' q'"
  by (auto simp: same_input_def intro: progress_sized) (simp add: progress_def)

lemma agree_Ret:
  "progress p p' \<Longrightarrow> progress q q' \<Longrightarrow> unread q' = unread p' @ x \<Longrightarrow>
   agree x s1 p (Ret ((v, e), p')) s2 q (Ret ((v, e), q'))"
  unfolding agree_def by blast

lemma agree_pure:
  "same_input x p q \<Longrightarrow> agree x s1 p (Ret ((v, e), p)) s2 q (Ret ((v, e), q))"
  by (intro agree_Ret progress_refl) (auto simp: same_input_def sized_def)

lemma agree_Terminate [simp]: "agree x s1 p r1 s2 q Terminate"
  by (simp add: agree_def)

lemma agree_UB [simp]: "agree x s1 p UB s2 q UB"
  by (simp add: agree_def)

lemma agree_No_fuel [simp]: "agree x s1 p No_fuel s2 q r2" "agree x s1 p r1 s2 q No_fuel"
  by (simp_all add: agree_def)

lemma agree_after:
  assumes "frame_stall s1" and "frame_stall s2" and "progress p p'" and "progress q q'"
    and "agree x s1 p' r1 s2 q' r2"
  shows "agree x s1 p r1 s2 q r2"
  using assms(5) stalled_progress[OF assms(1,3)] stalled_progress[OF assms(2,4)]
    progress_trans[OF assms(3)] progress_trans[OF assms(4)]
  unfolding agree_def by blast

text \<open>A line or a bulk that is decided stays as it is when bytes are added behind it.\<close>

fun extends :: "string \<Rightarrow> 'a scanned \<Rightarrow> 'a scanned \<Rightarrow> bool" where
  "extends x (Got a rest) sc \<longleftrightarrow> sc = Got a (rest @ x)"
| "extends x (Bad a e) sc \<longleftrightarrow> sc = Bad a e"
| "extends x More sc \<longleftrightarrow> (x = [] \<longrightarrow> sc = More)"

lemma scan_line_extends: "extends x (scan_line s) (scan_line (s @ x))"
proof (cases "find_char LF s")
  case None
  then show ?thesis by (simp add: scan_line_def)
next
  case (Some i)
  from find_char_Some[OF Some] have i: "i < length s" by simp
  have view: "line_view (s @ x) 0 i = line_view s 0 i"
    using i by (auto simp: line_view_def)
  from i have "i - 1 < length s" and "0 < length s" by auto
  then have "(s @ x) ! (i - 1) = s ! (i - 1)" and "(s @ x) ! 0 = s ! 0"
    by (simp_all only: nth_append if_True)
  with view show ?thesis
    using i Some by (simp add: scan_line_def find_char_append)
qed

lemma scan_bulk_extends: "extends x (scan_bulk n s) (scan_bulk n (s @ x))"
proof (cases "length s < n + 2")
  case True
  then show ?thesis by (auto simp: scan_bulk_def)
next
  case False
  then show ?thesis by (simp add: scan_bulk_def nth_append)
qed
lemma agree_framed:
  assumes "same_input x p q" and "extends x sc sc'" and "framed s1 p sc r1" and "framed s2 q sc' r2"
  shows "agree x s1 p r1 s2 q r2"
  using assms by (cases sc) (auto simp: agree_def same_input_def)

text \<open>A continuation that passes an error on.\<close>

definition passes_errors :: "('a io_result \<times> parser \<Rightarrow> 'b read) \<Rightarrow> bool" where
  "passes_errors f \<longleftrightarrow> (\<forall>x e p. e \<noteq> 0 \<longrightarrow> (\<exists>y. f ((x, e), p) = Ret ((y, e), p)))"

lemma passes_errors_if:
  "(\<And>v p. f ((v, 0), p) = g v p) \<Longrightarrow> (\<And>v e p. e \<noteq> 0 \<Longrightarrow> f ((v, e), p) = Ret ((y v, e), p)) \<Longrightarrow>
   passes_errors f"
  by (auto simp: passes_errors_def)

lemma stalled_bind:
  assumes "stalled s p m" and "passes_errors f"
  shows "stalled s p (bind_outcome m f)"
proof (cases "end_of s p")
  case None
  with assms(1) show ?thesis by (simp add: stalled_def outcome_simps)
next
  case (Some ee)
  obtain e es where ee: "ee = (e, es)" by (cases ee)
  from Some ee end_of_nonzero have "e \<noteq> 0" by blast
  with assms(2) have "\<exists>y. f ((x, e), p') = Ret ((y, e), p')" for x p'
    by (simp add: passes_errors_def)
  with assms(1) Some ee show ?thesis
    by (fastforce simp: stalled_def outcome_simps)
qed

lemma agree_bind:
  assumes fr: "frame_stall s1" "frame_stall s2"
    and m: "agree x s1 p m1 s2 q m2" and si: "same_input x p q"
    and f: "passes_errors f" and g: "passes_errors g"
    and step: "\<And>v e p' q'. same_input x p' q' \<Longrightarrow> agree x s1 p' (f ((v, e), p')) s2 q' (g ((v, e), q'))"
  shows "agree x s1 p (bind_outcome m1 f) s2 q (bind_outcome m2 g)"
  using m unfolding agree_def
proof (elim disjE exE conjE)
  fix v e p' q'
  assume r: "m1 = Ret ((v, e), p')" "m2 = Ret ((v, e), q')"
    and pr: "progress p p'" "progress q q'" and u: "unread q' = unread p' @ x"
  have "agree x s1 p' (f ((v, e), p')) s2 q' (g ((v, e), q'))"
    by (rule step) (rule same_input_progress[OF si pr u])
  from agree_after[OF fr pr this] r have "agree x s1 p (bind_outcome m1 f) s2 q (bind_outcome m2 g)"
    by (simp add: outcome_simps)
  then show "bind_outcome m2 g = Terminate \<or>
     (stalled s1 p (bind_outcome m1 f) \<and> (x = [] \<longrightarrow> stalled s2 q (bind_outcome m2 g))) \<or>
     (\<exists>v e p' q'. bind_outcome m1 f = Ret ((v, e), p') \<and> bind_outcome m2 g = Ret ((v, e), q') \<and>
        progress p p' \<and> progress q q' \<and> unread q' = unread p' @ x) \<or>
     bind_outcome m1 f = No_fuel \<or> bind_outcome m2 g = No_fuel \<or>
     (bind_outcome m1 f = UB \<and> bind_outcome m2 g = UB)"
    by (simp only: agree_def)
qed (use stalled_bind[OF _ f] stalled_bind[OF _ g] in \<open>simp_all add: outcome_simps\<close>)

section \<open>Two readers over the same bytes\<close>

locale reply_pair =
  A: reply_source stall1 oom1 rec1 + B: reply_source stall2 oom2 rec2
  for stall1 oom1 rec1 stall2 oom2 rec2 +
  assumes oom_agree: "oom2 q = Terminate \<or> (oom1 p = Ret ((Nullptr, 0), p) \<and> oom2 q = Ret ((Nullptr, 0), q))"
begin

definition agreeing :: "string \<Rightarrow> (parser \<Rightarrow> 'a read) \<Rightarrow> (parser \<Rightarrow> 'a read) \<Rightarrow> bool" where
  "agreeing x rc1 rc2 \<longleftrightarrow> (\<forall>p q. same_input x p q \<longrightarrow> agree x stall1 p (rc1 p) stall2 q (rc2 q))"

lemmas bind_rule = agree_bind[OF A.frame B.frame]

lemma agreeing_line: "agreeing x (\<lambda>p. line_loop stall1 (pos p) p) (\<lambda>q. line_loop stall2 (pos q) q)"
  unfolding agreeing_def
proof (intro allI impI)
  fix p q assume si: "same_input x p q"
  then have "framed stall1 p (scan_line (unread p)) (line_loop stall1 (pos p) p)"
    and "framed stall2 q (scan_line (unread p @ x)) (line_loop stall2 (pos q) q)"
    using line_framed[OF A.frame, of p] line_framed[OF B.frame, of q] by (simp_all add: same_input_def)
  with si scan_line_extends show "agree x stall1 p (line_loop stall1 (pos p) p) stall2 q (line_loop stall2 (pos q) q)"
    by (rule agree_framed)
qed

lemma agreeing_bulk: "agreeing x (bulk_with stall1 n) (bulk_with stall2 n)"
  unfolding agreeing_def
proof (intro allI impI)
  fix p q assume si: "same_input x p q"
  then have "framed stall1 p (scan_bulk n (unread p)) (bulk_with stall1 n p)"
    and "framed stall2 q (scan_bulk n (unread p @ x)) (bulk_with stall2 n q)"
    using bulk_framed[OF A.frame, of p n] bulk_framed[OF B.frame, of q n] by (simp_all add: same_input_def)
  with si scan_bulk_extends show "agree x stall1 p (bulk_with stall1 n p) stall2 q (bulk_with stall2 n q)"
    by (rule agree_framed)
qed

lemma agreeing_pure: "agreeing x (\<lambda>p. Ret ((v, e), p)) (\<lambda>p. Ret ((v, e), p))"
  by (simp add: agreeing_def agree_pure)

lemma agreeing_bind:
  assumes "agreeing x rc1 rc2" and "passes_errors f" and "passes_errors g"
    and "\<And>v e. agreeing x (\<lambda>p. f ((v, e), p)) (\<lambda>p. g ((v, e), p))"
  shows "agreeing x (\<lambda>p. bind_outcome (rc1 p) f) (\<lambda>p. bind_outcome (rc2 p) g)"
  unfolding agreeing_def
proof (intro allI impI)
  fix p q assume si: "same_input x p q"
  with assms(1) have "agree x stall1 p (rc1 p) stall2 q (rc2 q)" by (simp add: agreeing_def)
  then show "agree x stall1 p (bind_outcome (rc1 p) f) stall2 q (bind_outcome (rc2 q) g)"
    using si assms(2,3)
  proof (rule bind_rule)
    fix v e p' q' assume "same_input x p' q'"
    with assms(4)[of v e] show "agree x stall1 p' (f ((v, e), p')) stall2 q' (g ((v, e), q'))"
      by (simp add: agreeing_def)
  qed
qed

lemma agreeing_if:
  "agreeing x f1 f2 \<Longrightarrow> agreeing x g1 g2 \<Longrightarrow>
   agreeing x (\<lambda>p. if b then f1 p else g1 p) (\<lambda>p. if b then f2 p else g2 p)"
  by (cases b) simp_all

lemma agreeing_elements:
  assumes "agreeing x rc1 rc2"
  shows "agreeing x (read_elements rc1 n vec) (read_elements rc2 n vec)"
proof (induction n arbitrary: vec)
  case 0
  then show ?case by (simp add: agreeing_pure)
next
  case (Suc n)
  show ?case
    unfolding read_elements_Suc
    by (intro agreeing_bind[OF assms])
       (auto simp: passes_errors_def intro: agreeing_pure Suc agreeing_if)
qed

lemma agreeing_entries:
  assumes "agreeing x rc1 rc2"
  shows "agreeing x (read_entries rc1 n mp) (read_entries rc2 n mp)"
proof (induction n arbitrary: mp)
  case 0
  then show ?case by (simp add: agreeing_pure)
next
  case (Suc n)
  have inner: "agreeing x
     (\<lambda>p'. bind_outcome (rc1 p') (\<lambda>((val, e'), p'').
        if e' \<noteq> 0 then Ret (([], e'), p'') else read_entries rc1 n (mp @ [(key, val)]) p''))
     (\<lambda>p'. bind_outcome (rc2 p') (\<lambda>((val, e'), p'').
        if e' \<noteq> 0 then Ret (([], e'), p'') else read_entries rc2 n (mp @ [(key, val)]) p''))" for key
    by (intro agreeing_bind[OF assms])
       (auto simp: passes_errors_def intro: agreeing_pure Suc agreeing_if)
  show ?case
    unfolding read_entries_Suc
    by (intro agreeing_bind[OF assms])
       (auto simp: passes_errors_def intro: agreeing_pure inner agreeing_if)
qed

lemma agreeing_count:
  assumes "\<And>n. agreeing x (\<lambda>p. k1 p n) (\<lambda>p. k2 p n)"
  shows "agreeing x (\<lambda>p. with_count oom1 sz view p (k1 p)) (\<lambda>p. with_count oom2 sz view p (k2 p))"
  unfolding agreeing_def
proof (intro allI impI)
  fix p q assume si: "same_input x p q"
  show "agree x stall1 p (with_count oom1 sz view p (k1 p)) stall2 q (with_count oom2 sz view q (k2 q))"
  proof (cases view)
    case None
    then show ?thesis by (simp add: with_count_def with_view_def)
  next
    case (Some l)
    obtain c e where ce: "stoll_view l = (c, e)" by (cases "stoll_view l")
    have mem: "mem_limit p = mem_limit q" using si by (simp add: same_input_def)
    have oom: "agree x stall1 p (oom1 p) stall2 q (oom2 q)"
      using oom_agree[of q p] agree_pure[OF si, of stall1 Nullptr 0 stall2] by auto
    have "agree x stall1 p (k1 p n) stall2 q (k2 q n)" for n
      using assms[of n] si by (simp add: agreeing_def)
    then show ?thesis
      using Some ce mem oom by (simp add: with_count_def with_view_def agree_pure[OF si])
  qed
qed

lemma agreeing_bulk_reply:
  "agreeing x (\<lambda>p. bind_outcome (bulk_with stall1 n p) (\<lambda>((data, e), p').
       if e \<noteq> 0 then Ret ((Nullptr, e), p') else Ret ((mk data, 0), p')))
     (\<lambda>p. bind_outcome (bulk_with stall2 n p) (\<lambda>((data, e), p').
       if e \<noteq> 0 then Ret ((Nullptr, e), p') else Ret ((mk data, 0), p')))"
  by (intro agreeing_bind[OF agreeing_bulk])
     (auto simp: passes_errors_def intro: agreeing_pure agreeing_if)

lemma agreeing_elements_reply:
  assumes "agreeing x rc1 rc2"
  shows "agreeing x (\<lambda>p. with_count oom1 sz view p (\<lambda>count.
     bind_outcome (read_elements rc1 count [] p) (\<lambda>((vec, e), p').
       Ret ((if e \<noteq> 0 then Nullptr else mk vec, e), p'))))
    (\<lambda>p. with_count oom2 sz view p (\<lambda>count.
     bind_outcome (read_elements rc2 count [] p) (\<lambda>((vec, e), p').
       Ret ((if e \<noteq> 0 then Nullptr else mk vec, e), p'))))"
  by (intro agreeing_count agreeing_bind[OF agreeing_elements[OF assms]])
     (auto simp: passes_errors_def intro: agreeing_pure)

lemma agreeing_map_reply:
  assumes "agreeing x rc1 rc2"
  shows "agreeing x (reply_map oom1 rc1 view) (reply_map oom2 rc2 view)"
  unfolding reply_map_def[abs_def]
  by (intro agreeing_count agreeing_bind[OF agreeing_entries[OF assms]])
     (auto simp: passes_errors_def intro: agreeing_pure)

lemma agreeing_attribute_reply:
  assumes "agreeing x rc1 rc2"
  shows "agreeing x (reply_attribute oom1 rc1 view) (reply_attribute oom2 rc2 view)"
proof -
  have inner: "agreeing x
     (\<lambda>p'. bind_outcome (rc1 p') (\<lambda>((val, e'), p'').
         Ret ((if e' \<noteq> 0 then Nullptr else Attribute metadata val, e'), p'')))
     (\<lambda>p'. bind_outcome (rc2 p') (\<lambda>((val, e'), p'').
         Ret ((if e' \<noteq> 0 then Nullptr else Attribute metadata val, e'), p'')))" for metadata
    by (intro agreeing_bind[OF assms]) (auto simp: passes_errors_def intro: agreeing_pure)
  show ?thesis
    unfolding reply_attribute_def[abs_def]
    by (intro agreeing_count agreeing_bind[OF agreeing_entries[OF assms]])
       (auto simp: passes_errors_def intro: agreeing_pure agreeing_if inner)
qed

lemma agreeing_switch:
  assumes "agreeing x rc1 rc2"
  shows "agreeing x (reply_switch (bulk_with stall1) oom1 rc1 c view)
           (reply_switch (bulk_with stall2) oom2 rc2 c view)"
proof -
  note el = agreeing_elements_reply[OF assms, where view = view]
  have aggregates: "agreeing x (reply_array oom1 rc1 view) (reply_array oom2 rc2 view)"
    "agreeing x (reply_set oom1 rc1 view) (reply_set oom2 rc2 view)"
    "agreeing x (reply_push oom1 rc1 view) (reply_push oom2 rc2 view)"
    unfolding reply_array_def[abs_def] reply_set_def[abs_def] reply_push_def[abs_def] by (rule el)+
  have bulks: "agreeing x (reply_bulk_string (bulk_with stall1) view) (reply_bulk_string (bulk_with stall2) view)"
    "agreeing x (reply_bulk_error (bulk_with stall1) view) (reply_bulk_error (bulk_with stall2) view)"
    "agreeing x (reply_verbatim_string (bulk_with stall1) view) (reply_verbatim_string (bulk_with stall2) view)"
    unfolding reply_bulk_string_def[abs_def] reply_bulk_error_def[abs_def]
      reply_verbatim_string_def[abs_def] with_view_def
    using agreeing_bulk_reply
    by (auto simp: agreeing_def agree_pure split: option.splits prod.splits)
  have plain: "agreeing x (reply_text mk view) (reply_text mk view)"
    "agreeing x (reply_integer view) (reply_integer view)"
    "agreeing x (reply_bool view) (reply_bool view)"
    "agreeing x (reply_double view) (reply_double view)" for mk
    by (auto simp: agreeing_def agree_pure reply_text_def reply_integer_def reply_bool_def
        reply_double_def with_view_def byte_at_def split: option.splits prod.splits)
  show ?thesis
    unfolding reply_switch_def[abs_def]
    by (intro agreeing_if aggregates bulks plain agreeing_map_reply[OF assms]
        agreeing_attribute_reply[OF assms] agreeing_pure)
qed

text \<open>The depths of the two recursions need not be the same.\<close>

lemma rec_agreeing: "agreeing x (rec1 n) (rec2 m)"
proof (induction n arbitrary: m)
  case 0
  then show ?case by (simp add: agreeing_def A.rec_0)
next
  case (Suc n)
  show ?case
  proof (cases m)
    case 0
    then show ?thesis by (simp add: agreeing_def B.rec_0)
  next
    case m: (Suc m')
    show ?thesis
      unfolding m A.rec_Suc[abs_def] B.rec_Suc[abs_def]
      by (intro agreeing_bind[OF agreeing_line])
         (auto simp: passes_errors_def intro: agreeing_pure agreeing_if agreeing_switch[OF Suc]
            split: prod.splits)
  qed
qed

end

end
