(* ===== verification/Resp_Ends.thy ===== *)
theory Resp_Ends
  imports Resp_Agree
begin

text \<open>
  How a recursive reader can end: when it may be left suspended and when it may end the
  process. A reader that may do neither returns.
\<close>

section \<open>Ends\<close>

text \<open>
  \<open>ends t s x r\<close>: \<open>r\<close> is a return that leaves the timeout at \<open>t\<close>, or is suspended although
  only \<open>s\<close> allows it, or ends the process although only \<open>x\<close> allows it. (\<open>UB\<close> and
  \<open>No_fuel\<close> are the concern of \<open>safe\<close>.)
\<close>

definition ends :: "int \<Rightarrow> bool \<Rightarrow> bool \<Rightarrow> 'a read \<Rightarrow> bool" where
  "ends t s x r \<longleftrightarrow> (case r of
     Ret ((v, e), p) \<Rightarrow> timed p = t | Suspended \<Rightarrow> s | Terminate \<Rightarrow> x | UB \<Rightarrow> True | No_fuel \<Rightarrow> True)"

lemma ends_simps [simp]:
  "ends t s x (Ret ((v, e), p)) \<longleftrightarrow> timed p = t" "ends t s x Suspended \<longleftrightarrow> s"
  "ends t s x Terminate \<longleftrightarrow> x" "ends t s x UB" "ends t s x No_fuel"
  by (simp_all add: ends_def)

lemma ends_bind:
  assumes "ends t s x m" and "\<And>v e p. timed p = t \<Longrightarrow> ends t s x (f ((v, e), p))"
  shows "ends t s x (bind_outcome m f)"
  using assms by (cases m) (auto simp: outcome_simps)

definition ending :: "int \<Rightarrow> bool \<Rightarrow> bool \<Rightarrow> (parser \<Rightarrow> 'a read) \<Rightarrow> bool" where
  "ending t s x rc \<longleftrightarrow> (\<forall>p. timed p = t \<longrightarrow> ends t s x (rc p))"

lemma ending_elements: "ending t s x rc \<Longrightarrow> timed p = t \<Longrightarrow> ends t s x (read_elements rc n vec p)"
proof (induction n arbitrary: vec p)
  case (Suc n)
  show ?case
    unfolding read_elements_Suc by (rule ends_bind) (use Suc in \<open>auto simp: ending_def\<close>)
qed simp

lemma ending_entries: "ending t s x rc \<Longrightarrow> timed p = t \<Longrightarrow> ends t s x (read_entries rc n mp p)"
proof (induction n arbitrary: mp p)
  case (Suc n)
  have rc: "timed q = t \<Longrightarrow> ends t s x (rc q)" for q using Suc.prems(1) by (simp add: ending_def)
  show ?case
    unfolding read_entries_Suc
    by (rule ends_bind) (use Suc rc in \<open>auto intro: ends_bind\<close>)
qed simp

lemma recv_ends:
  assumes "stall p = None \<Longrightarrow> s"
  shows "case recv_with stall p of Ret (r, p') \<Rightarrow> timed p' = timed p | Suspended \<Rightarrow> s | _ \<Rightarrow> False"
  using assms by (auto simp: recv_with_def split: list.splits recv_event.splits option.splits)

lemma line_loop_ends:
  assumes "\<And>p. timed p = t \<Longrightarrow> stall p = None \<Longrightarrow> s" and "timed p = t"
  shows "ends t s x (line_loop stall fd p)"
  using assms
proof (induction stall fd p rule: line_loop.induct)
  case (1 stall fd p)
  show ?case
  proof (cases "find_from LF (linebuffer p) fd")
    case (Some i)
    then show ?thesis using "1.prems"(2) by (subst line_loop.simps) (simp add: byte_at_def)
  next
    case None
    have s: "timed p = timed q \<Longrightarrow> stall q = None \<Longrightarrow> s" for q using 1(2)[of q] "1.prems"(2) by simp
    note r = recv_ends[of stall p s, OF s, OF refl]
    show ?thesis
    proof (cases "recv_with stall p")
      case (Ret a)
      obtain rr p' where a: "a = (rr, p')" by (cases a)
      with Ret r have t: "timed p' = t" using "1.prems"(2) by simp
      have "ends t s x (line_loop stall (length (linebuffer p)) (p'\<lparr>linebuffer := linebuffer p' @ res_val rr\<rparr>))"
        if "recv_error rr = None" "\<not> max_bulk_size \<le> length (linebuffer p') + length (res_val rr)"
        using None Ret a that t "1.prems"(1) by (intro "1.IH"[of a rr p']) auto
      then show ?thesis
        using None Ret a t by (subst line_loop.simps) (auto simp: outcome_simps split: option.splits)
    qed (use None r in \<open>subst line_loop.simps, simp add: outcome_simps\<close>)+
  qed
qed

lemma bulk_loop_ends:
  assumes "\<And>p. timed p = t \<Longrightarrow> stall p = None \<Longrightarrow> s" and "timed p = t"
  shows "ends t s x (bulk_loop stall n p)"
  using assms
proof (induction stall n p rule: bulk_loop.induct)
  case (1 stall n p)
  show ?case
  proof (cases "length (linebuffer p) < pos p \<or> n + 2 \<le> length (linebuffer p) - pos p")
    case True
    then show ?thesis using "1.prems"(2) by (subst bulk_loop.simps) (simp add: byte_at_def)
  next
    case False
    have s: "timed p = timed q \<Longrightarrow> stall q = None \<Longrightarrow> s" for q using 1(2)[of q] "1.prems"(2) by simp
    note r = recv_ends[of stall p s, OF s, OF refl]
    show ?thesis
    proof (cases "recv_with stall p")
      case (Ret a)
      obtain rr p' where a: "a = (rr, p')" by (cases a)
      with Ret r have t: "timed p' = t" using "1.prems"(2) by simp
      have "ends t s x (bulk_loop stall n (p'\<lparr>linebuffer := linebuffer p' @ res_val rr\<rparr>))"
        if "recv_error rr = None"
        using False Ret a that t "1.prems"(1) by (intro "1.IH"[of a rr p']) auto
      then show ?thesis
        using False Ret a t by (subst bulk_loop.simps) (auto simp: outcome_simps split: option.splits)
    qed (use False r in \<open>subst bulk_loop.simps, simp add: outcome_simps\<close>)+
  qed
qed

lemma bulk_with_ends:
  assumes "\<And>p. timed p = t \<Longrightarrow> stall p = None \<Longrightarrow> s" and "timed p = t"
  shows "ends t s x (bulk_with stall n p)"
  using bulk_loop_ends[of t stall s p x n] assms by (simp add: bulk_with_def)

lemma with_count_ends:
  assumes "timed p = t" and "ends t s x (oom p)" and "\<And>n. ends t s x (k n)"
  shows "ends t s x (with_count oom sz view p k)"
  using assms by (auto simp: with_count_def with_view_def split: option.splits prod.splits)

lemma bulk_reply_ends:
  assumes "\<And>p. timed p = t \<Longrightarrow> stall p = None \<Longrightarrow> s" and "timed p = t"
  shows "ends t s x (bind_outcome (bulk_with stall n p) (\<lambda>((data, e), p').
     if e \<noteq> 0 then Ret ((Nullptr, e), p') else Ret ((mk data, 0), p')))"
  by (rule ends_bind[OF bulk_with_ends]) (use assms in auto)

lemma elements_reply_ends:
  assumes "ending t s x rc" and "ends t s x (oom p)" and "timed p = t"
  shows "ends t s x (with_count oom sz view p (\<lambda>count.
     bind_outcome (read_elements rc count [] p) (\<lambda>((vec, e), p').
       Ret ((if e \<noteq> 0 then Nullptr else mk vec, e), p'))))"
  by (rule with_count_ends[where oom = oom, OF assms(3,2)], rule ends_bind[OF ending_elements[OF assms(1,3)]]) simp

lemma reply_switch_ends:
  assumes st: "\<And>p. timed p = t \<Longrightarrow> stall p = None \<Longrightarrow> s" and t: "timed p = t"
    and rc: "ending t s x rc" and oom: "ends t s x (oom p)"
  shows "ends t s x (reply_switch (bulk_with stall) oom rc c view p)"
proof -
  have agg: "ends t s x (reply_array oom rc view p)" "ends t s x (reply_set oom rc view p)"
    "ends t s x (reply_push oom rc view p)"
    unfolding reply_array_def reply_set_def reply_push_def
    by (rule elements_reply_ends[where oom = oom, OF rc oom t])+
  have mp: "ends t s x (reply_map oom rc view p)"
    unfolding reply_map_def
    by (rule with_count_ends[where oom = oom, OF t oom], rule ends_bind[OF ending_entries[OF rc t]]) simp
  have rcq: "timed q = t \<Longrightarrow> ends t s x (rc q)" for q using rc by (simp add: ending_def)
  have inner: "ends t s x (bind_outcome (rc q) (\<lambda>((val, e'), p'').
         Ret ((if e' \<noteq> 0 then Nullptr else Attribute md val, e'), p'')))" if "timed q = t" for q md
    by (rule ends_bind[OF rcq[OF that]]) simp
  have at: "ends t s x (reply_attribute oom rc view p)"
    unfolding reply_attribute_def
    by (rule with_count_ends[where oom = oom, OF t oom], rule ends_bind[OF ending_entries[OF rc t]])
       (simp add: inner)
  have bulk: "ends t s x (reply_bulk_string (bulk_with stall) view p)"
    "ends t s x (reply_bulk_error (bulk_with stall) view p)"
    "ends t s x (reply_verbatim_string (bulk_with stall) view p)"
    using bulk_reply_ends[OF st t] t
    by (auto simp: reply_bulk_string_def reply_bulk_error_def reply_verbatim_string_def
        with_view_def split: prod.splits option.splits)
  have num: "ends t s x (reply_integer view p)" "ends t s x (reply_bool view p)"
    "ends t s x (reply_double view p)" "ends t s x (reply_text mk view p)" for mk
    using t by (auto simp: reply_integer_def reply_bool_def reply_double_def reply_text_def
        with_view_def byte_at_def split: prod.splits option.splits)
  show ?thesis
    unfolding reply_switch_def using agg mp at bulk num t by simp
qed

section \<open>The contract\<close>

locale ending_source = reply_source +
  fixes t :: int and s x :: bool
  assumes stall_ends: "timed p = t \<Longrightarrow> stall p = None \<Longrightarrow> s"
    and oom_ends: "oom p = Terminate \<Longrightarrow> x"
begin

lemma rec_ends: "ending t s x (rec n)"
proof (induction n)
  case 0
  then show ?case by (simp add: ending_def rec_0)
next
  case (Suc n)
  have oom: "ends t s x (oom q)" if "timed q = t" for q
    using oom_cases[of q] oom_ends[of q] that by auto
  have sw: "ends t s x (reply_switch (bulk_with stall) oom (rec n) c view q)" if "timed q = t" for c view q
    using stall_ends that Suc oom[OF that] by (rule reply_switch_ends)
  have line: "ends t s x (line_loop stall fd q)" if "timed q = t" for fd q
    using stall_ends that by (rule line_loop_ends)
  show ?case
    unfolding ending_def rec_Suc
    by (intro allI impI ends_bind[OF line]) (simp_all add: sw split: prod.split)
qed

end

end
