(* ===== verification/Resp_Api.thy ===== *)
theory Resp_Api
  imports Resp_Ends
begin

text \<open>
  The public operations of \<open>RedisParser\<close>, \<open>parse\<close>, \<open>try_parse\<close> and \<open>try_parse_n\<close>. Both
  readers of the class are instances of the contract of the recursive readers, and every
  pair of them reads the same replies from the same bytes.
\<close>

section \<open>The readers of the class\<close>

interpretation co: reply_source co_stall co_oom parse_recursion
  by unfold_locales
     (simp, simp add: co_oom_def, simp, unfold parse_recursion.simps read_line_def read_bulk_def, rule refl)

interpretation poll: reply_source sys_stall try_oom try_parse_recursion
  by unfold_locales
     (simp, simp add: try_oom_def, simp, unfold try_parse_recursion.simps try_read_line_def try_read_bulk_def, rule refl)

interpretation co_co: reply_pair
  co_stall co_oom parse_recursion co_stall co_oom parse_recursion
  by unfold_locales (simp add: co_oom_def)

interpretation co_poll: reply_pair
  co_stall co_oom parse_recursion sys_stall try_oom try_parse_recursion
  by unfold_locales (simp add: try_oom_def)

interpretation poll_poll: reply_pair
  sys_stall try_oom try_parse_recursion sys_stall try_oom try_parse_recursion
  by unfold_locales (simp add: try_oom_def)

interpretation co_ends: ending_source co_stall co_oom parse_recursion t "t \<le> 0" False for t
  by unfold_locales (auto simp: co_stall_def co_oom_def split: if_splits)

interpretation poll_ends: ending_source sys_stall try_oom try_parse_recursion t False True for t
  by unfold_locales (auto simp: sys_stall_def)

section \<open>State changes around the recursion\<close>

lemma timed_simps [simp]:
  "all_bytes (p\<lparr>timed := t\<rparr>) = all_bytes p" "unread (p\<lparr>timed := t\<rparr>) = unread p"
  "sized (p\<lparr>timed := t\<rparr>) = sized p" "pos_ok (p\<lparr>timed := t\<rparr>) = pos_ok p"
  by (simp_all add: all_bytes_def unread_def sized_def pos_ok_def)

lemma consume_simps [simp]:
  "pos (consume p) = 0" "stream (consume p) = stream p" "timed (consume p) = timed p"
  "mem_limit (consume p) = mem_limit p" "linebuffer (consume p) = drop (pos p) (linebuffer p)"
  "pos_ok (consume p)" "(consume p)\<lparr>pos := 0\<rparr> = consume p"
  by (simp_all add: consume_def pos_ok_def)

lemma unread_consume [simp]: "pos_ok p \<Longrightarrow> unread (consume p) = unread p"
  by (simp add: unread_def pos_ok_def)

lemma sized_consume: "sized p \<Longrightarrow> sized (consume p)"
  by (auto simp: sized_def all_bytes_def pos_ok_def)

lemma new_parser_sized:
  "length (avail es) < max_bulk_size \<Longrightarrow> sized (new_parser mem es)"
  by (simp add: sized_def new_parser_def pos_ok_def all_bytes_def)

lemma new_parser_simps [simp]:
  "unread (new_parser mem es) = avail es" "mem_limit (new_parser mem es) = mem"
  "pos (new_parser mem es) = 0" "stream (new_parser mem es) = es" "pos_ok (new_parser mem es)"
  "linebuffer (new_parser mem es) = []"
  by (simp_all add: new_parser_def unread_def pos_ok_def)

lemma safe_fuel: "safe k Q p r \<Longrightarrow> r \<noteq> No_fuel"
  by (simp add: safe_def)

lemma parse_recursion_safe:
  "pos_ok p \<Longrightarrow> length (unread p) < n \<Longrightarrow> safe 2 wf_value p (parse_recursion n p)"
  by (rule co.rec_safe)

lemma try_parse_recursion_safe:
  "pos_ok p \<Longrightarrow> length (unread p) < n \<Longrightarrow> safe 2 wf_value p (try_parse_recursion n p)"
  by (rule poll.rec_safe)

lemma parse_start: "depth_fuel (p\<lparr>timed := t\<rparr>) = Suc (length (unread p))"
  by (simp add: depth_fuel_def)

text \<open>How the recursion of a call behaves on a state, with the fuel the call gives it.\<close>

lemma co_run:
  assumes "sized p" and "mem \<le> mem_limit p" and "encodable dtext mem v"
    and "unread p = encode dtext v @ rest"
  obtains p' where "parse_recursion (depth_fuel p) p = Ret ((v, 0), p')" and "progress p p'"
    and "unread p' = rest" and "sized p'" and "mem \<le> mem_limit p'"
proof -
  have "length (encode dtext v) < depth_fuel p"
    using assms(4) by (simp add: depth_fuel_def)
  from readsD[OF co.rec_reads[OF assms(3) this] assms(1,2,4)] that show thesis by blast
qed

lemma poll_run:
  assumes "sized p" and "mem \<le> mem_limit p" and "encodable dtext mem v"
    and "unread p = encode dtext v @ rest"
  obtains p' where "try_parse_recursion (depth_fuel p) p = Ret ((v, 0), p')" and "progress p p'"
    and "unread p' = rest" and "sized p'" and "mem \<le> mem_limit p'"
proof -
  have "length (encode dtext v) < depth_fuel p"
    using assms(4) by (simp add: depth_fuel_def)
  from readsD[OF poll.rec_reads[OF assms(3) this] assms(1,2,4)] that show thesis by blast
qed

text \<open>A reply cut into chunks, followed by the beginning of the next, for concrete instances.\<close>

definition sample_events :: "recv_event list" where
  "sample_events = [Recv_data ''*2'', Recv_data [CR], Recv_data (LF # ''+a'' @ [CR, LF]),
     Recv_data ('':7'' @ [CR, LF] @ ''+x'')]"

definition sample_value :: redis_value where
  "sample_value = Array [Simple_string ''a'', Integer 7]"

lemma small_numbers:
  "to_chars_nat (Suc (Suc 0)) = ''2''" "to_chars_int 7 = ''7''"
  by code_simp+

lemma sample_facts:
  "sized (new_parser 1024 sample_events)"
  "1024 \<le> mem_limit (new_parser 1024 sample_events)"
  "encodable (\<lambda>_. []) 1024 sample_value"
  "unread (new_parser 1024 sample_events) = encode (\<lambda>_. []) sample_value @ ''+x''"
  "after (stream (new_parser 1024 sample_events)) = []"
  by (simp_all add: new_parser_sized max_bulk_size_def sizeof_RedisValue_def int64_min_def int64_max_def
      LF_def CR_def frame_line_def crlf_def small_numbers sample_events_def sample_value_def
      del: to_chars_nat.simps)

section \<open>Replies are read back\<close>

lemma parse_reads:
  assumes "sized p" and "mem \<le> mem_limit p" and "encodable dtext mem v"
    and "unread p = encode dtext v @ rest"
  shows "\<exists>p'. parse t p = Ret ((v, 0), p') \<and> unread p' = rest \<and> pos p' = 0 \<and> sized p' \<and>
    mem_limit p' = mem_limit p \<and> after (stream p') = after (stream p)"
proof -
  let ?p = "p\<lparr>timed := t\<rparr>"
  have "sized ?p" "mem \<le> mem_limit ?p" "unread ?p = encode dtext v @ rest" using assms by simp_all
  from co_run[OF this(1,2) assms(3) this(3)] obtain p' where
    "parse_recursion (depth_fuel ?p) ?p = Ret ((v, 0), p')" "progress ?p p'" "unread p' = rest" "sized p'" .
  then show ?thesis
    by (auto simp: parse_def Let_def outcome_simps progress_def sized_consume sized_pos_ok)
qed

text \<open>C1. Whatever the chunks the bytes arrive in, \<open>parse\<close> on the encoding of a value
  followed by further bytes returns that value without an error, leaves exactly the further
  bytes unread, and is ready for the next call.\<close>

theorem parse_roundtrip:
  assumes "sized p" and "mem \<le> mem_limit p" and "encodable dtext mem v"
    and "unread p = encode dtext v @ rest"
  shows "\<exists>p'. parse t p = Ret ((v, 0), p') \<and> unread p' = rest \<and> pos p' = 0 \<and> sized p' \<and>
    mem_limit p' = mem_limit p \<and> after (stream p') = after (stream p)"
  using assms by (rule parse_reads)

theorem parse_roundtrip_witness:
  "\<exists>p'. parse 10 (new_parser 1024 sample_events) = Ret ((sample_value, 0), p') \<and> unread p' = ''+x'' \<and>
     pos p' = 0 \<and> sized p' \<and> mem_limit p' = 1024 \<and> after (stream p') = []"
  using parse_roundtrip[OF sample_facts(1,2,3,4), of 10] by (simp add: sample_events_def)

lemma try_parse_reads:
  assumes "sized p" and "mem \<le> mem_limit p" and "encodable dtext mem v"
    and "unread p = encode dtext v @ rest"
  shows "\<exists>p'. try_parse p = Ret ((v, 0), p') \<and> unread p' = rest \<and> pos p' = 0 \<and> sized p' \<and>
    mem_limit p' = mem_limit p \<and> after (stream p') = after (stream p)"
proof -
  from poll_run[OF assms] obtain p' where
    "try_parse_recursion (depth_fuel p) p = Ret ((v, 0), p')" "progress p p'" "unread p' = rest" "sized p'" .
  then show ?thesis
    by (auto simp: try_parse_def outcome_simps progress_def sized_consume sized_pos_ok)
qed

text \<open>The same holds of the non-blocking \<open>try_parse\<close>.\<close>

theorem try_parse_roundtrip:
  assumes "sized p" and "mem \<le> mem_limit p" and "encodable dtext mem v"
    and "unread p = encode dtext v @ rest"
  shows "\<exists>p'. try_parse p = Ret ((v, 0), p') \<and> unread p' = rest \<and> pos p' = 0 \<and> sized p' \<and>
    mem_limit p' = mem_limit p \<and> after (stream p') = after (stream p)"
  using assms by (rule try_parse_reads)

theorem try_parse_roundtrip_witness:
  "\<exists>p'. try_parse (new_parser 1024 sample_events) = Ret ((sample_value, 0), p') \<and> unread p' = ''+x'' \<and>
     pos p' = 0 \<and> sized p' \<and> mem_limit p' = 1024 \<and> after (stream p') = []"
  using try_parse_roundtrip[OF sample_facts(1,2,3,4)] by (simp add: sample_events_def)

section \<open>Every input is handled\<close>

lemma parse_returns:
  assumes "pos_ok p"
  shows "(parse t p = Suspended \<and> t \<le> 0) \<or>
    (\<exists>v e p'. parse t p = Ret ((v, e), p') \<and> wf_value v \<and> pos_ok p' \<and>
       (e = 0 \<longrightarrow> length (unread p') + 2 \<le> length (unread p)))"
proof -
  let ?p = "p\<lparr>timed := t\<rparr>"
  let ?r = "parse_recursion (depth_fuel ?p) ?p"
  have "safe 2 wf_value ?p ?r"
    using assms by (intro parse_recursion_safe) (simp_all add: depth_fuel_def)
  moreover have "ends t (t \<le> 0) False ?r"
    using co_ends.rec_ends[of t "depth_fuel ?p"] by (simp add: ending_def)
  ultimately show ?thesis
    by (cases ?r) (auto simp: parse_def Let_def outcome_simps)
qed

text \<open>C2. On every input, malformed, truncated or hostile, \<open>parse\<close> either stays suspended,
  which it does only when no timeout was given, or returns; it never reads outside its buffer
  (a read in front of its first or behind its last byte would be \<open>UB\<close>) and never ends the
  process. The returned value is well-formed, the position is inside the
  buffer, and a successful call has consumed at least two bytes.\<close>

theorem parse_safe:
  assumes "pos_ok p"
  shows "(parse t p = Suspended \<and> t \<le> 0) \<or>
    (\<exists>v e p'. parse t p = Ret ((v, e), p') \<and> wf_value v \<and> pos_ok p' \<and>
       (e = 0 \<longrightarrow> length (unread p') + 2 \<le> length (unread p)))"
  using assms by (rule parse_returns)

theorem parse_safe_witness:
  "\<exists>v e p'. parse 10 (new_parser 0 [Recv_data [LF]]) = Ret ((v, e), p') \<and> e \<noteq> 0 \<and>
     wf_value v \<and> pos_ok p'"
  using parse_safe[of "new_parser 0 [Recv_data [LF]]" 10]
  by (auto simp: new_parser_def unread_def pos_ok_def)

text \<open>On every input \<open>try_parse\<close> returns or, when the allocator refuses the count of an
  aggregate, ends the process; it never waits and never reads outside its buffer. The
  returned value is well-formed and the next call starts at the front of the buffer.\<close>

theorem try_parse_safe:
  assumes "pos_ok p"
  shows "try_parse p = Terminate \<or>
    (\<exists>v e p'. try_parse p = Ret ((v, e), p') \<and> wf_value v \<and> pos p' = 0 \<and>
       (e = 0 \<longrightarrow> length (unread p') + 2 \<le> length (unread p)))"
proof -
  let ?r = "try_parse_recursion (depth_fuel p) p"
  have "safe 2 wf_value p ?r"
    using assms by (intro try_parse_recursion_safe) (simp_all add: depth_fuel_def)
  moreover have "ends (timed p) False True ?r"
    using poll_ends.rec_ends[of "timed p" "depth_fuel p"] by (simp add: ending_def)
  ultimately show ?thesis
    by (cases ?r) (auto simp: try_parse_def outcome_simps)
qed

theorem try_parse_safe_witness:
  "try_parse (new_parser 0 [Recv_data ''$5'', Recv_fail 0]) = Terminate \<or>
    (\<exists>v e p'. try_parse (new_parser 0 [Recv_data ''$5'', Recv_fail 0]) = Ret ((v, e), p') \<and>
       wf_value v \<and> pos p' = 0 \<and>
       (e = 0 \<longrightarrow> length (unread p') + 2 \<le> length (unread (new_parser 0 [Recv_data ''$5'', Recv_fail 0]))))"
  by (rule try_parse_safe) simp

section \<open>The bytes decide, not their chunks\<close>

lemma co_not_bad:
  assumes "pos_ok p"
  shows "parse_recursion (depth_fuel p) p \<noteq> UB" "parse_recursion (depth_fuel p) p \<noteq> No_fuel"
    "parse_recursion (depth_fuel p) p \<noteq> Terminate"
proof -
  have s: "safe 2 wf_value p (parse_recursion (depth_fuel p) p)"
    using assms by (intro parse_recursion_safe) (simp_all add: depth_fuel_def)
  have e: "ends (timed p) (timed p \<le> 0) False (parse_recursion (depth_fuel p) p)"
    using co_ends.rec_ends[of "timed p" "depth_fuel p"] by (simp add: ending_def)
  from s e show "parse_recursion (depth_fuel p) p \<noteq> UB" "parse_recursion (depth_fuel p) p \<noteq> No_fuel"
    "parse_recursion (depth_fuel p) p \<noteq> Terminate" by auto
qed

lemma poll_not_bad:
  assumes "pos_ok p"
  shows "try_parse_recursion (depth_fuel p) p \<noteq> UB" "try_parse_recursion (depth_fuel p) p \<noteq> No_fuel"
    "try_parse_recursion (depth_fuel p) p \<noteq> Suspended"
proof -
  have s: "safe 2 wf_value p (try_parse_recursion (depth_fuel p) p)"
    using assms by (intro try_parse_recursion_safe) (simp_all add: depth_fuel_def)
  have e: "ends (timed p) False True (try_parse_recursion (depth_fuel p) p)"
    using poll_ends.rec_ends[of "timed p" "depth_fuel p"] by (simp add: ending_def)
  from s e show "try_parse_recursion (depth_fuel p) p \<noteq> UB"
    "try_parse_recursion (depth_fuel p) p \<noteq> No_fuel"
    "try_parse_recursion (depth_fuel p) p \<noteq> Suspended" by auto
qed

lemma same_input_pos_ok: "same_input x p q \<Longrightarrow> pos_ok p \<and> pos_ok q"
  by (simp add: same_input_def sized_pos_ok)

lemma co_co_runs:
  assumes "same_input x p q"
  obtains (stop) "stalled co_stall p (parse_recursion (depth_fuel p) p)"
      and "x = [] \<Longrightarrow> stalled co_stall q (parse_recursion (depth_fuel q) q)"
    | (reply) v e p' q' where "parse_recursion (depth_fuel p) p = Ret ((v, e), p')"
      and "parse_recursion (depth_fuel q) q = Ret ((v, e), q')"
      and "progress p p'" and "progress q q'" and "unread q' = unread p' @ x"
proof -
  have "agree x co_stall p (parse_recursion (depth_fuel p) p)
      co_stall q (parse_recursion (depth_fuel q) q)"
    using co_co.rec_agreeing[of x "depth_fuel p" "depth_fuel q"] assms
    by (simp add: co_co.agreeing_def)
  with same_input_pos_ok[OF assms] stop reply show thesis
    unfolding agree_def using co_not_bad by blast
qed

lemma poll_poll_runs:
  assumes "same_input x p q" and "try_parse_recursion (depth_fuel q) q \<noteq> Terminate"
  obtains (stop) "stalled sys_stall p (try_parse_recursion (depth_fuel p) p)"
      and "x = [] \<Longrightarrow> stalled sys_stall q (try_parse_recursion (depth_fuel q) q)"
    | (reply) v e p' q' where "try_parse_recursion (depth_fuel p) p = Ret ((v, e), p')"
      and "try_parse_recursion (depth_fuel q) q = Ret ((v, e), q')"
      and "progress p p'" and "progress q q'" and "unread q' = unread p' @ x"
proof -
  have "agree x sys_stall p (try_parse_recursion (depth_fuel p) p)
      sys_stall q (try_parse_recursion (depth_fuel q) q)"
    using poll_poll.rec_agreeing[of x "depth_fuel p" "depth_fuel q"] assms
    by (simp add: poll_poll.agreeing_def)
  with same_input_pos_ok[OF assms(1)] assms(2) stop reply show thesis
    unfolding agree_def using poll_not_bad by blast
qed

lemma stalled_parse:
  assumes "stalled co_stall (p\<lparr>timed := t\<rparr>) (parse_recursion (depth_fuel (p\<lparr>timed := t\<rparr>)) (p\<lparr>timed := t\<rparr>))"
  shows "stalled co_stall (p\<lparr>timed := t\<rparr>) (parse t p)"
proof (cases "end_of co_stall (p\<lparr>timed := t\<rparr>)")
  case None
  with assms show ?thesis by (simp add: stalled_def parse_def Let_def outcome_simps)
next
  case (Some ee)
  obtain e es where ee: "ee = (e, es)" by (cases ee)
  with Some end_of_nonzero have "e \<noteq> 0" by blast
  with assms Some ee show ?thesis
    by (fastforce simp: stalled_def parse_def Let_def outcome_simps)
qed

text \<open>C3. Two parsers with the same unread bytes and the same memory, however these bytes are
  cut into chunks and spread over buffer and socket: \<open>parse\<close> returns the same value and the same
  error code on both and leaves the same bytes, or on both the bytes run out first.\<close>

theorem parse_chunk_independent:
  assumes "sized p" and "sized q" and "unread p = unread q" and "mem_limit p = mem_limit q"
  shows "(\<exists>v e p' q'. parse t p = Ret ((v, e), p') \<and> parse t q = Ret ((v, e), q') \<and>
       unread p' = unread q') \<or>
    (stalled co_stall (p\<lparr>timed := t\<rparr>) (parse t p) \<and> stalled co_stall (q\<lparr>timed := t\<rparr>) (parse t q))"
proof -
  let ?p = "p\<lparr>timed := t\<rparr>" and ?q = "q\<lparr>timed := t\<rparr>"
  have "same_input [] ?p ?q" using assms by (simp add: same_input_def)
  then show ?thesis
  proof (cases rule: co_co_runs)
    case stop
    then show ?thesis using stalled_parse by simp
  next
    case (reply v e p' q')
    then have "pos_ok p'" "pos_ok q'" by (simp_all add: progress_def)
    with reply show ?thesis
      by (cases "e = 0") (simp_all add: parse_def Let_def outcome_simps)
  qed
qed

lemmas sample_avail = sample_facts(4)[simplified]

definition sample_whole :: "recv_event list" where
  "sample_whole = [Recv_data (''*2'' @ [CR, LF] @ ''+a'' @ [CR, LF] @ '':7'' @ [CR, LF] @ ''+x'')]"

lemma sample_same: "avail sample_events = avail sample_whole" "length (avail sample_whole) < max_bulk_size"
  by (simp_all add: sample_events_def sample_whole_def max_bulk_size_def)

theorem parse_chunk_independent_witness:
  "(\<exists>v e p' q'. parse 10 (new_parser 1024 sample_events) = Ret ((v, e), p') \<and>
       parse 10 (new_parser 1024 sample_whole) = Ret ((v, e), q') \<and> unread p' = unread q') \<or>
    (stalled co_stall ((new_parser 1024 sample_events)\<lparr>timed := 10\<rparr>) (parse 10 (new_parser 1024 sample_events)) \<and>
     stalled co_stall ((new_parser 1024 sample_whole)\<lparr>timed := 10\<rparr>) (parse 10 (new_parser 1024 sample_whole)))"
  by (rule parse_chunk_independent) (simp_all add: new_parser_sized sample_same)

section \<open>A reply that is not complete\<close>

definition extended :: "parser \<Rightarrow> string \<Rightarrow> parser" where
  "extended p x = p\<lparr>linebuffer := all_bytes p @ x, stream := []\<rparr>"

lemma extended_same_input:
  assumes "sized p" and "length (all_bytes p) + length x < max_bulk_size"
  shows "same_input x p (extended p x)" "mem_limit (extended p x) = mem_limit p"
  using assms
  by (auto simp: same_input_def extended_def sized_def pos_ok_def unread_def all_bytes_def)

text \<open>A proper prefix of an encoding never makes a reply, an error or a short read.\<close>

lemma co_part_stalls:
  assumes "sized p" and "mem \<le> mem_limit p" and "encodable dtext mem v"
    and "unread p @ x = encode dtext v @ rest" and "length (unread p) < length (encode dtext v)"
    and "length (all_bytes p) + length x < max_bulk_size"
  shows "stalled co_stall p (parse_recursion (depth_fuel p) p)"
proof -
  note same = extended_same_input[OF assms(1,6)]
  from same(1) assms(4) have q: "sized (extended p x)" "unread (extended p x) = encode dtext v @ rest"
    by (simp_all add: same_input_def)
  from assms(2) same(2) have m: "mem \<le> mem_limit (extended p x)" by simp
  from co_run[OF q(1) m assms(3) q(2)] obtain q1 where
    run: "parse_recursion (depth_fuel (extended p x)) (extended p x) = Ret ((v, 0), q1)"
    and rest: "unread q1 = rest" .
  from same(1) show ?thesis
  proof (cases rule: co_co_runs)
    case (reply v' e p' q')
    with run rest have "length rest = length (unread p') + length x" by simp
    moreover have "length (unread p) + length x = length (encode dtext v) + length rest"
      using arg_cong[OF assms(4), of length] by simp
    ultimately show ?thesis using assms(5) by simp
  qed
qed

lemma poll_part_stalls:
  assumes "sized p" and "mem \<le> mem_limit p" and "encodable dtext mem v"
    and "unread p @ x = encode dtext v @ rest" and "length (unread p) < length (encode dtext v)"
    and "length (all_bytes p) + length x < max_bulk_size"
  shows "stalled sys_stall p (try_parse_recursion (depth_fuel p) p)"
proof -
  note same = extended_same_input[OF assms(1,6)]
  from same(1) assms(4) have q: "sized (extended p x)" "unread (extended p x) = encode dtext v @ rest"
    by (simp_all add: same_input_def)
  from assms(2) same(2) have m: "mem \<le> mem_limit (extended p x)" by simp
  from poll_run[OF q(1) m assms(3) q(2)] obtain q1 where
    run: "try_parse_recursion (depth_fuel (extended p x)) (extended p x) = Ret ((v, 0), q1)"
    and rest: "unread q1 = rest" .
  from run have "try_parse_recursion (depth_fuel (extended p x)) (extended p x) \<noteq> Terminate" by simp
  from same(1) this show ?thesis
  proof (cases rule: poll_poll_runs)
    case (reply v' e p' q')
    with run rest have "length rest = length (unread p') + length x" by simp
    moreover have "length (unread p) + length x = length (encode dtext v) + length rest"
      using arg_cong[OF assms(4), of length] by simp
    ultimately show ?thesis using assms(5) by simp
  qed
qed

text \<open>While only a part of a reply has arrived, \<open>parse\<close> keeps waiting: without a timeout
  it stays suspended, and with one it is cancelled with \<open>ECANCELED\<close> and no byte is lost.\<close>

theorem parse_part_waits:
  assumes "sized p" and "mem \<le> mem_limit p" and "encodable dtext mem v"
    and "unread p @ later = encode dtext v" and "later \<noteq> []"
    and "length (all_bytes p) + length later < max_bulk_size" and "after (stream p) = []"
  shows "if t \<le> 0 then parse t p = Suspended
    else \<exists>x p'. parse t p = Ret ((x, ECANCELED), p') \<and> linebuffer p' = all_bytes p \<and> stream p' = []"
proof -
  let ?p = "p\<lparr>timed := t\<rparr>"
  have "unread ?p @ later = encode dtext v @ []" using assms(4) by simp
  moreover have "length (unread ?p) < length (encode dtext v)"
    using arg_cong[OF assms(4), of length] assms(5) by (cases later) auto
  ultimately have "stalled co_stall ?p (parse_recursion (depth_fuel ?p) ?p)"
    using assms by (intro co_part_stalls[where mem = mem and x = later and rest = "[]"]) simp_all
  then have "stalled co_stall ?p (parse t p)" by (rule stalled_parse)
  then show ?thesis
    using assms(7) by (auto simp: stalled_def end_of_def co_stall_def ECANCELED_def)
qed

theorem parse_part_waits_witness:
  "if (0::int) \<le> 0 then parse 0 (new_parser 0 [Recv_data ''+o'']) = Suspended
    else \<exists>x p'. parse 0 (new_parser 0 [Recv_data ''+o'']) = Ret ((x, ECANCELED), p') \<and>
      linebuffer p' = all_bytes (new_parser 0 [Recv_data ''+o'']) \<and> stream p' = []"
  by (rule parse_part_waits[where mem = 0 and dtext = "\<lambda>_. []" and v = "Simple_string ''ok''"
        and later = "''k'' @ [CR, LF]"])
     (simp_all add: new_parser_sized max_bulk_size_def all_bytes_def frame_line_def crlf_def LF_def)

text \<open>\<open>try_parse\<close> on a part of a reply fails with \<open>EAGAIN\<close> and keeps every byte; once the
  rest has arrived, in any chunks, the next call returns the reply.\<close>

theorem try_parse_resumes:
  assumes "sized p" and "pos p = 0" and "mem \<le> mem_limit p" and "encodable dtext mem v"
    and "all_bytes p @ later = encode dtext v @ rest" and "length (all_bytes p) < length (encode dtext v)"
    and "length (all_bytes p) + length later < max_bulk_size" and "after (stream p) = []"
  shows "\<exists>x p'. try_parse p = Ret ((x, EAGAIN), p') \<and> linebuffer p' = all_bytes p \<and>
    stream p' = [] \<and> pos p' = 0 \<and>
    (\<forall>es. avail es = later \<longrightarrow>
      (\<exists>p''. try_parse (p'\<lparr>stream := es\<rparr>) = Ret ((v, 0), p'') \<and> unread p'' = rest))"
proof -
  have u: "unread p = all_bytes p" using assms(2) by (simp add: unread_all_bytes)
  have "stalled sys_stall p (try_parse_recursion (depth_fuel p) p)"
    by (rule poll_part_stalls[OF assms(1,3,4), of later rest]) (use assms u in simp_all)
  then obtain x p1 where r: "try_parse_recursion (depth_fuel p) p = Ret ((x, EAGAIN), p1)"
    "linebuffer p1 = all_bytes p" "stream p1 = []" "mem_limit p1 = mem_limit p"
    using assms(8) by (auto simp: stalled_def end_of_def sys_stall_def EAGAIN_def)
  let ?p' = "p1\<lparr>pos := 0\<rparr>"
  have small: "length (encode dtext v @ rest) < max_bulk_size"
    using assms(7) by (simp only: assms(5)[symmetric] length_append)
  have "\<exists>p''. try_parse (?p'\<lparr>stream := es\<rparr>) = Ret ((v, 0), p'') \<and> unread p'' = rest"
    if "avail es = later" for es
  proof -
    let ?q = "?p'\<lparr>stream := es\<rparr>"
    have "unread ?q = encode dtext v @ rest" "sized ?q" "mem \<le> mem_limit ?q"
      using that r assms(2,3,5) small by (simp_all add: unread_def sized_def pos_ok_def all_bytes_def)
    from try_parse_reads[OF this(2,3) assms(4) this(1)] show ?thesis by blast
  qed
  moreover have "try_parse p = Ret ((x, EAGAIN), ?p')"
    using r by (simp add: try_parse_def outcome_simps EAGAIN_def)
  ultimately show ?thesis using r by (intro exI[of _ x] exI[of _ ?p']) simp
qed

theorem try_parse_resumes_witness:
  "\<exists>x p'. try_parse (new_parser 0 [Recv_data ''+o'']) = Ret ((x, EAGAIN), p') \<and>
    linebuffer p' = all_bytes (new_parser 0 [Recv_data ''+o'']) \<and> stream p' = [] \<and> pos p' = 0 \<and>
    (\<forall>es. avail es = ''k'' @ [CR, LF] \<longrightarrow>
      (\<exists>p''. try_parse (p'\<lparr>stream := es\<rparr>) = Ret ((Simple_string ''ok'', 0), p'') \<and> unread p'' = []))"
  by (rule try_parse_resumes[where mem = 0 and dtext = "\<lambda>_. []"])
     (simp_all add: new_parser_sized max_bulk_size_def all_bytes_def frame_line_def crlf_def LF_def)

section \<open>Waiting or polling\<close>

lemma co_poll_runs:
  assumes "same_input x p q"
  obtains (stop) "stalled co_stall p (parse_recursion (depth_fuel p) p)"
      and "x = [] \<Longrightarrow> stalled sys_stall q (try_parse_recursion (depth_fuel q) q)"
    | (reply) v e p' q' where "parse_recursion (depth_fuel p) p = Ret ((v, e), p')"
      and "try_parse_recursion (depth_fuel q) q = Ret ((v, e), q')"
      and "progress p p'" and "progress q q'" and "unread q' = unread p' @ x"
    | (oom) "try_parse_recursion (depth_fuel q) q = Terminate"
proof -
  have "agree x co_stall p (parse_recursion (depth_fuel p) p)
      sys_stall q (try_parse_recursion (depth_fuel q) q)"
    using co_poll.rec_agreeing[of x "depth_fuel p" "depth_fuel q"] assms
    by (simp add: co_poll.agreeing_def)
  with same_input_pos_ok[OF assms] stop reply oom show thesis
    unfolding agree_def using co_not_bad poll_not_bad by blast
qed

text \<open>C4. The two copies of the parser in the source are the same reader: on the same unread
  bytes \<open>try_parse\<close> returns the value and the error of \<open>parse\<close> and after a success leaves
  the same bytes, unless it ends the process at a refused allocation, or the bytes run out in
  both.\<close>

theorem try_parse_refines_parse:
  assumes "sized p" and "sized q" and "unread p = unread q" and "mem_limit p = mem_limit q"
  shows "try_parse q = Terminate \<or>
    (\<exists>v e p' q'. parse t p = Ret ((v, e), p') \<and> try_parse q = Ret ((v, e), q') \<and>
       (e = 0 \<longrightarrow> unread q' = unread p')) \<or>
    (stalled co_stall (p\<lparr>timed := t\<rparr>) (parse t p) \<and>
       (\<exists>x e q' es. try_parse q = Ret ((x, e), q') \<and> end_of sys_stall q = Some (e, es)))"
proof -
  let ?p = "p\<lparr>timed := t\<rparr>"
  have "same_input [] ?p q" using assms by (simp add: same_input_def)
  then show ?thesis
  proof (cases rule: co_poll_runs)
    case stop
    then have "stalled sys_stall q (try_parse_recursion (depth_fuel q) q)" by simp
    then have "\<exists>x e q' es. try_parse q = Ret ((x, e), q') \<and> end_of sys_stall q = Some (e, es)"
      using poll_not_bad(3)[OF sized_pos_ok[OF assms(2)]]
      by (fastforce simp: stalled_def try_parse_def outcome_simps split: option.splits)
    with stalled_parse[OF stop(1)] show ?thesis by blast
  next
    case (reply v e p' q')
    then have "pos_ok p'" "pos_ok q'" by (simp_all add: progress_def)
    with reply show ?thesis
      by (cases "e = 0") (simp_all add: parse_def try_parse_def Let_def outcome_simps)
  next
    case oom
    then show ?thesis by (simp add: try_parse_def outcome_simps)
  qed
qed

theorem try_parse_refines_parse_witness:
  "try_parse (new_parser 1024 sample_whole) = Terminate \<or>
    (\<exists>v e p' q'. parse 10 (new_parser 1024 sample_events) = Ret ((v, e), p') \<and>
       try_parse (new_parser 1024 sample_whole) = Ret ((v, e), q') \<and> (e = 0 \<longrightarrow> unread q' = unread p')) \<or>
    (stalled co_stall ((new_parser 1024 sample_events)\<lparr>timed := 10\<rparr>) (parse 10 (new_parser 1024 sample_events)) \<and>
       (\<exists>x e q' es. try_parse (new_parser 1024 sample_whole) = Ret ((x, e), q') \<and>
          end_of sys_stall (new_parser 1024 sample_whole) = Some (e, es)))"
  by (rule try_parse_refines_parse) (simp_all add: new_parser_sized sample_same)

section \<open>A count that the allocator refuses\<close>

lemma refused_switch:
  assumes "int n \<le> int64_max" and "mem_limit p < sizeof_RedisValue * n"
  shows "reply_switch rb oom rc (CHR ''*'') (Some (to_chars_nat n)) p = oom p"
  using assms by (simp add: reply_switch_def reply_array_def with_count_def with_view_def
      stoll_view_to_chars_nat)

lemma LF_not_star: "CHR ''*'' \<noteq> LF"
  by (simp add: LF_def)

text \<open>The reply header of an array whose vector the allocator refuses: \<open>parse\<close> reports
  success with a null value although only the header has been read, so the elements that follow
  are taken for the next replies, and \<open>try_parse\<close> ends the process.\<close>

theorem refused_count:
  assumes "sized p" and "pos p = 0" and "unread p = frame_line (CHR ''*'') (to_chars_nat n) @ rest"
    and "int n \<le> int64_max" and "mem_limit p < sizeof_RedisValue * n"
  shows "(\<exists>p'. parse t p = Ret ((Nullptr, 0), p') \<and> unread p' = rest) \<and> try_parse p = Terminate"
proof -
  let ?p = "p\<lparr>timed := t\<rparr>"
  have line: "\<exists>q. line_loop stall (pos q0) q0 = Ret (((CHR ''*'', Some (to_chars_nat n)), 0), q) \<and>
      progress q0 q \<and> unread q = rest"
    if "frame_stall stall" "sized q0" "unread q0 = unread p" for stall q0
    using line_framed[OF that(1,2)] scan_line_complete[OF LF_notin_to_chars(1) LF_not_star, of n rest]
      assms(3) that(3) by (simp add: frame_line_def crlf_def)
  obtain d where d: "depth_fuel p = Suc d" "depth_fuel ?p = Suc d" by (simp add: depth_fuel_def)
  from line[of co_stall ?p] assms(1) obtain q where
    q: "read_line ?p = Ret (((CHR ''*'', Some (to_chars_nat n)), 0), q)" "progress ?p q" "unread q = rest"
    unfolding read_line_def by fastforce
  then have "mem_limit q < sizeof_RedisValue * n" using assms(5) by (simp add: progress_def)
  then have "parse_recursion (depth_fuel ?p) ?p = Ret ((Nullptr, 0), q)"
    unfolding d parse_recursion.simps using q refused_switch[OF assms(4)]
    by (simp add: outcome_simps co_oom_def)
  then have 1: "parse t p = Ret ((Nullptr, 0), consume q)"
    by (simp add: parse_def Let_def outcome_simps)
  from line[of sys_stall p] assms(1) obtain q' where
    q': "try_read_line p = Ret (((CHR ''*'', Some (to_chars_nat n)), 0), q')" "progress p q'"
    unfolding try_read_line_def by fastforce
  then have "mem_limit q' < sizeof_RedisValue * n" using assms(5) by (simp add: progress_def)
  then have "try_parse_recursion (depth_fuel p) p = Terminate"
    unfolding d try_parse_recursion.simps using q' refused_switch[OF assms(4)]
    by (simp add: outcome_simps try_oom_def)
  then have "try_parse p = Terminate" by (simp add: try_parse_def outcome_simps)
  with 1 q show ?thesis by (simp add: progress_def)
qed

theorem refused_count_witness:
  "(\<exists>p'. parse 10 (new_parser 16 sample_whole) = Ret ((Nullptr, 0), p') \<and>
      unread p' = ''+a'' @ [CR, LF] @ '':7'' @ [CR, LF] @ ''+x'') \<and>
   try_parse (new_parser 16 sample_whole) = Terminate"
  by (rule refused_count[where n = "Suc (Suc 0)"])
     (simp_all add: new_parser_sized sample_same sample_whole_def frame_line_def crlf_def small_numbers
        sizeof_RedisValue_def max_bulk_size_def int64_max_def)

section \<open>A batch of replies\<close>

lemma int32_of_small: "n < 2 ^ 31 \<Longrightarrow> int32_of n = int n"
  by (simp add: int32_of_def signed_of_nat signed_take_bit_int_eq_self)

lemma try_parse_loop_reads:
  assumes "sized p" and "mem \<le> mem_limit p" and "\<forall>v\<in>set vs. encodable dtext mem v"
    and "unread p = concat (map (encode dtext) vs) @ rest"
  shows "\<exists>p'. progress p p' \<and> sized p' \<and> unread p' = rest \<and>
    try_parse_loop (length vs + k) vals errs p =
    try_parse_loop k (vals @ vs) (errs @ replicate (length vs) 0) p'"
  using assms
proof (induction vs arbitrary: p vals errs)
  case Nil
  then show ?case by (auto simp: sized_pos_ok intro!: exI[of _ p])
next
  case (Cons v vs)
  from Cons.prems have "encodable dtext mem v"
    and "unread p = encode dtext v @ concat (map (encode dtext) vs) @ rest" by simp_all
  from poll_run[OF Cons.prems(1,2) this] obtain q where
    q: "try_parse_recursion (depth_fuel p) p = Ret ((v, 0), q)" "progress p q"
      "unread q = concat (map (encode dtext) vs) @ rest" "sized q" "mem \<le> mem_limit q" .
  from Cons.IH[OF q(4,5) _ q(3), of "vals @ [v]" "errs @ [0]"] Cons.prems(3)
  obtain p' where p': "progress q p'" "sized p'" "unread p' = rest"
    "try_parse_loop (length vs + k) (vals @ [v]) (errs @ [0]) q =
     try_parse_loop k (vals @ v # vs) (errs @ 0 # replicate (length vs) 0) p'" by auto
  moreover have "try_parse_loop (length (v # vs) + k) vals errs p =
      try_parse_loop (length vs + k) (vals @ [v]) (errs @ [0]) q"
    using q(1) by (simp add: outcome_simps EAGAIN_def Let_def)
  ultimately show ?case
    using progress_trans[OF q(2) p'(1)] by (intro exI[of _ p']) simp
qed

text \<open>When the bytes hold at least \<open>n\<close> replies, \<open>try_parse_n\<close> returns the first \<open>n\<close> of
  them in the order they were sent, each without an error, and leaves the bytes behind them.\<close>

theorem try_parse_n_full:
  assumes "sized p" and "mem \<le> mem_limit p" and "\<forall>v\<in>set vs. encodable dtext mem v"
    and "unread p = concat (map (encode dtext) vs) @ rest"
  shows "\<exists>p'. try_parse_n (length vs) p =
      Ret (((vs, replicate (length vs) 0, length vs), 0), p') \<and> pos p' = 0 \<and> unread p' = rest"
proof -
  from try_parse_loop_reads[OF assms, of 0 "[]" "[]"] obtain p' where
    "progress p p'" "unread p' = rest"
    "try_parse_loop (length vs) [] [] p = try_parse_loop 0 vs (replicate (length vs) 0) p'" by auto
  then show ?thesis
    by (auto simp: try_parse_n_def unread_def progress_def pos_ok_def)
qed

theorem try_parse_n_full_witness:
  "\<exists>p'. try_parse_n 1 (new_parser 1024 sample_events) = Ret ((([sample_value], [0], 1), 0), p') \<and>
     pos p' = 0 \<and> unread p' = ''+x''"
  using try_parse_n_full[of "new_parser 1024 sample_events" 1024 "[sample_value]" "\<lambda>_. []" "''+x''"]
  by (simp add: sample_facts sample_avail)

text \<open>C16. When fewer replies than asked for have arrived, \<open>try_parse_n\<close> returns those that are
  complete, in order, marks the next entry with \<open>EAGAIN\<close>, reports no error for the batch, and
  keeps exactly the bytes of the incomplete reply for the next call.\<close>

theorem try_parse_n_partial:
  assumes "sized p" and "mem \<le> mem_limit p" and "\<forall>v\<in>set vs. encodable dtext mem v"
    and "unread p = concat (map (encode dtext) vs) @ part" and "length vs < n"
    and "encodable dtext mem w" and "part @ later = encode dtext w" and "later \<noteq> []"
    and "length (all_bytes p) + length later < max_bulk_size" and "after (stream p) = []"
  shows "\<exists>p'. try_parse_n n p =
      Ret (((vs, replicate (length vs) 0 @ [EAGAIN], length vs), 0), p') \<and>
      pos p' = 0 \<and> linebuffer p' = part \<and> stream p' = []"
proof -
  obtain k where n: "n = length vs + Suc k" using assms(5) less_iff_Suc_add by auto
  from try_parse_loop_reads[OF assms(1-4), of "Suc k" "[]" "[]"] obtain q where
    q: "progress p q" "sized q" "unread q = part" and
    loop: "try_parse_loop n [] [] p = try_parse_loop (Suc k) vs (replicate (length vs) 0) q"
    by (auto simp: n)
  have len: "length part < length (encode dtext w)"
    using arg_cong[OF assms(7), of length] assms(8) by (cases later) auto
  have "stalled sys_stall q (try_parse_recursion (depth_fuel q) q)"
    by (rule poll_part_stalls[where mem = mem and v = w and x = later and rest = "[]"])
       (use q assms len in \<open>simp_all add: progress_def\<close>)
  then obtain x p1 where r: "try_parse_recursion (depth_fuel q) q = Ret ((x, EAGAIN), p1)"
    "linebuffer p1 = all_bytes q" "stream p1 = []"
    using assms(10) q(1) by (auto simp: stalled_def end_of_def sys_stall_def EAGAIN_def progress_def)
  have "pos q < 2 ^ 31" using q(2) by (simp add: sized_def pos_ok_def all_bytes_def max_bulk_size_def)
  then have "erase_front (int32_of (pos q)) (linebuffer p1) = part"
    using q(3) r(2) by (simp add: int32_of_small erase_front_def unread_all_bytes)
  then show ?thesis
    using loop r by (auto simp: try_parse_n_def outcome_simps Let_def)
qed

theorem try_parse_n_partial_witness:
  "\<exists>p'. try_parse_n 3 (new_parser 1024 sample_events) =
      Ret ((([sample_value], [0, EAGAIN], 1), 0), p') \<and> pos p' = 0 \<and> linebuffer p' = ''+x'' \<and> stream p' = []"
  using try_parse_n_partial[of "new_parser 1024 sample_events" 1024 "[sample_value]" "\<lambda>_. []" "''+x''"
      3 "Simple_string ''x''" "[CR, LF]"]
  by (simp add: sample_facts sample_avail)
     (simp add: all_bytes_def sample_events_def max_bulk_size_def frame_line_def crlf_def LF_def)

lemma try_parse_loop_safe:
  assumes "pos_ok p" and "\<forall>v\<in>set vs. wf_value v"
  shows "try_parse_loop left vs (replicate (length vs) 0) p = Terminate \<or>
    (\<exists>ws e p'. try_parse_loop left vs (replicate (length vs) 0) p =
        Ret (((ws, replicate (length ws) 0, length ws), e), p') \<and> e = 0 \<and>
        length ws = length vs + left \<and> (\<forall>v\<in>set ws. wf_value v) \<and> pos p' = 0) \<or>
    (\<exists>ws err e p'. try_parse_loop left vs (replicate (length vs) 0) p =
        Ret (((ws, replicate (length ws) 0 @ [err], length ws), e), p') \<and> err \<noteq> 0 \<and>
        e = (if err = EAGAIN then 0 else err) \<and>
        length ws < length vs + left \<and> (\<forall>v\<in>set ws. wf_value v) \<and> pos p' = 0)"
  using assms
proof (induction left arbitrary: p vs)
  case 0
  then show ?case by auto
next
  case (Suc left)
  let ?r = "try_parse_recursion (depth_fuel p) p"
  have safe: "safe 2 wf_value p ?r"
    using Suc.prems(1) by (intro try_parse_recursion_safe) (simp_all add: depth_fuel_def)
  show ?case
  proof (cases ?r)
    case (Ret x)
    obtain v e p' where x: "x = ((v, e), p')" by (metis surj_pair)
    with Ret safe have v: "wf_value v" "pos_ok p'" by auto
    show ?thesis
    proof (cases "e = 0")
      case True
      have rep: "replicate (length (vs @ [v])) 0 = replicate (length vs) 0 @ [0]"
        by (simp add: replicate_append_same)
      have "try_parse_loop (Suc left) vs (replicate (length vs) 0) p =
          try_parse_loop left (vs @ [v]) (replicate (length (vs @ [v])) 0) p'"
        using True Ret x unfolding rep by (simp add: outcome_simps Let_def EAGAIN_def)
      then show ?thesis using Suc.IH[of p' "vs @ [v]"] Suc.prems(2) v by simp
    next
      case False
      with Ret x Suc.prems(2) show ?thesis
        by (simp add: outcome_simps Let_def EAGAIN_def)
    qed
  qed (use safe poll_not_bad[OF Suc.prems(1)] in \<open>simp_all add: outcome_simps Let_def\<close>)
qed

text \<open>On every input \<open>try_parse_n\<close> with room for \<open>n\<close> entries ends the process at a
  refused allocation or returns a count of well-formed replies; all entries counted have error
  code 0, and when the count is below \<open>n\<close> the entry behind them holds the error that stopped the
  batch, which is also the error of the call unless it is \<open>EAGAIN\<close>.\<close>

theorem try_parse_n_safe:
  assumes "pos_ok p"
  shows "try_parse_n n p = Terminate \<or>
    (\<exists>vs errs e p'. try_parse_n n p = Ret (((vs, errs, length vs), e), p') \<and>
       (\<forall>v\<in>set vs. wf_value v) \<and> pos p' = 0 \<and>
       (if length vs = n then e = 0 \<and> errs = replicate n 0
        else length vs < n \<and> (\<exists>err. err \<noteq> 0 \<and> errs = replicate (length vs) 0 @ [err] \<and>
          e = (if err = EAGAIN then 0 else err))))"
proof -
  have "\<forall>v\<in>set []. wf_value v" by simp
  from try_parse_loop_safe[OF assms this, of n, unfolded list.size(3) replicate_0 add_0, folded try_parse_n_def]
  show ?thesis
  proof (elim disjE exE conjE)
    fix ws err e p'
    assume "try_parse_n n p = Ret (((ws, replicate (length ws) 0 @ [err], length ws), e), p')"
      and "err \<noteq> 0" and "e = (if err = EAGAIN then 0 else err)" and "length ws < n"
      and "\<forall>v\<in>set ws. wf_value v" and "pos p' = 0"
    then show ?thesis
      by (intro disjI2 exI[of _ ws] exI[of _ "replicate (length ws) 0 @ [err]"] exI[of _ e] exI[of _ p'])
         simp
  qed auto
qed

theorem try_parse_n_safe_witness:
  "try_parse_n 2 (new_parser 0 sample_whole) = Terminate \<or>
    (\<exists>vs errs e p'. try_parse_n 2 (new_parser 0 sample_whole) = Ret (((vs, errs, length vs), e), p') \<and>
       (\<forall>v\<in>set vs. wf_value v) \<and> pos p' = 0 \<and>
       (if length vs = 2 then e = 0 \<and> errs = replicate 2 0
        else length vs < 2 \<and> (\<exists>err. err \<noteq> 0 \<and> errs = replicate (length vs) 0 @ [err] \<and>
          e = (if err = EAGAIN then 0 else err))))"
  by (rule try_parse_n_safe) simp

end
