(* ===== verification/Command_Wire.thy ===== *)
theory Command_Wire
  imports Resp_Api Commands
begin

text \<open>
  \<open>build_commands\<close> and its helpers (include/RedisCommander.hpp): the RESP form of a command.
  The lemmas show that it is the encoding of an array of bulk strings, whatever bytes the
  words hold, that a sequence of commands can be cut back in one way only, and that the
  buffer is reserved at its exact size.
\<close>

section \<open>The code\<close>

definition bit_table :: "u64 list" where
  "bit_table =
    [1, 1, 3, 1, 7, 1, 9, 1, 31, 2, 63, 2, 99, 2, 255, 3, 511, 3, 999, 3, 2047, 4, 4095, 4, 8191, 4,
     9999, 4, 32767, 5, 65535, 5, 99999, 5, 262143, 6, 524287, 6, 999999, 6, 2097151, 7, 4194303, 7,
     8388607, 7, 9999999, 7, 33554431, 8, 67108863, 8, 99999999, 8, 268435455, 9, 536870911, 9,
     999999999, 9, 2147483647, 10, 4294967295, 10, 8589934591, 10, 9999999999, 10, 34359738367, 11,
     68719476735, 11, 99999999999, 11, 274877906943, 12, 549755813887, 12, 999999999999, 12,
     2199023255551, 13, 4398046511103, 13, 8796093022207, 13, 9999999999999, 13, 35184372088831, 14,
     70368744177663, 14, 99999999999999, 14, 281474976710655, 15, 562949953421311, 15, 999999999999999,
     15, 2251799813685247, 16, 4503599627370495, 16, 9007199254740991, 16, 9999999999999999, 16,
     36028797018963967, 17, 72057594037927935, 17, 99999999999999999, 17, 288230376151711743, 18,
     576460752303423487, 18, 999999999999999999, 18, 2305843009213693951, 19, 4611686018427387903, 19,
     9223372036854775807, 19, 9999999999999999999, 19]"

definition countl_zero :: "u64 \<Rightarrow> nat" where
  "countl_zero w = length (takeWhile (\<lambda>i. \<not> bit w i) (rev [0..<64]))"

definition count_digits :: "u64 \<Rightarrow> u64" where
  "count_digits integral =
     (if integral = 0 then 1
      else bit_table ! (2 * (63 - countl_zero integral) + 1)
        + (if bit_table ! (2 * (63 - countl_zero integral)) < integral then 1 else 0))"

definition command_unpack :: "string \<Rightarrow> string \<Rightarrow> string" where
  "command_unpack wbuffer arg =
     (let w1 = wbuffer @ ''$''; w2 = w1 @ to_chars_nat (length arg); w3 = w2 @ [CR, LF]; w4 = w3 @ arg
      in w4 @ [CR, LF])"

text \<open>The size that \<open>build_commands\<close> reserves, in 64-bit arithmetic.\<close>

definition command_size :: "string list \<Rightarrow> u64" where
  "command_size args =
     foldl (\<lambda>n s. n + (of_nat (length s) + count_digits (of_nat (length s))))
       (5 * of_nat (length args) + 3 + of_nat (length (to_chars_nat (length args)))) args"

definition build_commands :: "string list \<Rightarrow> string" where
  "build_commands args =
     foldl command_unpack (''*'' @ to_chars_nat (length args) @ [CR, LF]) args"

text \<open>
  The variants over an input iterator: \<open>begin\<close> is the list of the elements from the iterator
  to the end of its range, which the function is not given; reading past it is undefined.
\<close>

fun unpack_range :: "string \<Rightarrow> string list \<Rightarrow> nat \<Rightarrow> string outcome" where
  "unpack_range wbuffer rest 0 = Ret wbuffer"
| "unpack_range wbuffer [] (Suc n) = UB"
| "unpack_range wbuffer (arg # rest) (Suc n) = unpack_range (command_unpack wbuffer arg) rest n"

definition build_commands_from_range :: "string \<Rightarrow> string list \<Rightarrow> u64 \<Rightarrow> string outcome" where
  "build_commands_from_range cmd rest count =
     (let num_args = 1 + count;
          wbuffer = ''*'' @ to_chars_nat (unat num_args) @ [CR, LF]
      in unpack_range (command_unpack wbuffer cmd) rest (unat count))"

definition build_commands_from_range_key :: "string \<Rightarrow> string \<Rightarrow> string list \<Rightarrow> u64 \<Rightarrow> string outcome" where
  "build_commands_from_range_key cmd key rest count =
     (let num_args = 2 + count;
          wbuffer = ''*'' @ to_chars_nat (unat num_args) @ [CR, LF]
      in unpack_range (command_unpack (command_unpack wbuffer cmd) key) rest (unat count))"

text \<open>The payload of a command of the interface.\<close>

definition command_payload :: "(u64 \<Rightarrow> string) \<Rightarrow> redis_command \<Rightarrow> string option" where
  "command_payload dtext c = map_option build_commands (client_words dtext c)"

section \<open>The wire form\<close>

lemma command_unpack_bulk: "command_unpack w arg = w @ frame_bulk (CHR ''$'') arg"
  by (simp add: command_unpack_def Let_def frame_bulk_def frame_line_def crlf_def)

lemma foldl_unpack: "foldl command_unpack w args = w @ concat (map (frame_bulk (CHR ''$'')) args)"
  by (induction args arbitrary: w) (simp_all add: command_unpack_bulk)

lemma build_commands_eq:
  "build_commands args = frame_line (CHR ''*'') (to_chars_nat (length args)) @ concat (map (frame_bulk (CHR ''$'')) args)"
  by (simp add: build_commands_def foldl_unpack frame_line_def crlf_def)

lemma unpack_range_eq:
  "unpack_range w rest n =
     (if n \<le> length rest then Ret (w @ concat (map (frame_bulk (CHR ''$'')) (take n rest))) else UB)"
  by (induction w rest n rule: unpack_range.induct) (simp_all add: command_unpack_bulk)

text \<open>C32. \<open>build_commands\<close> writes the RESP encoding of the array of its words as bulk strings.\<close>
theorem build_commands_is_array:
  "build_commands args = encode dtext (Array (map Bulk_string args))"
  by (simp add: build_commands_eq comp_def)

text \<open>\<open>build_commands_from_range\<close> with \<open>count\<close> elements there to read writes what
  \<open>build_commands\<close> writes for the word, the key if there is one, and those elements.\<close>
theorem build_from_range_same:
  assumes "unat count \<le> length rest" and "unat count + 2 < 2 ^ 64"
  shows "build_commands_from_range cmd rest count = Ret (build_commands (cmd # take (unat count) rest)) \<and>
    build_commands_from_range_key cmd key rest count = Ret (build_commands (cmd # key # take (unat count) rest))"
proof -
  have "unat (1 + count) = Suc (unat count)" "unat (2 + count) = Suc (Suc (unat count))"
    using assms(2) by (simp_all add: unat_word_ariths)
  then show ?thesis
    using assms(1)
    by (simp add: build_commands_from_range_def build_commands_from_range_key_def Let_def unpack_range_eq
        build_commands_eq command_unpack_bulk frame_line_def crlf_def min_absorb2)
qed

theorem build_from_range_same_witness:
  "build_commands_from_range ''DEL'' [''a'', ''b''] 2 = Ret (build_commands [''DEL'', ''a'', ''b'']) \<and>
   build_commands_from_range_key ''SADD'' ''k'' [''a'', ''b''] 2 = Ret (build_commands [''SADD'', ''k'', ''a'', ''b''])"
  using build_from_range_same[of 2 "[''a'', ''b'']" "''DEL''" "''k''"]
    build_from_range_same[of 2 "[''a'', ''b'']" "''SADD''" "''k''"] by simp

section \<open>The framing cannot be forged\<close>

lemma digits_prefix:
  assumes "to_chars_nat m @ crlf @ x = to_chars_nat n @ crlf @ y"
  shows "m = n \<and> x = y"
proof -
  have cut: "takeWhile is_digit (to_chars_nat k @ crlf @ z) = to_chars_nat k" for k z
    using to_chars_nat_digits[of _ k] by (simp add: takeWhile_append2 crlf_def CR_def)
  have "to_chars_nat m = to_chars_nat n" using cut[of m x] cut[of n y] assms by simp
  then show ?thesis using assms by (simp add: to_chars_nat_inj)
qed

lemma bulk_prefix:
  assumes "frame_bulk c a @ x = frame_bulk c b @ y"
  shows "a = b \<and> x = y"
proof -
  have "length a = length b \<and> a @ crlf @ x = b @ crlf @ y"
    using assms digits_prefix[of "length a" "a @ crlf @ x" "length b" "b @ crlf @ y"]
    by (simp add: frame_bulk_def frame_line_def)
  then show ?thesis by auto
qed

lemma bulks_prefix:
  assumes "length as = length bs"
    and "concat (map (frame_bulk c) as) @ x = concat (map (frame_bulk c) bs) @ y"
  shows "as = bs \<and> x = y"
  using assms
proof (induction as bs rule: list_induct2)
  case (Cons a as b bs)
  then have "frame_bulk c a @ concat (map (frame_bulk c) as) @ x = frame_bulk c b @ concat (map (frame_bulk c) bs) @ y"
    by simp
  from bulk_prefix[OF this] Cons.IH show ?case by simp
qed simp

lemma build_commands_prefix:
  assumes "build_commands as @ x = build_commands bs @ y"
  shows "as = bs \<and> x = y"
proof -
  let ?bulks = "\<lambda>ws. concat (map (frame_bulk (CHR ''$'')) ws)"
  have cut: "to_chars_nat (length as) @ crlf @ ?bulks as @ x = to_chars_nat (length bs) @ crlf @ ?bulks bs @ y"
    using assms by (simp add: build_commands_eq frame_line_def)
  from digits_prefix[OF cut] have "length as = length bs" and "?bulks as @ x = ?bulks bs @ y" by simp_all
  then show ?thesis by (rule bulks_prefix)
qed

text \<open>C33. The bytes of a sequence of commands determine the commands and their words: no word,
  whatever bytes it holds, can end its command or pass for another one.\<close>
theorem commands_unforgeable:
  "concat (map build_commands cs) = concat (map build_commands ds) \<longleftrightarrow> cs = ds"
proof
  have nonempty: "build_commands c \<noteq> []" for c by (simp add: build_commands_eq frame_line_def)
  assume "concat (map build_commands cs) = concat (map build_commands ds)"
  then show "cs = ds"
  proof (induction cs arbitrary: ds)
    case Nil
    then show ?case using nonempty by (cases ds) simp_all
  next
    case (Cons c cs)
    then obtain d ds' where d: "ds = d # ds'" using nonempty by (cases ds) simp_all
    with Cons.prems have "build_commands c @ concat (map build_commands cs) = build_commands d @ concat (map build_commands ds')"
      by simp
    from build_commands_prefix[OF this] Cons.IH[of ds'] d show ?case by simp
  qed
qed simp

section \<open>The reserved size\<close>

lemma countl_zero_bounds:
  assumes "w \<noteq> 0"
  shows "countl_zero w < 64" and "2 ^ (63 - countl_zero w) \<le> unat w" and "unat w < 2 ^ (64 - countl_zero w)"
proof -
  let ?c = "countl_zero w"
  let ?xs = "rev [0..<64] :: nat list"
  obtain n where "bit w n" using assms by (auto simp: bit_eq_iff)
  then have "n < 64" and n: "n \<in> set ?xs" by (auto dest: bit_imp_le_length)
  have "\<exists>x\<in>set ?xs. bit w x" using n \<open>bit w n\<close> by blast
  then have lt: "?c < length ?xs"
    using length_takeWhile_le[of "\<lambda>i. \<not> bit w i" ?xs] takeWhile_eq_take[of "\<lambda>i. \<not> bit w i" ?xs]
      takeWhile_eq_all_conv[of "\<lambda>i. \<not> bit w i" ?xs]
    unfolding countl_zero_def by (metis le_neq_implies_less take_all_iff)
  then show c: "?c < 64" by simp
  have "bit w (?xs ! ?c)"
    using nth_length_takeWhile[of "\<lambda>i. \<not> bit w i" ?xs] lt by (simp add: countl_zero_def)
  then have top: "bit w (63 - ?c)" using c by (simp add: rev_nth)
  have high: "\<not> bit w i" if "64 - ?c \<le> i" for i
  proof (cases "i < 64")
    case True
    have "?xs ! (63 - i) = i" using True by (simp add: rev_nth)
    moreover have "63 - i < ?c" using that True c by linarith
    ultimately show ?thesis
      using takeWhile_nth[of "63 - i" "\<lambda>i. \<not> bit w i" ?xs] nth_mem[of "63 - i" "takeWhile (\<lambda>i. \<not> bit w i) ?xs"]
      by (auto simp: countl_zero_def dest: set_takeWhileD)
  next
    case False
    then show ?thesis by (auto dest: bit_imp_le_length)
  qed
  then have below: "bit w i \<Longrightarrow> i < 64 - ?c" for i by (meson not_le)
  have "unat w = take_bit (64 - ?c) (unat w)"
    by (rule bit_eqI) (auto simp: bit_take_bit_iff bit_unsigned_iff dest: below)
  then show "unat w < 2 ^ (64 - ?c)" by (metis take_bit_nat_less_exp)
  have "bit (unat w) (63 - ?c)" using top by (simp add: bit_unsigned_iff)
  then have "odd (unat w div 2 ^ (63 - ?c))" by (simp add: bit_iff_odd)
  then have "unat w div 2 ^ (63 - ?c) \<noteq> 0" by (metis even_zero)
  then show "2 ^ (63 - ?c) \<le> unat w" by (metis div_less not_le)
qed

text \<open>
  What a row of the table says: \<open>k\<close> is the highest bit, \<open>t\<close> the last number with \<open>d\<close> digits.
\<close>

definition digits_row :: "nat \<Rightarrow> nat \<Rightarrow> nat \<Rightarrow> bool" where
  "digits_row k t d \<longleftrightarrow> 0 < d \<and> d < 100 \<and> (d = 1 \<or> 10 ^ (d - 1) \<le> (2 :: nat) ^ k) \<and> (2 :: nat) ^ Suc k \<le> 10 ^ Suc d \<and>
     t < 10 ^ d \<and> (10 ^ d \<le> t + 1 \<or> 2 ^ Suc k \<le> t + 1)"

fun rows :: "nat \<Rightarrow> nat list \<Rightarrow> bool" where
  "rows k (t # d # r) \<longleftrightarrow> digits_row k t d \<and> rows (Suc k) r"
| "rows k _ \<longleftrightarrow> True"

lemma rows_nth: "rows k xs \<Longrightarrow> 2 * i + 1 < length xs \<Longrightarrow> digits_row (k + i) (xs ! (2 * i)) (xs ! (2 * i + 1))"
proof (induction k xs arbitrary: i rule: rows.induct)
  case (1 k t d r)
  then show ?case by (cases i) auto
qed auto

lemma bit_table_rows: "rows 0 (map unat bit_table)"
  unfolding bit_table_def list.map unat_numeral unat_1 by (simp add: digits_row_def)


lemma digits_row_length:
  assumes "digits_row k t d" and "2 ^ k \<le> n" and "n < 2 ^ Suc k"
  shows "length (to_chars_nat n) = (if t < n then d + 1 else d)"
proof -
  obtain e where d: "d = Suc e" using assms(1) by (cases d) (auto simp: digits_row_def)
  show ?thesis
  proof (cases "t < n")
    case True
    then have "10 ^ d \<le> n" using assms(1,3) by (auto simp: digits_row_def)
    moreover have "n < 10 ^ Suc d" using assms(1,3) by (auto simp: digits_row_def)
    ultimately show ?thesis using True length_to_chars_nat by simp
  next
    case False
    have "n < 10 ^ Suc e" using False assms(1) d by (simp add: digits_row_def)
    moreover have "10 ^ e \<le> n \<or> e = 0" using assms(1,2) d by (auto simp: digits_row_def)
    ultimately show ?thesis
      using False d length_to_chars_nat[of e n] length_to_chars_nat_le[of n e] to_chars_nat_nonempty[of n]
      by (auto simp: le_Suc_eq)
  qed
qed

text \<open>\<open>count_digits\<close> is the number of decimal digits, for every 64-bit number.\<close>
theorem count_digits_correct: "unat (count_digits n) = length (to_chars_nat (unat n))"
proof (cases "n = 0")
  case True
  then show ?thesis by (simp add: count_digits_def to_chars_nat.simps)
next
  case False
  define k where "k = 63 - countl_zero n"
  note b = countl_zero_bounds[OF False]
  have k: "k < 64" "2 ^ k \<le> unat n" "unat n < 2 ^ Suc k"
    using b by (simp_all add: k_def Suc_diff_le less_Suc_eq_le flip: Suc_diff_Suc)
  let ?t = "bit_table ! (2 * k)" and ?d = "bit_table ! (2 * k + 1)"
  have len: "length bit_table = 128" by (simp add: bit_table_def)
  then have row: "digits_row k (unat ?t) (unat ?d)"
    using rows_nth[OF bit_table_rows, of k] k(1) by simp
  then have "unat ?d < 100" by (simp add: digits_row_def)
  then have "unat (?d + 1) = unat ?d + 1" by (subst unat_add_lem[THEN iffD1]) simp_all
  then have "unat (count_digits n) = (if unat ?t < unat n then unat ?d + 1 else unat ?d)"
    using False by (simp add: count_digits_def word_less_nat_alt flip: k_def)
  then show ?thesis by (simp only: digits_row_length[OF row k(2,3)])
qed

lemma command_size_step:
  "unat (foldl (\<lambda>n s. n + (of_nat (length s) + count_digits (of_nat (length s)))) w args) =
   (unat w + (\<Sum>s\<leftarrow>args. length s + unat (count_digits (of_nat (length s))))) mod 2 ^ 64"
proof (induction args arbitrary: w)
  case Nil
  then show ?case using unsigned_less[of w, where ?'a = nat] by simp
next
  case (Cons a args)
  have add: "(unat (w + (of_nat n + c)) + m) mod 2 ^ 64 = (unat w + (n + unat c + m)) mod 2 ^ 64" for n m and c :: u64
    unfolding unat_word_ariths unat_of_nat by (simp add: mod_simps add.assoc)
  show ?case unfolding foldl_Cons Cons.IH list.map sum_list.Cons by (rule add)
qed

lemma length_concat_bulks:
  assumes "\<forall>s\<in>set args. length s < 2 ^ 64"
  shows "length (concat (map (frame_bulk (CHR ''$'')) args)) =
    5 * length args + (\<Sum>s\<leftarrow>args. length s + unat (count_digits (of_nat (length s))))"
  using assms
  by (induction args) (simp_all add: frame_bulk_def crlf_def count_digits_correct unat_of_nat)

text \<open>The capacity \<open>build_commands\<close> reserves is the length of what it writes, so the buffer
  never grows.\<close>
theorem command_size_exact:
  assumes "length (build_commands args) < 2 ^ 64"
  shows "unat (command_size args) = length (build_commands args)"
proof -
  let ?bulks = "concat (map (frame_bulk (CHR ''$'')) args)"
  have len: "length (build_commands args) = length (to_chars_nat (length args)) + 3 + length ?bulks"
    by (simp add: build_commands_eq)
  have "\<forall>s\<in>set args. length s < 2 ^ 64"
  proof
    fix s assume "s \<in> set args"
    then have "length s + 5 \<le> length ?bulks"
      using length_frame_bulk[of s "CHR ''$''"] length_mem_concat[of s args "frame_bulk (CHR ''$'')"] by simp
    then show "length s < 2 ^ 64" using assms len by simp
  qed
  note bulks = length_concat_bulks[OF this]
  have "unat (command_size args) = (5 * length args + 3 + length (to_chars_nat (length args)) +
      (\<Sum>s\<leftarrow>args. length s + unat (count_digits (of_nat (length s))))) mod 2 ^ 64"
    unfolding command_size_def command_size_step by (simp add: unat_word_ariths unat_of_nat mod_simps)
  also have "\<dots> = length (build_commands args)" using assms unfolding len bulks by simp
  finally show ?thesis .
qed

theorem command_size_exact_witness:
  "unat (command_size [''GET'', ''k'']) = length (build_commands [''GET'', ''k''])"
  by (rule command_size_exact) (simp add: build_commands_eq frame_bulk_def crlf_def to_chars_nat.simps)

end
