(* ===== verification/Connection.thy ===== *)
theory Connection
  imports Command_Wire
begin

text \<open>
  Opening a connection (src/RedisConnection.cpp, include/RedisConnection.h): the options and
  their long-lived copies, the HELLO command they give, and the handshakes of a single server
  and of a cluster. The results of \<open>connect\<close> and \<open>send\<close> are given as lists, the replies come
  through the parser of Redis\_Parser. TLS is compiled out.
\<close>

section \<open>Options\<close>

text \<open>A \<open>const char*\<close> is \<open>None\<close> for the null pointer, or the string it points to.\<close>

record connection_option =
  ip :: "string option"
  username :: "string option"
  password :: "string option"
  clientname :: "string option"
  db :: int
  resp :: int
  port :: u16

record cluster_option =
  seeds :: "(string \<times> u16) list"
  c_username :: "string option"
  c_password :: "string option"
  c_clientname :: "string option"
  c_resp :: int

record long_option =
  l_ip :: string
  l_username :: string
  l_password :: string
  l_clientname :: string
  l_db :: int
  l_resp :: int
  l_port :: u16

record long_cluster_option =
  lc_username :: string
  lc_password :: string
  lc_clientname :: string
  lc_resp :: int

definition or_empty :: "string option \<Rightarrow> string" where
  "or_empty p = (case p of None \<Rightarrow> [] | Some s \<Rightarrow> s)"

definition or_null :: "string \<Rightarrow> string option" where
  "or_null s = (if s = [] then None else Some s)"

definition set_option :: "connection_option \<Rightarrow> long_option" where
  "set_option o' = \<lparr>l_ip = or_empty (ip o'), l_username = or_empty (username o'), l_password = or_empty (password o'),
     l_clientname = or_empty (clientname o'), l_db = db o', l_resp = resp o', l_port = port o'\<rparr>"

definition to_option :: "long_option \<Rightarrow> connection_option" where
  "to_option l = \<lparr>ip = or_null (l_ip l), username = or_null (l_username l), password = or_null (l_password l),
     clientname = or_null (l_clientname l), db = l_db l, resp = l_resp l, port = l_port l\<rparr>"

definition set_cluster_option :: "cluster_option \<Rightarrow> long_cluster_option" where
  "set_cluster_option o' = \<lparr>lc_username = or_empty (c_username o'), lc_password = or_empty (c_password o'),
     lc_clientname = or_empty (c_clientname o'), lc_resp = c_resp o'\<rparr>"

text \<open>The conversion back does not set the seeds, which are none by default.\<close>

definition to_cluster_option :: "long_cluster_option \<Rightarrow> cluster_option" where
  "to_cluster_option l = \<lparr>seeds = [], c_username = or_null (lc_username l), c_password = or_null (lc_password l),
     c_clientname = or_null (lc_clientname l), c_resp = lc_resp l\<rparr>"

section \<open>The handshake\<close>

definition hello_words :: "int \<Rightarrow> string option \<Rightarrow> string option \<Rightarrow> string option \<Rightarrow> string list" where
  "hello_words rsp user pass cname =
     (let ver = (if rsp = 3 then ''3'' else ''2'') in
      case (pass, cname) of
        (Some pw, Some cn) \<Rightarrow>
          (case user of
             Some u \<Rightarrow> [''HELLO'', ver, ''AUTH'', u, pw, ''SETNAME'', cn]
           | None \<Rightarrow> [''HELLO'', ver, ''AUTH'', ''default'', pw, ''SETNAME'', cn])
      | (Some pw, None) \<Rightarrow> [''HELLO'', ver, ''AUTH'', pw]
      | (None, Some cn) \<Rightarrow> [''HELLO'', ver, ''SETNAME'', cn]
      | (None, None) \<Rightarrow> [''HELLO'', ver])"

definition spot_data :: "connection_option \<Rightarrow> string" where
  "spot_data o' = build_commands (hello_words (resp o') (username o') (password o') (clientname o')) @
     build_commands [''SELECT'', to_chars_int (if 0 \<le> db o' then db o' else 0)]"

definition cluster_data :: "cluster_option \<Rightarrow> string" where
  "cluster_data o' = build_commands (hello_words (c_resp o') (c_username o') (c_password o') (c_clientname o')) @
     build_commands [''CLUSTER'', ''SLOTS'']"

text \<open>
  The send loop over the results of \<open>send\<close>; the timeout cancels a send that has no result. The
  value is the error, 0 for success, and the bytes sent.
\<close>

fun send_loop :: "nat io_result list \<Rightarrow> string \<Rightarrow> int \<times> string" where
  "send_loop [] data = (ECANCELED, [])"
| "send_loop ((n, err) # res) data =
     (if err \<noteq> 0 \<or> n = 0 then (if err \<noteq> 0 then err else ECONNRESET, [])
      else if length data = n then (0, data)
      else let (e, s) = send_loop res (drop n data) in (e, take n data @ s))"

definition real_timeout :: "int \<Rightarrow> int" where
  "real_timeout timeout = (if 0 < timeout then timeout else 10)"

text \<open>What the client sees of the server in one attempt: the result of \<open>connect\<close>, those of \<open>send\<close>.\<close>

type_synonym attempt = "int \<times> nat io_result list"

text \<open>The connection afterwards: whether it was closed, what was sent, and the parser.\<close>

record connection_state =
  closed :: bool
  wire :: string
  conn_parser :: parser

definition failed :: "int \<Rightarrow> string \<Rightarrow> parser \<Rightarrow> (redis_value io_result \<times> connection_state) outcome" where
  "failed err s p = Ret ((Nullptr, err), \<lparr>closed = True, wire = s, conn_parser = p\<rparr>)"

definition connect_spot :: "attempt \<Rightarrow> parser \<Rightarrow> connection_option \<Rightarrow> int \<Rightarrow>
    (redis_value io_result \<times> connection_state) outcome" where
  "connect_spot att p o' timeout =
     (let data = spot_data o'; t = real_timeout timeout; (conn, sends) = att in
      if conn \<noteq> 0 then failed conn [] p
      else
        let (err, s) = send_loop sends data in
        if err \<noteq> 0 then failed err s p
        else bind_outcome (parse t p) (\<lambda>((hello, e1), p1).
          if e1 \<noteq> 0 \<or> \<not> (is_map hello \<or> is_array hello) then failed EINVAL s p1
          else bind_outcome (parse t p1) (\<lambda>((sel, e2), p2).
            if e2 \<noteq> 0 \<or> \<not> is_simple_string sel \<or> as_string sel \<noteq> ''OK'' then failed EINVAL s p2
            else Ret ((hello, 0), \<lparr>closed = False, wire = s, conn_parser = p2\<rparr>))))"

text \<open>
  \<open>connect_cluster\<close> tries the seeds in turn; \<open>err\<close> is the error so far and every seed comes with
  its attempt and the parser on its socket. The value is the answer to \<open>CLUSTER SLOTS\<close>.
\<close>

fun connect_seeds :: "(attempt \<times> parser) list \<Rightarrow> string \<Rightarrow> int \<Rightarrow> int \<Rightarrow> redis_value io_result outcome" where
  "connect_seeds [] data t err = Ret (Nullptr, err)"
| "connect_seeds (((conn, sends), p) # rest) data t err =
     (if conn \<noteq> 0 then connect_seeds rest data t conn
      else
        let (e, s) = send_loop sends data in
        if e \<noteq> 0 then connect_seeds rest data t e
        else bind_outcome (parse t p) (\<lambda>((hello, e1), p1).
          if e1 \<noteq> 0 \<or> \<not> (is_map hello \<or> is_array hello) then connect_seeds rest data t EINVAL
          else bind_outcome (parse t p1) (\<lambda>((slots, e2), p2).
            if e2 \<noteq> 0 \<or> \<not> is_array slots then connect_seeds rest data t EINVAL
            else Ret (slots, 0))))"

definition connect_cluster :: "(attempt \<times> parser) list \<Rightarrow> cluster_option \<Rightarrow> int \<Rightarrow> redis_value io_result outcome" where
  "connect_cluster envs o' timeout = connect_seeds envs (cluster_data o') (real_timeout timeout) EINVAL"

section \<open>Options\<close>

lemma or_null_empty [simp]: "or_empty (or_null s) = s"
  by (simp add: or_null_def or_empty_def)

text \<open>The long-lived copy of the options gives them back, but an empty string comes back as
  the null pointer; copying what came back changes nothing.\<close>
theorem options_roundtrip:
  "set_option (to_option l) = l \<and> set_cluster_option (to_cluster_option lc) = lc \<and>
   to_option (set_option o') = o'\<lparr>ip := or_null (or_empty (ip o')), username := or_null (or_empty (username o')),
     password := or_null (or_empty (password o')), clientname := or_null (or_empty (clientname o'))\<rparr>"
  by (simp add: set_option_def to_option_def set_cluster_option_def to_cluster_option_def)

section \<open>HELLO\<close>

text \<open>The syntax of the command: a version, and each option at most once with its arguments.\<close>

fun hello_tail :: "bool \<Rightarrow> bool \<Rightarrow> string list \<Rightarrow> bool" where
  "hello_tail auth name [] \<longleftrightarrow> True"
| "hello_tail auth name (w # ws) \<longleftrightarrow>
     (if w = ''AUTH'' \<and> \<not> auth then (case ws of u # pw # r \<Rightarrow> hello_tail True name r | _ \<Rightarrow> False)
      else if w = ''SETNAME'' \<and> \<not> name then (case ws of n # r \<Rightarrow> hello_tail auth True r | _ \<Rightarrow> False)
      else False)"

fun valid_hello :: "string list \<Rightarrow> bool" where
  "valid_hello (h # v # ws) \<longleftrightarrow> h = ''HELLO'' \<and> (v = ''2'' \<or> v = ''3'') \<and> hello_tail False False ws"
| "valid_hello _ \<longleftrightarrow> False"

text \<open>The handshake sends a HELLO command the server understands exactly if no password is set,
  or a client name is set with it: with a password alone the user name is left out, the given
  one too, where AUTH takes two arguments.\<close>
theorem hello_valid_iff:
  "valid_hello (hello_words rsp user pass cname) \<longleftrightarrow> pass = None \<or> cname \<noteq> None"
  by (cases pass; cases cname; cases user) (simp_all add: hello_words_def Let_def)

section \<open>One server\<close>

lemma send_loop_all: "send_loop res data = (0, s) \<Longrightarrow> s = data"
proof (induction res data arbitrary: s rule: send_loop.induct)
  case (2 n err res data)
  then show ?case
    by (cases "send_loop res (drop n data)") (auto simp: ECONNRESET_def split: if_splits)
qed (simp add: ECANCELED_def)

text \<open>How an attempt may end.\<close>

definition spot_done :: "string \<Rightarrow> (redis_value io_result \<times> connection_state) outcome \<Rightarrow> bool" where
  "spot_done data r \<longleftrightarrow> (\<exists>v err st. r = Ret ((v, err), st) \<and> pos_ok (conn_parser st) \<and>
     (if closed st then v = Nullptr \<and> err \<noteq> 0 else err = 0 \<and> (is_map v \<or> is_array v) \<and> wire st = data))"

lemma spot_done_failed [simp]: "err \<noteq> 0 \<Longrightarrow> pos_ok p \<Longrightarrow> spot_done data (failed err s p)"
  by (simp add: spot_done_def failed_def)

lemma spot_done_open [simp]:
  "pos_ok p \<Longrightarrow> is_map v \<or> is_array v \<Longrightarrow>
   spot_done data (Ret ((v, 0), \<lparr>closed = False, wire = data, conn_parser = p\<rparr>))"
  by (simp add: spot_done_def)

lemma real_timeout_pos: "0 < real_timeout t"
  by (simp add: real_timeout_def)

lemma parse_timed:
  assumes "pos_ok p"
  obtains v e p' where "parse (real_timeout t) p = Ret ((v, e), p')" and "wf_value v" and "pos_ok p'"
  using parse_returns[OF assms, of "real_timeout t"] real_timeout_pos[of t] by auto

lemma connect_spot_done:
  assumes "sized p" and "mem \<le> mem_limit p" and "encodable dtext mem hello" and "is_map hello \<or> is_array hello"
    and "unread p = encode dtext hello @ encode dtext (Simple_string ''OK'') @ rest"
    and "fst (send_loop sends (spot_data o')) = 0"
  shows "\<exists>st. connect_spot (0, sends) p o' timeout = Ret ((hello, 0), st) \<and> \<not> closed st \<and> wire st = spot_data o' \<and>
    unread (conn_parser st) = rest \<and> sized (conn_parser st) \<and> pos (conn_parser st) = 0"
proof -
  let ?t = "real_timeout timeout"
  obtain p1 where p1: "parse ?t p = Ret ((hello, 0), p1)" "unread p1 = encode dtext (Simple_string ''OK'') @ rest"
    "sized p1" "mem_limit p1 = mem_limit p" using parse_reads[OF assms(1,2,3,5)] by blast
  have ok: "encodable dtext mem (Simple_string ''OK'')" by (simp add: LF_def)
  obtain p2 where p2: "parse ?t p1 = Ret ((Simple_string ''OK'', 0), p2)" "unread p2 = rest" "sized p2" "pos p2 = 0"
    using parse_reads[OF p1(3) _ ok p1(2)] assms(2) p1(4) by auto
  have sent: "send_loop sends (spot_data o') = (0, spot_data o')"
    using assms(6) send_loop_all by (metis prod.collapse)
  have "\<not> (\<not> is_simple_string (Simple_string ''OK'') \<or> as_string (Simple_string ''OK'') \<noteq> ''OK'')"
    by (simp add: is_simple_string_def)
  then show ?thesis
    using assms(4) p1 p2 sent by (auto simp: connect_spot_def Let_def)
qed

definition demo_option :: connection_option where
  "demo_option = \<lparr>ip = Some ''127.0.0.1'', username = None, password = None, clientname = None, db = 0, resp = 3, port = 6379\<rparr>"

definition demo_parser :: parser where
  "demo_parser = new_parser 1024 [Recv_data (encode (\<lambda>_. []) (Array [])), Recv_data (encode (\<lambda>_. []) (Simple_string ''OK''))]"

lemma demo_parser_facts:
  "sized demo_parser" "mem_limit demo_parser = 1024"
  "unread demo_parser = encode (\<lambda>_. []) (Array []) @ encode (\<lambda>_. []) (Simple_string ''OK'') @ []"
  by (simp_all add: demo_parser_def new_parser_sized max_bulk_size_def frame_line_def crlf_def to_chars_nat.simps)

text \<open>C31. With a server that accepts the connection and the whole handshake, and answers with a map or
  an array and then \<open>OK\<close>, \<open>connect_spot\<close> returns the first answer, has sent exactly HELLO and
  SELECT, and leaves the bytes behind the two answers for the reader.\<close>
theorem connect_spot_succeeds:
  assumes "sized p" and "mem \<le> mem_limit p" and "encodable dtext mem hello" and "is_map hello \<or> is_array hello"
    and "unread p = encode dtext hello @ encode dtext (Simple_string ''OK'') @ rest"
    and "fst (send_loop sends (spot_data o')) = 0"
  shows "\<exists>st. connect_spot (0, sends) p o' timeout = Ret ((hello, 0), st) \<and> \<not> closed st \<and> wire st = spot_data o' \<and>
    unread (conn_parser st) = rest \<and> sized (conn_parser st) \<and> pos (conn_parser st) = 0"
  using assms by (rule connect_spot_done)

theorem connect_spot_succeeds_witness:
  "\<exists>st. connect_spot (0, [(length (spot_data demo_option), 0)]) demo_parser demo_option 10 = Ret ((Array [], 0), st) \<and>
     \<not> closed st \<and> wire st = spot_data demo_option \<and> unread (conn_parser st) = [] \<and> sized (conn_parser st) \<and>
     pos (conn_parser st) = 0"
proof -
  have nonempty: "spot_data demo_option \<noteq> []" by (simp add: spot_data_def build_commands_eq frame_line_def)
  show ?thesis
    by (rule connect_spot_succeeds[OF demo_parser_facts(1) _ _ _ demo_parser_facts(3), where mem = 1024])
      (use nonempty in \<open>simp_all add: demo_parser_facts is_array_def\<close>)
qed

lemma demo_connect:
  "\<exists>st. connect_spot (0, [(length (spot_data demo_option), 0)]) demo_parser demo_option 10 = Ret ((Array [], 0), st)"
proof -
  have nonempty: "spot_data demo_option \<noteq> []" by (simp add: spot_data_def build_commands_eq frame_line_def)
  have "encodable (\<lambda>_. []) 1024 (Array [])" "fst (send_loop [(length (spot_data demo_option), 0)] (spot_data demo_option)) = 0"
    using nonempty by simp_all
  from connect_spot_done[OF demo_parser_facts(1) _ this(1) _ demo_parser_facts(3) this(2), of 10]
  show ?thesis by (auto simp: demo_parser_facts is_array_def)
qed

text \<open>Whatever the server does, \<open>connect_spot\<close> returns: with a map or an array, no error and an open
  connection over which the whole handshake was sent, or with a null value, an error and a
  closed connection.\<close>
theorem connect_spot_returns:
  assumes "pos_ok p"
  shows "\<exists>v err st. connect_spot att p o' timeout = Ret ((v, err), st) \<and> pos_ok (conn_parser st) \<and>
    (if closed st then v = Nullptr \<and> err \<noteq> 0 else err = 0 \<and> (is_map v \<or> is_array v) \<and> wire st = spot_data o')"
proof -
  obtain conn sends where att: "att = (conn, sends)" by fastforce
  obtain e s where loop: "send_loop sends (spot_data o') = (e, s)" by fastforce
  obtain v e1 p1 where p1: "parse (real_timeout timeout) p = Ret ((v, e1), p1)" "pos_ok p1"
    using parse_timed[OF assms] by metis
  obtain v' e2 p2 where p2: "parse (real_timeout timeout) p1 = Ret ((v', e2), p2)" "pos_ok p2"
    using parse_timed[OF p1(2)] by metis
  have "e = 0 \<Longrightarrow> s = spot_data o'" using loop send_loop_all by blast
  then have "spot_done (spot_data o') (connect_spot att p o' timeout)"
    using att loop assms p1 p2 by (auto simp: connect_spot_def EINVAL_def Let_def)
  then show ?thesis by (simp add: spot_done_def)
qed

theorem connect_spot_returns_witness:
  "\<exists>v err st. connect_spot (111, []) demo_parser demo_option 10 = Ret ((v, err), st) \<and> pos_ok (conn_parser st) \<and>
    (if closed st then v = Nullptr \<and> err \<noteq> 0 else err = 0 \<and> (is_map v \<or> is_array v) \<and> wire st = spot_data demo_option)"
  by (rule connect_spot_returns) (rule sized_pos_ok[OF demo_parser_facts(1)])

section \<open>The seeds of a cluster\<close>

text \<open>What one seed gives: an error, or the answer to CLUSTER SLOTS.\<close>

definition seed_result :: "attempt \<times> parser \<Rightarrow> string \<Rightarrow> int \<Rightarrow> redis_value io_result outcome" where
  "seed_result e data t = connect_seeds [e] data t EINVAL"

lemma seed_returns:
  assumes "pos_ok (snd env)"
  shows "\<exists>v e. seed_result env data (real_timeout t) = Ret (v, e) \<and> (if e = 0 then is_array v else v = Nullptr) \<and>
    (\<forall>rest err. connect_seeds (env # rest) data (real_timeout t) err =
       (if e = 0 then Ret (v, 0) else connect_seeds rest data (real_timeout t) e))"
proof -
  obtain conn sends p where env: "env = ((conn, sends), p)" by (metis prod.exhaust)
  obtain e s where loop: "send_loop sends data = (e, s)" by fastforce
  have "pos_ok p" using assms env by simp
  from parse_timed[OF this, of t] obtain v e1 p1 where p1: "parse (real_timeout t) p = Ret ((v, e1), p1)" "pos_ok p1"
    by metis
  obtain v' e2 p2 where p2: "parse (real_timeout t) p1 = Ret ((v', e2), p2)" "pos_ok p2"
    using parse_timed[OF p1(2), of t] by metis
  show ?thesis
    using env loop p1 p2 by (auto simp: seed_result_def EINVAL_def Let_def)
qed

text \<open>\<open>connect_cluster\<close> returns the answer of the first seed that completes the handshake and tries
  no seed behind it; if none does, it returns the error of the last, or \<open>EINVAL\<close> for no seed.\<close>
theorem connect_cluster_first_seed:
  assumes "\<forall>env\<in>set envs. pos_ok (snd env)"
  shows "connect_cluster envs o' timeout =
    (case find (\<lambda>env. \<exists>v. seed_result env (cluster_data o') (real_timeout timeout) = Ret (v, 0)) envs of
       Some env \<Rightarrow> seed_result env (cluster_data o') (real_timeout timeout)
     | None \<Rightarrow> if envs = [] then Ret (Nullptr, EINVAL)
         else seed_result (last envs) (cluster_data o') (real_timeout timeout))"
proof -
  let ?d = "cluster_data o'" and ?t = "real_timeout timeout"
  have "connect_seeds envs ?d ?t err =
    (case find (\<lambda>env. \<exists>v. seed_result env ?d ?t = Ret (v, 0)) envs of
       Some env \<Rightarrow> seed_result env ?d ?t
     | None \<Rightarrow> if envs = [] then Ret (Nullptr, err) else seed_result (last envs) ?d ?t)" for err
    using assms
  proof (induction envs arbitrary: err)
    case (Cons env envs)
    from seed_returns[of env ?d timeout] Cons.prems obtain v e where
      env: "seed_result env ?d ?t = Ret (v, e)" "if e = 0 then is_array v else v = Nullptr"
      "\<And>err. connect_seeds (env # envs) ?d ?t err = (if e = 0 then Ret (v, 0) else connect_seeds envs ?d ?t e)"
      by auto
    then show ?case using Cons.IH[of e] Cons.prems by (auto split: option.split)
  qed simp
  then show ?thesis by (simp add: connect_cluster_def)
qed

theorem connect_cluster_first_seed_witness:
  "connect_cluster [((111, []), demo_parser)] \<lparr>seeds = [], c_username = None, c_password = None, c_clientname = None, c_resp = 3\<rparr> 10 =
     Ret (Nullptr, 111)"
  by (subst connect_cluster_first_seed) (simp_all add: sized_pos_ok[OF demo_parser_facts(1)] seed_result_def)

end
