(* ===== verification/Cluster_Core.thy ===== *)
theory Cluster_Core
  imports Cluster_Table Command_Awaiters Connection
begin

text \<open>
  \<open>RedisCluster\<close> (include/RedisCluster.hpp) behind its command methods, in the variant
  \<open>shared = false\<close>: its state, choosing and opening the pipe of a slot, closing, and the text of
  a redirection. \<open>Cluster_Replies\<close> has the handling of replies and \<open>Cluster_Map\<close> the reading of
  the slot map.
\<close>

section \<open>State\<close>

text \<open>
  Pipes are indices into \<open>ends\<close>, \<open>hosts\<close> and \<open>alive\<close>: the rings, the options they were given
  and the flags that keep their workers running. \<open>freed\<close> lists the deleted shards. The last
  three fields are constant: the capacity of a ring, its initial handle, and
  \<open>std::noop_coroutine()\<close>.
\<close>

record 'h cluster =
  rt :: router
  ends :: "'h pipe_end list"
  hosts :: "long_option list"
  alive :: "bool list"
  freed :: "nat list"
  options :: long_cluster_option
  capacity :: nat
  null_handle :: 'h
  noop :: 'h

definition new_cluster :: "nat \<Rightarrow> nat \<Rightarrow> 'h \<Rightarrow> 'h \<Rightarrow> 'h cluster" where
  "new_cluster num_shards cap h0 nop =
     \<lparr>rt = new_router num_shards, ends = [], hosts = [], alive = [], freed = [],
      options = \<lparr>lc_username = [], lc_password = [], lc_clientname = [], lc_resp = 0\<rparr>, capacity = cap, null_handle = h0, noop = nop\<rparr>"

section \<open>Opening pipes\<close>

definition pipe_option :: "long_cluster_option \<Rightarrow> string \<Rightarrow> u16 \<Rightarrow> long_option" where
  "pipe_option l a p = \<lparr>l_ip = a, l_username = lc_username l, l_password = lc_password l,
     l_clientname = lc_clientname l, l_db = 0, l_resp = lc_resp l, l_port = p\<rparr>"

definition try_connect :: "nat \<Rightarrow> 'h cluster \<Rightarrow> nat option \<times> 'h cluster" where
  "try_connect s c =
     (let sh = heap (rt c) ! s in
      if connected sh = 0 then
        let pipe = length (ends c);
            (buffer, len) = uint32toip (shard_ip sh);
            r = rt c
        in (Some pipe,
            c\<lparr>rt := r\<lparr>heap := (heap r)[s := sh\<lparr>connected := 2, shard_pipe := Some pipe\<rparr>]\<rparr>,
              ends := ends c @ [\<lparr>ring_of = new_ring (capacity c) (null_handle c), signals = 0\<rparr>],
              hosts := hosts c @ [pipe_option (options c) (take len buffer) (shard_port sh)],
              alive := alive c @ [True]\<rparr>)
      else if connected sh \<le> 2 then (shard_pipe sh, c)
      else (None, c))"

text \<open>\<open>get_pipe\<close> dereferences the shard of the slot: a null pointer, a deleted shard and a slot behind
  the array are undefined.\<close>

definition get_pipe :: "u16 \<Rightarrow> 'h cluster \<Rightarrow> (nat option \<times> 'h cluster) outcome" where
  "get_pipe slot c =
     (if num_slot \<le> unat slot then UB
      else case slots (rt c) ! unat slot of
        None \<Rightarrow> UB
      | Some s \<Rightarrow> if s \<in> set (freed c) then UB else Ret (try_connect s c))"

section \<open>Closing\<close>

text \<open>\<open>delete shard\<close>: the destructor stops the pipe of a connected shard. \<open>close\<close> empties the table
  cell by cell and deletes what it finds; it does not touch \<open>slot\<close>.\<close>

definition delete_shard :: "nat \<Rightarrow> 'h cluster \<Rightarrow> 'h cluster" where
  "delete_shard s c =
     (let r = rt c; sh = heap r ! s
      in c\<lparr>rt := r\<lparr>heap := (heap r)[s := sh\<lparr>connected := 3\<rparr>]\<rparr>,
           alive := (case shard_pipe sh of Some p \<Rightarrow> if connected sh = 2 then (alive c)[p := False] else alive c | None \<Rightarrow> alive c),
           freed := s # freed c\<rparr>)"

fun close_loop :: "nat list \<Rightarrow> 'h cluster \<Rightarrow> 'h cluster" where
  "close_loop [] c = c"
| "close_loop (i # is) c =
     (let r = rt c; c1 = c\<lparr>rt := r\<lparr>table := (table r)[i := None]\<rparr>\<rparr>
      in close_loop is (case table r ! i of None \<Rightarrow> c1 | Some s \<Rightarrow> delete_shard s c1))"

text \<open>The destructor deletes the shards and leaves the table as it is.\<close>

definition destroy_cluster :: "'h cluster \<Rightarrow> 'h cluster" where
  "destroy_cluster c = fold (\<lambda>e c. case e of None \<Rightarrow> c | Some s \<Rightarrow> delete_shard s c) (table (rt c)) c"

definition close_cluster :: "'h cluster \<Rightarrow> 'h cluster" where
  "close_cluster c = close_loop [0..<length (table (rt c))] c"

section \<open>Redirections\<close>

text \<open>
  The result of \<open>parse_error\<close>: 2 is \<open>Not_redirect\<close>, 0 and 1 are \<open>Redirect\<close> without and with
  ASKING, any other code is \<open>Bad_redirect\<close>.
\<close>

datatype redirect = Not_redirect | Bad_redirect int | Redirect bool nat u32 u16

definition starts_with :: "string \<Rightarrow> string \<Rightarrow> bool" where
  "starts_with p s \<longleftrightarrow> take (length p) s = p"

definition parse_address :: "bool \<Rightarrow> string \<Rightarrow> string \<Rightarrow> redirect outcome" where
  "parse_address asking slot_sv addr_sv =
     (case find_char (CHR '':'') addr_sv of
        None \<Rightarrow> Ret (Bad_redirect EPROTO)
      | Some colon \<Rightarrow>
          bind_outcome (iptouint32 (addr_sv @ [CHR 0x00]) colon) (\<lambda>i.
            if i = 0 then Ret (Bad_redirect EPROTO)
            else case from_chars_unsigned (2 ^ 64 - 1) slot_sv of (_, ec1, slot) \<Rightarrow>
              if ec1 \<noteq> Errc_ok then Ret (Bad_redirect EINVAL)
              else case from_chars_unsigned (2 ^ 16 - 1) (drop (colon + 1) addr_sv) of (_, ec2, pt) \<Rightarrow>
                if ec2 \<noteq> Errc_ok then Ret (Bad_redirect EINVAL)
                else Ret (Redirect asking (nat (the slot)) i (of_int (the pt)))))"

definition parse_error :: "string \<Rightarrow> redirect outcome" where
  "parse_error error_str =
     (if \<not> starts_with ''MOVED '' error_str \<and> \<not> starts_with ''ASK '' error_str then Ret Not_redirect
      else
        let asking = (\<not> starts_with ''MOVED '' error_str);
            prefix_len = (if asking then 4 else 6)
        in case find_from (CHR '' '') error_str prefix_len of
             None \<Rightarrow> Ret (Bad_redirect EPROTO)
           | Some space \<Rightarrow>
               parse_address asking (take (space - prefix_len) (drop prefix_len error_str)) (drop (space + 1) error_str))"

section \<open>Reading a redirection\<close>

lemma find_char_append_first: "c \<notin> set s \<Longrightarrow> find_char c (s @ c # t) = Some (length s)"
  by (rule find_char_first)

lemma digits_no_mark: "c \<in> set (to_chars_nat n) \<Longrightarrow> c \<noteq> CHR '':'' \<and> c \<noteq> CHR '' ''"
  using to_chars_nat_digits[of c n] by auto

lemma ip_text_no_colon: "CHR '':'' \<notin> set (ip_text i)"
  using digits_no_mark by (fastforce simp: ip_text_def)

definition redirect_text :: "bool \<Rightarrow> nat \<Rightarrow> u32 \<Rightarrow> u16 \<Rightarrow> string" where
  "redirect_text asking slot i p = (if asking then ''ASK '' else ''MOVED '') @ to_chars_nat slot @ '' '' @
     ip_text i @ '':'' @ to_chars_nat (unat p)"

lemma le_max_u16: "n < 2 ^ 16 \<Longrightarrow> int n \<le> 2 ^ 16 - 1"
  by simp

lemma parse_address_text:
  assumes "slot < 2 ^ 64" and "i \<noteq> 0"
  shows "parse_address asking (to_chars_nat slot) (ip_text i @ '':'' @ to_chars_nat (unat (p :: u16))) =
    Ret (Redirect asking slot i p)"
proof -
  have colon: "find_char (CHR '':'') (ip_text i @ '':'' @ to_chars_nat (unat p)) = Some (length (ip_text i))"
    using find_char_first[OF ip_text_no_colon, of i "to_chars_nat (unat p)"] by simp
  have slot: "from_chars_unsigned (2 ^ 64 - 1) (to_chars_nat slot) = (length (to_chars_nat slot), Errc_ok, Some (int slot))"
    using from_chars_unsigned_to_chars[of slot "2 ^ 64 - 1" "[]"] assms(1) by simp
  have "unat p < 2 ^ 16" using unsigned_less[of p, where ?'a = nat] by simp
  then have "int (unat p) \<le> 2 ^ 16 - 1" by (rule le_max_u16)
  then have port: "from_chars_unsigned (2 ^ 16 - 1) (to_chars_nat (unat p)) =
      (length (to_chars_nat (unat p)), Errc_ok, Some (int (unat p)))"
    using from_chars_unsigned_to_chars[of "unat p" "2 ^ 16 - 1" "[]"] by (simp only: append_Nil2 list.case simp_thms list.distinct)
  have ip: "iptouint32 ((ip_text i @ '':'' @ to_chars_nat (unat p)) @ [CHR 0x00]) (length (ip_text i)) = Ret i"
    using iptouint32_text[of i "'':'' @ to_chars_nat (unat p) @ [CHR 0x00]"] by simp
  show ?thesis
    unfolding parse_address_def colon option.case ip bind_outcome.simps using assms(2) slot port by simp
qed

lemma parse_error_text:
  assumes "slot < 2 ^ 64" and "i \<noteq> 0"
  shows "parse_error (redirect_text asking slot i p) = Ret (Redirect asking slot i p)"
proof -
  let ?pre = "if asking then ''ASK '' else ''MOVED ''"
  let ?addr = "ip_text i @ '':'' @ to_chars_nat (unat p)"
  have shape: "redirect_text asking slot i p = ?pre @ to_chars_nat slot @ CHR '' '' # ?addr"
    by (simp add: redirect_text_def)
  have pre: "starts_with ''MOVED '' (redirect_text asking slot i p) \<longleftrightarrow> \<not> asking"
    "starts_with ''ASK '' (redirect_text asking slot i p) \<longleftrightarrow> asking"
    by (auto simp: starts_with_def redirect_text_def)
  have behind: "drop (length ?pre) (redirect_text asking slot i p) = to_chars_nat slot @ CHR '' '' # ?addr"
    unfolding shape by simp
  have "CHR '' '' \<notin> set (to_chars_nat slot)" using digits_no_mark by blast
  then have space: "find_from (CHR '' '') (redirect_text asking slot i p) (length ?pre) =
      Some (length ?pre + length (to_chars_nat slot))"
    unfolding find_from_def behind by (simp add: find_char_first)
  have len: "(if asking then 4 else 6) = length ?pre" by simp
  have addr: "drop (length ?pre + length (to_chars_nat slot) + 1) (redirect_text asking slot i p) = ?addr"
    unfolding shape by simp
  show ?thesis
    unfolding parse_error_def Let_def pre not_not len space option.case addr behind
    using parse_address_text[OF assms, of asking p] by simp
qed

text \<open>\<open>parse_error\<close> reads back the kind, the slot, the address and the port of every redirection,
  and takes no other text for one.\<close>
theorem parse_error_reads:
  assumes "slot < 2 ^ 64" and "i \<noteq> 0"
  shows "parse_error (redirect_text asking slot i p) = Ret (Redirect asking slot i p)"
  using assms by (rule parse_error_text)

theorem parse_error_reads_witness:
  "parse_error (redirect_text True 3999 0x7F000001 6381) = Ret (Redirect True 3999 0x7F000001 6381)"
  by (rule parse_error_reads) simp_all

lemma parse_error_total: "\<exists>res. parse_error s = Ret res"
proof -
  have "\<exists>res. parse_address asking sl addr = Ret res" for asking sl addr
  proof (cases "find_char (CHR '':'') addr")
    case (Some colon)
    then have c: "colon < length addr" "addr ! colon = CHR '':''" using find_char_Some[OF Some] by auto
    then have "\<exists>i. iptouint32 (addr @ [CHR 0x00]) colon = Ret i"
      by (intro iptouint32_total) (simp_all add: nth_append)
    then show ?thesis using Some by (auto simp: parse_address_def split: prod.split)
  qed (simp add: parse_address_def)
  then show ?thesis by (auto simp: parse_error_def Let_def split: option.split)
qed

section \<open>The invariant\<close>

text \<open>
  The table is in order, slots and shards lead to what exists, a connected shard has a pipe of its
  own, and every ring is well-formed.
\<close>

definition cluster_ok :: "'h cluster \<Rightarrow> bool" where
  "cluster_ok c \<longleftrightarrow> table_ok (rt c) \<and> length (slots (rt c)) = num_slot \<and>
     (\<forall>s. Some s \<in> set (slots (rt c)) \<longrightarrow> s < length (heap (rt c))) \<and>
     length (hosts c) = length (ends c) \<and> length (alive c) = length (ends c) \<and>
     (\<exists>k. 1 \<le> k \<and> k \<le> 31 \<and> capacity c = 2 ^ k) \<and>
     (\<forall>p\<in>set (ends c). ring_wf (ring_of p)) \<and>
     (\<forall>s<length (heap (rt c)). connected (heap (rt c) ! s) \<in> {0, 3} \<or>
        connected (heap (rt c) ! s) = 2 \<and> (\<exists>p<length (ends c). shard_pipe (heap (rt c) ! s) = Some p))"

lemma cluster_okD:
  assumes "cluster_ok c"
  shows "table_ok (rt c)" "length (slots (rt c)) = num_slot" "length (hosts c) = length (ends c)"
    "length (alive c) = length (ends c)" "\<And>s. Some s \<in> set (slots (rt c)) \<Longrightarrow> s < length (heap (rt c))"
    "\<And>p. p < length (ends c) \<Longrightarrow> ring_wf (ring_of (ends c ! p))"
    "\<And>s. s < length (heap (rt c)) \<Longrightarrow> connected (heap (rt c) ! s) \<in> {0, 3} \<or>
       connected (heap (rt c) ! s) = 2 \<and> (\<exists>p<length (ends c). shard_pipe (heap (rt c) ! s) = Some p)"
  using assms by (auto simp: cluster_ok_def)

lemma new_cluster_ok:
  assumes "0 < n" and "1 \<le> k" and "k \<le> 31"
  shows "cluster_ok (new_cluster n (2 ^ k) h0 nop)"
  using assms new_router_ok[OF assms(1)] by (auto simp: cluster_ok_def new_cluster_def new_router_def)

text \<open>The table does not mind what else its shards hold.\<close>

lemma table_ok_heap:
  assumes "table_ok r" and "table r' = table r" and "length (heap r') = length (heap r)"
    and "\<And>s. s < length (heap r) \<Longrightarrow> same_address (heap r' ! s) (heap r ! s)"
  shows "table_ok r'"
proof -
  have home: "home r' s = home r s" if "s < length (heap r)" for s
    using assms(4)[OF that] by (simp add: home_def assms(2) same_address_def)
  have in_heap: "s < length (heap r)" if "table r ! j = Some s" "j < length (table r)" for j s
    using assms(1) that by (auto simp: table_ok_def)
  have same: "same_address (heap r' ! s) (heap r' ! t) = same_address (heap r ! s) (heap r ! t)"
    if "s < length (heap r)" "t < length (heap r)" for s t
    using assms(4)[OF that(1)] assms(4)[OF that(2)] by (simp add: same_address_def)
  show ?thesis
    unfolding table_ok_def assms(2,3)
  proof (intro conjI allI impI)
    show "table r \<noteq> []" using assms(1) by (simp add: table_ok_def)
    fix j s assume j: "j < length (table r)" and e: "table r ! j = Some s"
    show "s < length (heap r)" using in_heap[OF e j] .
    show "\<exists>d<length (table r). j = (home r' s + d) mod length (table r) \<and>
        (\<forall>e<d. table r ! ((home r' s + e) mod length (table r)) \<noteq> None)"
      unfolding home[OF in_heap[OF e j]] using assms(1) j e by (simp add: table_ok_def)
    fix k t assume k: "k < length (table r)" "table r ! k = Some t" and "same_address (heap r' ! s) (heap r' ! t)"
    then have "same_address (heap r ! s) (heap r ! t)" using same in_heap[OF e j] in_heap[OF k(2,1)] by simp
    then show "j = k" using assms(1) j e k unfolding table_ok_def by blast
  qed
qed

lemma holds_heap:
  assumes "table_ok r" "table r' = table r" and "\<And>s. s < length (heap r) \<Longrightarrow> same_address (heap r' ! s) (heap r ! s)"
  shows "holds r' i p s = holds r i p s"
proof -
  have "s < length (heap r)" if "Some s \<in> set (table r)" using assms(1) that by (auto simp: table_ok_def in_set_conv_nth)
  then show ?thesis using assms(2,3) by (auto simp: holds_def at_address_def same_address_def)
qed

section \<open>Connecting a shard\<close>

text \<open>A pipe that is opened is new and empty.\<close>

definition fresh_pipe :: "'h cluster \<Rightarrow> 'h pipe_end \<Rightarrow> bool" where
  "fresh_pipe c p \<longleftrightarrow> entries (ring_of p) = [] \<and> tail (ring_of p) = 0 \<and> xcapacity (ring_of p) = capacity c"

lemma try_connect_spec:
  assumes ok: "cluster_ok c" and s: "s < length (heap (rt c))"
  shows "case try_connect s c of (pipe, c') \<Rightarrow> cluster_ok c' \<and> slots (rt c') = slots (rt c) \<and> table (rt c') = table (rt c) \<and>
    noop c' = noop c \<and> capacity c' = capacity c \<and> length (heap (rt c')) = length (heap (rt c)) \<and>
    (\<forall>t<length (heap (rt c)). same_address (heap (rt c') ! t) (heap (rt c) ! t)) \<and>
    (case pipe of
       None \<Rightarrow> c' = c \<and> connected (heap (rt c) ! s) = 3
     | Some p \<Rightarrow> p < length (ends c') \<and> shard_pipe (heap (rt c') ! s) = Some p \<and> connected (heap (rt c') ! s) = 2 \<and>
         (ends c' = ends c \<or> p = length (ends c) \<and> (\<exists>q. ends c' = ends c @ [q] \<and> fresh_pipe c q)))"
proof -
  let ?sh = "heap (rt c) ! s"
  note d = cluster_okD[OF ok]
  from d(7)[OF s] consider "connected ?sh = 0" | "connected ?sh = 3"
    | p where "connected ?sh = 2" "p < length (ends c)" "shard_pipe ?sh = Some p" by auto
  then show ?thesis
  proof cases
    case 1
    obtain k where k: "1 \<le> k" "k \<le> 31" "capacity c = 2 ^ k" using ok by (auto simp: cluster_ok_def)
    let ?q = "\<lparr>ring_of = new_ring (capacity c) (null_handle c), signals = 0\<rparr>"
    let ?r = "(rt c)\<lparr>heap := (heap (rt c))[s := ?sh\<lparr>connected := 2, shard_pipe := Some (length (ends c))\<rparr>]\<rparr>"
    have q: "ring_wf (ring_of ?q)" "fresh_pipe c ?q"
      using new_ring_wf[OF k(2), of "null_handle c"] k(3)
      by (simp_all add: fresh_pipe_def new_ring_def)
    have same: "same_address (heap ?r ! t) (heap (rt c) ! t)" for t
      using s by (cases "t = s") (simp_all add: same_address_def)
    have "table_ok ?r" by (rule table_ok_heap[OF d(1) _ _ same]) simp_all
    moreover have "connected (heap ?r ! t) \<in> {0, 3} \<or> connected (heap ?r ! t) = 2 \<and>
        (\<exists>p<length (ends c) + 1. shard_pipe (heap ?r ! t) = Some p)" if "t < length (heap (rt c))" for t
      using d(7)[OF that] s by (cases "t = s") auto
    moreover obtain t n where ip: "uint32toip (shard_ip ?sh) = (t, n)" by fastforce
    ultimately have "cluster_ok (snd (try_connect s c))"
      using ok q 1 unfolding cluster_ok_def by (simp add: try_connect_def Let_def)
    then show ?thesis using 1 ip q same s by (auto simp: try_connect_def Let_def)
  qed (use ok in \<open>auto simp: try_connect_def Let_def same_address_def\<close>)
qed

section \<open>After closing\<close>

lemma delete_shard_simps [simp]:
  "slots (rt (delete_shard s c)) = slots (rt c)" "table (rt (delete_shard s c)) = table (rt c)"
  "length (alive (delete_shard s c)) = length (alive c)" "freed (delete_shard s c) = s # freed c"
  "heap (rt (delete_shard s c)) = (heap (rt c))[s := (heap (rt c) ! s)\<lparr>connected := 3\<rparr>]"
  by (auto simp: delete_shard_def Let_def split: option.split)

text \<open>The pipe of a connected shard.\<close>

definition live_pipe :: "'h cluster \<Rightarrow> nat \<Rightarrow> nat \<Rightarrow> bool" where
  "live_pipe c s p \<longleftrightarrow> connected (heap (rt c) ! s) = 2 \<and> shard_pipe (heap (rt c) ! s) = Some p \<and> p < length (alive c)"

lemma delete_shard_alive:
  "live_pipe c s p \<Longrightarrow> \<not> alive (delete_shard s c) ! p"
  "p < length (alive c) \<Longrightarrow> \<not> alive c ! p \<Longrightarrow> \<not> alive (delete_shard s c) ! p"
proof -
  show "live_pipe c s p \<Longrightarrow> \<not> alive (delete_shard s c) ! p"
    by (simp add: delete_shard_def live_pipe_def Let_def)
  show "p < length (alive c) \<Longrightarrow> \<not> alive c ! p \<Longrightarrow> \<not> alive (delete_shard s c) ! p"
    by (cases "shard_pipe (heap (rt c) ! s)"; cases "shard_pipe (heap (rt c) ! s) = Some p")
      (simp_all add: delete_shard_def Let_def)
qed

lemma close_loop_keeps:
  "slots (rt (close_loop is c)) = slots (rt c) \<and> length (table (rt (close_loop is c))) = length (table (rt c)) \<and>
   set (freed c) \<subseteq> set (freed (close_loop is c)) \<and> length (alive (close_loop is c)) = length (alive c) \<and>
   (\<forall>j. table (rt c) ! j = None \<longrightarrow> j < length (table (rt c)) \<longrightarrow> table (rt (close_loop is c)) ! j = None) \<and>
   (\<forall>p<length (alive c). \<not> alive c ! p \<longrightarrow> \<not> alive (close_loop is c) ! p)"
proof (induction "is" arbitrary: c)
  case (Cons i "is")
  let ?c1 = "c\<lparr>rt := (rt c)\<lparr>table := (table (rt c))[i := None]\<rparr>\<rparr>"
  define c2 where "c2 = (case table (rt c) ! i of None \<Rightarrow> ?c1 | Some s \<Rightarrow> delete_shard s ?c1)"
  have step: "close_loop (i # is) c = close_loop is c2" by (simp add: c2_def Let_def)
  have c2: "slots (rt c2) = slots (rt c)" "table (rt c2) = (table (rt c))[i := None]" "set (freed c) \<subseteq> set (freed c2)"
      "length (alive c2) = length (alive c)" "\<forall>p<length (alive c). \<not> alive c ! p \<longrightarrow> \<not> alive c2 ! p"
    unfolding c2_def using delete_shard_alive(2)[of _ ?c1] by (auto split: option.split)
  have "table (rt c2) ! j = None" if "table (rt c) ! j = None" "j < length (table (rt c))" for j
    using that c2(2) by (cases "j = i") simp_all
  then show ?case unfolding step using Cons.IH[of c2] c2 by auto
qed simp

lemma close_loop_empties:
  assumes "\<forall>i\<in>set is. i < length (table (rt c))" and "distinct is"
  shows "\<forall>i\<in>set is. table (rt (close_loop is c)) ! i = None \<and>
    (\<forall>s. table (rt c) ! i = Some s \<longrightarrow> s \<in> set (freed (close_loop is c)) \<and>
       (\<forall>p. live_pipe c s p \<longrightarrow> \<not> alive (close_loop is c) ! p))"
  using assms
proof (induction "is" arbitrary: c)
  case (Cons i "is")
  let ?c1 = "c\<lparr>rt := (rt c)\<lparr>table := (table (rt c))[i := None]\<rparr>\<rparr>"
  define c2 where "c2 = (case table (rt c) ! i of None \<Rightarrow> ?c1 | Some s \<Rightarrow> delete_shard s ?c1)"
  have step: "close_loop (i # is) c = close_loop is c2" by (simp add: c2_def Let_def)
  have tab: "table (rt c2) = (table (rt c))[i := None]" and len: "length (alive c2) = length (alive c)"
    by (auto simp: c2_def split: option.split)
  have IH: "\<forall>j\<in>set is. table (rt (close_loop is c2)) ! j = None \<and>
    (\<forall>s. table (rt c2) ! j = Some s \<longrightarrow> s \<in> set (freed (close_loop is c2)) \<and>
       (\<forall>p. live_pipe c2 s p \<longrightarrow> \<not> alive (close_loop is c2) ! p))"
    using Cons.prems tab by (intro Cons.IH) auto
  note keeps = close_loop_keeps[of "is" c2]
  have live: "live_pipe c2 s p \<or> \<not> alive c2 ! p" if "live_pipe c s p" for s p
    using that delete_shard_alive(1)[of ?c1 s p]
    by (cases "table (rt c) ! i = Some s") (auto simp: c2_def live_pipe_def nth_list_update split: option.split)
  have here: "s \<in> set (freed c2) \<and> (\<forall>p. live_pipe c s p \<longrightarrow> \<not> alive c2 ! p)" if "table (rt c) ! i = Some s" for s
    using that delete_shard_alive(1)[of ?c1 s] by (auto simp: c2_def live_pipe_def)
  have p_less: "p < length (alive c2)" if "live_pipe c s p" for s p using that len by (simp add: live_pipe_def)
  have "i < length (table (rt c2))" "table (rt c2) ! i = None" using Cons.prems(1) tab by auto
  then have first: "table (rt (close_loop is c2)) ! i = None" using keeps by blast
  show ?case
    unfolding step
  proof (intro ballI conjI allI impI)
    fix j assume j: "j \<in> set (i # is)"
    then show "table (rt (close_loop is c2)) ! j = None" using first IH by auto
    fix s assume t: "table (rt c) ! j = Some s"
    have "j = i \<or> j \<in> set is \<and> table (rt c2) ! j = Some s" using j t Cons.prems tab by auto
    then show "s \<in> set (freed (close_loop is c2))" using here t IH keeps by blast
    fix p assume p: "live_pipe c s p"
    show "\<not> alive (close_loop is c2) ! p"
      using \<open>j = i \<or> _\<close> here[of s] t p live[OF p] p_less[OF p] IH keeps by blast
  qed
qed simp

text \<open>\<open>close\<close> empties the table, deletes every shard of it and stops the pipe of every connected
  one; but it leaves the slot map as it is, so that the next command for such a slot reads a
  deleted shard.\<close>
theorem close_leaves_slots:
  assumes "cluster_ok c"
  shows "set (table (rt (close_cluster c))) = {None} \<and> slots (rt (close_cluster c)) = slots (rt c) \<and>
    (\<forall>s. Some s \<in> set (table (rt c)) \<longrightarrow>
       (\<forall>p. connected (heap (rt c) ! s) = 2 \<longrightarrow> shard_pipe (heap (rt c) ! s) = Some p \<longrightarrow> \<not> alive (close_cluster c) ! p) \<and>
       (\<forall>slot. slots (rt c) ! unat slot = Some s \<longrightarrow> get_pipe slot (close_cluster c) = UB))"
proof -
  let ?n = "length (table (rt c))"
  note e = close_loop_empties[of "[0..<?n]" c] and k = close_loop_keeps[of "[0..<?n]" c]
  have n: "0 < ?n" using cluster_okD(1)[OF assms] by (simp add: table_ok_def)
  have empty: "\<forall>j<?n. table (rt (close_cluster c)) ! j = None" using e by (simp add: close_cluster_def)
  have len: "length (table (rt (close_cluster c))) = ?n" using k by (simp add: close_cluster_def)
  have "x = None" if "x \<in> set (table (rt (close_cluster c)))" for x
    using that empty len by (auto simp: in_set_conv_nth)
  moreover have "None \<in> set (table (rt (close_cluster c)))"
    using empty len n by (metis nth_mem)
  ultimately have "set (table (rt (close_cluster c))) = {None}" by blast
  moreover have "s \<in> set (freed (close_cluster c)) \<and> (\<forall>p. live_pipe c s p \<longrightarrow> \<not> alive (close_cluster c) ! p)"
    if "Some s \<in> set (table (rt c))" for s
    using that e by (auto simp: close_cluster_def in_set_conv_nth)
  moreover have "live_pipe c s p" if "Some s \<in> set (table (rt c))" "connected (heap (rt c) ! s) = 2"
    "shard_pipe (heap (rt c) ! s) = Some p" for s p
  proof -
    have "s < length (heap (rt c))" using cluster_okD(1)[OF assms] that(1) by (auto simp: table_ok_def in_set_conv_nth)
    then show ?thesis using cluster_okD(4)[OF assms] cluster_okD(7)[OF assms, of s] that by (auto simp: live_pipe_def)
  qed
  moreover have "slots (rt (close_cluster c)) = slots (rt c)" using k by (simp add: close_cluster_def)
  ultimately show ?thesis by (auto simp: get_pipe_def)
qed

definition demo_cluster :: "nat cluster" where
  "demo_cluster = (new_cluster 1 2 0 99)\<lparr>rt := \<lparr>slots = (replicate num_slot None)[5 := Some 0], table = [Some 0],
     heap = [new_shard 0x7F000001 7000]\<rparr>\<rparr>"

lemma demo_cluster_ok: "cluster_ok demo_cluster"
proof -
  have "\<exists>k. 1 \<le> k \<and> k \<le> 31 \<and> (2 :: nat) = 2 ^ k" by (rule exI[of _ 1]) simp
  moreover have "\<forall>s. Some s \<in> set ((replicate num_slot None)[5 := Some 0]) \<longrightarrow> s < (1 :: nat)"
    using set_update_subset_insert[of "replicate num_slot None" 5 "Some (0 :: nat)"] by auto
  ultimately show ?thesis
    by (simp add: cluster_ok_def demo_cluster_def new_cluster_def table_ok_def home_def router_hash_def new_shard_def)
qed

lemma demo_slot: "slots (rt demo_cluster) ! 5 = Some 0" "Some 0 \<in> set (table (rt demo_cluster))"
  by (simp_all add: demo_cluster_def num_slot_def)

theorem close_leaves_slots_witness: "get_pipe 5 (close_cluster demo_cluster) = UB"
proof -
  have "slots (rt demo_cluster) ! unat (5 :: u16) = Some 0" using demo_slot(1) by simp
  then show ?thesis using close_leaves_slots[OF demo_cluster_ok] demo_slot(2) by blast
qed

end
