(* ===== verification/Shared_Table.thy ===== *)
theory Shared_Table
  imports Cluster_Core
begin

text \<open>
  \<open>find_shard\<close> and \<open>try_connect\<close> of include/RedisCluster.hpp when threads share the cluster (\<open>shared = true\<close>):
  the cells of the table and the flags \<open>connected\<close> are atomic, every access to one is a step, and steps of
  different threads interleave in any order. All threads that look for an address get the same shard, and
  all that use a shard get the same pipe, which is made once. \<open>Cluster_Table\<close> and \<open>Cluster_Core\<close> have the
  state; closing the cluster meanwhile is not among the steps.
\<close>

section \<open>A thread\<close>

text \<open>
  \<open>Find_load\<close> is about to load the cell of turn \<open>k\<close>; \<open>Find_cas\<close> has made a shard and is about to
  compare and exchange it into the cell. \<open>Try\<close> is about to call \<open>set_connecting\<close>; \<open>Make\<close> won and makes
  the pipe, \<open>Open\<close> is about to store it, \<open>Opened\<close> to call \<open>set_connected\<close>, \<open>Setup\<close> to give the pipe its
  option and to start its worker; \<open>Wait\<close> is in \<open>wait_connected\<close>.
\<close>

datatype finder =
    Resting
  | Find_load u32 u16 nat
  | Find_cas u32 u16 nat nat
  | Full
  | Try nat
  | Make nat
  | Open nat nat
  | Opened nat nat
  | Setup nat nat
  | Wait nat
  | Result nat "nat option"

definition start_find :: "u32 \<Rightarrow> u16 \<Rightarrow> finder" where
  "start_find i p = Find_load i p 0"

definition probe :: "router \<Rightarrow> u32 \<Rightarrow> u16 \<Rightarrow> nat \<Rightarrow> nat" where
  "probe r i p k = (router_hash (length (table r)) i p + k) mod length (table r)"

definition map_router :: "(router \<Rightarrow> router) \<Rightarrow> 'h cluster \<Rightarrow> 'h cluster" where
  "map_router f c = c\<lparr>rt := f (rt c)\<rparr>"

definition set_shard :: "nat \<Rightarrow> shard \<Rightarrow> router \<Rightarrow> router" where
  "set_shard s sh r = r\<lparr>heap := (heap r)[s := sh]\<rparr>"

definition cas_hash :: "nat \<Rightarrow> nat \<Rightarrow> router \<Rightarrow> router" where
  "cas_hash idx s r = r\<lparr>table := (table r)[idx := Some s]\<rparr>"

definition no_option :: long_option where
  "no_option = \<lparr>l_ip = [], l_username = [], l_password = [], l_clientname = [], l_db = 0, l_resp = 0, l_port = 0\<rparr>"

text \<open>The flag \<open>connected\<close>: each of these is one atomic access and returns the old value; \<open>wait_connected\<close>
  is one turn of its loop, \<open>None\<close> when it goes on.\<close>

definition set_connecting :: "shard \<Rightarrow> nat \<times> shard" where
  "set_connecting sh = (if connected sh = 0 then (0, sh\<lparr>connected := 1\<rparr>) else (connected sh, sh))"

definition set_connected :: "shard \<Rightarrow> nat \<times> shard" where
  "set_connected sh = (if connected sh = 1 then (1, sh\<lparr>connected := 2\<rparr>) else (connected sh, sh))"

definition wait_connected :: "shard \<Rightarrow> nat option" where
  "wait_connected sh = (if connected sh \<le> 1 then None else Some (connected sh))"

declare set_connecting_def [simp] set_connected_def [simp] wait_connected_def [simp]

text \<open>\<open>find_shard\<close>, and \<open>try_connect\<close>.\<close>

fun find_step :: "finder \<Rightarrow> 'h cluster \<Rightarrow> finder \<times> 'h cluster" where
  "find_step (Find_load i p k) c =
     (if length (table (rt c)) \<le> k then (Full, c)
      else case table (rt c) ! probe (rt c) i p k of
        Some s \<Rightarrow> (if at_address i p (heap (rt c) ! s) then Try s else Find_load i p (Suc k), c)
      | None \<Rightarrow> (Find_cas i p k (length (heap (rt c))), map_router (\<lambda>r. r\<lparr>heap := heap r @ [new_shard i p]\<rparr>) c))"
| "find_step (Find_cas i p k s) c =
     (case table (rt c) ! probe (rt c) i p k of
        None \<Rightarrow> (Try s, map_router (cas_hash (probe (rt c) i p k) s) c)
      | Some t \<Rightarrow> (if at_address i p (heap (rt c) ! t) then Try t else Find_load i p (Suc k), c\<lparr>freed := s # freed c\<rparr>))"
| "find_step th c = (th, c)"

fun connect_step :: "finder \<Rightarrow> 'h cluster \<Rightarrow> finder \<times> 'h cluster" where
  "connect_step (Try s) c =
     (let (status, sh) = set_connecting (heap (rt c) ! s) in
      if status = 0 then (Make s, map_router (set_shard s sh) c)
      else if status = 1 then (Wait s, c)
      else (Result s (if status \<noteq> 2 then None else shard_pipe sh), c))"
| "connect_step (Make s) c =
     (Open s (length (ends c)),
      c\<lparr>ends := ends c @ [\<lparr>ring_of = new_ring (capacity c) (null_handle c), signals = 0\<rparr>],
        hosts := hosts c @ [no_option], alive := alive c @ [False]\<rparr>)"
| "connect_step (Open s q) c =
     (Opened s q, map_router (set_shard s ((heap (rt c) ! s)\<lparr>shard_pipe := Some q\<rparr>)) c)"
| "connect_step (Opened s q) c =
     (let (status, sh) = set_connected (heap (rt c) ! s) in
      if status = 1 then (Setup s q, map_router (set_shard s sh) c) else (Result s None, c))"
| "connect_step (Setup s q) c =
     (let sh = heap (rt c) ! s; (buffer, len) = uint32toip (shard_ip sh)
      in (Result s (Some q), c\<lparr>hosts := (hosts c)[q := pipe_option (options c) (take len buffer) (shard_port sh)],
            alive := (alive c)[q := True]\<rparr>))"
| "connect_step (Wait s) c =
     (case wait_connected (heap (rt c) ! s) of
        None \<Rightarrow> (Wait s, c)
      | Some status \<Rightarrow> (Result s (if status \<noteq> 2 then None else shard_pipe (heap (rt c) ! s)), c))"
| "connect_step th c = (th, c)"

fun finder_step :: "finder \<Rightarrow> 'h cluster \<Rightarrow> finder \<times> 'h cluster" where
  "finder_step (Find_load i p k) c = find_step (Find_load i p k) c"
| "finder_step (Find_cas i p k s) c = find_step (Find_cas i p k s) c"
| "finder_step th c = connect_step th c"

section \<open>All threads\<close>

text \<open>\<open>found\<close> records the address and the shard of every search that ended, \<open>made_for\<close> the shard for
  which each pipe was made.\<close>

record 'h finder_system =
  cluster_of :: "'h cluster"
  finders :: "finder list"
  found :: "(u32 \<times> u16 \<times> nat) list"
  made_for :: "nat list"

datatype finder_event = Look nat u32 u16 | Use nat nat | Move nat

fun rests :: "finder \<Rightarrow> bool" where
  "rests Resting = True" | "rests Full = True" | "rests (Result s q) = True" | "rests th = False"

fun search_end :: "finder \<Rightarrow> finder \<Rightarrow> (u32 \<times> u16 \<times> nat) list" where
  "search_end (Find_load i p k) (Try s) = [(i, p, s)]"
| "search_end (Find_cas i p k s') (Try s) = [(i, p, s)]"
| "search_end th th' = []"

fun makes_pipe :: "finder \<Rightarrow> nat list" where
  "makes_pipe (Make s) = [s]" | "makes_pipe th = []"

text \<open>A thread at rest looks for an address, or uses a shard it has from a slot, which is in the table.\<close>

fun finder_fire :: "finder_event \<Rightarrow> 'h finder_system \<Rightarrow> 'h finder_system option" where
  "finder_fire (Look x i p) s =
     (if x < length (finders s) \<and> rests (finders s ! x)
      then Some (s\<lparr>finders := (finders s)[x := start_find i p]\<rparr>) else None)"
| "finder_fire (Use x t) s =
     (if x < length (finders s) \<and> rests (finders s ! x) \<and> Some t \<in> set (table (rt (cluster_of s)))
      then Some (s\<lparr>finders := (finders s)[x := Try t]\<rparr>) else None)"
| "finder_fire (Move x) s =
     (if x < length (finders s)
      then let (th, c) = finder_step (finders s ! x) (cluster_of s)
           in Some (s\<lparr>cluster_of := c, finders := (finders s)[x := th], found := found s @ search_end (finders s ! x) th,
                made_for := made_for s @ makes_pipe (finders s ! x)\<rparr>)
      else None)"

inductive finder_reach :: "'h finder_system \<Rightarrow> 'h finder_system \<Rightarrow> bool" for s0 where
  finder_reach_start: "finder_reach s0 s0"
| finder_reach_step: "finder_reach s0 s \<Longrightarrow> finder_fire ev s = Some s' \<Longrightarrow> finder_reach s0 s'"

text \<open>A cluster whose shards are all untouched, as \<open>connect\<close> leaves it.\<close>

definition untouched :: "'h cluster \<Rightarrow> bool" where
  "untouched c \<longleftrightarrow> table_ok (rt c) \<and> ends c = [] \<and> hosts c = [] \<and> alive c = [] \<and> freed c = [] \<and>
     (\<forall>sh\<in>set (heap (rt c)). connected sh = 0 \<and> shard_pipe sh = None)"

definition start_finders :: "'h cluster \<Rightarrow> nat \<Rightarrow> 'h finder_system" where
  "start_finders c threads = \<lparr>cluster_of = c, finders = replicate threads Resting, found = [], made_for = []\<rparr>"

section \<open>The invariant\<close>

text \<open>The cells that a search has passed hold shards of other addresses.\<close>

definition passed :: "router \<Rightarrow> u32 \<Rightarrow> u16 \<Rightarrow> nat \<Rightarrow> bool" where
  "passed r i p k \<longleftrightarrow> (\<forall>e<k. \<exists>s. cell r (router_hash (length (table r)) i p) e = Some s \<and> s < length (heap r) \<and>
     \<not> at_address i p (heap r ! s))"

definition entered :: "router \<Rightarrow> nat \<Rightarrow> bool" where
  "entered r s \<longleftrightarrow> s < length (heap r) \<and> Some s \<in> set (table r)"

fun finder_ok :: "'h cluster \<Rightarrow> finder \<Rightarrow> bool" where
  "finder_ok c (Find_load i p k) \<longleftrightarrow> k \<le> length (table (rt c)) \<and> passed (rt c) i p k"
| "finder_ok c (Find_cas i p k s) \<longleftrightarrow> k < length (table (rt c)) \<and> passed (rt c) i p k \<and> s < length (heap (rt c)) \<and>
     heap (rt c) ! s = new_shard i p \<and> Some s \<notin> set (table (rt c)) \<and> s \<notin> set (freed c)"
| "finder_ok c (Try s) \<longleftrightarrow> entered (rt c) s"
| "finder_ok c (Make s) \<longleftrightarrow> entered (rt c) s \<and> connected (heap (rt c) ! s) = 1 \<and> shard_pipe (heap (rt c) ! s) = None"
| "finder_ok c (Open s q) \<longleftrightarrow> entered (rt c) s \<and> connected (heap (rt c) ! s) = 1 \<and> shard_pipe (heap (rt c) ! s) = None \<and> q < length (ends c)"
| "finder_ok c (Opened s q) \<longleftrightarrow> entered (rt c) s \<and> connected (heap (rt c) ! s) = 1 \<and> shard_pipe (heap (rt c) ! s) = Some q \<and> q < length (ends c)"
| "finder_ok c (Setup s q) \<longleftrightarrow> entered (rt c) s \<and> connected (heap (rt c) ! s) = 2 \<and> shard_pipe (heap (rt c) ! s) = Some q \<and> q < length (ends c)"
| "finder_ok c (Wait s) \<longleftrightarrow> entered (rt c) s \<and> 1 \<le> connected (heap (rt c) ! s)"
| "finder_ok c (Result s q) \<longleftrightarrow> entered (rt c) s \<and> connected (heap (rt c) ! s) = 2 \<and> shard_pipe (heap (rt c) ! s) = q \<and> q \<noteq> None"
| "finder_ok c th \<longleftrightarrow> True"

text \<open>The shard only this thread may change.\<close>

fun guards_shard :: "finder \<Rightarrow> nat option" where
  "guards_shard (Find_cas i p k s) = Some s"
| "guards_shard (Make s) = Some s" | "guards_shard (Open s q) = Some s" | "guards_shard (Opened s q) = Some s"
| "guards_shard th = None"

text \<open>How the shared state changes.\<close>

definition grows :: "'h cluster \<Rightarrow> 'h cluster \<Rightarrow> bool" where
  "grows c c' \<longleftrightarrow> length (table (rt c')) = length (table (rt c)) \<and>
     (\<forall>j<length (table (rt c)). table (rt c) ! j \<noteq> None \<longrightarrow> table (rt c') ! j = table (rt c) ! j) \<and>
     length (heap (rt c)) \<le> length (heap (rt c')) \<and> length (ends c) \<le> length (ends c') \<and>
     (\<forall>s<length (heap (rt c)). same_address (heap (rt c') ! s) (heap (rt c) ! s) \<and>
        connected (heap (rt c) ! s) \<le> connected (heap (rt c') ! s) \<and>
        (connected (heap (rt c) ! s) = 2 \<longrightarrow> heap (rt c') ! s = heap (rt c) ! s))"

lemma grows_entered: "grows c c' \<Longrightarrow> entered (rt c) s \<Longrightarrow> entered (rt c') s"
proof -
  assume g: "grows c c'" and e: "entered (rt c) s"
  then obtain j where j: "j < length (table (rt c))" "table (rt c) ! j = Some s" by (auto simp: entered_def in_set_conv_nth)
  then have "j < length (table (rt c'))" "table (rt c') ! j = Some s" using g by (auto simp: grows_def)
  then have "Some s \<in> set (table (rt c'))" by (metis nth_mem)
  then show ?thesis using g e by (simp add: entered_def grows_def)
qed

lemma grows_passed:
  assumes g: "grows c c'" and p: "passed (rt c) i p k"
  shows "passed (rt c') i p k"
  unfolding passed_def
proof (intro allI impI)
  fix e assume "e < k"
  with p obtain s where s: "cell (rt c) (router_hash (length (table (rt c))) i p) e = Some s" "s < length (heap (rt c))"
    "\<not> at_address i p (heap (rt c) ! s)" unfolding passed_def by blast
  have len: "length (table (rt c')) = length (table (rt c))" using g by (simp add: grows_def)
  have "(router_hash (length (table (rt c))) i p + e) mod length (table (rt c)) < length (table (rt c)) \<or> table (rt c) = []" by auto
  then have "cell (rt c') (router_hash (length (table (rt c'))) i p) e = Some s"
    using g s(1) len unfolding grows_def cell_def by (metis length_0_conv option.distinct(1))
  moreover have "s < length (heap (rt c'))" "\<not> at_address i p (heap (rt c') ! s)"
    using g s(2,3) by (auto simp: grows_def at_address_def same_address_def)
  ultimately show "\<exists>s. cell (rt c') (router_hash (length (table (rt c'))) i p) e = Some s \<and> s < length (heap (rt c')) \<and>
      \<not> at_address i p (heap (rt c') ! s)" by blast
qed

lemma finder_ok_frame:
  assumes "finder_ok c th" and g: "grows c c'"
    and mine: "\<And>s. guards_shard th = Some s \<Longrightarrow> heap (rt c') ! s = heap (rt c) ! s \<and>
      (Some s \<in> set (table (rt c')) \<longleftrightarrow> Some s \<in> set (table (rt c))) \<and> (s \<in> set (freed c') \<longleftrightarrow> s \<in> set (freed c))"
  shows "finder_ok c' th"
  using assms(1) mine grows_entered[OF g] grows_passed[OF g] g
  by (cases th) (auto simp: grows_def entered_def)

definition exclusive :: "finder list \<Rightarrow> bool" where
  "exclusive ths \<longleftrightarrow> (\<forall>x<length ths. \<forall>y<length ths. \<forall>s. guards_shard (ths ! x) = Some s \<longrightarrow> guards_shard (ths ! y) = Some s \<longrightarrow> x = y)"

lemma exclusive_inj:
  "exclusive ths \<Longrightarrow> x < length ths \<Longrightarrow> y < length ths \<Longrightarrow> guards_shard (ths ! x) = Some s \<Longrightarrow> guards_shard (ths ! y) = Some s \<Longrightarrow> x = y"
  unfolding exclusive_def by blast

lemma exclusive_update:
  assumes ex: "exclusive ths" and x: "x < length ths"
    and new: "\<And>s y. guards_shard th = Some s \<Longrightarrow> y < length ths \<Longrightarrow> y \<noteq> x \<Longrightarrow> guards_shard (ths ! y) \<noteq> Some s"
  shows "exclusive (ths[x := th])"
  unfolding exclusive_def
proof (intro allI impI)
  fix a b s assume "a < length (ths[x := th])" "b < length (ths[x := th])"
    and "guards_shard (ths[x := th] ! a) = Some s" "guards_shard (ths[x := th] ! b) = Some s"
  then show "a = b" using exclusive_inj[OF ex, of a b s] new[of s a] new[of s b] x by (cases "a = x"; cases "b = x") auto
qed

definition shard_ok :: "'h cluster \<Rightarrow> shard \<Rightarrow> bool" where
  "shard_ok c sh \<longleftrightarrow> (connected sh = 0 \<and> shard_pipe sh = None) \<or> connected sh = 1 \<or>
     (connected sh = 2 \<and> (\<exists>q<length (ends c). shard_pipe sh = Some q))"

text \<open>A pipe is made for one shard, which gets it.\<close>

definition pipes_ok :: "'h cluster \<Rightarrow> finder list \<Rightarrow> nat list \<Rightarrow> bool" where
  "pipes_ok c ths mf \<longleftrightarrow> length mf = length (ends c) \<and>
     (\<forall>s<length (heap (rt c)). \<forall>q. shard_pipe (heap (rt c) ! s) = Some q \<longrightarrow> q < length mf \<and> mf ! q = s) \<and>
     (\<forall>x<length ths. \<forall>s q. ths ! x = Open s q \<longrightarrow> q < length mf \<and> mf ! q = s) \<and>
     (\<forall>q<length mf. mf ! q < length (heap (rt c)) \<and>
        (shard_pipe (heap (rt c) ! (mf ! q)) = Some q \<or> (\<exists>x<length ths. ths ! x = Open (mf ! q) q)))"

definition finders_ok :: "'h finder_system \<Rightarrow> bool" where
  "finders_ok S \<longleftrightarrow>
     (let c = cluster_of S in
        table_ok (rt c) \<and> (\<forall>sh\<in>set (heap (rt c)). shard_ok c sh) \<and>
        (\<forall>x<length (finders S). finder_ok c (finders S ! x)) \<and> exclusive (finders S) \<and>
        (\<forall>(i, p, s)\<in>set (found S). entered (rt c) s \<and> at_address i p (heap (rt c) ! s)) \<and>
        pipes_ok c (finders S) (made_for S) \<and>
        (\<forall>s\<in>set (freed c). s < length (heap (rt c)) \<and> Some s \<notin> set (table (rt c))))"

fun opens :: "finder \<Rightarrow> bool" where
  "opens (Open s q) = True" | "opens th = False"

lemma pipes_ok_frame:
  assumes ok: "pipes_ok c ths mf" and x: "x < length ths" and no: "\<not> opens (ths ! x)" "\<not> opens th'"
    and e: "length (ends c') = length (ends c)" and len: "length (heap (rt c)) \<le> length (heap (rt c'))"
    and same: "\<And>s. s < length (heap (rt c)) \<Longrightarrow> shard_pipe (heap (rt c') ! s) = shard_pipe (heap (rt c) ! s)"
    and fresh: "\<And>s. length (heap (rt c)) \<le> s \<Longrightarrow> s < length (heap (rt c')) \<Longrightarrow> shard_pipe (heap (rt c') ! s) = None"
  shows "pipes_ok c' (ths[x := th']) mf"
  unfolding pipes_ok_def
proof (intro conjI allI impI)
  show "length mf = length (ends c')" using ok e by (simp add: pipes_ok_def)
  fix s q assume s: "s < length (heap (rt c'))" "shard_pipe (heap (rt c') ! s) = Some q"
  then have "s < length (heap (rt c))" using fresh[of s] by (cases "s < length (heap (rt c))") auto
  then show "q < length mf" "mf ! q = s" using ok s same unfolding pipes_ok_def by auto
next
  fix y s q assume y: "y < length (ths[x := th'])" "ths[x := th'] ! y = Open s q"
  then have "ths ! y = Open s q" using no(2) x by (cases "y = x") auto
  then show "q < length mf" "mf ! q = s" using ok y(1) unfolding pipes_ok_def by auto
next
  fix q assume q: "q < length mf"
  then have old: "mf ! q < length (heap (rt c))" "shard_pipe (heap (rt c) ! (mf ! q)) = Some q \<or> (\<exists>y<length ths. ths ! y = Open (mf ! q) q)"
    using ok unfolding pipes_ok_def by auto
  then show "mf ! q < length (heap (rt c'))" using len by simp
  show "shard_pipe (heap (rt c') ! (mf ! q)) = Some q \<or> (\<exists>y<length (ths[x := th']). ths[x := th'] ! y = Open (mf ! q) q)"
  proof (cases "shard_pipe (heap (rt c) ! (mf ! q)) = Some q")
    case False
    then obtain y where y: "y < length ths" "ths ! y = Open (mf ! q) q" using old(2) by blast
    then have "y \<noteq> x" using no(1) by auto
    then show ?thesis using y by (intro disjI2 exI[of _ y]) simp
  qed (use same[OF old(1)] in simp)
qed

lemma finders_advance:
  assumes ok: "finders_ok S" and x: "x < length (finders S)" and g: "grows (cluster_of S) c'"
    and others: "\<And>y s. y < length (finders S) \<Longrightarrow> y \<noteq> x \<Longrightarrow> guards_shard (finders S ! y) = Some s \<Longrightarrow>
      heap (rt c') ! s = heap (rt (cluster_of S)) ! s \<and>
      (Some s \<in> set (table (rt c')) \<longleftrightarrow> Some s \<in> set (table (rt (cluster_of S)))) \<and> (s \<in> set (freed c') \<longleftrightarrow> s \<in> set (freed (cluster_of S)))"
    and me: "finder_ok c' th'"
    and ex: "\<And>y s. guards_shard th' = Some s \<Longrightarrow> y < length (finders S) \<Longrightarrow> y \<noteq> x \<Longrightarrow> guards_shard (finders S ! y) \<noteq> Some s"
    and tab: "table_ok (rt c')" and shards: "\<And>sh. sh \<in> set (heap (rt c')) \<Longrightarrow> shard_ok c' sh"
    and fnd: "\<And>i p s. (i, p, s) \<in> set new \<Longrightarrow> entered (rt c') s \<and> at_address i p (heap (rt c') ! s)"
    and fr: "\<And>s. s \<in> set (freed c') \<Longrightarrow> s < length (heap (rt c')) \<and> Some s \<notin> set (table (rt c'))"
    and pipes: "pipes_ok c' ((finders S)[x := th']) mf"
  shows "finders_ok (S\<lparr>cluster_of := c', finders := (finders S)[x := th'], found := found S @ new, made_for := mf\<rparr>)"
proof -
  let ?c = "cluster_of S"
  have old: "\<And>y. y < length (finders S) \<Longrightarrow> finder_ok ?c (finders S ! y)" "exclusive (finders S)"
    "\<And>i p s. (i, p, s) \<in> set (found S) \<Longrightarrow> entered (rt ?c) s \<and> at_address i p (heap (rt ?c) ! s)"
    using ok by (auto simp: finders_ok_def Let_def)
  have "finder_ok c' ((finders S)[x := th'] ! y)" if "y < length (finders S)" for y
    using finder_ok_frame[OF old(1)[OF that] g] others[OF that] me x by (cases "y = x") auto
  moreover have "exclusive ((finders S)[x := th'])" by (rule exclusive_update[OF old(2) x ex])
  moreover have "entered (rt c') s \<and> at_address i p (heap (rt c') ! s)" if "(i, p, s) \<in> set (found S @ new)" for i p s
  proof (cases "(i, p, s) \<in> set new")
    case False
    then have "(i, p, s) \<in> set (found S)" using that by simp
    from old(3)[OF this] have e: "entered (rt ?c) s" "at_address i p (heap (rt ?c) ! s)" by auto
    then have "at_address i p (heap (rt c') ! s)" using g by (auto simp: grows_def entered_def at_address_def same_address_def)
    then show ?thesis using grows_entered[OF g e(1)] by simp
  qed (use fnd in simp)
  ultimately show ?thesis using tab shards fr pipes by (auto simp: finders_ok_def Let_def)
qed

subsection \<open>Steps of one thread\<close>

lemma map_router_simps [simp]:
  "rt (map_router f c) = f (rt c)" "ends (map_router f c) = ends c" "freed (map_router f c) = freed c"
  by (simp_all add: map_router_def)

lemma set_shard_simps [simp]: "table (set_shard s sh r) = table r" "heap (set_shard s sh r) = (heap r)[s := sh]"
  by (simp_all add: set_shard_def)

lemma cas_hash_simps [simp]: "table (cas_hash j s r) = (table r)[j := Some s]" "heap (cas_hash j s r) = heap r"
  by (simp_all add: cas_hash_def)

lemma grows_refl: "grows c c"
  by (simp add: grows_def same_address_def)

lemma table_ok_append:
  assumes "table_ok r"
  shows "table_ok (r\<lparr>heap := heap r @ [sh]\<rparr>)"
proof -
  have in_heap: "s < length (heap r)" if "table r ! j = Some s" "j < length (table r)" for s j
    using assms that by (auto simp: table_ok_def)
  have home: "home (r\<lparr>heap := heap r @ [sh]\<rparr>) s = home r s" if "s < length (heap r)" for s
    using that by (simp add: home_def nth_append)
  show ?thesis
    unfolding table_ok_def
  proof (intro conjI allI impI)
    fix j s assume j: "j < length (table (r\<lparr>heap := heap r @ [sh]\<rparr>))" and e: "table (r\<lparr>heap := heap r @ [sh]\<rparr>) ! j = Some s"
    then have s: "s < length (heap r)" using in_heap by simp
    then show "s < length (heap (r\<lparr>heap := heap r @ [sh]\<rparr>))" by simp
    show "\<exists>d<length (table (r\<lparr>heap := heap r @ [sh]\<rparr>)). j = (home (r\<lparr>heap := heap r @ [sh]\<rparr>) s + d) mod length (table (r\<lparr>heap := heap r @ [sh]\<rparr>)) \<and>
        (\<forall>e<d. table (r\<lparr>heap := heap r @ [sh]\<rparr>) ! ((home (r\<lparr>heap := heap r @ [sh]\<rparr>) s + e) mod length (table (r\<lparr>heap := heap r @ [sh]\<rparr>))) \<noteq> None)"
      unfolding home[OF s] using assms j e by (simp add: table_ok_def)
  next
    fix j k s t assume jk: "j < length (table (r\<lparr>heap := heap r @ [sh]\<rparr>))" "k < length (table (r\<lparr>heap := heap r @ [sh]\<rparr>))"
      and e: "table (r\<lparr>heap := heap r @ [sh]\<rparr>) ! j = Some s" "table (r\<lparr>heap := heap r @ [sh]\<rparr>) ! k = Some t"
      and same: "same_address (heap (r\<lparr>heap := heap r @ [sh]\<rparr>) ! s) (heap (r\<lparr>heap := heap r @ [sh]\<rparr>) ! t)"
    then have "same_address (heap r ! s) (heap r ! t)" using in_heap[of j s] in_heap[of k t] by (simp add: nth_append)
    then show "j = k" using assms jk e unfolding table_ok_def by simp
  qed (use assms in \<open>simp add: table_ok_def\<close>)
qed

lemma finders_okD:
  assumes "finders_ok S"
  shows "table_ok (rt (cluster_of S))" and "\<And>sh. sh \<in> set (heap (rt (cluster_of S))) \<Longrightarrow> shard_ok (cluster_of S) sh"
    and "\<And>x. x < length (finders S) \<Longrightarrow> finder_ok (cluster_of S) (finders S ! x)" and "exclusive (finders S)"
    and "\<And>i p s. (i, p, s) \<in> set (found S) \<Longrightarrow> entered (rt (cluster_of S)) s \<and> at_address i p (heap (rt (cluster_of S)) ! s)"
    and "pipes_ok (cluster_of S) (finders S) (made_for S)"
    and "\<And>s. s \<in> set (freed (cluster_of S)) \<Longrightarrow> s < length (heap (rt (cluster_of S))) \<and> Some s \<notin> set (table (rt (cluster_of S)))"
  using assms by (auto simp: finders_ok_def Let_def)

lemma finders_stay:
  assumes ok: "finders_ok S" and x: "x < length (finders S)"
    and c': "rt c' = rt (cluster_of S)" "ends c' = ends (cluster_of S)" "freed c' = freed (cluster_of S)"
    and me: "finder_ok c' th'" and free: "guards_shard th' = None" and no: "\<not> opens (finders S ! x)" "\<not> opens th'"
    and fnd: "\<And>i p s. (i, p, s) \<in> set new \<Longrightarrow> entered (rt (cluster_of S)) s \<and> at_address i p (heap (rt (cluster_of S)) ! s)"
  shows "finders_ok (S\<lparr>cluster_of := c', finders := (finders S)[x := th'], found := found S @ new, made_for := made_for S\<rparr>)"
proof -
  have g: "grows (cluster_of S) c'" by (simp add: grows_def same_address_def c')
  have pipes: "pipes_ok c' ((finders S)[x := th']) (made_for S)"
    by (rule pipes_ok_frame[OF finders_okD(6)[OF ok] x no]) (simp_all add: c')
  have shards: "shard_ok c' sh" if "sh \<in> set (heap (rt c'))" for sh
    using finders_okD(2)[OF ok, of sh] that by (simp add: shard_ok_def c')
  show ?thesis
    by (rule finders_advance[OF ok x g _ me _ _ shards _ _ pipes])
      (use finders_okD(1,7)[OF ok] fnd in \<open>simp_all add: free c'\<close>)
qed

text \<open>A thread changes the flag or the pipe of a shard that no other thread guards.\<close>

lemma finders_set_shard:
  assumes ok: "finders_ok S" and x: "x < length (finders S)" and s: "entered (rt (cluster_of S)) s"
    and alone: "\<And>y. y < length (finders S) \<Longrightarrow> y \<noteq> x \<Longrightarrow> guards_shard (finders S ! y) \<noteq> Some s"
    and sh: "same_address sh (heap (rt (cluster_of S)) ! s)" "connected (heap (rt (cluster_of S)) ! s) \<le> connected sh"
      "connected (heap (rt (cluster_of S)) ! s) \<noteq> 2" "shard_ok (cluster_of S) sh"
    and me: "finder_ok (map_router (set_shard s sh) (cluster_of S)) th'"
    and guard: "guards_shard th' = None \<or> guards_shard th' = Some s"
    and pipes: "pipes_ok (map_router (set_shard s sh) (cluster_of S)) ((finders S)[x := th']) (made_for S)"
  shows "finders_ok (S\<lparr>cluster_of := map_router (set_shard s sh) (cluster_of S), finders := (finders S)[x := th'],
    found := found S @ [], made_for := made_for S\<rparr>)"
proof (rule finders_advance[OF ok x _ _ me])
  let ?c = "cluster_of S"
  show "grows ?c (map_router (set_shard s sh) ?c)"
    using sh s by (auto simp: grows_def same_address_def entered_def nth_list_update)
  show "table_ok (rt (map_router (set_shard s sh) ?c))"
  proof (rule table_ok_heap[OF finders_okD(1)[OF ok]])
    show "same_address (heap (rt (map_router (set_shard s sh) ?c)) ! t) (heap (rt ?c) ! t)" if "t < length (heap (rt ?c))" for t
      using that sh(1) s by (auto simp: same_address_def entered_def nth_list_update)
  qed simp_all
  show "shard_ok (map_router (set_shard s sh) ?c) z" if "z \<in> set (heap (rt (map_router (set_shard s sh) ?c)))" for z
    using that sh(4) finders_okD(2)[OF ok, of z] set_update_subset_insert[of "heap (rt ?c)" s sh] by (auto simp: shard_ok_def)
  show "heap (rt (map_router (set_shard s sh) ?c)) ! t = heap (rt ?c) ! t \<and>
      (Some t \<in> set (table (rt (map_router (set_shard s sh) ?c))) \<longleftrightarrow> Some t \<in> set (table (rt ?c))) \<and>
      (t \<in> set (freed (map_router (set_shard s sh) ?c)) \<longleftrightarrow> t \<in> set (freed ?c))"
    if "y < length (finders S)" "y \<noteq> x" "guards_shard (finders S ! y) = Some t" for y t
    using alone[OF that(1,2)] that(3) by (cases "t = s") auto
qed (use guard alone pipes finders_okD(7)[OF ok] in auto)

text \<open>A thread meets no shard of its address in front of an empty cell.\<close>

lemma probe_cell: "probe r i p k < length (table r) \<or> table r = []" "table r ! probe r i p k = cell r (router_hash (length (table r)) i p) k"
  by (cases "table r") (simp_all add: probe_def cell_def)

lemma passed_Suc:
  assumes "passed r i p k" and "table r ! probe r i p k = Some s" and "s < length (heap r)" and "\<not> at_address i p (heap r ! s)"
  shows "passed r i p (Suc k)"
  using assms by (auto simp: passed_def probe_cell(2) less_Suc_eq)

lemma cell_entered:
  assumes "table_ok r" and "table r ! probe r i p k = Some s"
  shows "entered r s"
proof -
  have "probe r i p k < length (table r)" using assms(1) probe_cell(1)[of r i p k] by (auto simp: table_ok_def)
  then show ?thesis using assms unfolding entered_def table_ok_def by (metis nth_mem)
qed

lemma finders_load_new:
  assumes ok: "finders_ok S" and x: "x < length (finders S)" and at: "finders S ! x = Find_load i p k"
    and k: "k < length (table (rt (cluster_of S)))"
  shows "finders_ok (S\<lparr>cluster_of := map_router (\<lambda>r. r\<lparr>heap := heap r @ [new_shard i p]\<rparr>) (cluster_of S),
    finders := (finders S)[x := Find_cas i p k (length (heap (rt (cluster_of S))))], found := found S @ [], made_for := made_for S\<rparr>)"
proof -
  let ?c = "cluster_of S" and ?n = "length (heap (rt (cluster_of S)))"
  let ?c' = "map_router (\<lambda>r. r\<lparr>heap := heap r @ [new_shard i p]\<rparr>) ?c"
  have passed: "passed (rt ?c) i p k" using finders_okD(3)[OF ok x] at by simp
  have in_heap: "Some s \<in> set (table (rt ?c)) \<Longrightarrow> s < ?n" for s
    using finders_okD(1)[OF ok] by (auto simp: table_ok_def in_set_conv_nth)
  have guarded: "s < ?n" if "y < length (finders S)" "guards_shard (finders S ! y) = Some s" for y s
    using finders_okD(3)[OF ok that(1)] that(2) by (cases "finders S ! y") (auto simp: entered_def)
  have g: "grows ?c ?c'" by (auto simp: grows_def nth_append same_address_def)
  show ?thesis
  proof (rule finders_advance[OF ok x g])
    show "finder_ok ?c' (Find_cas i p k ?n)"
      using k grows_passed[OF g passed] in_heap[of ?n] finders_okD(7)[OF ok, of ?n] by auto
    show "table_ok (rt ?c')" using table_ok_append[OF finders_okD(1)[OF ok]] by simp
    show "shard_ok ?c' sh" if "sh \<in> set (heap (rt ?c'))" for sh
      using that finders_okD(2)[OF ok, of sh] by (auto simp: shard_ok_def new_shard_def)
    show "s < length (heap (rt ?c')) \<and> Some s \<notin> set (table (rt ?c'))" if "s \<in> set (freed ?c')" for s
      using finders_okD(7)[OF ok, of s] that by simp
    show "pipes_ok ?c' ((finders S)[x := Find_cas i p k ?n]) (made_for S)"
      using at by (intro pipes_ok_frame[OF finders_okD(6)[OF ok] x]) (auto simp: nth_append new_shard_def)
    show "guards_shard (finders S ! y) \<noteq> Some s"
      if "guards_shard (Find_cas i p k ?n) = Some s" "y < length (finders S)" "y \<noteq> x" for y s
      using guarded[OF that(2), of s] that(1) by auto
    show "heap (rt ?c') ! s = heap (rt ?c) ! s \<and> (Some s \<in> set (table (rt ?c')) \<longleftrightarrow> Some s \<in> set (table (rt ?c))) \<and>
        (s \<in> set (freed ?c') \<longleftrightarrow> s \<in> set (freed ?c))"
      if "y < length (finders S)" "y \<noteq> x" "guards_shard (finders S ! y) = Some s" for y s
      using guarded[OF that(1,3)] by (simp add: nth_append)
  qed simp
qed

lemma finders_cas_enter:
  assumes ok: "finders_ok S" and x: "x < length (finders S)" and at: "finders S ! x = Find_cas i p k s"
    and empty: "table (rt (cluster_of S)) ! probe (rt (cluster_of S)) i p k = None"
  shows "finders_ok (S\<lparr>cluster_of := map_router (cas_hash (probe (rt (cluster_of S)) i p k) s) (cluster_of S),
    finders := (finders S)[x := Try s], found := found S @ [(i, p, s)], made_for := made_for S\<rparr>)"
proof -
  let ?c = "cluster_of S" and ?j = "probe (rt (cluster_of S)) i p k"
  let ?c' = "map_router (cas_hash ?j s) ?c" and ?start = "router_hash (length (table (rt (cluster_of S)))) i p"
  have me: "k < length (table (rt ?c))" "passed (rt ?c) i p k" "s < length (heap (rt ?c))" "heap (rt ?c) ! s = new_shard i p"
    "Some s \<notin> set (table (rt ?c))" "s \<notin> set (freed ?c)" using finders_okD(3)[OF ok x] at by auto
  have tok: "table_ok (rt ?c)" by (rule finders_okD(1)[OF ok])
  have j: "?j < length (table (rt ?c))" using probe_cell(1)[of "rt ?c" i p k] me(1) by auto
  have miss: "\<not> holds (rt ?c) i p t" for t
  proof (rule not_held[OF tok refl])
    show "\<forall>e<k. \<forall>s. cell (rt ?c) ?start e = Some s \<longrightarrow> \<not> at_address i p (heap (rt ?c) ! s)" using me(2) by (fastforce simp: passed_def)
    show "k = length (table (rt ?c)) \<or> cell (rt ?c) ?start k = None" using empty by (simp add: probe_cell(2))
  qed
  have cells: "Some t \<in> set (table (rt ?c')) \<longleftrightarrow> t = s \<or> Some t \<in> set (table (rt ?c))" for t
    using update_empty_cell[OF j empty] by simp
  have g: "grows ?c ?c'" using empty j by (auto simp: grows_def same_address_def nth_list_update)
  have enter: "entered (rt ?c') s" using me(3) cells by (simp add: entered_def)
  show ?thesis
  proof (rule finders_advance[OF ok x g])
    show "finder_ok ?c' (Try s)" using enter by simp
    show "table_ok (rt ?c')"
    proof (rule table_ok_enter[OF tok me(1), where start = ?start and s = s])
      show "\<forall>e<k. cell (rt ?c) ?start e \<noteq> None" using me(2) by (fastforce simp: passed_def)
      show "\<not> same_address (heap (rt ?c') ! s) (heap (rt ?c) ! t)" if "Some t \<in> set (table (rt ?c))" for t
        using miss[of t] that me(4) by (auto simp: holds_def at_address_def same_address_def new_shard_def)
    qed (use me(3,4) in \<open>simp_all add: new_shard_def probe_def\<close>)
    show "shard_ok ?c' sh" if "sh \<in> set (heap (rt ?c'))" for sh
      using that finders_okD(2)[OF ok, of sh] by (auto simp: shard_ok_def)
    show "entered (rt ?c') t \<and> at_address i' p' (heap (rt ?c') ! t)" if "(i', p', t) \<in> set [(i, p, s)]" for i' p' t
      using that enter me(4) by (simp add: at_address_def new_shard_def)
    show "t < length (heap (rt ?c')) \<and> Some t \<notin> set (table (rt ?c'))" if "t \<in> set (freed ?c')" for t
      using finders_okD(7)[OF ok, of t] that me(6) unfolding cells by auto
    show "pipes_ok ?c' ((finders S)[x := Try s]) (made_for S)"
      using at by (intro pipes_ok_frame[OF finders_okD(6)[OF ok] x]) auto
    show "heap (rt ?c') ! t = heap (rt ?c) ! t \<and> (Some t \<in> set (table (rt ?c')) \<longleftrightarrow> Some t \<in> set (table (rt ?c))) \<and>
        (t \<in> set (freed ?c') \<longleftrightarrow> t \<in> set (freed ?c))"
      if "y < length (finders S)" "y \<noteq> x" "guards_shard (finders S ! y) = Some t" for y t
      using exclusive_inj[OF finders_okD(4)[OF ok] that(1) x that(3)] that(2) at unfolding cells by auto
  qed simp
qed

lemma finders_cas_lost:
  assumes ok: "finders_ok S" and x: "x < length (finders S)" and at: "finders S ! x = Find_cas i p k s"
    and there: "table (rt (cluster_of S)) ! probe (rt (cluster_of S)) i p k = Some t"
  defines "th' \<equiv> if at_address i p (heap (rt (cluster_of S)) ! t) then Try t else Find_load i p (Suc k)"
  shows "finders_ok (S\<lparr>cluster_of := (cluster_of S)\<lparr>freed := s # freed (cluster_of S)\<rparr>,
    finders := (finders S)[x := th'], found := found S @ search_end (Find_cas i p k s) th', made_for := made_for S\<rparr>)"
proof -
  let ?c = "cluster_of S"
  let ?c' = "?c\<lparr>freed := s # freed ?c\<rparr>"
  have me: "k < length (table (rt ?c))" "passed (rt ?c) i p k" "s < length (heap (rt ?c))" "Some s \<notin> set (table (rt ?c))"
    using finders_okD(3)[OF ok x] at by auto
  have tok: "table_ok (rt ?c)" by (rule finders_okD(1)[OF ok])
  have t: "entered (rt ?c) t" by (rule cell_entered[OF tok there])
  have g: "grows ?c ?c'" by (simp add: grows_def same_address_def)
  show ?thesis
  proof (rule finders_advance[OF ok x g])
    show "finder_ok ?c' th'"
      using me t passed_Suc[OF me(2) there] by (auto simp: th'_def entered_def)
    show "shard_ok ?c' sh" if "sh \<in> set (heap (rt ?c'))" for sh
      using that finders_okD(2)[OF ok, of sh] by (auto simp: shard_ok_def)
    show "entered (rt ?c') u \<and> at_address i' p' (heap (rt ?c') ! u)" if "(i', p', u) \<in> set (search_end (Find_cas i p k s) th')" for i' p' u
      using that t by (auto simp: th'_def split: if_splits)
    show "u < length (heap (rt ?c')) \<and> Some u \<notin> set (table (rt ?c'))" if "u \<in> set (freed ?c')" for u
      using finders_okD(7)[OF ok, of u] that me(3,4) by auto
    show "pipes_ok ?c' ((finders S)[x := th']) (made_for S)"
      using at by (intro pipes_ok_frame[OF finders_okD(6)[OF ok] x]) (auto simp: th'_def)
    show "heap (rt ?c') ! u = heap (rt ?c) ! u \<and> (Some u \<in> set (table (rt ?c')) \<longleftrightarrow> Some u \<in> set (table (rt ?c))) \<and>
        (u \<in> set (freed ?c') \<longleftrightarrow> u \<in> set (freed ?c))"
      if "y < length (finders S)" "y \<noteq> x" "guards_shard (finders S ! y) = Some u" for y u
      using exclusive_inj[OF finders_okD(4)[OF ok] that(1) x that(3)] that(2) at by auto
  qed (use tok in \<open>auto simp: th'_def split: if_splits\<close>)
qed

text \<open>Making a pipe, and storing it in the shard.\<close>

lemma finders_make:
  assumes ok: "finders_ok S" and x: "x < length (finders S)" and at: "finders S ! x = Make s"
    and c': "rt c' = rt (cluster_of S)" "freed c' = freed (cluster_of S)" "length (ends c') = Suc (length (ends (cluster_of S)))"
  shows "finders_ok (S\<lparr>cluster_of := c', finders := (finders S)[x := Open s (length (ends (cluster_of S)))],
    found := found S @ [], made_for := made_for S @ [s]\<rparr>)"
proof -
  let ?c = "cluster_of S" and ?q = "length (ends (cluster_of S))"
  have me: "entered (rt ?c) s" "connected (heap (rt ?c) ! s) = 1" "shard_pipe (heap (rt ?c) ! s) = None"
    using finders_okD(3)[OF ok x] at by auto
  note pk = finders_okD(6)[OF ok, unfolded pipes_ok_def]
  have len: "length (made_for S) = ?q" using pk by simp
  have g: "grows ?c c'" using c' by (simp add: grows_def same_address_def)
  show ?thesis
  proof (rule finders_advance[OF ok x g])
    show "finder_ok c' (Open s ?q)" using me c' by simp
    show "shard_ok c' sh" if "sh \<in> set (heap (rt c'))" for sh
      using that finders_okD(2)[OF ok, of sh] c' by (auto simp: shard_ok_def)
    show "pipes_ok c' ((finders S)[x := Open s ?q]) (made_for S @ [s])"
      unfolding pipes_ok_def
    proof (intro conjI allI impI)
      show "length (made_for S @ [s]) = length (ends c')" using len c' by simp
      fix t q assume "t < length (heap (rt c'))" "shard_pipe (heap (rt c') ! t) = Some q"
      then have "q < length (made_for S) \<and> made_for S ! q = t" using pk c' by auto
      then show "q < length (made_for S @ [s])" "(made_for S @ [s]) ! q = t" by (auto simp: nth_append)
    next
      fix y t q assume y: "y < length ((finders S)[x := Open s ?q])" "(finders S)[x := Open s ?q] ! y = Open t q"
      have "(q < length (made_for S) \<and> made_for S ! q = t) \<or> (q = ?q \<and> t = s)" using y pk x by (cases "y = x") auto
      then show "q < length (made_for S @ [s])" "(made_for S @ [s]) ! q = t" using len by (auto simp: nth_append)
    next
      fix q assume q: "q < length (made_for S @ [s])"
      have old: "made_for S ! q < length (heap (rt ?c)) \<and> (shard_pipe (heap (rt ?c) ! (made_for S ! q)) = Some q \<or>
          (\<exists>y<length (finders S). finders S ! y = Open (made_for S ! q) q))" if "q < ?q" using pk that len by auto
      show "(made_for S @ [s]) ! q < length (heap (rt c'))" using old q len me(1) c' by (auto simp: nth_append entered_def)
      show "shard_pipe (heap (rt c') ! ((made_for S @ [s]) ! q)) = Some q \<or>
          (\<exists>y<length ((finders S)[x := Open s ?q]). (finders S)[x := Open s ?q] ! y = Open ((made_for S @ [s]) ! q) q)"
      proof (cases "q < ?q")
        case True
        have mf: "(made_for S @ [s]) ! q = made_for S ! q" using True len by (simp add: nth_append)
        show ?thesis
        proof (cases "shard_pipe (heap (rt ?c) ! (made_for S ! q)) = Some q")
          case no: False
          then obtain y where y: "y < length (finders S)" "finders S ! y = Open (made_for S ! q) q" using old[OF True] by blast
          then have "y \<noteq> x" using at by auto
          then show ?thesis using y mf by (intro disjI2 exI[of _ y]) simp
        qed (simp add: mf c')
      next
        case False
        then have "q = ?q" using q len by simp
        then show ?thesis using x len by (intro disjI2 exI[of _ x]) (simp add: nth_append)
      qed
    qed
    show "guards_shard (finders S ! y) \<noteq> Some t" if "guards_shard (Open s ?q) = Some t" "y < length (finders S)" "y \<noteq> x" for y t
      using exclusive_inj[OF finders_okD(4)[OF ok] that(2) x, of t] that at by auto
  qed (use finders_okD[OF ok] c' in auto)
qed

lemma finders_open:
  assumes ok: "finders_ok S" and x: "x < length (finders S)" and at: "finders S ! x = Open s q"
  defines "sh \<equiv> (heap (rt (cluster_of S)) ! s)\<lparr>shard_pipe := Some q\<rparr>"
  shows "finders_ok (S\<lparr>cluster_of := map_router (set_shard s sh) (cluster_of S), finders := (finders S)[x := Opened s q],
    found := found S @ [], made_for := made_for S\<rparr>)"
proof (rule finders_set_shard[OF ok x])
  let ?c = "cluster_of S"
  have me: "entered (rt ?c) s" "connected (heap (rt ?c) ! s) = 1" "shard_pipe (heap (rt ?c) ! s) = None" "q < length (ends ?c)"
    using finders_okD(3)[OF ok x] at by auto
  note pk = finders_okD(6)[OF ok, unfolded pipes_ok_def]
  have s: "s < length (heap (rt ?c))" using me(1) by (simp add: entered_def)
  have q: "q < length (made_for S)" "made_for S ! q = s" using pk x at by auto
  show "entered (rt ?c) s" by (rule me(1))
  show "guards_shard (finders S ! y) \<noteq> Some s" if "y < length (finders S)" "y \<noteq> x" for y
    using exclusive_inj[OF finders_okD(4)[OF ok] that(1) x, of s] that(2) at by auto
  show "finder_ok (map_router (set_shard s sh) ?c) (Opened s q)" using me s by (simp add: sh_def entered_def)
  show "pipes_ok (map_router (set_shard s sh) ?c) ((finders S)[x := Opened s q]) (made_for S)"
    unfolding pipes_ok_def
  proof (intro conjI allI impI)
    show "length (made_for S) = length (ends (map_router (set_shard s sh) ?c))" using pk by simp
    fix t q' assume "t < length (heap (rt (map_router (set_shard s sh) ?c)))"
      "shard_pipe (heap (rt (map_router (set_shard s sh) ?c)) ! t) = Some q'"
    then have "q' < length (made_for S) \<and> made_for S ! q' = t" using pk q s by (cases "t = s") (auto simp: sh_def)
    then show "q' < length (made_for S)" "made_for S ! q' = t" by auto
  next
    fix y t q' assume y: "y < length ((finders S)[x := Opened s q])" "(finders S)[x := Opened s q] ! y = Open t q'"
    then have "finders S ! y = Open t q'" using x by (cases "y = x") auto
    then show "q' < length (made_for S)" "made_for S ! q' = t" using pk y(1) by auto
  next
    fix q' assume q': "q' < length (made_for S)"
    then have old: "made_for S ! q' < length (heap (rt ?c))" "shard_pipe (heap (rt ?c) ! (made_for S ! q')) = Some q' \<or>
        (\<exists>y<length (finders S). finders S ! y = Open (made_for S ! q') q')" using pk by auto
    then show "made_for S ! q' < length (heap (rt (map_router (set_shard s sh) ?c)))" by simp
    show "shard_pipe (heap (rt (map_router (set_shard s sh) ?c)) ! (made_for S ! q')) = Some q' \<or>
        (\<exists>y<length ((finders S)[x := Opened s q]). (finders S)[x := Opened s q] ! y = Open (made_for S ! q') q')"
    proof (cases "q' = q")
      case True
      then show ?thesis using q s by (simp add: sh_def)
    next
      case False
      show ?thesis
      proof (cases "shard_pipe (heap (rt ?c) ! (made_for S ! q')) = Some q'")
        case True
        then have "made_for S ! q' \<noteq> s" using me(3) by auto
        then show ?thesis using True by simp
      next
        case no: False
        then obtain y where y: "y < length (finders S)" "finders S ! y = Open (made_for S ! q') q'" using old(2) by blast
        then have "y \<noteq> x" using at False by auto
        then show ?thesis using y by (intro disjI2 exI[of _ y]) simp
      qed
    qed
  qed
qed (use finders_okD(3)[OF ok x] at in \<open>auto simp: sh_def same_address_def shard_ok_def\<close>)

text \<open>Every step of every thread.\<close>

lemma finders_move:
  assumes ok: "finders_ok S" and fired: "finder_fire (Move x) S = Some S'"
  shows "finders_ok S'"
proof -
  let ?c = "cluster_of S" and ?th = "finders S ! x"
  have x: "x < length (finders S)" using fired by (simp split: if_splits)
  have me: "finder_ok ?c ?th" by (rule finders_okD(3)[OF ok x])
  have S': "S' = S\<lparr>cluster_of := snd (finder_step ?th ?c), finders := (finders S)[x := fst (finder_step ?th ?c)],
      found := found S @ search_end ?th (fst (finder_step ?th ?c)), made_for := made_for S @ makes_pipe ?th\<rparr>"
    using fired x by (simp add: split_beta)
  have guard_new: "guards_shard (finders S ! y) \<noteq> Some s"
    if "entered (rt ?c) s" "connected (heap (rt ?c) ! s) = 0" "y < length (finders S)" for s y
    using finders_okD(3)[OF ok that(3)] that(1,2) by (cases "finders S ! y") (auto simp: entered_def)
  show ?thesis
  proof (cases ?th)
    case (Find_load i p k)
    consider "length (table (rt ?c)) \<le> k" | "k < length (table (rt ?c))" "table (rt ?c) ! probe (rt ?c) i p k = None"
      | s where "k < length (table (rt ?c))" "table (rt ?c) ! probe (rt ?c) i p k = Some s"
      using not_le by (cases "table (rt ?c) ! probe (rt ?c) i p k") blast+
    then show ?thesis
    proof cases
      case 1
      then show ?thesis using S' Find_load finders_stay[OF ok x refl refl refl, of Full "[]"] by simp
    next
      case 2
      then show ?thesis using S' Find_load finders_load_new[OF ok x Find_load 2(1)] by simp
    next
      case (3 s)
      have s: "entered (rt ?c) s" by (rule cell_entered[OF finders_okD(1)[OF ok] 3(2)])
      show ?thesis
      proof (cases "at_address i p (heap (rt ?c) ! s)")
        case True
        then show ?thesis using S' Find_load 3 s finders_stay[OF ok x refl refl refl, of "Try s" "[(i, p, s)]"] by simp
      next
        case False
        have "passed (rt ?c) i p (Suc k)"
          using me Find_load 3(2) False s by (intro passed_Suc[of "rt ?c" i p k s]) (simp_all add: entered_def)
        then show ?thesis using S' Find_load 3 False finders_stay[OF ok x refl refl refl, of "Find_load i p (Suc k)" "[]"] by simp
      qed
    qed
  next
    case (Find_cas i p k s)
    show ?thesis
    proof (cases "table (rt ?c) ! probe (rt ?c) i p k")
      case None
      then show ?thesis using S' Find_cas finders_cas_enter[OF ok x Find_cas None] by simp
    next
      case (Some t)
      then show ?thesis using S' Find_cas finders_cas_lost[OF ok x Find_cas Some] by simp
    qed
  next
    case (Try s)
    let ?sh = "heap (rt ?c) ! s"
    have e: "entered (rt ?c) s" using me Try by simp
    have okay: "shard_ok ?c ?sh" using finders_okD(2)[OF ok] e by (simp add: entered_def)
    consider "connected ?sh = 0" | "connected ?sh = 1" | "connected ?sh = 2" using okay by (auto simp: shard_ok_def)
    then show ?thesis
    proof cases
      case 1
      let ?sh' = "?sh\<lparr>connected := 1\<rparr>"
      have "finders_ok (S\<lparr>cluster_of := map_router (set_shard s ?sh') ?c, finders := (finders S)[x := Make s],
          found := found S @ [], made_for := made_for S\<rparr>)"
      proof (rule finders_set_shard[OF ok x e])
        show "finder_ok (map_router (set_shard s ?sh') ?c) (Make s)"
          using e okay 1 by (auto simp: entered_def shard_ok_def)
        show "pipes_ok (map_router (set_shard s ?sh') ?c) ((finders S)[x := Make s]) (made_for S)"
          using Try e by (intro pipes_ok_frame[OF finders_okD(6)[OF ok] x]) (auto simp: nth_list_update entered_def)
      qed (use guard_new[OF e 1] 1 in \<open>auto simp: same_address_def shard_ok_def\<close>)
      then show ?thesis using S' Try 1 by simp
    next
      case 2
      then show ?thesis using S' Try e finders_stay[OF ok x refl refl refl, of "Wait s" "[]"] by simp
    next
      case 3
      then have "finder_ok ?c (Result s (shard_pipe ?sh))" using e okay by (auto simp: shard_ok_def)
      then show ?thesis using S' Try 3 finders_stay[OF ok x refl refl refl, of "Result s (shard_pipe ?sh)" "[]"] by simp
    qed
  next
    case (Make s)
    then show ?thesis using S' finders_make[OF ok x Make, of "snd (finder_step ?th ?c)"] by simp
  next
    case (Open s q)
    then show ?thesis using S' finders_open[OF ok x Open] by simp
  next
    case (Opened s q)
    let ?sh = "heap (rt ?c) ! s" and ?sh' = "(heap (rt ?c) ! s)\<lparr>connected := 2\<rparr>"
    have e: "entered (rt ?c) s" "connected ?sh = 1" "shard_pipe ?sh = Some q" "q < length (ends ?c)" using me Opened by auto
    have "finders_ok (S\<lparr>cluster_of := map_router (set_shard s ?sh') ?c, finders := (finders S)[x := Setup s q],
        found := found S @ [], made_for := made_for S\<rparr>)"
    proof (rule finders_set_shard[OF ok x e(1)])
      show "guards_shard (finders S ! y) \<noteq> Some s" if "y < length (finders S)" "y \<noteq> x" for y
        using exclusive_inj[OF finders_okD(4)[OF ok] that(1) x, of s] that(2) Opened by auto
      show "pipes_ok (map_router (set_shard s ?sh') ?c) ((finders S)[x := Setup s q]) (made_for S)"
        using Opened e by (intro pipes_ok_frame[OF finders_okD(6)[OF ok] x]) (auto simp: nth_list_update entered_def)
    qed (use e in \<open>auto simp: same_address_def shard_ok_def entered_def\<close>)
    then show ?thesis using S' Opened e by simp
  next
    case (Setup s q)
    have c': "rt (snd (finder_step ?th ?c)) = rt ?c" "ends (snd (finder_step ?th ?c)) = ends ?c" "freed (snd (finder_step ?th ?c)) = freed ?c"
      "fst (finder_step ?th ?c) = Result s (Some q)"
      using Setup by (simp_all add: split_beta Let_def)
    have "finder_ok (snd (finder_step ?th ?c)) (Result s (Some q))" using me Setup c' by simp
    then show ?thesis using S' Setup c' finders_stay[OF ok x c'(1-3), of "Result s (Some q)" "[]"] by simp
  next
    case (Wait s)
    let ?sh = "heap (rt ?c) ! s"
    have e: "entered (rt ?c) s" "1 \<le> connected ?sh" using me Wait by auto
    have okay: "shard_ok ?c ?sh" using finders_okD(2)[OF ok] e by (simp add: entered_def)
    show ?thesis
    proof (cases "connected ?sh = 1")
      case True
      then show ?thesis using S' Wait e finders_stay[OF ok x refl refl refl, of "Wait s" "[]"] by simp
    next
      case False
      then have "connected ?sh = 2" using okay e(2) by (auto simp: shard_ok_def)
      then have "finder_ok ?c (Result s (shard_pipe ?sh))" using e okay by (auto simp: shard_ok_def)
      then show ?thesis using S' Wait \<open>connected ?sh = 2\<close> finders_stay[OF ok x refl refl refl, of "Result s (shard_pipe ?sh)" "[]"] by simp
    qed
  qed (use S' me finders_stay[OF ok x refl refl refl, of ?th "[]"] in simp_all)
qed

lemma finders_start:
  assumes ok: "finders_ok S" and x: "x < length (finders S)" "rests (finders S ! x)"
    and th: "guards_shard th = None" "\<not> opens th" "finder_ok (cluster_of S) th"
  shows "finders_ok (S\<lparr>finders := (finders S)[x := th]\<rparr>)"
proof -
  have "\<not> opens (finders S ! x)" using x(2) by (cases "finders S ! x") auto
  from finders_stay[OF ok x(1) refl refl refl th(3,1) this th(2), of "[]"] show ?thesis by simp
qed

lemma finders_fire: "finders_ok S \<Longrightarrow> finder_fire ev S = Some S' \<Longrightarrow> finders_ok S'"
proof (cases ev)
  case (Look x i p)
  assume "finders_ok S" and "finder_fire ev S = Some S'"
  then show ?thesis using Look finders_start[of S x "start_find i p"]
    by (auto simp: start_find_def passed_def split: if_splits)
next
  case (Use x t)
  assume ok: "finders_ok S" and f: "finder_fire ev S = Some S'"
  then have "t < length (heap (rt (cluster_of S)))" if "Some t \<in> set (table (rt (cluster_of S)))"
    using that finders_okD(1)[OF ok] by (auto simp: table_ok_def in_set_conv_nth)
  then show ?thesis using Use ok f finders_start[of S x "Try t"] by (auto simp: entered_def split: if_splits)
next
  case (Move x)
  assume "finders_ok S" and "finder_fire ev S = Some S'"
  then show ?thesis using Move finders_move by blast
qed

lemma start_finders_ok: "untouched c \<Longrightarrow> finders_ok (start_finders c threads)"
  by (auto simp: finders_ok_def start_finders_def untouched_def exclusive_def pipes_ok_def shard_ok_def)

lemma finders_reach: "finder_reach (start_finders c threads) S \<Longrightarrow> untouched c \<Longrightarrow> finders_ok S"
  by (induction rule: finder_reach.induct) (auto simp: start_finders_ok finders_fire)

section \<open>The properties\<close>

lemma finders_unique:
  assumes "finders_ok S"
  shows "table_ok (rt (cluster_of S))"
    and "(i, p, s) \<in> set (found S) \<Longrightarrow> (i, p, t) \<in> set (found S) \<Longrightarrow> s = t"
    and "(i, p, s) \<in> set (found S) \<Longrightarrow> holds (rt (cluster_of S)) i p s \<and> s \<notin> set (freed (cluster_of S))"
    and "distinct (made_for S)"
    and "x < length (finders S) \<Longrightarrow> finders S ! x = Result s r \<Longrightarrow> \<exists>q<length (made_for S). r = Some q \<and> made_for S ! q = s"
proof -
  note d = finders_okD[OF assms]
  show "table_ok (rt (cluster_of S))" by (rule d(1))
  show held: "holds (rt (cluster_of S)) i p s \<and> s \<notin> set (freed (cluster_of S))" if "(i, p, s) \<in> set (found S)" for i p s
    using d(5)[OF that] d(7)[of s] by (auto simp: holds_def entered_def)
  show "s = t" if "(i, p, s) \<in> set (found S)" "(i, p, t) \<in> set (found S)"
    using holds_unique[OF d(1)] held that by blast
  note pk = d(6)[unfolded pipes_ok_def]
  show "distinct (made_for S)"
    unfolding distinct_conv_nth
  proof (intro allI impI)
    fix q q' assume q: "q < length (made_for S)" "q' < length (made_for S)" "q \<noteq> q'"
    have own: "shard_pipe (heap (rt (cluster_of S)) ! (made_for S ! a)) = Some a \<or>
        (\<exists>y<length (finders S). finders S ! y = Open (made_for S ! a) a \<and> shard_pipe (heap (rt (cluster_of S)) ! (made_for S ! a)) = None)"
      if "a < length (made_for S)" for a
      using pk that d(3) by (metis finder_ok.simps(5))
    show "made_for S ! q \<noteq> made_for S ! q'"
    proof
      assume same: "made_for S ! q = made_for S ! q'"
      with own[OF q(1)] own[OF q(2)] q(3) obtain y y' where y: "y < length (finders S)" "finders S ! y = Open (made_for S ! q) q"
        "y' < length (finders S)" "finders S ! y' = Open (made_for S ! q) q'" by auto
      then have "y = y'" using exclusive_inj[OF d(4), of y y' "made_for S ! q"] by simp
      then show False using y q(3) by simp
    qed
  qed
  show "\<exists>q<length (made_for S). r = Some q \<and> made_for S ! q = s" if "x < length (finders S)" "finders S ! x = Result s r"
    using d(3)[OF that(1)] that(2) pk by (auto simp: entered_def)
qed

subsection \<open>Waiting\<close>

text \<open>The thread that opens the pipe of a shard.\<close>

fun opener :: "finder \<Rightarrow> nat option" where
  "opener (Make s) = Some s" | "opener (Open s q) = Some s" | "opener (Opened s q) = Some s"
| "opener th = None"

definition opening_ok :: "'h finder_system \<Rightarrow> bool" where
  "opening_ok S \<longleftrightarrow> (\<forall>s<length (heap (rt (cluster_of S))). connected (heap (rt (cluster_of S)) ! s) = 1 \<longrightarrow>
     (\<exists>y<length (finders S). opener (finders S ! y) = Some s))"

lemma update_nth: "xs[i := y] ! j = (if i = j \<and> i < length xs then y else xs ! j)"
  by (cases "i < length xs") (simp_all add: nth_list_update list_update_beyond)

lemma step_connecting:
  assumes "s < length (heap (rt (snd (finder_step th c))))" and "connected (heap (rt (snd (finder_step th c))) ! s) = 1"
  shows "opener (fst (finder_step th c)) = Some s \<or>
    (s < length (heap (rt c)) \<and> connected (heap (rt c) ! s) = 1 \<and> opener th \<noteq> Some s)"
  using assms
  by (cases th) (auto simp: Let_def split_beta new_shard_def nth_append update_nth split: if_splits option.splits)

lemma opening_fire:
  assumes ok: "opening_ok S" and fired: "finder_fire ev S = Some S'"
  shows "opening_ok S'"
proof -
  have keep: "opening_ok (S\<lparr>finders := (finders S)[x := th]\<rparr>)" if "x < length (finders S)" "rests (finders S ! x)" for x th
    unfolding opening_ok_def
  proof (intro allI impI)
    fix s assume "s < length (heap (rt (cluster_of (S\<lparr>finders := (finders S)[x := th]\<rparr>))))"
      "connected (heap (rt (cluster_of (S\<lparr>finders := (finders S)[x := th]\<rparr>))) ! s) = 1"
    then obtain y where y: "y < length (finders S)" "opener (finders S ! y) = Some s" using ok by (auto simp: opening_ok_def)
    then have "y \<noteq> x" using that(2) by (cases "finders S ! y") auto
    then show "\<exists>y<length (finders (S\<lparr>finders := (finders S)[x := th]\<rparr>)). opener (finders (S\<lparr>finders := (finders S)[x := th]\<rparr>) ! y) = Some s"
      using y by (intro exI[of _ y]) simp
  qed
  show ?thesis
  proof (cases ev)
    case (Move x)
    then have x: "x < length (finders S)" using fired by (simp split: if_splits)
    let ?th = "finders S ! x" and ?c = "cluster_of S"
    have S': "cluster_of S' = snd (finder_step ?th ?c)" "finders S' = (finders S)[x := fst (finder_step ?th ?c)]"
      using fired Move x by (auto simp: split_beta)
    show ?thesis
      unfolding opening_ok_def
    proof (intro allI impI)
      fix s assume "s < length (heap (rt (cluster_of S')))" "connected (heap (rt (cluster_of S')) ! s) = 1"
      then consider "opener (fst (finder_step ?th ?c)) = Some s"
        | "s < length (heap (rt ?c))" "connected (heap (rt ?c) ! s) = 1" "opener ?th \<noteq> Some s"
        using step_connecting unfolding S'(1) by blast
      then show "\<exists>y<length (finders S'). opener (finders S' ! y) = Some s"
      proof cases
        case 1
        then show ?thesis using x by (intro exI[of _ x]) (simp add: S'(2))
      next
        case 2
        then obtain y where y: "y < length (finders S)" "opener (finders S ! y) = Some s" using ok by (auto simp: opening_ok_def)
        then have "y \<noteq> x" using 2(3) by auto
        then show ?thesis using y by (intro exI[of _ y]) (simp add: S'(2))
      qed
    qed
  qed (use fired keep in \<open>auto split: if_splits\<close>)
qed

lemma opening_reach: "finder_reach (start_finders c threads) S \<Longrightarrow> untouched c \<Longrightarrow> opening_ok S"
proof (induction rule: finder_reach.induct)
  case finder_reach_start
  then show ?case by (auto simp: opening_ok_def start_finders_def untouched_def)
qed (use opening_fire in blast)

fun fire_events :: "finder_event list \<Rightarrow> 'h finder_system \<Rightarrow> 'h finder_system option" where
  "fire_events [] S = Some S"
| "fire_events (ev # evs) S = (case finder_fire ev S of None \<Rightarrow> None | Some S' \<Rightarrow> fire_events evs S')"

lemma fire_events_append: "fire_events (xs @ ys) S = (case fire_events xs S of None \<Rightarrow> None | Some S' \<Rightarrow> fire_events ys S')"
  by (induction xs arbitrary: S) (auto split: option.splits)

lemma fire_events_reach: "finder_reach S0 S \<Longrightarrow> fire_events evs S = Some S' \<Longrightarrow> finder_reach S0 S'"
  by (induction evs arbitrary: S) (auto split: option.splits intro: finder_reach_step)

fun opening_left :: "finder \<Rightarrow> nat" where
  "opening_left (Make s) = 3" | "opening_left (Open s q) = 2" | "opening_left (Opened s q) = 1" | "opening_left th = 0"

lemma opener_moves:
  assumes ok: "finders_ok S" and y: "y < length (finders S)" "opener (finders S ! y) = Some s" and x: "x \<noteq> y"
  shows "\<exists>S'. finder_fire (Move y) S = Some S' \<and> finders S' ! x = finders S ! x \<and> length (finders S') = length (finders S) \<and>
    (if opening_left (finders S ! y) = 1 then connected (heap (rt (cluster_of S')) ! s) = 2
     else opener (finders S' ! y) = Some s \<and> opening_left (finders S' ! y) = opening_left (finders S ! y) - 1)"
  using finders_okD(3)[OF ok y(1)] y x by (cases "finders S ! y") (auto simp: Let_def entered_def)

lemma opener_finishes:
  assumes "finders_ok S" and "y < length (finders S)" and "opener (finders S ! y) = Some s" and "x \<noteq> y"
  shows "\<exists>evs S'. length evs \<le> 3 \<and> fire_events evs S = Some S' \<and> finders_ok S' \<and> finders S' ! x = finders S ! x \<and>
    length (finders S') = length (finders S) \<and> connected (heap (rt (cluster_of S')) ! s) = 2"
proof -
  have "\<exists>evs S'. length evs \<le> opening_left (finders S ! y) \<and> fire_events evs S = Some S' \<and> finders_ok S' \<and>
      finders S' ! x = finders S ! x \<and> length (finders S') = length (finders S) \<and> connected (heap (rt (cluster_of S')) ! s) = 2"
    using assms
  proof (induction "opening_left (finders S ! y)" arbitrary: S)
    case 0
    then show ?case by (cases "finders S ! y") auto
  next
    case (Suc m)
    from opener_moves[OF Suc.prems] obtain S1 where S1: "finder_fire (Move y) S = Some S1" "finders S1 ! x = finders S ! x"
      "length (finders S1) = length (finders S)"
      and after: "if opening_left (finders S ! y) = 1 then connected (heap (rt (cluster_of S1)) ! s) = 2
        else opener (finders S1 ! y) = Some s \<and> opening_left (finders S1 ! y) = opening_left (finders S ! y) - 1" by blast
    have ok1: "finders_ok S1" by (rule finders_fire[OF Suc.prems(1) S1(1)])
    show ?case
    proof (cases "opening_left (finders S ! y) = 1")
      case True
      then show ?thesis using S1 after ok1 by (intro exI[of _ "[Move y]"] exI[of _ S1]) simp
    next
      case False
      then have n: "opener (finders S1 ! y) = Some s" "m = opening_left (finders S1 ! y)" using after Suc.hyps(2) by simp_all
      have "y < length (finders S1)" using S1(3) Suc.prems(2) by simp
      from Suc.hyps(1)[OF n(2) ok1 this n(1) Suc.prems(4)] obtain evs S' where "length evs \<le> m" "fire_events evs S1 = Some S'"
        "finders_ok S'" "finders S' ! x = finders S1 ! x" "length (finders S') = length (finders S1)"
        "connected (heap (rt (cluster_of S')) ! s) = 2" unfolding n(2)[symmetric] by blast
      then show ?thesis using S1 Suc.hyps(2) by (intro exI[of _ "Move y # evs"] exI[of _ S']) simp
    qed
  qed
  moreover have "opening_left (finders S ! y) \<le> 3" by (cases "finders S ! y") auto
  ultimately show ?thesis using le_trans by blast
qed

lemma waiting_ends:
  assumes ok: "finders_ok S" "opening_ok S" and x: "x < length (finders S)" "finders S ! x = Wait s"
  shows "\<exists>evs S' q. length evs \<le> 4 \<and> fire_events evs S = Some S' \<and> finders S' ! x = Result s (Some q) \<and>
    shard_pipe (heap (rt (cluster_of S')) ! s) = Some q"
proof -
  have fin: "\<exists>S2 q. finder_fire (Move x) S1 = Some S2 \<and> finders S2 ! x = Result s (Some q) \<and> shard_pipe (heap (rt (cluster_of S2)) ! s) = Some q"
    if "finders_ok S1" "finders S1 ! x = Wait s" "x < length (finders S1)" "connected (heap (rt (cluster_of S1)) ! s) = 2" for S1
  proof -
    have "entered (rt (cluster_of S1)) s" using finders_okD(3)[OF that(1,3)] that(2) by simp
    then have "shard_ok (cluster_of S1) (heap (rt (cluster_of S1)) ! s)" using finders_okD(2)[OF that(1)] by (simp add: entered_def)
    then show ?thesis using that by (auto simp: shard_ok_def Let_def)
  qed
  have e: "entered (rt (cluster_of S)) s" "1 \<le> connected (heap (rt (cluster_of S)) ! s)" using finders_okD(3)[OF ok(1) x(1)] x(2) by auto
  then have sh: "shard_ok (cluster_of S) (heap (rt (cluster_of S)) ! s)" using finders_okD(2)[OF ok(1)] by (simp add: entered_def)
  show ?thesis
  proof (cases "connected (heap (rt (cluster_of S)) ! s) = 2")
    case True
    from fin[OF ok(1) x(2,1) this] obtain S2 q where "finder_fire (Move x) S = Some S2" "finders S2 ! x = Result s (Some q)"
      "shard_pipe (heap (rt (cluster_of S2)) ! s) = Some q" by blast
    then show ?thesis by (intro exI[of _ "[Move x]"] exI[of _ S2] exI[of _ q]) simp
  next
    case False
    then have "connected (heap (rt (cluster_of S)) ! s) = 1" using sh e(2) by (auto simp: shard_ok_def)
    then obtain y where y: "y < length (finders S)" "opener (finders S ! y) = Some s" using ok(2) e(1) by (auto simp: opening_ok_def entered_def)
    then have "x \<noteq> y" using x(2) by auto
    from opener_finishes[OF ok(1) y this] obtain evs S1 where S1: "length evs \<le> 3" "fire_events evs S = Some S1" "finders_ok S1"
      "finders S1 ! x = finders S ! x" "length (finders S1) = length (finders S)" "connected (heap (rt (cluster_of S1)) ! s) = 2" by blast
    from fin[OF S1(3) _ _ S1(6)] S1(4,5) x obtain S2 q where "finder_fire (Move x) S1 = Some S2" "finders S2 ! x = Result s (Some q)"
      "shard_pipe (heap (rt (cluster_of S2)) ! s) = Some q" by auto
    then show ?thesis using S1(1,2) by (intro exI[of _ "evs @ [Move x]"] exI[of _ S2] exI[of _ q]) (simp add: fire_events_append)
  qed
qed

subsection \<open>Claims\<close>

text \<open>C13. However the threads interleave, all searches for an address end at the same shard, which is in
  the table and is not deleted; a shard gets at most one pipe, and whoever uses a shard ends with that pipe.\<close>

theorem shared_lookup_agrees:
  assumes "untouched c" and "finder_reach (start_finders c threads) S"
  shows "(\<forall>i p s t. (i, p, s) \<in> set (found S) \<longrightarrow> (i, p, t) \<in> set (found S) \<longrightarrow> s = t) \<and>
    (\<forall>i p s. (i, p, s) \<in> set (found S) \<longrightarrow> holds (rt (cluster_of S)) i p s \<and> s \<notin> set (freed (cluster_of S))) \<and>
    distinct (made_for S) \<and>
    (\<forall>x<length (finders S). \<forall>s r. finders S ! x = Result s r \<longrightarrow> (\<exists>q<length (made_for S). r = Some q \<and> made_for S ! q = s))"
  using finders_unique[OF finders_reach[OF assms(2,1)]] by blast

text \<open>Two threads meet at an empty cell; the second loses the exchange, deletes its
  shard, and waits for the pipe of the first.\<close>

definition meeting :: "finder_event list" where
  "meeting = [Look 0 2130706433 7000, Look 1 2130706433 7000, Move 0, Move 1, Move 0, Move 1, Move 0, Move 1]"

definition one_cell :: "nat cluster" where
  "one_cell = \<lparr>rt = \<lparr>slots = [], table = [None], heap = []\<rparr>, ends = [], hosts = [], alive = [], freed = [],
     options = \<lparr>lc_username = [], lc_password = [], lc_clientname = [], lc_resp = 0\<rparr>, capacity = 1, null_handle = 0, noop = 0\<rparr>"

lemma untouched_one: "untouched one_cell"
  by (auto simp: untouched_def one_cell_def table_ok_def less_Suc_eq)

lemma meeting_run:
  "map_option (\<lambda>S. (finders S, found S, freed (cluster_of S)))
     (fire_events meeting (start_finders one_cell 2)) =
   Some ([Make 0, Wait 0], [(2130706433, 7000, 0), (2130706433, 7000, 0)], [1])"
  "map_option (\<lambda>S. (finders S, found S, freed (cluster_of S), made_for S))
     (fire_events (meeting @ [Move 0, Move 0, Move 0, Move 1, Move 0]) (start_finders one_cell 2)) =
   Some ([Result 0 (Some 0), Result 0 (Some 0)], [(2130706433, 7000, 0), (2130706433, 7000, 0)], [1], [0])"
  by (simp_all add: meeting_def start_finders_def one_cell_def start_find_def probe_def at_address_def new_shard_def
      map_router_def cas_hash_def set_shard_def Let_def split_beta numeral_2_eq_2 length_Suc_conv)

lemma shared_lookup_agrees_witness:
  "\<exists>S :: nat finder_system. length (finders S) = 2 \<and> distinct (made_for S) \<and> found S = [(2130706433, 7000, 0), (2130706433, 7000, 0)] \<and>
     holds (rt (cluster_of S)) 2130706433 7000 0"
proof -
  obtain S where run: "fire_events (meeting @ [Move 0, Move 0, Move 0, Move 1, Move 0]) (start_finders one_cell 2) = Some S"
    and S: "found S = [(2130706433, 7000, 0), (2130706433, 7000, 0)]" "length (finders S) = 2"
    using meeting_run(2) by (auto simp: map_option_case split: option.splits)
  have "finder_reach (start_finders one_cell 2) S" by (rule fire_events_reach[OF finder_reach_start run])
  from shared_lookup_agrees[OF untouched_one this] S show ?thesis by (intro exI[of _ S]) simp
qed

text \<open>\<open>wait_connected\<close> does not spin for ever: when a thread waits for a shard, another one is opening its
  pipe, and after at most three steps of that one the waiting thread returns the pipe of the shard.\<close>

theorem shared_wait_ends:
  assumes "untouched c" and "finder_reach (start_finders c threads) S" and "x < length (finders S)" and "finders S ! x = Wait s"
  shows "\<exists>evs S' q. length evs \<le> 4 \<and> fire_events evs S = Some S' \<and> finders S' ! x = Result s (Some q) \<and>
    shard_pipe (heap (rt (cluster_of S')) ! s) = Some q"
  using waiting_ends[OF finders_reach[OF assms(2,1)] opening_reach[OF assms(2,1)] assms(3,4)] .

lemma shared_wait_ends_witness:
  "\<exists>(S :: nat finder_system) evs S' q. finders S ! 1 = Wait 0 \<and> fire_events evs S = Some S' \<and> finders S' ! 1 = Result 0 (Some q)"
proof -
  obtain S where run: "fire_events meeting (start_finders one_cell 2) = Some S" and S: "finders S = [Make 0, Wait 0]"
    using meeting_run(1) by (auto simp: map_option_case split: option.splits)
  have "finder_reach (start_finders one_cell 2) S" by (rule fire_events_reach[OF finder_reach_start run])
  from shared_wait_ends[OF untouched_one this, of 1 0] S obtain evs S' q
    where "fire_events evs S = Some S'" "finders S' ! 1 = Result 0 (Some q)" by auto
  then show ?thesis using S by (intro exI[of _ S] exI[of _ evs] exI[of _ S'] exI[of _ q]) simp
qed

end
