(* ===== verification/Pipe_Task.thy ===== *)
theory Pipe_Task
  imports Command_Awaiters
begin

text \<open>
  The coroutines of a pipe (include/RedisClient.hpp, and again in include/RedisCluster.hpp):
  \<open>writer\<close>, \<open>reader\<close> and \<open>worker\<close>. Each is a state machine over its suspension points; the
  socket, the eventfd and the timer are the results its awaits return. The step relation
  interleaves them with the callers that push requests. The invariants say that every accepted
  request is answered once and in order over all reconnections, that the bytes sent are the
  requests as they were pushed, and that the k-th reply goes to the k-th request.
\<close>

section \<open>The writer\<close>

text \<open>
  Suspended in the read of the eventfd, or in \<open>writev\<close> with the slices that are left, the bytes
  written of the batch and its total.
\<close>

datatype writer_state = Await_event | Await_writev "string list" nat nat

definition XREDIS_PIPELINE_BATCH_SIZE :: u64 where
  "XREDIS_PIPELINE_BATCH_SIZE = 64"

text \<open>Dropping \<open>n\<close> written bytes from the slices; reading a slice past the last is undefined.\<close>

fun skip_written :: "nat \<Rightarrow> string list \<Rightarrow> string list outcome" where
  "skip_written n [] = UB"
| "skip_written n (b # iov) =
     (if length b \<le> n then skip_written (n - length b) iov else Ret (drop n b # iov))"

definition next_batch :: "'h ring \<Rightarrow> writer_state \<times> 'h ring" where
  "next_batch r =
     (let ((iov, num_evs, total_bytes), r') = prep_writev XREDIS_PIPELINE_BATCH_SIZE r
      in (if total_bytes = 0 then Await_event else Await_writev iov 0 total_bytes, r'))"

text \<open>
  The writer from one suspension to the next, given the result of its await: it returns with an
  error code (\<open>Inl\<close>) or is suspended again.
\<close>

fun writer_resume :: "nat io_result \<Rightarrow> writer_state \<Rightarrow> 'h ring \<Rightarrow> ((int + writer_state) \<times> 'h ring) outcome" where
  "writer_resume (n, err) Await_event r =
     (if err \<noteq> 0 then Ret (Inl err, r) else let (w, r') = next_batch r in Ret (Inr w, r'))"
| "writer_resume (n, err) (Await_writev iov bytes total_bytes) r =
     (if err \<noteq> 0 \<or> n = 0 then Ret (Inl (if err \<noteq> 0 then err else ECONNRESET), r)
      else if bytes + n = total_bytes then let (w, r') = next_batch r in Ret (Inr w, r')
      else bind_outcome (skip_written n iov) (\<lambda>iov'. Ret (Inr (Await_writev iov' (bytes + n) total_bytes), r)))"

section \<open>The reader\<close>

text \<open>
  Suspended in \<open>parse\<close>, about to call \<open>try_parse_n\<close>, or in the loop over its values. A handle
  is resumed inside the loop, so its coroutine may push between two values.
\<close>

datatype reader_state = Await_parse | Poll | Dispatch "redis_value list" int

text \<open>Popping the ring and resuming the handle with a value.\<close>

definition answer :: "redis_value \<Rightarrow> 'h ring \<Rightarrow> ('h \<times> redis_value) \<times> 'h ring" where
  "answer v r = (let ((h, payload), r') = ring_pop r in ((h, v), r'))"

definition reader_parsed :: "redis_value io_result \<Rightarrow> 'h ring \<Rightarrow>
    (int + reader_state) \<times> ('h \<times> redis_value) list \<times> 'h ring" where
  "reader_parsed res r =
     (if res_err res \<noteq> 0 then (Inl (res_err res), [], r)
      else let (x, r') = answer (res_val res) r in (Inr Poll, [x], r'))"

definition reader_dispatch :: "redis_value list \<Rightarrow> int \<Rightarrow> 'h ring \<Rightarrow>
    (int + reader_state) \<times> ('h \<times> redis_value) list \<times> 'h ring" where
  "reader_dispatch vs err r =
     (case vs of
        [] \<Rightarrow> (if err \<noteq> 0 then Inl err else Inr Await_parse, [], r)
      | v # vs' \<Rightarrow> let (x, r') = answer v r in (Inr (Dispatch vs' err), [x], r'))"

section \<open>The worker\<close>

datatype phase = Serving writer_state reader_state | Connecting | Backoff | Deleted

text \<open>
  The pipe with its tasks. The last five fields record what happened: the accepted requests,
  the handles resumed with their values, and of the current connection the bytes sent, the
  requests answered and the replies received.
\<close>

record 'h pipe_sys =
  queue :: "'h ring"
  alive :: bool
  backoff :: nat
  task :: phase
  accepted :: "('h \<times> string) list"
  answered :: "('h \<times> redis_value) list"
  sent :: string
  served :: "('h \<times> string) list"
  replies :: "redis_value list"

definition max_backoff :: nat where "max_backoff = 32"

definition new_connection :: "'h pipe_sys \<Rightarrow> 'h pipe_sys" where
  "new_connection s = s\<lparr>task := Serving Await_event Await_parse, backoff := 1, sent := [], served := [], replies := []\<rparr>"

definition drain_all :: "'h pipe_sys \<Rightarrow> 'h pipe_sys" where
  "drain_all s =
     (let (hs, r) = drain (queue s)
      in s\<lparr>queue := r, answered := answered s @ map (\<lambda>h. (h, Simple_error CONN_ERR)) hs\<rparr>)"

text \<open>After \<open>race(reader, writer)\<close>: drained and deleted when the client is gone, otherwise drained,
  reset and connected anew.\<close>

definition race_ended :: "'h pipe_sys \<Rightarrow> 'h pipe_sys" where
  "race_ended s =
     (if \<not> alive s then (drain_all s)\<lparr>task := Deleted\<rparr>
      else let s' = drain_all s in s'\<lparr>queue := ring_reset (queue s'), task := Connecting\<rparr>)"

text \<open>After \<open>connect_spot\<close>, and after the timer.\<close>

definition connect_ended :: "int \<Rightarrow> 'h pipe_sys \<Rightarrow> 'h pipe_sys" where
  "connect_ended err s =
     (if \<not> alive s then s\<lparr>task := Deleted\<rparr>
      else if err \<noteq> 0 then s\<lparr>task := Backoff\<rparr>
      else new_connection s)"

definition timer_ended :: "'h pipe_sys \<Rightarrow> 'h pipe_sys" where
  "timer_ended s =
     (if \<not> alive s then s\<lparr>task := Deleted\<rparr>
      else s\<lparr>backoff := (if backoff s * 2 \<le> max_backoff then backoff s * 2 else max_backoff), task := Connecting\<rparr>)"

text \<open>The pipe of a fresh connection, with the ring \<open>r\<close>.\<close>

definition new_pipe :: "nat \<Rightarrow> 'h \<Rightarrow> phase \<Rightarrow> 'h pipe_sys" where
  "new_pipe cap h0 ph = \<lparr>queue = new_ring cap h0, alive = True, backoff = 1, task = ph, accepted = [], answered = [],
     sent = [], served = [], replies = []\<rparr>"

section \<open>The pipe as a whole\<close>

text \<open>
  A caller pushes while the pipe exists. The socket writes at most the bytes it is given; the
  server replies to requests only, so a value arrives while a request is in flight and
  \<open>try_parse_n\<close> finds no more values than there are. A task that returns ends the race.
\<close>

definition written :: "writer_state \<Rightarrow> nat io_result \<Rightarrow> string" where
  "written w res = (case w of Await_event \<Rightarrow> [] | Await_writev iov _ _ \<Rightarrow>
     if res_err res \<noteq> 0 then [] else take (res_val res) (concat iov))"

definition may_write :: "writer_state \<Rightarrow> nat io_result \<Rightarrow> bool" where
  "may_write w res \<longleftrightarrow> (case w of Await_event \<Rightarrow> True | Await_writev iov _ _ \<Rightarrow>
     res_err res \<noteq> 0 \<or> res_val res \<le> length (concat iov))"

definition run_reader :: "(int + reader_state) \<times> ('h \<times> redis_value) list \<times> 'h ring \<Rightarrow> writer_state \<Rightarrow>
    'h pipe_sys \<Rightarrow> 'h pipe_sys" where
  "run_reader res w s =
     (case res of (t, xs, r) \<Rightarrow>
        let s' = s\<lparr>queue := r, answered := answered s @ xs, served := served s @ take (length xs) (in_flight (queue s))\<rparr>
        in case t of Inl err \<Rightarrow> race_ended s' | Inr rd \<Rightarrow> s'\<lparr>task := Serving w rd\<rparr>)"

definition run_writer :: "(int + writer_state) \<times> 'h ring \<Rightarrow> string \<Rightarrow> reader_state \<Rightarrow> 'h pipe_sys \<Rightarrow> 'h pipe_sys" where
  "run_writer res bytes rd s =
     (case res of (t, r) \<Rightarrow>
        let s' = s\<lparr>queue := r, sent := sent s @ bytes\<rparr>
        in case t of Inl err \<Rightarrow> race_ended s' | Inr w \<Rightarrow> s'\<lparr>task := Serving w rd\<rparr>)"

inductive pipe_step :: "'h pipe_sys \<Rightarrow> 'h pipe_sys \<Rightarrow> bool" where
  step_push: "task s \<noteq> Deleted \<Longrightarrow> ring_push e (queue s) = (i, r) \<Longrightarrow>
    pipe_step s (s\<lparr>queue := r, accepted := accepted s @ (if 0 \<le> i then [e] else [])\<rparr>)"
| step_close: "pipe_step s (s\<lparr>alive := False\<rparr>)"
| step_writer: "task s = Serving w rd \<Longrightarrow> may_write w res \<Longrightarrow> writer_resume res w (queue s) = Ret x \<Longrightarrow>
    pipe_step s (run_writer x (written w res) rd s)"
| step_parsed: "task s = Serving w Await_parse \<Longrightarrow> res_err res \<noteq> 0 \<or> in_flight (queue s) \<noteq> [] \<Longrightarrow>
    pipe_step s (run_reader (reader_parsed res (queue s)) w
      (s\<lparr>replies := replies s @ (if res_err res = 0 then [res_val res] else [])\<rparr>))"
| step_poll: "task s = Serving w Poll \<Longrightarrow> length vs \<le> length (in_flight (queue s)) \<Longrightarrow>
    pipe_step s (s\<lparr>task := Serving w (Dispatch vs err), replies := replies s @ vs\<rparr>)"
| step_dispatch: "task s = Serving w (Dispatch vs err) \<Longrightarrow>
    pipe_step s (run_reader (reader_dispatch vs err (queue s)) w s)"
| step_connect: "task s = Connecting \<Longrightarrow> pipe_step s (connect_ended err s)"
| step_timer: "task s = Backoff \<Longrightarrow> pipe_step s (timer_ended s)"

inductive pipe_reach :: "'h pipe_sys \<Rightarrow> 'h pipe_sys \<Rightarrow> bool" for s0 where
  reach_start: "pipe_reach s0 s0"
| reach_step: "pipe_reach s0 s \<Longrightarrow> pipe_step s s' \<Longrightarrow> pipe_reach s0 s'"

inductive_cases pipe_stepE: "pipe_step s s'"

section \<open>Invariants\<close>

definition writer_pending :: "writer_state \<Rightarrow> string" where
  "writer_pending w = (case w of Await_event \<Rightarrow> [] | Await_writev iov _ _ \<Rightarrow> concat iov)"

definition writer_ok :: "writer_state \<Rightarrow> bool" where
  "writer_ok w \<longleftrightarrow> (case w of Await_event \<Rightarrow> True
     | Await_writev iov bytes total_bytes \<Rightarrow> bytes + length (concat iov) = total_bytes \<and> concat iov \<noteq> [])"

definition reader_pending :: "reader_state \<Rightarrow> redis_value list" where
  "reader_pending rd = (case rd of Dispatch vs _ \<Rightarrow> vs | _ \<Rightarrow> [])"

lemma writer_simps [simp]:
  "writer_pending Await_event = []" "writer_pending (Await_writev iov b t) = concat iov"
  "writer_ok Await_event" "writer_ok (Await_writev iov b t) \<longleftrightarrow> b + length (concat iov) = t \<and> concat iov \<noteq> []"
  "reader_pending Await_parse = []" "reader_pending Poll = []" "reader_pending (Dispatch vs e) = vs"
  by (simp_all add: writer_pending_def writer_ok_def reader_pending_def)

text \<open>The ledger: every accepted request is answered or in the ring, in order.\<close>

definition ledger :: "'h pipe_sys \<Rightarrow> bool" where
  "ledger s \<longleftrightarrow> ring_wf (queue s) \<and> map fst (accepted s) = map fst (answered s) @ map fst (entries (queue s))"

text \<open>The current connection: bytes sent and to be sent, requests answered and replies.\<close>

definition connection :: "writer_state \<Rightarrow> reader_state \<Rightarrow> 'h pipe_sys \<Rightarrow> bool" where
  "connection w rd s \<longleftrightarrow> writer_ok w \<and>
     sent s @ writer_pending w = concat (map snd (served s @ in_flight (queue s))) \<and>
     length (reader_pending rd) \<le> length (in_flight (queue s)) \<and>
     (\<exists>old now. answered s = old @ now \<and> map fst now = map fst (served s) \<and>
        replies s = map snd now @ reader_pending rd)"

definition pipe_inv :: "'h pipe_sys \<Rightarrow> bool" where
  "pipe_inv s \<longleftrightarrow>
     (if task s = Deleted then \<exists>lost. map fst (accepted s) = map fst (answered s) @ lost else ledger s) \<and>
     (task s = Connecting \<or> task s = Backoff \<longrightarrow> in_flight (queue s) = []) \<and>
     (\<forall>w rd. task s = Serving w rd \<longrightarrow> connection w rd s)"

lemma skip_written_ok:
  "n < length (concat iov) \<Longrightarrow>
   \<exists>iov'. skip_written n iov = Ret iov' \<and> concat iov' = drop n (concat iov)"
  by (induction n iov rule: skip_written.induct) auto

lemma next_batch_ok:
  assumes "ring_wf r"
  shows "\<exists>w r'. next_batch r = (w, r') \<and> writer_ok w \<and> ring_wf r' \<and> entries r' = entries r \<and>
    concat (map snd (in_flight r')) = concat (map snd (in_flight r)) @ writer_pending w \<and>
    length (in_flight r) \<le> length (in_flight r')"
proof -
  let ?n = "unat XREDIS_PIPELINE_BATCH_SIZE"
  let ?batch = "take ?n (uncommitted r)"
  from commit_entries[OF assms, of XREDIS_PIPELINE_BATCH_SIZE] obtain r' k where
    pw: "prep_writev XREDIS_PIPELINE_BATCH_SIZE r = ((map snd ?batch, k, sum_list (map (length \<circ> snd) ?batch)), r')"
    and r': "ring_wf r'" "in_flight r' = in_flight r @ ?batch" "uncommitted r' = drop ?n (uncommitted r)" by blast
  have len: "sum_list (map (length \<circ> snd) ?batch) = length (concat (map snd ?batch))"
    by (simp add: length_concat)
  have "entries r' = entries r"
    unfolding entries_split[OF r'(1)] entries_split[OF assms] r'(2,3) by simp
  then show ?thesis using pw r' len by (auto simp: next_batch_def Let_def)
qed

text \<open>The writer in a state that is fine is never undefined, whatever \<open>writev\<close> returns.\<close>

lemma writer_resume_ok:
  assumes ok: "writer_ok w" and wf: "ring_wf r" and may: "may_write w res"
  shows "\<exists>t r'. writer_resume res w r = Ret (t, r') \<and> ring_wf r' \<and> entries r' = entries r \<and>
    length (in_flight r) \<le> length (in_flight r') \<and>
    (case t of Inl err \<Rightarrow> err \<noteq> 0 | Inr w' \<Rightarrow> writer_ok w' \<and>
       (\<exists>d. concat (map snd (in_flight r')) = concat (map snd (in_flight r)) @ d \<and>
          writer_pending w @ d = written w res @ writer_pending w'))"
proof -
  obtain n err where res: "res = (n, err)" by (cases res)
  obtain w' r' where batch: "next_batch r = (w', r')" "writer_ok w'" "ring_wf r'" "entries r' = entries r"
    "concat (map snd (in_flight r')) = concat (map snd (in_flight r)) @ writer_pending w'"
    "length (in_flight r) \<le> length (in_flight r')" using next_batch_ok[OF wf] by blast
  show ?thesis
  proof (cases w)
    case Await_event
    then show ?thesis using res batch wf by (auto simp: written_def)
  next
    case (Await_writev iov bytes total_bytes)
    show ?thesis
    proof (cases "err \<noteq> 0 \<or> n = 0 \<or> bytes + n = total_bytes")
      case True
      then show ?thesis
        using Await_writev res batch wf ok may by (auto simp: written_def may_write_def ECONNRESET_def)
    next
      case False
      then have "n < length (concat iov)" using Await_writev ok may res by (auto simp: may_write_def)
      from skip_written_ok[OF this] obtain iov' where
        "skip_written n iov = Ret iov'" "concat iov' = drop n (concat iov)" by blast
      then show ?thesis
        using False Await_writev res wf ok \<open>n < _\<close> by (auto simp: written_def length_concat[symmetric] simp del: length_concat)
    qed
  qed
qed

lemma answer_ok:
  assumes "ring_wf r" and "in_flight r = f # fs"
  shows "\<exists>r'. answer v r = ((fst f, v), r') \<and> ring_wf r' \<and> in_flight r' = fs \<and> entries r = f # entries r'"
proof -
  from pop_entry[OF assms] obtain r' where
    r': "ring_pop r = (f, r')" "ring_wf r'" "in_flight r' = fs" "uncommitted r' = uncommitted r" by blast
  then show ?thesis
    using entries_split[OF assms(1)] entries_split[OF r'(2)] assms(2) by (cases f) (simp add: answer_def)
qed

lemma drain_all_ledger:
  assumes "ledger s"
  shows "map fst (accepted (drain_all s)) = map fst (answered (drain_all s))"
    and "ring_wf (ring_reset (queue (drain_all s)))" and "entries (ring_reset (queue (drain_all s))) = []"
    and "in_flight (ring_reset (queue (drain_all s))) = []"
proof -
  have wf: "ring_wf (queue s)" using assms by (simp add: ledger_def)
  obtain hs r where d: "drain (queue s) = (hs, r)" by fastforce
  then have "hs = map fst (entries (queue s))" and "ring_shape r"
    using drain_entries[OF wf] ring_wf_shape[OF wf] by (auto simp: drain_def)
  then show "map fst (accepted (drain_all s)) = map fst (answered (drain_all s))"
    and "ring_wf (ring_reset (queue (drain_all s)))" and "entries (ring_reset (queue (drain_all s))) = []"
    and "in_flight (ring_reset (queue (drain_all s))) = []"
    using assms d reset_entries[of r] entries_split[of "ring_reset r"]
    by (simp_all add: drain_all_def ledger_def comp_def)
qed

lemma race_ended_inv:
  assumes "ledger s"
  shows "pipe_inv (race_ended s)"
  using drain_all_ledger[OF assms] by (simp add: race_ended_def pipe_inv_def ledger_def Let_def)

lemma run_writer_inv:
  assumes inv: "ledger s" and con: "connection w rd s" and may: "may_write w res"
    and step: "writer_resume res w (queue s) = Ret x"
  shows "pipe_inv (run_writer x (written w res) rd s)"
proof -
  have wf: "ring_wf (queue s)" and ok: "writer_ok w" using inv con by (simp_all add: ledger_def connection_def)
  from writer_resume_ok[OF ok wf may] step obtain t r' where x: "x = (t, r')"
    and r': "ring_wf r'" "entries r' = entries (queue s)" "length (in_flight (queue s)) \<le> length (in_flight r')"
    and t: "case t of Inl err \<Rightarrow> err \<noteq> 0 | Inr w' \<Rightarrow> writer_ok w' \<and>
       (\<exists>d. concat (map snd (in_flight r')) = concat (map snd (in_flight (queue s))) @ d \<and>
          writer_pending w @ d = written w res @ writer_pending w')" by auto
  let ?s' = "s\<lparr>queue := r', sent := sent s @ written w res\<rparr>"
  have led: "ledger ?s'" using inv r' by (simp add: ledger_def)
  show ?thesis
  proof (cases t)
    case (Inl err)
    then show ?thesis using race_ended_inv[OF led] x by (simp add: run_writer_def)
  next
    case (Inr w')
    with t obtain d where d: "writer_ok w'" "concat (map snd (in_flight r')) = concat (map snd (in_flight (queue s))) @ d"
      "writer_pending w @ d = written w res @ writer_pending w'" by auto
    have "sent s @ written w res @ writer_pending w' = (sent s @ writer_pending w) @ d" by (simp add: d(3))
    also have "\<dots> = concat (map snd (served s @ in_flight r'))" using con d(2) by (simp add: connection_def)
    finally have "connection w' rd (?s'\<lparr>task := Serving w' rd\<rparr>)"
      using con d(1) r'(3) by (simp add: connection_def)
    then show ?thesis using led Inr x by (simp add: run_writer_def pipe_inv_def ledger_def)
  qed
qed

text \<open>One value given to the oldest request in flight.\<close>

lemma answer_inv:
  assumes inv: "ledger s" and con: "connection w rd s" and fl: "in_flight (queue s) = f # fs"
    and ans: "answer v (queue s) = (x, r)" and pend: "length (reader_pending rd') \<le> length fs"
    and reps: "\<And>ys. replies s = ys @ reader_pending rd \<Longrightarrow> reps' = ys @ v # reader_pending rd'"
  defines "s' \<equiv> s\<lparr>replies := reps', queue := r, answered := answered s @ [x], served := served s @ [f],
    task := Serving w rd'\<rparr>"
  shows "pipe_inv s'"
proof -
  have wf: "ring_wf (queue s)" using inv by (simp add: ledger_def)
  from answer_ok[OF wf fl, of v] ans have x: "x = (fst f, v)" "ring_wf r" "in_flight r = fs" "entries (queue s) = f # entries r"
    by auto
  from con obtain old now where now: "answered s = old @ now" "map fst now = map fst (served s)"
    "replies s = map snd now @ reader_pending rd" by (auto simp: connection_def)
  have "ledger s'" using inv x by (simp add: ledger_def s'_def)
  moreover have "\<exists>old now. answered s' = old @ now \<and> map fst now = map fst (served s') \<and>
      replies s' = map snd now @ reader_pending rd'"
    using now x reps[OF now(3)] by (intro exI[of _ old] exI[of _ "now @ [x]"]) (auto simp: s'_def)
  then have "connection w rd' s'"
    using con x fl pend by (simp add: connection_def s'_def)
  ultimately show ?thesis by (simp add: pipe_inv_def s'_def)
qed

lemma reader_parsed_inv:
  assumes inv: "ledger s" and con: "connection w Await_parse s"
    and reply: "res_err res \<noteq> 0 \<or> in_flight (queue s) \<noteq> []"
  shows "pipe_inv (run_reader (reader_parsed res (queue s)) w
    (s\<lparr>replies := replies s @ (if res_err res = 0 then [res_val res] else [])\<rparr>))"
proof (cases "res_err res = 0")
  case True
  then obtain f fs where fl: "in_flight (queue s) = f # fs" using reply by (cases "in_flight (queue s)") auto
  obtain x r where ans: "answer (res_val res) (queue s) = (x, r)" by fastforce
  have "pipe_inv (s\<lparr>replies := replies s @ [res_val res], queue := r, answered := answered s @ [x],
      served := served s @ [f], task := Serving w Poll\<rparr>)"
    by (rule answer_inv[OF inv con fl ans]) simp_all
  then show ?thesis using True ans fl by (simp add: run_reader_def reader_parsed_def)
next
  case False
  have "ledger (s\<lparr>replies := replies s, queue := queue s, answered := answered s, served := served s\<rparr>)"
    using inv by (simp add: ledger_def)
  from race_ended_inv[OF this] False show ?thesis by (simp add: run_reader_def reader_parsed_def)
qed

lemma reader_dispatch_inv:
  assumes inv: "ledger s" and con: "connection w (Dispatch vs err) s"
  shows "pipe_inv (run_reader (reader_dispatch vs err (queue s)) w s)"
proof (cases vs)
  case Nil
  have same: "s\<lparr>queue := queue s, answered := answered s, served := served s\<rparr> = s" by simp
  show ?thesis
  proof (cases "err = 0")
    case True
    have "connection w Await_parse (s\<lparr>task := Serving w Await_parse\<rparr>)" using con Nil by (simp add: connection_def)
    then show ?thesis
      using True Nil inv by (simp add: run_reader_def reader_dispatch_def pipe_inv_def ledger_def)
  next
    case False
    then show ?thesis using Nil race_ended_inv[OF inv] by (simp add: run_reader_def reader_dispatch_def)
  qed
next
  case (Cons v vs')
  then have "length (v # vs') \<le> length (in_flight (queue s))" using con by (simp add: connection_def)
  then obtain f fs where fl: "in_flight (queue s) = f # fs" and le: "length vs' \<le> length fs"
    by (cases "in_flight (queue s)") auto
  obtain x r where ans: "answer v (queue s) = (x, r)" by fastforce
  have "pipe_inv (s\<lparr>replies := replies s, queue := r, answered := answered s @ [x],
      served := served s @ [f], task := Serving w (Dispatch vs' err)\<rparr>)"
    by (rule answer_inv[OF inv con fl ans]) (use le Cons in simp_all)
  then show ?thesis using ans fl Cons by (simp add: run_reader_def reader_dispatch_def)
qed

lemma push_inv:
  assumes inv: "pipe_inv s" and live: "task s \<noteq> Deleted" and push: "ring_push e (queue s) = (i, r)"
  shows "pipe_inv (s\<lparr>queue := r, accepted := accepted s @ (if 0 \<le> i then [e] else [])\<rparr>)"
proof (cases "0 \<le> i")
  case True
  have wf: "ring_wf (queue s)" using inv live by (simp add: pipe_inv_def ledger_def)
  note acc = ring_push_accepted[OF wf push True]
  then have "entries r = entries (queue s) @ [e]" using entries_split[OF wf] entries_split[of r] by simp
  then show ?thesis using inv live acc True by (simp add: pipe_inv_def ledger_def connection_def)
next
  case False
  have wf: "ring_wf (queue s)" using inv live by (simp add: pipe_inv_def ledger_def)
  then have "r = queue s" using ring_push_refused[OF wf push] False by simp
  then show ?thesis using inv False by (simp add: pipe_inv_def)
qed

lemma pipe_invD: "pipe_inv s \<Longrightarrow> task s = Serving w rd \<Longrightarrow> ledger s \<and> connection w rd s"
  by (simp add: pipe_inv_def)

lemma pipe_step_inv:
  assumes "pipe_step s s'" and "pipe_inv s"
  shows "pipe_inv s'"
  using assms
proof (cases rule: pipe_step.cases)
  case (step_push e i r)
  then show ?thesis using push_inv assms(2) by blast
next
  case step_close
  then show ?thesis using assms(2) by (auto simp: pipe_inv_def ledger_def connection_def)
next
  case (step_writer w rd res x)
  then show ?thesis using run_writer_inv pipe_invD[OF assms(2)] by blast
next
  case (step_parsed w res)
  then show ?thesis using reader_parsed_inv pipe_invD[OF assms(2)] by blast
next
  case (step_poll w vs err)
  then show ?thesis using pipe_invD[OF assms(2) step_poll(2)] by (auto simp: pipe_inv_def ledger_def connection_def)
next
  case (step_dispatch w vs err)
  then show ?thesis using reader_dispatch_inv pipe_invD[OF assms(2)] by blast
next
  case (step_connect err)
  then show ?thesis using assms(2)
    by (auto simp: connect_ended_def new_connection_def pipe_inv_def ledger_def connection_def)
next
  case step_timer
  then show ?thesis using assms(2) by (auto simp: timer_ended_def pipe_inv_def ledger_def)
qed

section \<open>Properties\<close>

definition first_phase :: "phase \<Rightarrow> bool" where
  "first_phase ph \<longleftrightarrow> ph = Serving Await_event Await_parse \<or> ph = Connecting"

lemma new_pipe_inv:
  assumes "k \<le> 31" and "first_phase ph"
  shows "pipe_inv (new_pipe (2 ^ k) h0 ph)"
proof -
  have "ring_wf (new_ring (2 ^ k) h0)" "entries (new_ring (2 ^ k) h0) = []"
    using new_ring_wf[OF assms(1), of h0] by simp_all
  moreover have "in_flight (new_ring (2 ^ k) h0) = []" by (simp add: in_flight_def new_ring_def)
  ultimately show ?thesis
    using assms(2) by (auto simp: new_pipe_def pipe_inv_def ledger_def connection_def first_phase_def)
qed

lemma pipe_reach_inv:
  assumes "pipe_reach (new_pipe (2 ^ k) h0 ph) s" and "k \<le> 31" and "first_phase ph"
  shows "pipe_inv s"
  using assms(1) by induction (auto intro: new_pipe_inv assms(2,3) pipe_step_inv)

text \<open>A pipe after its first request, for concrete instances.\<close>

definition pushed_pipe :: "phase \<Rightarrow> nat pipe_sys" where
  "pushed_pipe ph = (new_pipe 2 0 ph)\<lparr>queue := demo_ring1, accepted := [(10, ''a'')]\<rparr>"

lemma pushed_reach:
  assumes "ph \<noteq> Deleted"
  shows "pipe_reach (new_pipe 2 0 ph) (pushed_pipe ph)"
proof -
  let ?s0 = "new_pipe 2 0 ph :: nat pipe_sys"
  have "pipe_step ?s0 (?s0\<lparr>queue := demo_ring1, accepted := accepted ?s0 @ (if 0 \<le> (0 :: int) then [(10, ''a'')] else [])\<rparr>)"
    by (rule step_push) (simp_all add: new_pipe_def demo_pushes assms)
  then show ?thesis by (intro reach_step[OF reach_start]) (simp add: new_pipe_def pushed_pipe_def)
qed

lemma pushed_serving:
  "pipe_reach (new_pipe (2 ^ 1) 0 (Serving Await_event Await_parse)) (pushed_pipe (Serving Await_event Await_parse))"
  "first_phase (Serving Await_event Await_parse)"
  "task (pushed_pipe ph) = ph" "queue (pushed_pipe ph) = demo_ring1"
  "accepted (pushed_pipe ph) = [(10, ''a'')]" "answered (pushed_pipe ph) = []" "alive (pushed_pipe ph)"
  "sent (pushed_pipe ph) = []" "served (pushed_pipe ph) = []"
  using pushed_reach[of "Serving Await_event Await_parse"]
  by (simp_all add: first_phase_def pushed_pipe_def new_pipe_def)

text \<open>C5. Through any number of reconnections, the coroutines resumed so far and those of the
  requests in the ring are, in this order, those of the accepted requests in the order they
  were pushed: each is resumed once at most, and none is skipped.\<close>
theorem pipe_answers_in_order:
  assumes "pipe_reach (new_pipe (2 ^ k) h0 ph) s" and "k \<le> 31" and "first_phase ph" and "task s \<noteq> Deleted"
  shows "ring_wf (queue s) \<and> map fst (accepted s) = map fst (answered s) @ map fst (entries (queue s))"
  using pipe_reach_inv[OF assms(1-3)] assms(4) by (simp add: pipe_inv_def ledger_def)

theorem pipe_answers_in_order_witness:
  "map fst (accepted (pushed_pipe (Serving Await_event Await_parse))) = map fst (entries demo_ring1)"
  using pipe_answers_in_order[OF pushed_serving(1)] by (simp add: pushed_serving)

text \<open>C7. On a connection, the bytes sent and those the writer still holds are the payloads of the
  requests in the order of the ring, however \<open>writev\<close> cuts them; the requests served got the
  replies of the server in the order they came, the first reply to the first request.\<close>
theorem pipe_connection_in_order:
  assumes "pipe_reach (new_pipe (2 ^ k) h0 ph) s" and "k \<le> 31" and "first_phase ph" and "task s = Serving w rd"
  shows "sent s @ writer_pending w = concat (map snd (served s @ in_flight (queue s))) \<and>
    length (reader_pending rd) \<le> length (in_flight (queue s)) \<and>
    (\<exists>old now. answered s = old @ now \<and> map fst now = map fst (served s) \<and>
       replies s = map snd now @ reader_pending rd)"
  using pipe_reach_inv[OF assms(1-3)] assms(4) by (simp add: pipe_inv_def connection_def)

text \<open>Two requests are pushed; the writer wakes and hands both to \<open>writev\<close>, which takes one byte; the
  reply of the first arrives.\<close>

definition busy_pipe :: "nat pipe_sys" where
  "busy_pipe = \<lparr>queue = \<lparr>head = 1, head_committed = 2, tail = 2, handles = [10, 11], payloads = [''a'', ''b''], xcapacity = 2\<rparr>,
     alive = True, backoff = 1, task = Serving (Await_writev [''b''] 1 2) Poll, accepted = [(10, ''a''), (11, ''b'')],
     answered = [(10, Integer 7)], sent = ''a'', served = [(10, ''a'')], replies = [Integer 7]\<rparr>"

lemma busy_reach: "pipe_reach (new_pipe (2 ^ 1) 0 (Serving Await_event Await_parse)) busy_pipe"
proof -
  let ?s1 = "pushed_pipe (Serving Await_event Await_parse)"
  let ?s2 = "?s1\<lparr>queue := demo_ring, accepted := [(10, ''a''), (11, ''b'')]\<rparr>"
  let ?r = "demo_ring\<lparr>head_committed := 2\<rparr>"
  let ?s3 = "?s2\<lparr>queue := ?r, task := Serving (Await_writev [''a'', ''b''] 0 2) Await_parse\<rparr>"
  let ?s4 = "?s3\<lparr>sent := ''a'', task := Serving (Await_writev [''b''] 1 2) Await_parse\<rparr>"
  note s1 = pushed_serving pushed_pipe_def new_pipe_def
  have "pipe_step ?s1 (?s1\<lparr>queue := demo_ring, accepted := accepted ?s1 @ (if 0 \<le> (1 :: int) then [(11, ''b'')] else [])\<rparr>)"
    by (rule step_push) (simp_all add: demo_pushes s1)
  then have 2: "pipe_step ?s1 ?s2" by (simp add: s1)
  have "next_batch demo_ring = (Await_writev [''a'', ''b''] 0 2, ?r)"
    by (simp add: next_batch_def prep_writev_def demo_ring_def XREDIS_PIPELINE_BATCH_SIZE_def ring_mask_def upt_rec)
  then have "writer_resume (8, 0) Await_event (queue ?s2) = Ret (Inr (Await_writev [''a'', ''b''] 0 2), ?r)" by simp
  then have "pipe_step ?s2 (run_writer (Inr (Await_writev [''a'', ''b''] 0 2), ?r) (written Await_event (8, 0)) Await_parse ?s2)"
    by (intro step_writer) (simp_all add: s1 may_write_def)
  then have 3: "pipe_step ?s2 ?s3" by (simp add: run_writer_def written_def s1)
  have "pipe_step ?s3 (run_writer (Inr (Await_writev [''b''] 1 2), ?r) (written (Await_writev [''a'', ''b''] 0 2) (1, 0)) Await_parse ?s3)"
    by (rule step_writer) (simp_all add: may_write_def outcome_simps)
  then have 4: "pipe_step ?s3 ?s4" by (simp add: run_writer_def written_def s1)
  have "pipe_step ?s4 (run_reader (reader_parsed (Integer 7, 0) (queue ?s4)) (Await_writev [''b''] 1 2)
      (?s4\<lparr>replies := replies ?s4 @ (if res_err (Integer 7, 0) = 0 then [res_val (Integer 7, 0)] else [])\<rparr>))"
    by (rule step_parsed) (simp_all add: in_flight_def demo_ring_def)
  then have 5: "pipe_step ?s4 busy_pipe"
    by (simp add: run_reader_def reader_parsed_def answer_def ring_pop_def ring_mask_def demo_ring_def busy_pipe_def s1
        in_flight_def entry_def upt_rec)
  from pushed_serving(1) 2 3 4 5 show ?thesis by (blast intro: reach_step)
qed

theorem pipe_connection_in_order_witness:
  "sent busy_pipe @ writer_pending (Await_writev [''b''] 1 2) = ''ab'' \<and>
   (\<exists>old now. answered busy_pipe = old @ now \<and> map fst now = map fst (served busy_pipe) \<and> replies busy_pipe = map snd now) \<and>
   answered busy_pipe = [(10, Integer 7)] \<and> served busy_pipe = [(10, ''a'')]"
proof -
  have t: "task busy_pipe = Serving (Await_writev [''b''] 1 2) Poll" by (simp add: busy_pipe_def)
  have "concat (map snd (served busy_pipe @ in_flight (queue busy_pipe))) = ''ab''"
    by (simp add: busy_pipe_def in_flight_def entry_def upt_rec)
  then show ?thesis
    using pipe_connection_in_order[OF busy_reach _ pushed_serving(2) t] by (simp add: busy_pipe_def)
qed

text \<open>The writer never reads past its slices: in every reachable state, whatever number of bytes
  \<open>writev\<close> reports, resuming it is defined.\<close>
theorem writer_never_undefined:
  assumes "pipe_reach (new_pipe (2 ^ k) h0 ph) s" and "k \<le> 31" and "first_phase ph" and "task s = Serving w rd"
    and "may_write w res"
  shows "\<exists>x. writer_resume res w (queue s) = Ret x"
proof -
  have "writer_ok w" and "ring_wf (queue s)"
    using pipe_reach_inv[OF assms(1-3)] assms(4) by (simp_all add: pipe_inv_def connection_def ledger_def)
  from writer_resume_ok[OF this assms(5)] show ?thesis by blast
qed

theorem writer_never_undefined_witness:
  "\<exists>x. writer_resume (8, 0) Await_event demo_ring1 = Ret x"
  using writer_never_undefined[OF pushed_serving(1), of Await_event Await_parse "(8, 0)"]
  by (simp add: pushed_serving may_write_def)

text \<open>A pipe that is deleted at the end of a connection, whichever task ended it, has answered every
  accepted request by then.\<close>
theorem pipe_close_answers:
  assumes "pipe_reach (new_pipe (2 ^ k) h0 ph) s" and "k \<le> 31" and "first_phase ph"
    and "task s = Serving w rd" and "pipe_step s s'" and "task s' = Deleted"
  shows "map fst (accepted s') = map fst (answered s')"
proof -
  have inv: "ledger s" "connection w rd s" using pipe_reach_inv[OF assms(1-3)] assms(4) by (auto dest: pipe_invD)
  have gone: "map fst (accepted (race_ended t)) = map fst (answered (race_ended t))"
    if "ledger t" "task (race_ended t) = Deleted" for t :: "'a pipe_sys"
    using that drain_all_ledger(1)[OF that(1)] by (auto simp: race_ended_def Let_def split: if_splits)
  from assms(5) show ?thesis
  proof (cases rule: pipe_step.cases)
    case (step_writer w1 rd1 res x)
    then have ok: "writer_ok w1" using inv assms(4) by (simp add: connection_def)
    have "ring_wf (queue s)" using inv by (simp add: ledger_def)
    from writer_resume_ok[OF ok this step_writer(3)] step_writer(4) obtain t r where
      x: "x = (t, r)" "ring_wf r" "entries r = entries (queue s)" by auto
    then have "ledger (s\<lparr>queue := r, sent := sent s @ written w1 res\<rparr>)" using inv by (simp add: ledger_def)
    then show ?thesis using step_writer(1) x assms(6) gone by (cases t) (auto simp: run_writer_def Let_def)
  next
    case (step_parsed w1 res)
    have "ledger (s\<lparr>replies := replies s, queue := queue s, answered := answered s, served := served s\<rparr>)"
      using inv by (simp add: ledger_def)
    then show ?thesis using step_parsed(1) assms(6) gone[of s] inv
      by (auto simp: run_reader_def reader_parsed_def Let_def split: prod.splits if_splits)
  next
    case (step_dispatch w1 vs err)
    then show ?thesis using assms(6) gone[of s] inv
      by (auto simp: run_reader_def reader_dispatch_def Let_def split: list.splits prod.splits if_splits)
  qed (use assms(4,6) in simp_all)
qed

theorem pipe_close_answers_witness:
  "\<exists>s' :: nat pipe_sys. task s' = Deleted \<and> map fst (accepted s') = map fst (answered s') \<and> accepted s' = [(10, ''a'')]"
proof -
  let ?ph = "Serving Await_event Await_parse"
  let ?s = "pushed_pipe ?ph\<lparr>alive := False\<rparr>"
  have r: "pipe_reach (new_pipe (2 ^ 1) 0 ?ph) ?s" using pushed_serving(1) step_close by (rule reach_step)
  have st: "pipe_step ?s (run_writer (Inl 5, queue ?s) (written Await_event (0, 5)) Await_parse ?s)"
    by (rule step_writer[where res = "(0, 5)"]) (simp_all add: pushed_serving may_write_def)
  let ?s' = "run_writer (Inl 5, queue ?s) (written Await_event (0, 5)) Await_parse ?s"
  have t: "task ?s' = Deleted" and a: "accepted ?s' = [(10, ''a'')]"
    by (simp_all add: run_writer_def race_ended_def drain_all_def pushed_serving Let_def split: prod.split)
  have "map fst (accepted ?s') = map fst (answered ?s')"
    by (rule pipe_close_answers[OF r _ _ _ st t]) (simp_all add: pushed_serving)
  then show ?thesis using t a by blast
qed

text \<open>When it is closed while the worker reconnects, the pipe is deleted without a drain: a
  request accepted meanwhile is never answered, and its coroutine stays suspended for ever.\<close>
theorem pipe_close_loses:
  "\<exists>s. pipe_reach (new_pipe 2 0 Connecting) s \<and> task s = Deleted \<and>
     accepted s = [(10 :: nat, ''a'')] \<and> answered s = []"
proof -
  let ?s = "pushed_pipe Connecting\<lparr>alive := False\<rparr>"
  have "pipe_reach (new_pipe 2 0 Connecting) ?s" using pushed_reach[of Connecting] step_close by (blast intro: reach_step)
  moreover have "pipe_step ?s (connect_ended 0 ?s)" by (rule step_connect) (simp add: pushed_pipe_def new_pipe_def)
  ultimately have "pipe_reach (new_pipe 2 0 Connecting) (connect_ended 0 ?s)" by (rule reach_step)
  then show ?thesis by (intro exI conjI) (assumption | simp add: connect_ended_def pushed_pipe_def new_pipe_def)+
qed

text \<open>The delay before a connection is tried again is a power of two from 1 to 32 seconds.\<close>
theorem backoff_bounded:
  assumes "pipe_reach (new_pipe cap h0 ph) s"
  shows "backoff s \<in> {1, 2, 4, 8, 16, 32}"
  using assms
proof induction
  case reach_start
  then show ?case by (simp add: new_pipe_def)
next
  case (reach_step s s')
  have same: "backoff (run_reader x w t) = backoff t" "backoff (run_writer y b rd t) = backoff t" for x y w b rd and t :: "'a pipe_sys"
    by (auto simp: run_reader_def run_writer_def race_ended_def drain_all_def Let_def split: prod.split sum.split)
  from reach_step.hyps(2) reach_step.IH show ?case
    by cases (auto simp: same connect_ended_def new_connection_def timer_ended_def max_backoff_def)
qed

theorem backoff_bounded_witness:
  "backoff (pushed_pipe (Serving Await_event Await_parse)) \<in> {1, 2, 4, 8, 16, 32}"
  by (rule backoff_bounded[OF pushed_serving(1)])

section \<open>The writer finishes\<close>

text \<open>\<open>writev\<close> succeeding with the byte counts \<open>ns\<close>, one after the other.\<close>

fun write_run :: "nat list \<Rightarrow> writer_state \<Rightarrow> 'h ring \<Rightarrow> ((int + writer_state) \<times> 'h ring) outcome" where
  "write_run [] w r = Ret (Inr w, r)"
| "write_run (n # ns) w r =
     bind_outcome (writer_resume (n, 0) w r) (\<lambda>(t, r').
       case t of Inl err \<Rightarrow> Ret (Inl err, r') | Inr w' \<Rightarrow> write_run ns w' r')"

text \<open>A batch is finished as soon as its bytes are written: if \<open>writev\<close> takes at least one byte
  each time and all of them in the end, the writer goes on to the next batch.\<close>
theorem writer_finishes:
  assumes "bytes + sum_list ns = total_bytes" and "sum_list ns = length (concat iov)" and "\<forall>n\<in>set ns. 0 < n" and "ns \<noteq> []"
  shows "write_run ns (Await_writev iov bytes total_bytes) r = (case next_batch r of (w, r') \<Rightarrow> Ret (Inr w, r'))"
  using assms
proof (induction ns arbitrary: iov bytes)
  case (Cons n ns)
  show ?case
  proof (cases "ns = []")
    case True
    then show ?thesis using Cons.prems by (auto split: prod.split)
  next
    case False
    then obtain m ms where ns: "ns = m # ms" by (cases ns) auto
    then have "0 < sum_list ns" using Cons.prems(3) by auto
    then have less: "n < length (concat iov)" and "bytes + n \<noteq> total_bytes" and "0 < n" using Cons.prems by auto
    from skip_written_ok[OF less] obtain iov' where
      iov': "skip_written n iov = Ret iov'" "concat iov' = drop n (concat iov)" by blast
    have "write_run ns (Await_writev iov' (bytes + n) total_bytes) r = (case next_batch r of (w, r') \<Rightarrow> Ret (Inr w, r'))"
      using Cons.prems False iov'(2) less by (intro Cons.IH) (simp_all del: length_concat)
    then show ?thesis using iov'(1) \<open>bytes + n \<noteq> total_bytes\<close> \<open>0 < n\<close> by simp
  qed
qed simp

theorem writer_finishes_witness:
  "write_run [2, 1] (Await_writev [''a'', ''bc''] 0 3) demo_ring1 = (case next_batch demo_ring1 of (w, r') \<Rightarrow> Ret (Inr w, r'))"
  by (rule writer_finishes) simp_all

end
