(* ===== verification/Call_Chains.thy ===== *)
theory Call_Chains
  imports Command_Wire Commands_Spec
begin

text \<open>
  The chains a program builds by calls on a client: \<open>CommandAwaiter\<close> and \<open>RedisCommandOperation\<close> of
  include/RedisCommander.hpp as data, and the words of the commands in them.
\<close>

section \<open>Chains\<close>

text \<open>
  \<open>RedisCommandOperation<T, num_ops, cluster_mode, multi>\<close>: the payloads and, in cluster mode, a slot for
  each and the flag \<open>multi\<close>. A \<open>CommandAwaiter\<close> has one payload.
\<close>

record chain =
  chain_slots :: "u16 list"
  chain_ops :: "string list"
  chain_multi :: bool

definition command_awaiter :: "string \<Rightarrow> chain" where
  "command_awaiter payload = \<lparr>chain_slots = [], chain_ops = [payload], chain_multi = False\<rparr>"

definition awaiter_chain :: "string \<Rightarrow> chain \<Rightarrow> chain" where
  "awaiter_chain new_op a = \<lparr>chain_slots = [], chain_ops = [hd (chain_ops a), new_op], chain_multi = False\<rparr>"

definition operation_chain :: "string \<Rightarrow> chain \<Rightarrow> chain" where
  "operation_chain new_op c = c\<lparr>chain_ops := chain_ops c @ [new_op]\<rparr>"

text \<open>
  \<open>client.cmd1(...).cmd2(...).cmd3(...)\<close>: the first command is a method of \<open>RedisClient\<close>, the second of
  \<open>CommandAwaiter\<close>, the others of \<open>RedisCommandOperation\<close>. \<open>None\<close>: there is no such method.
\<close>

definition client_command :: "string list \<Rightarrow> chain" where
  "client_command ws = command_awaiter (build_commands ws)"

definition awaiter_command :: "string list \<Rightarrow> chain \<Rightarrow> chain" where
  "awaiter_command ws a = awaiter_chain (build_commands ws) a"

definition operation_command :: "string list \<Rightarrow> chain \<Rightarrow> chain" where
  "operation_command ws c = operation_chain (build_commands ws) c"

fun operation_calls :: "(u64 \<Rightarrow> string) \<Rightarrow> redis_command list \<Rightarrow> chain \<Rightarrow> chain option" where
  "operation_calls dtext [] c = Some c"
| "operation_calls dtext (d # ds) c =
     (case operation_words dtext d of None \<Rightarrow> None | Some ws \<Rightarrow> operation_calls dtext ds (operation_command ws c))"

fun client_calls :: "(u64 \<Rightarrow> string) \<Rightarrow> redis_command list \<Rightarrow> chain option" where
  "client_calls dtext [] = None"
| "client_calls dtext [a] = map_option client_command (client_words dtext a)"
| "client_calls dtext (a # b # ds) =
     (case (client_words dtext a, awaiter_words dtext b) of
        (Some va, Some vb) \<Rightarrow> operation_calls dtext ds (awaiter_command vb (client_command va))
      | _ \<Rightarrow> None)"

section \<open>The words of a chain\<close>

text \<open>All calls but those whose chained form differs from the plain one (\<open>ZMPOP\<close>) or exists in chains alone (\<open>EXEC\<close>).\<close>

fun plain_call :: "redis_command \<Rightarrow> bool" where
  "plain_call (Cmd_trans c) = (c \<noteq> C_exec)"
| "plain_call (Cmd_zset c) = (case c of C_zmpop _ _ _ \<Rightarrow> False | _ \<Rightarrow> True)"
| "plain_call c = True"

lemma awaiter_plain:
  assumes "plain_call c" and "awaiter_words dtext c = Some ws"
  shows "client_words dtext c = Some ws"
  using assms by (cases c) (auto dest: awaiter_families)

lemma operation_plain:
  assumes "plain_call c" and "operation_words dtext c = Some ws"
  shows "client_words dtext c = Some ws"
  using assms by (cases c) (auto dest: operation_families)

lemma operation_calls_words:
  assumes "\<forall>d\<in>set ds. plain_call d" and "operation_calls dtext ds c = Some c'"
  shows "\<exists>wss. map (client_words dtext) ds = map Some wss \<and> chain_ops c' = chain_ops c @ map build_commands wss"
  using assms
proof (induction ds arbitrary: c)
  case (Cons d ds)
  then obtain ws where ws: "operation_words dtext d = Some ws" "operation_calls dtext ds (operation_command ws c) = Some c'"
    by (auto split: option.splits)
  from Cons.IH[OF _ ws(2)] Cons.prems(1) obtain wss where
    "map (client_words dtext) ds = map Some wss" "chain_ops c' = chain_ops (operation_command ws c) @ map build_commands wss" by auto
  then show ?case using operation_plain[OF _ ws(1)] Cons.prems(1)
    by (intro exI[of _ "ws # wss"]) (simp add: operation_command_def operation_chain_def)
qed auto

lemma client_calls_words:
  assumes "\<forall>d\<in>set ds. plain_call d" and "client_calls dtext ds = Some c"
  shows "\<exists>wss. map (client_words dtext) ds = map Some wss \<and> chain_ops c = map build_commands wss"
  using assms
proof (induction dtext ds rule: client_calls.induct)
  case (2 dtext a)
  then show ?case by (intro exI[of _ "[the (client_words dtext a)]"]) (auto simp: client_command_def command_awaiter_def)
next
  case (3 dtext a b ds)
  then obtain va vb where v: "client_words dtext a = Some va" "awaiter_words dtext b = Some vb"
    "operation_calls dtext ds (awaiter_command vb (client_command va)) = Some c" by (auto split: option.splits)
  from operation_calls_words[OF _ v(3)] "3.prems"(1) obtain wss where
    "map (client_words dtext) ds = map Some wss" "chain_ops c = chain_ops (awaiter_command vb (client_command va)) @ map build_commands wss"
    by auto
  then show ?case using v awaiter_plain[OF _ v(2)] "3.prems"(1)
    by (intro exI[of _ "va # vb # wss"])
      (simp add: awaiter_command_def awaiter_chain_def client_command_def command_awaiter_def)
qed simp

end
