(* ===== verification/Client_Calls.thy ===== *)
theory Client_Calls
  imports Pipe_Task Call_Chains
begin

text \<open>
  A call on \<open>RedisClient\<close> from the method to the reply: what awaiting a chain does to the pipe (\<open>operator
  co_await\<close> of include/RedisCommander.hpp) and, over \<open>Pipe_Task\<close> and \<open>Command_Wire\<close>, which bytes the
  server reads and which coroutine gets which reply.
\<close>

section \<open>Awaiting\<close>

text \<open>
  \<open>co_await\<close>: one command waits itself, with the handle \<open>h\<close>; a chain makes a worker coroutine for every
  command, with the handles \<open>hs\<close>. The results are whether the coroutine stays suspended, the result
  tuple, and the pipe.
\<close>

definition await_chain :: "bool option \<Rightarrow> 'h \<Rightarrow> 'h list \<Rightarrow> chain \<Rightarrow> 'h pipe_end \<Rightarrow> bool \<times> operation \<times> 'h pipe_end" where
  "await_chain hook h hs c p =
     (case chain_ops c of
        [payload] \<Rightarrow>
          (case command_suspend hook h payload p of
             (suspended, v, p') \<Rightarrow> (suspended, (new_operation 1)\<lparr>results := [case v of None \<Rightarrow> Nullptr | Some e \<Rightarrow> e]\<rparr>, p'))
      | ops \<Rightarrow> operation_suspend hook (zip hs ops) (new_operation (length ops)) p)"

definition chain_requests :: "'h \<Rightarrow> 'h list \<Rightarrow> chain \<Rightarrow> ('h \<times> string) list" where
  "chain_requests h hs c = (case chain_ops c of [payload] \<Rightarrow> [(h, payload)] | ops \<Rightarrow> zip hs ops)"

section \<open>Awaiting a chain is a step of the pipe\<close>

lemma put_tail: "put idx e (r\<lparr>tail := t\<rparr>) = (put idx e r)\<lparr>tail := t\<rparr>"
  by (simp add: put_def)

definition push_each :: "('h \<times> string) list \<Rightarrow> 'h ring \<Rightarrow> 'h ring" where
  "push_each es r = foldl (\<lambda>r e. snd (ring_push e r)) r es"

lemma push_each_simps [simp]: "push_each [] r = r" "push_each (e # es) r = push_each es (snd (ring_push e r))"
  by (simp_all add: push_each_def)

lemma push_room:
  assumes wf: "ring_wf r" and room: "length (entries r) < xcapacity r" and last: "unat (tail r) < 2 ^ 63"
  shows "ring_push e r = (sint (ucast (tail r AND ring_mask r) :: 32 word), put (tail r AND ring_mask r) e (r\<lparr>tail := tail r + 1\<rparr>))"
    and "0 \<le> fst (ring_push e r)" and "ring_wf (snd (ring_push e r))" and "entries (snd (ring_push e r)) = entries r @ [e]"
    and "xcapacity (snd (ring_push e r)) = xcapacity r" and "unat (tail (snd (ring_push e r))) = Suc (unat (tail r))"
    and "tail (snd (ring_push e r)) = tail r + 1"
proof -
  have opn: "open_ring r" using last by (simp add: open_ring_def)
  show eq: "ring_push e r = (sint (ucast (tail r AND ring_mask r) :: 32 word), put (tail r AND ring_mask r) e (r\<lparr>tail := tail r + 1\<rparr>))"
    using ring_push_cases[OF wf, of e] opn room by simp
  show pos: "0 \<le> fst (ring_push e r)" using ring_push_spec_cases[OF wf] opn room by simp
  have "ring_push e r = (fst (ring_push e r), snd (ring_push e r))" by simp
  note acc = ring_push_accepted[OF wf this pos]
  then show "ring_wf (snd (ring_push e r))" by simp
  then show "entries (snd (ring_push e r)) = entries r @ [e]" using acc entries_split[OF wf] entries_split[of "snd (ring_push e r)"] by simp
  show "xcapacity (snd (ring_push e r)) = xcapacity r" by (simp add: eq put_def)
  show "tail (snd (ring_push e r)) = tail r + 1" by (simp add: eq put_def)
  then show "unat (tail (snd (ring_push e r))) = Suc (unat (tail r))" using unat_Suc64[of "tail r"] last by simp
qed

lemma push_each_put_all:
  assumes "ring_wf r" and "length (entries r) + length es \<le> xcapacity r" and "unat (tail r) + length es \<le> 2 ^ 63"
    and "unat (tail r) = unat t0 + d"
  shows "push_each es r = put_all (t0 AND ring_mask r) (of_nat d) es (r\<lparr>tail := tail r + of_nat (length es)\<rparr>)"
  using assms
proof (induction es arbitrary: r d)
  case (Cons e es)
  let ?r1 = "snd (ring_push e r)"
  have room: "length (entries r) < xcapacity r" "unat (tail r) < 2 ^ 63" using Cons.prems(2,3) by simp_all
  note p = push_room[OF Cons.prems(1) room, of e]
  have mask: "ring_mask ?r1 = ring_mask r" using p(5) by (simp add: ring_mask_def)
  have idx: "((t0 AND ring_mask r) + of_nat d) AND ring_mask r = tail r AND ring_mask r"
  proof -
    have shape: "ring_shape r" using Cons.prems(1) by (rule ring_wf_shape)
    show ?thesis
      using block_index[of "r\<lparr>tail := t0\<rparr>" d] shape unat_mask_index[OF shape, of "tail r"] Cons.prems(4)
      by (simp add: word_unat_eq_iff ring_mask_def)
  qed
  have ents: "length (entries ?r1) + length es \<le> xcapacity ?r1" using Cons.prems(2) p(4,5) by (simp del: length_entries)
  have "push_each es ?r1 = put_all (t0 AND ring_mask ?r1) (of_nat (Suc d)) es (?r1\<lparr>tail := tail ?r1 + of_nat (length es)\<rparr>)"
    using p Cons.prems(3,4) ents by (intro Cons.IH) (simp_all del: length_entries)
  then show ?case
    using idx by (simp add: mask p(1) put_tail ring_mask_def ac_simps)
qed simp

lemma push_n_each:
  assumes "ring_wf r" and "open_ring r" and "es \<noteq> []" and "length (entries r) + length es \<le> xcapacity r"
    and "unat (tail r) + length es \<le> 2 ^ 63"
  shows "snd (ring_push_n es r) = push_each es r"
proof -
  have "0 < length es" using assms(3) by simp
  then have room: "length (entries r) < xcapacity r" using assms(4) by linarith
  have "ring_push_n es r = (sint (ucast (tail r AND ring_mask r) :: 32 word),
      put_all (tail r AND ring_mask r) 0 es (r\<lparr>tail := tail r + of_nat (length es)\<rparr>))"
    using stop_clear_iff[of "tail r"] full_iff[OF assms(1)] assms(1,2) room
    by (simp add: ring_push_n_def Let_def open_ring_def ring_wf_def)
  then show ?thesis using push_each_put_all[OF assms(1,4,5), of "tail r" 0] by simp
qed

lemma pipe_takes_each:
  assumes "pipe_reach s0 s" and "task s \<noteq> Deleted" and "ring_wf (queue s)"
    and "length (entries (queue s)) + length es \<le> xcapacity (queue s)" and "unat (tail (queue s)) + length es \<le> 2 ^ 63"
  shows "pipe_reach s0 (s\<lparr>queue := push_each es (queue s), accepted := accepted s @ es\<rparr>)"
  using assms
proof (induction es arbitrary: s)
  case (Cons e es)
  let ?r1 = "snd (ring_push e (queue s))"
  have room: "length (entries (queue s)) < xcapacity (queue s)" "unat (tail (queue s)) < 2 ^ 63" using Cons.prems(4,5) by simp_all
  note p = push_room[OF Cons.prems(3) room, of e]
  let ?s1 = "s\<lparr>queue := ?r1, accepted := accepted s @ [e]\<rparr>"
  have "ring_push e (queue s) = (fst (ring_push e (queue s)), ?r1)" by simp
  from step_push[OF Cons.prems(2) this] p(2) have "pipe_step s ?s1" by simp
  from reach_step[OF Cons.prems(1) this] have r1: "pipe_reach s0 ?s1" .
  have "length (entries ?r1) + length es \<le> xcapacity ?r1" using Cons.prems(4) p(4,5) by (simp del: length_entries)
  then have "pipe_reach s0 (?s1\<lparr>queue := push_each es (queue ?s1), accepted := accepted ?s1 @ es\<rparr>)"
    using Cons.prems(2,5) p(3,6) by (intro Cons.IH[OF r1]) (simp_all del: length_entries)
  then show ?case by simp
qed simp

text \<open>A suspended coroutine: its requests are in the queue of the pipe, in order, and the pipe is a reachable one.\<close>

lemma await_chain_reach:
  assumes reach: "pipe_reach s0 s" and live: "task s \<noteq> Deleted" and wf: "ring_wf (queue s)"
    and ops: "chain_ops c \<noteq> []" "length hs = length (chain_ops c)"
    and room: "length (entries (queue s)) + length (chain_ops c) \<le> xcapacity (queue s)"
      "unat (tail (queue s)) + length (chain_ops c) \<le> 2 ^ 63"
    and await: "await_chain hook h hs c \<lparr>ring_of = queue s, signals = n\<rparr> = (True, a, p)"
  shows "pipe_reach s0 (s\<lparr>queue := ring_of p, accepted := accepted s @ chain_requests h hs c\<rparr>) \<and> signals p = n + 1"
proof -
  have opn: "open_ring (queue s)" using room(2) ops(1) by (cases "chain_ops c") (auto simp: open_ring_def)
  show ?thesis
  proof (cases "\<exists>payload. chain_ops c = [payload]")
    case True
    then obtain d where d: "chain_ops c = [d]" by blast
    obtain i r where push: "ring_push (h, d) (queue s) = (i, r)" by fastforce
    have "0 \<le> i" and p: "p = \<lparr>ring_of = r, signals = n + 1\<rparr>"
      using await d push by (cases "0 \<le> i"; auto simp: await_chain_def command_suspend_def notify_def Let_def split: if_splits)+
    then show ?thesis using reach_step[OF reach step_push[OF live push]] d by (simp add: chain_requests_def)
  next
    case False
    then have two: "await_chain hook h hs c q = operation_suspend hook (zip hs (chain_ops c)) (new_operation (length (chain_ops c))) q"
      "chain_requests h hs c = zip hs (chain_ops c)" for q
      using ops(1) by (auto simp: await_chain_def chain_requests_def split: list.split)
    let ?es = "zip hs (chain_ops c)"
    have es: "length ?es = length (chain_ops c)" "?es \<noteq> []" using ops by auto
    obtain i r where push: "ring_push_n ?es (queue s) = (i, r)" by fastforce
    have p: "p = \<lparr>ring_of = r, signals = n + 1\<rparr>"
      using await push unfolding two by (cases "0 \<le> i"; auto simp: operation_suspend_def notify_def Let_def split: if_splits)
    have "r = push_each ?es (queue s)" using push_n_each[OF wf opn es(2)] room push es(1) by simp
    then show ?thesis using pipe_takes_each[OF reach live wf, of ?es] room es(1) p two(2) by simp
  qed
qed

section \<open>What was accepted, and where it is\<close>

text \<open>
  The accepted requests in order: those of earlier connections, those this connection has answered, and
  those in the ring.
\<close>

definition served_now :: "'h pipe_sys \<Rightarrow> ('h \<times> string) list" where
  "served_now s = (case task s of Serving w rd \<Rightarrow> served s | _ \<Rightarrow> [])"

definition traced :: "'h pipe_sys \<Rightarrow> bool" where
  "traced s \<longleftrightarrow> task s = Deleted \<or> (\<exists>old. accepted s = old @ served_now s @ entries (queue s))"

lemma served_now_simps [simp]:
  "served_now (s\<lparr>queue := r, accepted := as\<rparr>) = served_now s" "served_now (s\<lparr>alive := b\<rparr>) = served_now s"
  by (simp_all add: served_now_def split: phase.split)

lemma traced_race_ended:
  assumes "ledger s"
  shows "traced (race_ended s)"
  using drain_all_ledger[OF assms] by (simp add: traced_def race_ended_def served_now_def Let_def)

lemma traced_reader:
  assumes led: "ledger s" and tr: "traced s" and ser: "task s = Serving w rd"
    and res: "(\<exists>err. res = (Inl err, [], queue s)) \<or> res = (Inr rd', [], queue s) \<or>
      (\<exists>v x r. answer v (queue s) = (x, r) \<and> in_flight (queue s) \<noteq> [] \<and> res = (Inr rd', [x], r))"
  shows "traced (run_reader res w (s\<lparr>replies := rp\<rparr>))"
  using res
proof (elim disjE exE conjE)
  fix err assume "res = (Inl err, [], queue s)"
  moreover have "ledger (s\<lparr>replies := rp, queue := queue s, answered := answered s, served := served s\<rparr>)" using led by (simp add: ledger_def)
  ultimately show ?thesis using traced_race_ended by (simp add: run_reader_def)
next
  assume "res = (Inr rd', [], queue s)"
  then show ?thesis using tr ser by (simp add: run_reader_def traced_def served_now_def)
next
  fix v x r assume a: "answer v (queue s) = (x, r)" "in_flight (queue s) \<noteq> []" "res = (Inr rd', [x], r)"
  then obtain f fs where f: "in_flight (queue s) = f # fs" by (cases "in_flight (queue s)") auto
  have "entries (queue s) = f # entries r" using answer_ok[of "queue s" f fs v] led f a(1) by (auto simp: ledger_def)
  then show ?thesis using tr ser a(3) f by (auto simp: run_reader_def traced_def served_now_def)
qed

lemma traced_step:
  assumes "pipe_step s s'" and "pipe_inv s" and tr: "traced s"
  shows "traced s'"
  using assms(1)
proof (cases rule: pipe_step.cases)
  case (step_push e i r)
  have wf: "ring_wf (queue s)" using assms(2) step_push(2) by (simp add: pipe_inv_def ledger_def)
  show ?thesis
  proof (cases "0 \<le> i")
    case True
    from ring_push_accepted[OF wf step_push(3) True] have "entries r = entries (queue s) @ [e]"
      using entries_split[OF wf] entries_split[of r] by simp
    then show ?thesis using tr step_push True by (auto simp: traced_def)
  next
    case False
    then have "r = queue s" using ring_push_refused[OF wf step_push(3)] by simp
    then show ?thesis using tr step_push False by (simp add: traced_def)
  qed
next
  case step_close
  then show ?thesis using tr by (simp add: traced_def)
next
  case (step_writer w rd res x)
  from pipe_invD[OF assms(2) step_writer(2)] have led: "ledger s" and ok: "writer_ok w" by (auto simp: connection_def)
  have wf: "ring_wf (queue s)" using led by (simp add: ledger_def)
  from writer_resume_ok[OF ok wf step_writer(3)] step_writer(4) obtain t r' where x: "x = (t, r')"
    "ring_wf r'" "entries r' = entries (queue s)" by auto
  have "ledger (s\<lparr>queue := r', sent := sent s @ written w res\<rparr>)" using led x by (simp add: ledger_def)
  then show ?thesis using tr step_writer x traced_race_ended
    by (cases t) (auto simp: run_writer_def traced_def served_now_def)
next
  case (step_parsed w res)
  have led: "ledger s" using pipe_invD[OF assms(2) step_parsed(2)] by simp
  have "(\<exists>err. reader_parsed res (queue s) = (Inl err, [], queue s)) \<or> reader_parsed res (queue s) = (Inr Poll, [], queue s) \<or>
      (\<exists>v x r. answer v (queue s) = (x, r) \<and> in_flight (queue s) \<noteq> [] \<and> reader_parsed res (queue s) = (Inr Poll, [x], r))"
    using step_parsed(3) by (auto simp: reader_parsed_def split: prod.split)
  then show ?thesis unfolding step_parsed(1) by (rule traced_reader[OF led tr step_parsed(2)])
next
  case (step_poll w vs err)
  then show ?thesis using tr by (simp add: traced_def served_now_def)
next
  case (step_dispatch w vs err)
  have inv: "ledger s" "connection w (Dispatch vs err) s" using pipe_invD[OF assms(2) step_dispatch(2)] by auto
  have same: "s\<lparr>replies := replies s\<rparr> = s" by simp
  have "\<exists>rd'. (\<exists>e. reader_dispatch vs err (queue s) = (Inl e, [], queue s)) \<or> reader_dispatch vs err (queue s) = (Inr rd', [], queue s) \<or>
      (\<exists>v x r. answer v (queue s) = (x, r) \<and> in_flight (queue s) \<noteq> [] \<and> reader_dispatch vs err (queue s) = (Inr rd', [x], r))"
  proof (cases vs)
    case Nil
    then show ?thesis by (auto simp: reader_dispatch_def)
  next
    case (Cons v vs')
    then have "in_flight (queue s) \<noteq> []" using inv(2) by (auto simp: connection_def)
    then show ?thesis using Cons by (intro exI[of _ "Dispatch vs' err"]) (auto simp: reader_dispatch_def split: prod.split)
  qed
  then obtain rd' where "(\<exists>e. reader_dispatch vs err (queue s) = (Inl e, [], queue s)) \<or> reader_dispatch vs err (queue s) = (Inr rd', [], queue s) \<or>
      (\<exists>v x r. answer v (queue s) = (x, r) \<and> in_flight (queue s) \<noteq> [] \<and> reader_dispatch vs err (queue s) = (Inr rd', [x], r))" by blast
  from traced_reader[OF inv(1) tr step_dispatch(2) this, of "replies s"] show ?thesis unfolding step_dispatch(1) same .
next
  case (step_connect err)
  then show ?thesis using tr by (auto simp: connect_ended_def new_connection_def traced_def served_now_def)
next
  case step_timer
  then show ?thesis using tr by (auto simp: timer_ended_def traced_def served_now_def)
qed

lemma pipe_reach_traced:
  assumes "pipe_reach (new_pipe (2 ^ k) h0 ph) s" and "k \<le> 31" and "first_phase ph"
  shows "pipe_inv s \<and> traced s"
  using assms(1)
proof induction
  case reach_start
  have "traced (new_pipe (2 ^ k) h0 ph)" using assms(3) by (auto simp: traced_def new_pipe_def served_now_def new_ring_def first_phase_def entries_def)
  then show ?case using pipe_reach_inv[OF pipe_reach.reach_start assms(2,3), of h0] by blast
next
  case (reach_step s s')
  then show ?case using traced_step pipe_step_inv by blast
qed

lemma commands_cut:
  assumes "concat (map build_commands xs) @ rest = concat (map build_commands ws)"
  shows "take (length xs) ws = xs \<and> length xs \<le> length ws"
  using assms
proof (induction xs arbitrary: ws)
  case (Cons x xs)
  have "build_commands x \<noteq> []" by (simp add: build_commands_eq frame_line_def)
  then obtain w ws' where w: "ws = w # ws'" using Cons.prems by (cases ws) auto
  then have "build_commands x @ (concat (map build_commands xs) @ rest) = build_commands w @ concat (map build_commands ws')"
    using Cons.prems by simp
  from build_commands_prefix[OF this] Cons.IH[of ws'] w show ?case by simp
qed simp

lemma all_commands:
  assumes "\<forall>e\<in>set es. \<exists>ws. snd e = build_commands ws"
  shows "\<exists>wss. map snd es = map build_commands wss"
  using assms
proof (induction es)
  case (Cons e es)
  then obtain ws wss where "snd e = build_commands ws" "map snd es = map build_commands wss" by auto
  then show ?case by (intro exI[of _ "ws # wss"]) simp
qed simp

section \<open>A command on its way\<close>

text \<open>A fresh connection of a client with a ring of two cells, for concrete instances.\<close>

definition ping_start :: "nat pipe_sys" where
  "ping_start = new_pipe 2 0 (Serving Await_event Await_parse)"

definition ping_payload :: string where "ping_payload = build_commands [''PING'']"

definition ping_ring :: "u64 \<Rightarrow> u64 \<Rightarrow> nat ring" where
  "ping_ring h c = \<lparr>head = h, head_committed = c, tail = 1, handles = [10, 0], payloads = [ping_payload, []], xcapacity = 2\<rparr>"

definition ping_done :: "nat pipe_sys" where
  "ping_done = \<lparr>queue = ping_ring 1 1, alive = True, backoff = 1, task = Serving Await_event Poll, accepted = [(10, ping_payload)],
     answered = [(10, Simple_string ''PONG'')], sent = ping_payload, served = [(10, ping_payload)], replies = [Simple_string ''PONG'']\<rparr>"

lemma ping_payload_ne: "ping_payload \<noteq> []" "0 < length ping_payload"
  by (simp_all add: ping_payload_def build_commands_eq frame_line_def)

lemma ping_pushed: "ring_push (10, ping_payload) (new_ring 2 0) = (0, ping_ring 0 0)"
  by (simp add: ping_ring_def ring_eval replicate_two)

lemma ping_batch:
  "next_batch (ping_ring 0 0) = (Await_writev [ping_payload] 0 (length ping_payload), ping_ring 0 1)"
  "next_batch (ping_ring 0 1) = (Await_event, ping_ring 0 1)"
  using ping_payload_ne by (simp_all add: next_batch_def prep_writev_def ping_ring_def XREDIS_PIPELINE_BATCH_SIZE_def ring_mask_def Let_def)

lemma ping_in_flight: "in_flight (ping_ring 0 1) = [(10, ping_payload)]"
  by (simp add: in_flight_def ping_ring_def entry_def ring_mask_def)

lemma ping_answer: "answer v (ping_ring 0 1) = ((10, v), ping_ring 1 1)"
  by (simp add: answer_def ring_pop_def ping_ring_def ring_mask_def Let_def)

lemma ping_reach: "pipe_reach ping_start ping_done"
proof -
  let ?s1 = "ping_start\<lparr>queue := ping_ring 0 0, accepted := [(10, ping_payload)]\<rparr>"
  let ?s2 = "?s1\<lparr>queue := ping_ring 0 1, task := Serving (Await_writev [ping_payload] 0 (length ping_payload)) Await_parse\<rparr>"
  let ?s3 = "?s2\<lparr>sent := ping_payload, task := Serving Await_event Await_parse\<rparr>"
  have "pipe_step ping_start (ping_start\<lparr>queue := ping_ring 0 0, accepted := accepted ping_start @ (if 0 \<le> (0 :: int) then [(10, ping_payload)] else [])\<rparr>)"
    by (rule step_push) (simp_all add: ping_start_def new_pipe_def ping_pushed)
  then have "pipe_step ping_start ?s1" by (simp add: ping_start_def new_pipe_def)
  from reach_step[OF reach_start this] have 1: "pipe_reach ping_start ?s1" .
  have "pipe_step ?s1 (run_writer (Inr (Await_writev [ping_payload] 0 (length ping_payload)), ping_ring 0 1) (written Await_event (8, 0)) Await_parse ?s1)"
    by (rule step_writer) (simp_all add: ping_start_def new_pipe_def may_write_def ping_batch)
  then have "pipe_step ?s1 ?s2" by (simp add: run_writer_def written_def ping_start_def new_pipe_def Let_def)
  from reach_step[OF 1 this] have 2: "pipe_reach ping_start ?s2" .
  let ?w = "Await_writev [ping_payload] 0 (length ping_payload)"
  have "pipe_step ?s2 (run_writer (Inr Await_event, ping_ring 0 1) (written ?w (length ping_payload, 0)) Await_parse ?s2)"
    using ping_payload_ne by (intro step_writer) (simp_all add: may_write_def ping_batch)
  then have "pipe_step ?s2 ?s3" by (simp add: run_writer_def written_def ping_start_def new_pipe_def Let_def)
  from reach_step[OF 2 this] have 3: "pipe_reach ping_start ?s3" .
  have "pipe_step ?s3 (run_reader (reader_parsed (Simple_string ''PONG'', 0) (queue ?s3)) Await_event
      (?s3\<lparr>replies := replies ?s3 @ (if res_err (Simple_string ''PONG'', 0) = 0 then [res_val (Simple_string ''PONG'', 0)] else [])\<rparr>))"
    by (rule step_parsed) (simp_all add: ping_in_flight)
  then have "pipe_step ?s3 ping_done"
    by (simp add: run_reader_def reader_parsed_def ping_answer ping_in_flight ping_done_def ping_start_def new_pipe_def Let_def)
  from reach_step[OF 3 this] show ?thesis .
qed

section \<open>The properties\<close>

text \<open>C21. A chain built by calls on a client has the payload of each plain command in the order of the
  calls; awaiting it, when the ring has room, appends these requests to those the pipe has
  accepted, with the handles of the coroutines that wait for them, and signals the pipe once.\<close>

theorem client_chain_accepted:
  assumes "\<forall>d\<in>set ds. plain_call d" and "client_calls dtext ds = Some c" and "length hs = length ds"
    and "pipe_reach s0 s" and "task s \<noteq> Deleted" and "ring_wf (queue s)"
    and "length (entries (queue s)) + length ds \<le> xcapacity (queue s)" and "unat (tail (queue s)) + length ds \<le> 2 ^ 63"
    and "await_chain hook h hs c \<lparr>ring_of = queue s, signals = n\<rparr> = (True, a, p)"
  shows "\<exists>wss. map (client_words dtext) ds = map Some wss \<and> signals p = n + 1 \<and>
    pipe_reach s0 (s\<lparr>queue := ring_of p, accepted := accepted s @ zip (if length ds = 1 then [h] else hs) (map build_commands wss)\<rparr>)"
proof -
  from client_calls_words[OF assms(1,2)] obtain wss where w: "map (client_words dtext) ds = map Some wss"
    "chain_ops c = map build_commands wss" by blast
  have len: "length wss = length ds" using w(1) by (metis length_map)
  have ne: "ds \<noteq> []" using assms(2) by auto
  have lens: "length hs = length (chain_ops c)" "chain_ops c \<noteq> []" using w(2) len ne assms(3) by auto
  have "chain_requests h hs c = zip (if length ds = 1 then [h] else hs) (map build_commands wss)"
    using w(2) len ne by (cases wss; cases "tl wss") (auto simp: chain_requests_def)
  moreover have "pipe_reach s0 (s\<lparr>queue := ring_of p, accepted := accepted s @ chain_requests h hs c\<rparr>) \<and> signals p = n + 1"
    using await_chain_reach[OF assms(4-6) lens(2,1) _ _ assms(9)] assms(7,8) w(2) len by simp
  ultimately show ?thesis using w(1) by auto
qed

theorem client_chain_accepted_witness:
  "\<exists>p :: nat pipe_end. signals p = 1 \<and>
     pipe_reach ping_start (ping_start\<lparr>queue := ring_of p,
       accepted := [(11, build_commands [''GET'', ''k'']), (12, build_commands [''GETDEL'', ''k''])]\<rparr>)"
proof -
  let ?ds = "[Cmd_string (C_get ''k''), Cmd_string (C_getdel ''k'')]" and ?dt = "\<lambda>_. []" and ?p = "\<lparr>ring_of = queue ping_start, signals = 0\<rparr>"
  let ?c = "awaiter_command [''GETDEL'', ''k''] (client_command [''GET'', ''k''])"
  have calls: "client_calls ?dt ?ds = Some ?c" by (simp add: api_simps)
  obtain b a p where await: "await_chain None 10 [11, 12] ?c ?p = (b, a, p)" by (metis prod_cases3)
  have b: b using await
    by (simp add: await_chain_def awaiter_command_def awaiter_chain_def client_command_def command_awaiter_def operation_suspend_def ring_eval
      ping_start_def new_pipe_def Let_def)
  have "ring_wf (queue ping_start)" "entries (queue ping_start) = []"
    using new_ring_wf[of 1 "0 :: nat"] by (simp_all add: ping_start_def new_pipe_def)
  then have "\<exists>wss. map (client_words ?dt) ?ds = map Some wss \<and> signals p = 0 + 1 \<and>
    pipe_reach ping_start (ping_start\<lparr>queue := ring_of p, accepted := accepted ping_start @ zip (if length ?ds = 1 then [10] else [11, 12]) (map build_commands wss)\<rparr>)"
    using await b by (intro client_chain_accepted[OF _ calls]) (simp_all add: reach_start ping_start_def new_pipe_def new_ring_def)
  then obtain wss where w: "map (client_words ?dt) ?ds = map Some wss" "signals p = 0 + 1"
    "pipe_reach ping_start (ping_start\<lparr>queue := ring_of p, accepted := accepted ping_start @ zip (if length ?ds = 1 then [10] else [11, 12]) (map build_commands wss)\<rparr>)"
    by blast
  have "wss = [[''GET'', ''k''], [''GETDEL'', ''k'']]" using w(1) by (auto simp: api_simps)
  then show ?thesis using w(2,3) by (intro exI[of _ p]) (simp add: ping_start_def new_pipe_def)
qed

text \<open>C18. From the call to the reply: when all requests a pipe accepted are commands, a server that has
  read some commands from the bytes of this connection has read a run of the accepted requests, in
  the order in which they were accepted and word for word; and the replies it has sent so far
  went, in order, to the coroutines that wait for the first of these commands.\<close>

theorem client_end_to_end:
  assumes "pipe_reach (new_pipe (2 ^ k) h0 ph) s" and "k \<le> 31" and "first_phase ph" and "task s = Serving w rd"
    and "\<forall>e\<in>set (accepted s). \<exists>ws. snd e = build_commands ws"
    and "sent s = concat (map build_commands xs) @ rest"
  shows "\<exists>old run new past now. accepted s = old @ run @ new \<and> map snd run = map build_commands xs \<and>
    answered s = past @ now \<and> replies s = map snd now @ reader_pending rd \<and>
    map fst (take (length run) now) = map fst (take (length now) run)"
proof -
  from pipe_reach_traced[OF assms(1-3)] have inv: "pipe_inv s" and tr: "traced s" by auto
  from pipe_invD[OF inv assms(4)] have led: "ledger s" and con: "connection w rd s" by auto
  have wf: "ring_wf (queue s)" using led by (simp add: ledger_def)
  from tr assms(4) obtain old where old: "accepted s = old @ served s @ entries (queue s)" by (auto simp: traced_def served_now_def)
  let ?es = "served s @ in_flight (queue s)" and ?n = "length xs"
  have acc: "accepted s = old @ ?es @ uncommitted (queue s)" using old entries_split[OF wf] by simp
  have "\<forall>e\<in>set ?es. \<exists>ws. snd e = build_commands ws" using assms(5) acc by auto
  from all_commands[OF this] obtain ws where ws: "map snd ?es = map build_commands ws" by blast
  have "sent s @ writer_pending w = concat (map snd ?es)" using con by (simp add: connection_def)
  then have "concat (map build_commands xs) @ (rest @ writer_pending w) = concat (map build_commands ws)"
    using assms(6) unfolding ws by simp
  from commands_cut[OF this] have cut: "take ?n ws = xs" "?n \<le> length ws" by auto
  have "map snd (take ?n ?es) = map build_commands xs" using ws cut(1) by (metis take_map)
  moreover obtain past now where now: "answered s = past @ now" "map fst now = map fst (served s)" "replies s = map snd now @ reader_pending rd"
    using con by (auto simp: connection_def)
  have len: "length now = length (served s)" using now(2) by (metis length_map)
  have n: "length (take ?n ?es) = ?n" using cut(2) ws by (metis length_map length_take min.absorb2)
  have fst_now: "take (length now) (map fst ?es) = map fst now" using now(2) len by simp
  have swap: "map fst (take (length now) (take ?n ?es)) = take ?n (take (length now) (map fst ?es))" by (simp only: take_map take_take min.commute)
  have "map fst (take (length (take ?n ?es)) now) = map fst (take (length now) (take ?n ?es))"
    unfolding swap fst_now n by (rule take_map[symmetric])
  moreover have "accepted s = old @ take ?n ?es @ (drop ?n ?es @ uncommitted (queue s))"
    using acc by (metis append.assoc append_take_drop_id)
  ultimately show ?thesis using now(1,3) by blast
qed

theorem client_end_to_end_witness:
  "\<exists>old run new past now. accepted ping_done = old @ run @ new \<and> map snd run = map build_commands [[''PING'']] \<and>
    answered ping_done = past @ now \<and> replies ping_done = map snd now @ reader_pending Poll \<and>
    map fst (take (length run) now) = map fst (take (length now) run)"
proof (rule client_end_to_end)
  show "pipe_reach (new_pipe (2 ^ 1) 0 (Serving Await_event Await_parse)) ping_done" using ping_reach by (simp add: ping_start_def)
  show "first_phase (Serving Await_event Await_parse)" by (simp add: first_phase_def)
  show "task ping_done = Serving Await_event Poll" by (simp add: ping_done_def)
  show "\<forall>e\<in>set (accepted ping_done). \<exists>ws. snd e = build_commands ws"
    using exI[of "\<lambda>ws. ping_payload = build_commands ws" "[''PING'']"] by (simp add: ping_done_def ping_payload_def)
  show "sent ping_done = concat (map build_commands [[''PING'']]) @ []" by (simp add: ping_done_def ping_payload_def)
qed simp

end
