(* ===== verification/Cluster_Replies.thy ===== *)
theory Cluster_Replies
  imports Cluster_Core
begin

text \<open>
  \<open>handle_response\<close> and the reader of \<open>RedisCluster\<close> (include/RedisCluster.hpp): a reply goes to
  the request it answers, unless it is a redirection: then the request moves to the pipe of
  another shard. What a resumed coroutine does is a step of its own and not part of the handler.
\<close>

section \<open>The code\<close>

definition asking_payload :: string where
  "asking_payload = ''*1'' @ [CR, LF] @ ''$6'' @ [CR, LF] @ ''ASKING'' @ [CR, LF]"

text \<open>Pushing the popped request on the pipe of another shard.\<close>

definition forward :: "bool \<Rightarrow> nat \<Rightarrow> 'h \<times> string \<Rightarrow> 'h cluster \<Rightarrow> ('h \<times> redis_value) list \<times> 'h cluster" where
  "forward asking s e c =
     (case try_connect s c of
        (None, c') \<Rightarrow> ([(fst e, Simple_error CONN_ERR)], c')
      | (Some pipe, c') \<Rightarrow>
          let p = ends c' ! pipe;
              (i, r) = (if asking then ring_push_n [(noop c', asking_payload), e] (ring_of p) else ring_push e (ring_of p))
          in if i < 0 then ([(fst e, push_error i)], c')
             else ([], c'\<lparr>ends := (ends c')[pipe := \<lparr>ring_of = r, signals = signals p + (if asking then 2 else 1)\<rparr>]\<rparr>))"

text \<open>
  \<open>handle_response\<close> for pipe \<open>me\<close>: the code it returns, the handles it resumes with their
  values, what is left in \<open>val\<close> (a moved-from value is null), and the cluster.
\<close>

definition pop_request :: "nat \<Rightarrow> 'h cluster \<Rightarrow> ('h \<times> string) \<times> 'h cluster" where
  "pop_request me c =
     (let (e, r) = ring_pop (ring_of (ends c ! me)) in (e, c\<lparr>ends := (ends c)[me := (ends c ! me)\<lparr>ring_of := r\<rparr>]\<rparr>))"

definition handle_response :: "nat \<Rightarrow> redis_value \<Rightarrow> 'h cluster \<Rightarrow>
    (int \<times> ('h \<times> redis_value) list \<times> redis_value \<times> 'h cluster) outcome" where
  "handle_response me val c =
     (let (e, c1) = pop_request me c in
      if \<not> is_error val then Ret (0, [(fst e, val)], Nullptr, c1)
      else bind_outcome (parse_error (as_error val)) (\<lambda>res.
        case res of
          Bad_redirect err \<Rightarrow> Ret (err, [], val, c1)
        | Not_redirect \<Rightarrow> Ret (0, [(fst e, val)], Nullptr, c1)
        | Redirect asking slot i p \<Rightarrow>
            (case find_shard i p (rt c1) of
               (None, r) \<Rightarrow> UB
             | (Some s, r) \<Rightarrow>
                 if \<not> asking \<and> num_slot \<le> slot then UB
                 else
                   let c2 = c1\<lparr>rt := (if asking then r else r\<lparr>slots := (slots r)[slot := Some s]\<rparr>)\<rparr>;
                       (xs, c3) = forward asking s e c2
                   in Ret (0, xs, val, c3))))"

text \<open>
  The reader's turn after a successful \<open>parse\<close>: the reply \<open>result\<close> is handled, then
  \<open>try_parse_n\<close> finds \<open>values\<close>. The loop over them passes \<open>result\<close> again.
\<close>

fun reader_loop :: "nat \<Rightarrow> redis_value \<Rightarrow> redis_value list \<Rightarrow> 'h cluster \<Rightarrow>
    (int \<times> ('h \<times> redis_value) list \<times> 'h cluster) outcome" where
  "reader_loop me result [] c = Ret (0, [], c)"
| "reader_loop me result (v # vs) c =
     bind_outcome (handle_response me result c) (\<lambda>(err, xs, result', c').
       if err \<noteq> 0 then Ret (err, xs, c')
       else bind_outcome (reader_loop me result' vs c') (\<lambda>(err', ys, c''). Ret (err', xs @ ys, c'')))"

definition cluster_reader :: "nat \<Rightarrow> redis_value \<Rightarrow> redis_value list \<Rightarrow> int \<Rightarrow> 'h cluster \<Rightarrow>
    (int \<times> ('h \<times> redis_value) list \<times> 'h cluster) outcome" where
  "cluster_reader me result values_read num_err c =
     bind_outcome (handle_response me result c) (\<lambda>(err, xs, result', c').
       if err \<noteq> 0 then Ret (err, xs, c')
       else bind_outcome (reader_loop me result' values_read c') (\<lambda>(err', ys, c'').
         Ret (if err' \<noteq> 0 then err' else num_err, xs @ ys, c'')))"

section \<open>Queues\<close>

text \<open>The requests in the ring of a pipe.\<close>

definition queue :: "'h cluster \<Rightarrow> nat \<Rightarrow> ('h \<times> string) list" where
  "queue c q = (if q < length (ends c) then entries (ring_of (ends c ! q)) else [])"

definition popped :: "'h cluster \<Rightarrow> nat \<Rightarrow> nat \<Rightarrow> ('h \<times> string) list" where
  "popped c me q = (if q = me then tl (queue c q) else queue c q)"

definition block :: "bool \<Rightarrow> 'h \<times> string \<Rightarrow> 'h cluster \<Rightarrow> ('h \<times> string) list" where
  "block asking e c = (if asking then [(noop c, asking_payload), e] else [e])"

text \<open>
  The ring has two places at least (4096 unless the user asks otherwise), and its counter of 63 bits
  is not at its end. How many of the places are free does not matter.
\<close>

definition ring_room :: "'h ring \<Rightarrow> bool" where
  "ring_room r \<longleftrightarrow> 2 \<le> xcapacity r \<and> (open_ring r \<longrightarrow> unat (tail r) + 2 \<le> 2 ^ 63)"

definition has_room :: "'h cluster \<Rightarrow> bool" where
  "has_room c \<longleftrightarrow> (\<forall>p\<in>set (ends c). ring_room (ring_of p))"

definition redirect_of :: "redis_value \<Rightarrow> redirect" where
  "redirect_of val = (if is_error val then case parse_error (as_error val) of Ret r \<Rightarrow> r | _ \<Rightarrow> Not_redirect else Not_redirect)"

lemma cluster_ok_end:
  assumes "cluster_ok c" and "ring_wf r"
  shows "cluster_ok (c\<lparr>ends := (ends c)[q := \<lparr>ring_of = r, signals = n\<rparr>]\<rparr>)"
  using assms set_update_subset_insert[of "ends c" q "\<lparr>ring_of = r, signals = n\<rparr>"]
  by (auto simp: cluster_ok_def)

lemma pop_request_spec:
  assumes ok: "cluster_ok c" and me: "me < length (ends c)" and fl: "in_flight (ring_of (ends c ! me)) = e # es"
  shows "\<exists>c1. pop_request me c = (e, c1) \<and> cluster_ok c1 \<and> queue c1 = popped c me \<and> rt c1 = rt c \<and>
    noop c1 = noop c \<and> length (ends c1) = length (ends c) \<and> in_flight (ring_of (ends c1 ! me)) = es"
proof -
  have wf: "ring_wf (ring_of (ends c ! me))" using cluster_okD(6)[OF ok me] .
  obtain r where r: "ring_pop (ring_of (ends c ! me)) = (e, r)" "ring_wf r" "in_flight r = es"
    "uncommitted r = uncommitted (ring_of (ends c ! me))" using pop_entry[OF wf fl] by blast
  let ?p = "\<lparr>ring_of = r, signals = signals (ends c ! me)\<rparr>"
  let ?c1 = "c\<lparr>ends := (ends c)[me := ?p]\<rparr>"
  have "pop_request me c = (e, ?c1)"
    using r(1) by (cases "ends c ! me") (simp add: pop_request_def)
  moreover have "entries r = tl (entries (ring_of (ends c ! me)))"
    using entries_split[OF wf] entries_split[OF r(2)] fl r(3,4) by simp
  then have "queue ?c1 = popped c me" using me by (auto simp: fun_eq_iff queue_def popped_def)
  ultimately show ?thesis using cluster_ok_end[OF ok r(2)] me r(3) by (intro exI[of _ ?c1]) simp
qed

text \<open>Pushing one or two requests.\<close>

lemma push_block:
  assumes wf: "ring_wf r" and room: "asking \<longrightarrow> ring_room r"
    and push: "(if asking then ring_push_n [(nop, asking_payload), e] r else ring_push e r) = (i, r')"
  shows "if i < 0 then ring_wf r' \<and> i \<in> {-1, -2} \<and> entries r' = entries r
     else if asking \<and> length (entries r) + 1 = xcapacity r
     then xcapacity r' = xcapacity r \<and> entries r' = e # tl (entries r) @ [(nop, asking_payload), e]
     else ring_wf r' \<and> entries r' = entries r @ (if asking then [(nop, asking_payload), e] else [e])"
proof (cases asking)
  case False
  then have push': "ring_push e r = (i, r')" using push by simp
  show ?thesis
  proof (cases "i < 0")
    case True
    then have "r' = r" using ring_push_refused[OF wf push'] by simp
    moreover have "i \<in> {-1, -2}"
      using ring_push_cases[OF wf, of e] push' True sint_pos[OF ring_wf_shape[OF wf], of "tail r"] by (auto split: if_splits)
    ultimately show ?thesis using True wf by simp
  next
    case no: False
    then have "ring_wf r' \<and> in_flight r' = in_flight r \<and> uncommitted r' = uncommitted r @ [e]"
      using ring_push_accepted[OF wf push'] by simp
    then show ?thesis using no False entries_split[of r'] entries_split[OF wf] by simp
  qed
next
  case True
  let ?es = "[(nop, asking_payload), e]"
  have push': "ring_push_n ?es r = (i, r')" using push True by simp
  have c: "ring_push_n ?es r = (if \<not> open_ring r then (-2, r) else if xcapacity r \<le> length (entries r) then (-1, r)
      else ring_push_n ?es r)"
    using stop_clear_iff[of "tail r"] full_iff[OF wf] wf
    by (simp add: ring_push_n_def Let_def open_ring_def ring_wf_def)
  consider (refused) "\<not> (open_ring r \<and> length (entries r) < xcapacity r)"
    | (one) "open_ring r" "length (entries r) + 1 = xcapacity r"
    | (fits) "open_ring r" "length (entries r) < xcapacity r" "length (entries r) + 1 \<noteq> xcapacity r" by linarith
  then show ?thesis
  proof cases
    case one
    then have "2 \<le> xcapacity r" "unat (tail r) + 2 \<le> 2 ^ 63" using room True by (simp_all add: ring_room_def)
    from push_n_one_place[OF wf one this, of "(nop, asking_payload)" e] one push' True show ?thesis by auto
  next
    case fits
    then have "length (entries r) + length ?es \<le> xcapacity r" "unat (tail r) + length ?es \<le> 2 ^ 63"
      using room True by (simp_all add: ring_room_def)
    from push_n_entries[OF wf _ _ this] fits push' have "0 \<le> i" "ring_wf r'"
      "in_flight r' = in_flight r" "uncommitted r' = uncommitted r @ ?es" by auto
    then show ?thesis using True fits(3) entries_split[of r'] entries_split[OF wf] by simp
  next
    case refused
    then have "r' = r \<and> i \<in> {-1, -2}" using c push' by (auto split: if_splits)
    then show ?thesis using wf by auto
  qed
qed

text \<open>Where a request that is moved ends up: behind the queue of the pipe of shard \<open>s\<close>, or resumed with
  an error and in no queue.\<close>

definition moved :: "bool \<Rightarrow> nat \<Rightarrow> 'h \<times> string \<Rightarrow> (nat \<Rightarrow> ('h \<times> string) list) \<Rightarrow> ('h \<times> redis_value) list \<Rightarrow> 'h cluster \<Rightarrow> bool" where
  "moved asking s e before xs c' \<longleftrightarrow>
     (xs = [] \<and> (\<exists>k. shard_pipe (heap (rt c') ! s) = Some k \<and>
        (\<forall>q. queue c' q = before q @ (if q = k then block asking e c' else [])))) \<or>
     (\<exists>v\<in>{RING_OVERFLOW, CONN_ERR}. xs = [(fst e, Simple_error v)] \<and> queue c' = before)"

text \<open>ASK at a pipe whose ring has one free place: \<open>push_n\<close> asks for one, not for two, so ASKING takes
  the free place and the request takes that of the oldest request there, whose coroutine is then in
  no queue; the ring counts one entry more than it has places.\<close>

definition overwritten :: "nat \<Rightarrow> 'h \<times> string \<Rightarrow> (nat \<Rightarrow> ('h \<times> string) list) \<Rightarrow> ('h \<times> redis_value) list \<Rightarrow> 'h cluster \<Rightarrow> bool" where
  "overwritten s e before xs c' \<longleftrightarrow>
     xs = [] \<and> (\<exists>k<length (ends c'). shard_pipe (heap (rt c') ! s) = Some k \<and>
        length (before k) + 1 = xcapacity (ring_of (ends c' ! k)) \<and>
        (\<forall>q. queue c' q = (if q = k then e # tl (before k) @ block True e c' else before q)))"

lemma forward_spec:
  assumes ok: "cluster_ok c" and s: "s < length (heap (rt c))" and room: "asking \<longrightarrow> has_room c"
  shows "case forward asking s e c of (xs, c') \<Rightarrow> slots (rt c') = slots (rt c) \<and> table (rt c') = table (rt c) \<and>
    (\<forall>t<length (heap (rt c)). same_address (heap (rt c') ! t) (heap (rt c) ! t)) \<and>
    (cluster_ok c' \<and> moved asking s e (queue c) xs c' \<or> asking \<and> overwritten s e (queue c) xs c')"
proof -
  obtain pipe c1 where tc: "try_connect s c = (pipe, c1)" by fastforce
  note spec = try_connect_spec[OF ok s, unfolded tc prod.case]
  show ?thesis
  proof (cases pipe)
    case None
    then show ?thesis using spec tc ok by (auto simp: forward_def moved_def)
  next
    case (Some k)
    let ?p = "ends c1 ! k"
    have k: "k < length (ends c1)" "shard_pipe (heap (rt c1) ! s) = Some k"
      and ends: "ends c1 = ends c \<or> k = length (ends c) \<and> (\<exists>q. ends c1 = ends c @ [q] \<and> fresh_pipe c q)"
      and ok1: "cluster_ok c1" using spec Some by auto
    have before: "queue c1 q = queue c q" for q
      using ends by (cases "q = length (ends c)") (auto simp: queue_def fresh_pipe_def nth_append)
    have wf: "ring_wf (ring_of ?p)" using cluster_okD(6)[OF ok1 k(1)] .
    obtain n where "1 \<le> n" "capacity c = 2 ^ n" using ok by (auto simp: cluster_ok_def)
    then have "1 < capacity c" using one_less_power[of "2 :: nat" n] by simp
    then have room1: "asking \<longrightarrow> ring_room (ring_of ?p)"
      using room ends k(1) by (auto simp: has_room_def ring_room_def open_ring_def fresh_pipe_def nth_append)
    obtain i r where push: "(if asking then ring_push_n [(noop c1, asking_payload), e] (ring_of ?p) else ring_push e (ring_of ?p)) = (i, r)"
      by fastforce
    note pb = push_block[OF wf room1 push]
    show ?thesis
    proof (cases "i < 0")
      case True
      then have "forward asking s e c = ([(fst e, push_error i)], c1)" using tc Some push by (simp add: forward_def Let_def)
      moreover have "queue c1 = queue c" using before by blast
      moreover have "\<exists>v\<in>{RING_OVERFLOW, CONN_ERR}. push_error i = Simple_error v" using pb True by (auto simp: push_error_def)
      ultimately show ?thesis using spec Some by (simp add: moved_def)
    next
      case False
      let ?q = "\<lparr>ring_of = r, signals = signals ?p + (if asking then 2 else 1)\<rparr>"
      let ?c2 = "c1\<lparr>ends := (ends c1)[k := ?q]\<rparr>"
      have f: "forward asking s e c = ([], ?c2)" using tc Some push False by (simp add: forward_def Let_def)
      show ?thesis
      proof (cases "asking \<and> length (entries (ring_of ?p)) + 1 = xcapacity (ring_of ?p)")
        case one: True
        have "xcapacity r = xcapacity (ring_of ?p)" "entries r = e # tl (queue c k) @ block True e ?c2"
          using pb False one k(1) before[of k] by (simp_all add: queue_def block_def)
        moreover have "entries (ring_of ?p) = queue c k" using k(1) before[of k] by (simp add: queue_def)
        moreover have "queue ?c2 q = (if q = k then entries r else queue c q)" for q
          using k(1) before[of q] by (auto simp: queue_def)
        ultimately have "overwritten s e (queue c) [] ?c2"
          using k one unfolding overwritten_def by (intro conjI exI[of _ k]) simp_all
        then show ?thesis using spec Some f one by simp
      next
        case more: False
      then have new: "ring_wf r" "entries r = queue c k @ block asking e ?c2"
        using pb False k(1) before[of k] by (auto simp: queue_def block_def)
      then have "queue ?c2 q = queue c q @ (if q = k then block asking e ?c2 else [])" for q
        using k(1) before[of q] by (auto simp: queue_def)
      then have "moved asking s e (queue c) [] ?c2" using k(2) by (simp add: moved_def)
      moreover have "cluster_ok ?c2" using new(1) by (intro cluster_ok_end[OF ok1])
      ultimately show ?thesis using spec Some f by simp
      qed
    qed
  qed
qed

lemma all_less_snoc: "(\<forall>t<length (xs @ [x]). P ((xs @ [x]) ! t)) \<longleftrightarrow> (\<forall>t<length xs. P (xs ! t)) \<and> P x"
  by (auto simp: nth_append less_Suc_eq)

lemma find_shard_ok:
  assumes ok: "cluster_ok c" and f: "find_shard i p (rt c) = (Some s, r)" and n: "n < num_slot \<or> asking"
  shows "cluster_ok (c\<lparr>rt := if asking then r else r\<lparr>slots := (slots r)[n := Some s]\<rparr>\<rparr>) \<and> s < length (heap r) \<and> holds r i p s"
proof -
  note d = cluster_okD[OF ok]
  note spec = find_shard_cases[OF d(1), of i p, unfolded f prod.case option.case]
  have heap: "r = rt c \<or> heap r = heap (rt c) @ [new_shard i p]" using spec by (auto split: if_splits)
  have s: "s < length (heap r)"
    using spec by (auto simp: table_ok_def holds_def in_set_conv_nth)
  have shards: "\<forall>t<length (heap r). connected (heap r ! t) \<in> {0, 3} \<or>
      connected (heap r ! t) = 2 \<and> (\<exists>p<length (ends c). shard_pipe (heap r ! t) = Some p)"
    using heap
  proof
    let ?P = "\<lambda>sh. connected sh \<in> {0, 3} \<or> connected sh = 2 \<and> (\<exists>p<length (ends c). shard_pipe sh = Some p)"
    assume h: "heap r = heap (rt c) @ [new_shard i p]"
    have "\<forall>t<length (heap (rt c)). ?P (heap (rt c) ! t)" using d(7) by blast
    moreover have "?P (new_shard i p)" by (simp add: new_shard_def)
    ultimately show ?thesis unfolding h by (rule all_less_snoc[where P = ?P, THEN iffD2, OF conjI])
  next
    assume same: "r = rt c"
    show ?thesis unfolding same using d(7) by (intro allI impI)
  qed
  have slot: "t < length (heap r)" if "Some t \<in> set (slots r)" for t
    using d(5)[of t] that spec heap by auto
  have "Some t \<in> set ((slots r)[n := Some s]) \<Longrightarrow> t < length (heap r)" for t
    using set_update_subset_insert[of "slots r" n "Some s"] slot s by auto
  then have "cluster_ok (c\<lparr>rt := if asking then r else r\<lparr>slots := (slots r)[n := Some s]\<rparr>\<rparr>)"
    using ok spec shards slot by (auto simp: cluster_ok_def table_ok_def home_def)
  then show ?thesis using s spec by blast
qed

section \<open>Properties\<close>

text \<open>C17. A reply that is no redirection goes to the request at the head of the queue, whose coroutine is
  resumed with it, and nothing else changes. A MOVED or ASK reply whose address cannot be read
  ends the connection with an error: by then the request is popped, and its coroutine is in no
  queue and is not resumed.\<close>
theorem handle_response_answers:
  assumes "cluster_ok c" and "me < length (ends c)" and "in_flight (ring_of (ends c ! me)) = e # es"
  shows "case redirect_of val of
      Not_redirect \<Rightarrow> \<exists>c'. handle_response me val c = Ret (0, [(fst e, val)], Nullptr, c') \<and> cluster_ok c' \<and>
        rt c' = rt c \<and> queue c' = popped c me
    | Bad_redirect err \<Rightarrow> \<exists>c'. handle_response me val c = Ret (err, [], val, c') \<and> cluster_ok c' \<and>
        rt c' = rt c \<and> queue c' = popped c me
    | Redirect asking slot i p \<Rightarrow> True"
proof -
  obtain c1 where "pop_request me c = (e, c1)" "cluster_ok c1" "queue c1 = popped c me" "rt c1 = rt c"
    using pop_request_spec[OF assms] by blast
  moreover obtain res where "parse_error (as_error val) = Ret res" using parse_error_total by blast
  ultimately show ?thesis by (cases "is_error val"; cases res) (auto simp: handle_response_def redirect_of_def)
qed

text \<open>C6. A MOVED or ASK reply whose address can be read leads to the shard of that address, found or newly
  made; MOVED also sets the slot. The request is popped and then stands, behind ASKING for ASK,
  at the end of the queue of that shard's pipe, or its coroutine is resumed with RING OVERFLOW
  or CONN ERR, and the cluster stays well-formed; or the reply was ASK and that pipe's ring had one
  free place: then the request is written over the oldest request there, which is lost, as well as
  to the end. The handler is undefined only when the table is full without the address, or when
  MOVED names a slot that is none. (For ASK the rings have at least two places and their 63-bit
  counters are not at their end.)\<close>
theorem handle_response_redirects:
  assumes "cluster_ok c" and "me < length (ends c)" and "in_flight (ring_of (ends c ! me)) = e # es"
    and "redirect_of val = Redirect asking slot i p" and "asking \<longrightarrow> has_room (snd (pop_request me c))"
  shows "if None \<notin> set (table (rt c)) \<and> (\<forall>s. \<not> holds (rt c) i p s) \<or> \<not> asking \<and> num_slot \<le> slot
    then handle_response me val c = UB
    else \<exists>xs c' s. handle_response me val c = Ret (0, xs, val, c') \<and> holds (rt c') i p s \<and>
      slots (rt c') = (if asking then slots (rt c) else (slots (rt c))[slot := Some s]) \<and>
      (cluster_ok c' \<and> moved asking s e (popped c me) xs c' \<or> asking \<and> overwritten s e (popped c me) xs c')"
proof -
  obtain c1 where c1: "pop_request me c = (e, c1)" "cluster_ok c1" "queue c1 = popped c me" "rt c1 = rt c"
    using pop_request_spec[OF assms(1-3)] by blast
  have err: "is_error val" "parse_error (as_error val) = Ret (Redirect asking slot i p)"
    using assms(4) parse_error_total[of "as_error val"] by (auto simp: redirect_of_def split: if_splits)
  obtain res r where f: "find_shard i p (rt c) = (res, r)" by fastforce
  note spec = find_shard_cases[OF cluster_okD(1)[OF assms(1)], of i p, unfolded f prod.case]
  show ?thesis
  proof (cases "\<not> asking \<and> num_slot \<le> slot")
    case True
    then have "handle_response me val c = UB" using c1 err f by (cases res) (simp_all add: handle_response_def)
    then show ?thesis using True by simp
  next
    case False
    show ?thesis
    proof (cases res)
      case None
      then show ?thesis using spec c1 err f by (simp add: handle_response_def)
    next
      case (Some s)
      let ?c2 = "c1\<lparr>rt := if asking then r else r\<lparr>slots := (slots r)[slot := Some s]\<rparr>\<rparr>"
      have fs: "find_shard i p (rt c1) = (Some s, r)" using f Some c1(4) by simp
      have "slot < num_slot \<or> asking" using False by auto
      from find_shard_ok[OF c1(2) fs this] have ok2: "cluster_ok ?c2" "s < length (heap r)" "holds r i p s" by auto
      have "s < length (heap (rt ?c2))" using ok2(2) by simp
      moreover have "asking \<longrightarrow> has_room ?c2" using assms(5) c1(1) by (simp add: has_room_def)
      ultimately have fw: "case forward asking s e ?c2 of (xs, c') \<Rightarrow> slots (rt c') = slots (rt ?c2) \<and>
        table (rt c') = table (rt ?c2) \<and> (\<forall>t<length (heap (rt ?c2)). same_address (heap (rt c') ! t) (heap (rt ?c2) ! t)) \<and>
        (cluster_ok c' \<and> moved asking s e (queue ?c2) xs c' \<or> asking \<and> overwritten s e (queue ?c2) xs c')" by (rule forward_spec[OF ok2(1)])
      obtain xs c' where x: "forward asking s e ?c2 = (xs, c')" by fastforce
      note y = fw[unfolded x prod.case]
      have h: "handle_response me val c = Ret (0, xs, val, c')"
        using c1(1) err fs x False by (simp add: handle_response_def Let_def)
      have "queue ?c2 = popped c me" unfolding c1(3)[symmetric] by (simp add: queue_def fun_eq_iff)
      moreover have "holds (rt c') i p s"
        using y ok2(2,3) by (auto simp: holds_def at_address_def same_address_def)
      moreover have "slots r = slots (rt c)" using spec by simp
      ultimately have "\<exists>xs c' s. handle_response me val c = Ret (0, xs, val, c') \<and> holds (rt c') i p s \<and>
        slots (rt c') = (if asking then slots (rt c) else (slots (rt c))[slot := Some s]) \<and>
        (cluster_ok c' \<and> moved asking s e (popped c me) xs c' \<or> asking \<and> overwritten s e (popped c me) xs c')"
        using h y by (intro exI[of _ xs] exI[of _ c'] exI[of _ s]) simp
      moreover have "None \<in> set (table (rt c)) \<or> holds (rt c) i p s"
        using find_loop_full[of "rt c"] f[unfolded find_shard_def Some] cluster_okD(1)[OF assms(1)]
        unfolding table_ok_def by blast
      ultimately show ?thesis using False by auto
    qed
  qed
qed

section \<open>The reader\<close>

lemma not_error_Nullptr: "\<not> is_error Nullptr"
  by (simp add: is_type_defs)

lemma handle_plain:
  assumes "cluster_ok c" and "me < length (ends c)" and "in_flight (ring_of (ends c ! me)) = e # es" and "\<not> is_error val"
  shows "\<exists>c'. handle_response me val c = Ret (0, [(fst e, val)], Nullptr, c') \<and> cluster_ok c' \<and>
    length (ends c') = length (ends c) \<and> in_flight (ring_of (ends c' ! me)) = es"
  using pop_request_spec[OF assms(1-3)] assms(4) by (auto simp: handle_response_def)

lemma reader_loop_nulls:
  assumes "cluster_ok c" and "me < length (ends c)" and "length vs \<le> length (in_flight (ring_of (ends c ! me)))"
  shows "\<exists>c'. reader_loop me Nullptr vs c =
      Ret (0, map (\<lambda>e. (fst e, Nullptr)) (take (length vs) (in_flight (ring_of (ends c ! me)))), c') \<and> cluster_ok c'"
  using assms
proof (induction vs arbitrary: c)
  case (Cons v vs)
  then obtain e es where fl: "in_flight (ring_of (ends c ! me)) = e # es"
    by (cases "in_flight (ring_of (ends c ! me))") auto
  obtain c1 where c1: "handle_response me Nullptr c = Ret (0, [(fst e, Nullptr)], Nullptr, c1)" "cluster_ok c1"
    "length (ends c1) = length (ends c)" "in_flight (ring_of (ends c1 ! me)) = es"
    using handle_plain[OF Cons.prems(1,2) fl not_error_Nullptr] by blast
  have "me < length (ends c1)" "length vs \<le> length (in_flight (ring_of (ends c1 ! me)))"
    using Cons.prems c1 fl by simp_all
  from Cons.IH[OF c1(2) this] c1 fl show ?case by auto
qed simp

text \<open>When several replies have arrived, the reader gives the first to its request and then loses the
  others: every further request is resumed with a null value, whatever its reply was.\<close>
theorem cluster_reader_loses:
  assumes "cluster_ok c" and "me < length (ends c)" and "in_flight (ring_of (ends c ! me)) = e # es"
    and "\<not> is_error result" and "length vs \<le> length es"
  shows "\<exists>c'. cluster_reader me result vs num_err c =
      Ret (num_err, (fst e, result) # map (\<lambda>e. (fst e, Nullptr)) (take (length vs) es), c') \<and> cluster_ok c'"
proof -
  obtain c1 where c1: "handle_response me result c = Ret (0, [(fst e, result)], Nullptr, c1)" "cluster_ok c1"
    "length (ends c1) = length (ends c)" "in_flight (ring_of (ends c1 ! me)) = es"
    using handle_plain[OF assms(1-4)] by blast
  obtain c2 where "reader_loop me Nullptr vs c1 = Ret (0, map (\<lambda>e. (fst e, Nullptr)) (take (length vs) es), c2)" "cluster_ok c2"
    using reader_loop_nulls[of c1 me vs] c1 assms(2,5) by auto
  then show ?thesis using c1(1) by (simp add: cluster_reader_def)
qed

definition demo_busy :: "nat cluster" where
  "demo_busy = demo_cluster\<lparr>ends := [\<lparr>ring_of = \<lparr>head = 0, head_committed = 2, tail = 2, handles = [10, 11],
     payloads = [''a'', ''b''], xcapacity = 2\<rparr>, signals = 2\<rparr>], hosts := [pipe_option (options demo_cluster) ''127.0.0.'' 7000], alive := [True]\<rparr>"

lemma demo_busy_facts:
  "cluster_ok demo_busy" "0 < length (ends demo_busy)" "in_flight (ring_of (ends demo_busy ! 0)) = [(10, ''a''), (11, ''b'')]"
proof -
  have "\<exists>k\<le>31. (2 :: nat) = 2 ^ k" by (rule exI[of _ 1]) simp
  then show "cluster_ok demo_busy"
    using demo_cluster_ok
    by (simp add: cluster_ok_def demo_busy_def demo_cluster_def new_cluster_def new_shard_def ring_wf_def ring_shape_def)
  show "0 < length (ends demo_busy)" by (simp add: demo_busy_def)
  show "in_flight (ring_of (ends demo_busy ! 0)) = [(10, ''a''), (11, ''b'')]"
    by (simp add: demo_busy_def in_flight_def entry_def upt_rec)
qed

theorem cluster_reader_loses_witness:
  "\<exists>c'. cluster_reader 0 (Integer 1) [Integer 2] 0 demo_busy = Ret (0, [(10, Integer 1), (11, Nullptr)], c') \<and> cluster_ok c'"
  using cluster_reader_loses[OF demo_busy_facts, of "Integer 1" "[Integer 2]" 0] by (simp add: is_type_defs)

theorem handle_response_answers_witness:
  "\<exists>c'. handle_response 0 (Simple_error ''MOVED 5 node:7000'') demo_busy = Ret (EPROTO, [], Simple_error ''MOVED 5 node:7000'', c') \<and>
     queue c' = popped demo_busy 0"
proof -
  have "from_chars_unsigned 255 ''node'' = (0, Errc_invalid_argument, None)" by (simp add: from_chars_unsigned_def is_digit_def)
  then have "iptouint32 (''node:7000'' @ [CHR 0x00]) (Suc (Suc (Suc (Suc 0)))) = Ret 0"
    by (simp add: iptouint32_def octets_loop.simps)
  then have "parse_error ''MOVED 5 node:7000'' = Ret (Bad_redirect EPROTO)"
    by (simp add: parse_error_def starts_with_def find_from_def parse_address_def Let_def)
  then have "redirect_of (Simple_error ''MOVED 5 node:7000'') = Bad_redirect EPROTO"
    by (simp add: redirect_of_def is_type_defs)
  with handle_response_answers[OF demo_busy_facts, of "Simple_error ''MOVED 5 node:7000''"] show ?thesis by auto
qed

definition demo_ask :: "nat cluster" where
  "demo_ask = demo_busy\<lparr>rt := (rt demo_busy)\<lparr>heap := [(new_shard 0x7F000001 7000)\<lparr>connected := 2, shard_pipe := Some 0\<rparr>]\<rparr>\<rparr>"

lemma demo_ask_facts:
  "cluster_ok demo_ask" "0 < length (ends demo_ask)" "in_flight (ring_of (ends demo_ask ! 0)) = [(10, ''a''), (11, ''b'')]"
  "holds (rt demo_ask) 0x7F000001 7000 0"
  using demo_busy_facts
  by (simp_all add: cluster_ok_def demo_ask_def demo_busy_def demo_cluster_def new_cluster_def new_shard_def table_ok_def
      home_def router_hash_def holds_def at_address_def)

text \<open>The server answers the first of two requests with ASK, to the pipe's own address. The ring of
  two places has one free when the request is popped: the request and ASKING go in, and the second
  request, \<open>(11, ''b'')\<close>, is gone.\<close>

lemma ask_overwrites:
  "\<exists>c'. handle_response 0 (Simple_error (redirect_text True 9 0x7F000001 7000)) demo_ask =
      Ret (0, [], Simple_error (redirect_text True 9 0x7F000001 7000), c') \<and>
     queue demo_ask 0 = [(10, ''a''), (11, ''b'')] \<and>
     queue c' 0 = [(10, ''a''), (99, asking_payload), (10, ''a'')]"
proof -
  let ?e = "(10 :: nat, ''a'')"
  let ?r = "\<lparr>head = 1, head_committed = 2, tail = 2, handles = [10, 11], payloads = [''a'', ''b''], xcapacity = 2\<rparr> :: nat ring"
  let ?r' = "\<lparr>head = 1, head_committed = 2, tail = 4, handles = [99, 10], payloads = [asking_payload, ''a''], xcapacity = 2\<rparr> :: nat ring"
  let ?c1 = "demo_ask\<lparr>ends := [\<lparr>ring_of = ?r, signals = 2\<rparr>]\<rparr>"
  let ?c2 = "demo_ask\<lparr>ends := [\<lparr>ring_of = ?r', signals = 4\<rparr>]\<rparr>"
  have pop: "pop_request 0 demo_ask = (?e, ?c1)"
    by (simp add: pop_request_def demo_ask_def demo_busy_def ring_pop_def ring_mask_def)
  have push: "ring_push_n [(99, asking_payload), ?e] ?r = (0, ?r')"
    by (simp add: ring_eval)
  have find: "find_shard 0x7F000001 7000 (rt demo_ask) = (Some 0, rt demo_ask)"
    by (simp add: find_shard_def demo_ask_def demo_busy_def demo_cluster_def at_address_def new_shard_def router_hash_def)
  have fw: "forward True 0 ?e (?c1\<lparr>rt := rt demo_ask\<rparr>) = ([], ?c2)"
    by (simp add: forward_def try_connect_def push demo_ask_def demo_busy_def demo_cluster_def new_cluster_def new_shard_def)
  have "handle_response 0 (Simple_error (redirect_text True 9 0x7F000001 7000)) demo_ask =
      Ret (0, [], Simple_error (redirect_text True 9 0x7F000001 7000), ?c2)"
    using fw by (simp add: handle_response_def pop is_type_defs parse_error_text find)
  moreover have "queue ?c2 0 = [(10, ''a''), (99, asking_payload), (10, ''a'')]"
    by (simp add: queue_def entries_def entry_def upt_rec)
  moreover have "queue demo_ask 0 = [(10, ''a''), (11, ''b'')]"
    by (simp add: queue_def entries_def entry_def upt_rec demo_ask_def demo_busy_def)
  ultimately show ?thesis by blast
qed

theorem handle_response_redirects_witness:
  "\<exists>c' s. handle_response 0 (Simple_error (redirect_text True 9 0x7F000001 7000)) demo_ask =
      Ret (0, [], Simple_error (redirect_text True 9 0x7F000001 7000), c') \<and> holds (rt c') 0x7F000001 7000 s \<and>
     slots (rt c') = slots (rt demo_ask) \<and> queue c' 0 = [(10, ''a''), (99, asking_payload), (10, ''a'')]"
proof -
  let ?v = "Simple_error (redirect_text True 9 0x7F000001 7000)"
  have r: "redirect_of ?v = Redirect True 9 0x7F000001 7000"
    by (simp add: redirect_of_def is_type_defs parse_error_text)
  have no: "\<not> (None \<notin> set (table (rt demo_ask)) \<and> (\<forall>s. \<not> holds (rt demo_ask) 0x7F000001 7000 s) \<or>
      \<not> True \<and> num_slot \<le> 9)" using demo_ask_facts(4) by auto
  have room: "True \<longrightarrow> has_room (snd (pop_request 0 demo_ask))"
    by (simp add: has_room_def ring_room_def pop_request_def ring_pop_def demo_ask_def demo_busy_def)
  from handle_response_redirects[OF demo_ask_facts(1-3) r room] ask_overwrites show ?thesis
    unfolding if_not_P[OF no] by auto
qed

end
