(* ===== verification/Cluster_Calls.thy ===== *)
theory Cluster_Calls
  imports Cluster_Replies Call_Chains Key_Slot
begin

text \<open>
  A call on \<open>RedisCluster\<close> from the method to the rings: the chains in cluster mode, and awaiting them,
  which chooses the pipe of every slot and opens it when it is not open yet (include/RedisCluster.hpp,
  include/RedisCommander.hpp). The lemmas show that pipes may be opened before anything is pushed, so
  that the awaiters over given pipes (\<open>Command_Awaiters\<close>) say what the awaiters of a cluster do, and on
  which shard the commands of a chain end.
\<close>

section \<open>Chains on a cluster\<close>

definition cluster_operation :: "bool \<Rightarrow> u16 \<Rightarrow> string \<Rightarrow> chain" where
  "cluster_operation multi slot payload = \<lparr>chain_slots = [slot], chain_ops = [payload], chain_multi = multi\<rparr>"

definition chain_slot :: "u16 \<Rightarrow> string \<Rightarrow> chain \<Rightarrow> chain" where
  "chain_slot new_slot new_op c = c\<lparr>chain_slots := chain_slots c @ [new_slot], chain_ops := chain_ops c @ [new_op]\<rparr>"

text \<open>A method of \<open>RedisCluster\<close>, a method of a chain, and a sequence of such calls. \<open>multi\<close> alone sets the
  flag that \<open>exec\<close> asks for.\<close>

fun is_multi :: "redis_command \<Rightarrow> bool" where
  "is_multi (Cmd_trans (C_multi tag)) = True"
| "is_multi _ = False"

definition cluster_call :: "(u64 \<Rightarrow> string) \<Rightarrow> redis_command \<Rightarrow> chain option" where
  "cluster_call dtext d =
     (case cluster_words dtext d of
        Some (Route_key key, ws) \<Rightarrow> Some (cluster_operation (is_multi d) (get_slot key) (build_commands ws))
      | _ \<Rightarrow> None)"

definition route_slot :: "chain \<Rightarrow> route \<Rightarrow> u16" where
  "route_slot c r = (case r of Route_key key \<Rightarrow> get_slot key | Route_first \<Rightarrow> hd (chain_slots c))"

definition chained_call :: "(u64 \<Rightarrow> string) \<Rightarrow> redis_command \<Rightarrow> chain \<Rightarrow> chain option" where
  "chained_call dtext d c =
     (if d = Cmd_trans C_exec \<and> \<not> chain_multi c then None
      else case chained_words dtext d of
        None \<Rightarrow> None
      | Some (r, ws) \<Rightarrow> Some (chain_slot (route_slot c r) (build_commands ws) c))"

fun chained_calls :: "(u64 \<Rightarrow> string) \<Rightarrow> redis_command list \<Rightarrow> chain \<Rightarrow> chain option" where
  "chained_calls dtext [] c = Some c"
| "chained_calls dtext (d # ds) c =
     (case chained_call dtext d c of None \<Rightarrow> None | Some c' \<Rightarrow> chained_calls dtext ds c')"

fun cluster_calls :: "(u64 \<Rightarrow> string) \<Rightarrow> redis_command list \<Rightarrow> chain option" where
  "cluster_calls dtext [] = None"
| "cluster_calls dtext (d # ds) = (case cluster_call dtext d of None \<Rightarrow> None | Some c \<Rightarrow> chained_calls dtext ds c)"

section \<open>Awaiting\<close>

definition put_ring :: "nat \<Rightarrow> 'h ring \<Rightarrow> 'h cluster \<Rightarrow> 'h cluster" where
  "put_ring p r c = c\<lparr>ends := (ends c)[p := (ends c ! p)\<lparr>ring_of := r\<rparr>]\<rparr>"

text \<open>\<open>push_pipe\<close> of \<open>ClusterCommandOperationAwaiter\<close> asks the cluster for the pipe, which may open it.\<close>

record 'h cluster_push =
  the_cluster :: "'h cluster"
  places :: "nat option list"
  pushed :: operation

definition push_cluster_pipe :: "nat \<Rightarrow> u16 \<Rightarrow> 'h \<times> string \<Rightarrow> 'h cluster_push \<Rightarrow> 'h cluster_push outcome" where
  "push_cluster_pipe idx slot e st =
     bind_outcome (get_pipe slot (the_cluster st)) (\<lambda>(pipe, c).
       case pipe of
         None \<Rightarrow> UB
       | Some p \<Rightarrow>
           if length (ends c) \<le> p then UB
           else
             let (s, w) = claim_set p (places st);
                 (i, r) = ring_push e (ring_of (ends c ! p));
                 c' = put_ring p r c
             in if i < 0
                then Ret \<lparr>the_cluster = c', places = (case w of None \<Rightarrow> s | Some j \<Rightarrow> s[j := None]),
                  pushed = (pushed st)\<lparr>results := (results (pushed st))[idx := push_error i], finished := finished (pushed st) + 1\<rparr>\<rparr>
                else Ret \<lparr>the_cluster = c', places = s, pushed = pushed st\<rparr>)"

fun push_cluster_pipes :: "nat \<Rightarrow> (u16 \<times> 'h \<times> string) list \<Rightarrow> 'h cluster_push \<Rightarrow> 'h cluster_push outcome" where
  "push_cluster_pipes idx [] st = Ret st"
| "push_cluster_pipes idx ((slot, e) # es) st =
     bind_outcome (push_cluster_pipe idx slot e st) (push_cluster_pipes (Suc idx) es)"

definition await_several :: "bool option \<Rightarrow> bool \<Rightarrow> (u16 \<times> 'h \<times> string) list \<Rightarrow> operation \<Rightarrow> 'h cluster \<Rightarrow>
    (bool \<times> operation \<times> 'h cluster) outcome" where
  "await_several hook multi ops a c =
     (if hook = Some False then Ret (False, set_all_cancelled OP_CANCELLED a, c)
      else if multi then
        bind_outcome (get_pipe (fst (hd ops)) c) (\<lambda>(pipe, c').
          case pipe of
            None \<Rightarrow> UB
          | Some p \<Rightarrow>
              if length (ends c') \<le> p then UB
              else
                let (i, r) = ring_push_n (map snd ops) (ring_of (ends c' ! p)); q = (ends c' ! p)\<lparr>ring_of := r\<rparr>
                in if 0 \<le> i then Ret (True, a, c'\<lparr>ends := (ends c')[p := notify q]\<rparr>)
                   else Ret (False, set_all_cancelled (if i = -1 then RING_OVERFLOW else CONN_ERR) a, c'\<lparr>ends := (ends c')[p := q]\<rparr>))
      else
        bind_outcome (push_cluster_pipes 0 ops \<lparr>the_cluster = c, places = replicate (length ops) None, pushed = a\<rparr>)
          (\<lambda>st. let c' = the_cluster st
                in Ret (finished (pushed st) \<noteq> length ops, pushed st, c'\<lparr>ends := notify_set (places st) (ends c')\<rparr>)))"

text \<open>
  One command: \<open>co_await\<close> asks for the pipe and waits for a \<open>CommandAwaiter\<close> on it, which touches the pipe
  when its hook lets it. The handles and the results are as for \<open>await_chain\<close> of a client.
\<close>

definition await_cluster :: "bool option \<Rightarrow> 'h \<Rightarrow> 'h list \<Rightarrow> chain \<Rightarrow> 'h cluster \<Rightarrow>
    (bool \<times> operation \<times> 'h cluster) outcome" where
  "await_cluster hook h hs ch c =
     (case (chain_slots ch, chain_ops ch) of
        ([slot], [payload]) \<Rightarrow>
          bind_outcome (get_pipe slot c) (\<lambda>(pipe, c').
            if hook = Some False then Ret (False, (new_operation 1)\<lparr>results := [Simple_error OP_CANCELLED]\<rparr>, c')
            else case pipe of
              None \<Rightarrow> UB
            | Some p \<Rightarrow>
                if length (ends c') \<le> p then UB
                else
                  let (suspended, v, e) = command_suspend hook h payload (ends c' ! p)
                  in Ret (suspended, (new_operation 1)\<lparr>results := [case v of None \<Rightarrow> Nullptr | Some e \<Rightarrow> e]\<rparr>, c'\<lparr>ends := (ends c')[p := e]\<rparr>))
      | (ss, ops) \<Rightarrow>
          let (ready, a) = cluster_ready (chain_multi ch) ss (new_operation (length ops))
          in if ready then Ret (False, a, c) else await_several hook (chain_multi ch) (zip ss (zip hs ops)) a c)"

section \<open>The words and slots of a chain\<close>

lemma chained_families:
  "key_server a \<noteq> None \<Longrightarrow> chained_server dtext a = cluster_server dtext a"
  "chained_string dtext b = cluster_string dtext b" "chained_hash dtext h = cluster_hash dtext h"
  "chained_list dtext l = cluster_list dtext l" "chained_set dtext s = cluster_set dtext s"
  "(\<exists>n k as. z = C_zmpop n k as) \<or> chained_zset dtext z = cluster_zset dtext z"
  "chained_hll dtext p = cluster_hll dtext p" "chained_bitmap dtext m = cluster_bitmap dtext m"
  "chained_stream dtext x = cluster_stream dtext x" "chained_script dtext e = cluster_script dtext e"
  "t = C_exec \<or> (\<exists>k. t = C_multi k) \<or> chained_trans dtext t = cluster_trans dtext t"
  "chained_generic dtext g = cluster_generic dtext g"
  by (cases a, simp_all) (cases b, simp_all, cases h, simp_all, cases l, simp_all, cases s, simp_all,
    cases z, simp_all, cases p, simp_all, cases m, simp_all, cases x, simp_all, cases e, simp_all,
    cases t, simp_all, cases g, simp_all)

text \<open>The calls that are routed by a key, and the slot of that key.\<close>

definition keyed_call :: "redis_command \<Rightarrow> bool" where
  "keyed_call d \<longleftrightarrow> command_key d \<noteq> None \<and> \<not> keyless_second_word d \<and> plain_call d"

definition key_slot :: "redis_command \<Rightarrow> u16" where
  "key_slot d = xmodem (hash_tag (the (command_key d))) mod 16384"

lemma chained_same:
  assumes "keyed_call d"
  shows "chained_words dtext d = (if is_multi d then None else cluster_words dtext d)"
proof (cases d)
  case (Cmd_zset z)
  then show ?thesis using assms chained_families(6)[of z dtext] by (auto simp: keyed_call_def)
next
  case (Cmd_trans t)
  then show ?thesis using assms by (cases t) (auto simp: keyed_call_def)
qed (use assms in \<open>simp_all add: chained_families keyed_call_def\<close>)

lemma keyed_routed:
  assumes "keyed_call d" and "cluster_words dtext d = Some (r, ws)"
  shows "client_words dtext d = Some ws \<and> r = Route_key (the (command_key d))"
  using cluster_routed[of d dtext] assms by (auto simp: keyed_call_def)

lemma chained_calls_words:
  assumes "\<forall>d\<in>set ds. keyed_call d" and "chained_calls dtext ds c = Some c'"
  shows "\<exists>wss. map (client_words dtext) ds = map Some wss \<and> chain_ops c' = chain_ops c @ map build_commands wss \<and>
    chain_slots c' = chain_slots c @ map key_slot ds \<and> chain_multi c' = chain_multi c"
  using assms
proof (induction ds arbitrary: c)
  case (Cons d ds)
  then have kc: "keyed_call d" by simp
  from Cons.prems(2) obtain r ws where w: "chained_words dtext d = Some (r, ws)"
    "chained_calls dtext ds (chain_slot (route_slot c r) (build_commands ws) c) = Some c'"
    by (auto simp: chained_call_def split: if_splits option.splits)
  have "client_words dtext d = Some ws" "route_slot c r = key_slot d"
    using keyed_routed[OF kc, of dtext r ws] w(1) get_slot_tag unfolding chained_same[OF kc]
    by (auto simp: route_slot_def key_slot_def split: if_splits)
  moreover obtain wss where "map (client_words dtext) ds = map Some wss" "chain_ops c' = chain_ops c @ build_commands ws # map build_commands wss"
    "chain_slots c' = chain_slots c @ route_slot c r # map key_slot ds" "chain_multi c' = chain_multi c"
    using Cons.IH[OF _ w(2)] Cons.prems(1) by (auto simp: chain_slot_def)
  ultimately show ?case by (intro exI[of _ "ws # wss"]) simp
qed simp

lemma cluster_calls_words:
  assumes "\<forall>d\<in>set (d # ds). keyed_call d" and "cluster_calls dtext (d # ds) = Some ch"
  shows "\<exists>wss. map (client_words dtext) (d # ds) = map Some wss \<and> chain_ops ch = map build_commands wss \<and>
    chain_slots ch = map key_slot (d # ds) \<and> chain_multi ch = is_multi d"
proof -
  have kc: "keyed_call d" using assms(1) by simp
  from assms(2) obtain k ws where w: "cluster_words dtext d = Some (Route_key k, ws)"
    "chained_calls dtext ds (cluster_operation (is_multi d) (get_slot k) (build_commands ws)) = Some ch"
    by (auto simp: cluster_call_def split: option.splits route.splits)
  have "client_words dtext d = Some ws" "get_slot k = key_slot d"
    using keyed_routed[OF kc w(1)] get_slot_tag by (auto simp: key_slot_def)
  moreover obtain wss where "map (client_words dtext) ds = map Some wss" "chain_ops ch = build_commands ws # map build_commands wss"
    "chain_slots ch = get_slot k # map key_slot ds" "chain_multi ch = is_multi d"
    using chained_calls_words[OF _ w(2)] assms(1) by (auto simp: cluster_operation_def)
  ultimately show ?thesis by (intro exI[of _ "ws # wss"]) simp
qed

section \<open>Opening the pipes first\<close>

fun open_slots :: "u16 list \<Rightarrow> 'h cluster \<Rightarrow> 'h cluster outcome" where
  "open_slots [] c = Ret c"
| "open_slots (s # ss) c =
     bind_outcome (get_pipe s c) (\<lambda>(pipe, c'). case pipe of None \<Rightarrow> UB | Some _ \<Rightarrow> open_slots ss c')"

text \<open>The pipe of a slot once it is open.\<close>

definition pipe_of :: "'h cluster \<Rightarrow> u16 \<Rightarrow> nat option" where
  "pipe_of c slot = (case slots (rt c) ! unat slot of None \<Rightarrow> None | Some s \<Rightarrow> shard_pipe (heap (rt c) ! s))"

lemma put_ring_simps [simp]:
  "rt (put_ring p r c) = rt c" "freed (put_ring p r c) = freed c" "noop (put_ring p r c) = noop c"
  "capacity (put_ring p r c) = capacity c" "length (ends (put_ring p r c)) = length (ends c)"
  "pipe_of (put_ring p r c) = pipe_of c" "(put_ring p r c)\<lparr>ends := es\<rparr> = c\<lparr>ends := es\<rparr>"
  by (simp_all add: put_ring_def pipe_of_def fun_eq_iff split: option.split)

lemma try_connect_ends:
  "p < length (ends c) \<Longrightarrow> try_connect s c = (x, c') \<Longrightarrow> try_connect s (put_ring p r c) = (x, put_ring p r c')"
  "p < length (ends c) \<Longrightarrow> try_connect s c = (x, c') \<Longrightarrow> p < length (ends c') \<and> ends c' ! p = ends c ! p"
  by (auto simp: try_connect_def put_ring_def Let_def list_update_append nth_append split: if_splits prod.splits)

lemma get_pipe_put_ring:
  assumes "p < length (ends c)" and "get_pipe slot c = Ret (x, c')"
  shows "get_pipe slot (put_ring p r c) = Ret (x, put_ring p r c')" and "p < length (ends c')" and "ends c' ! p = ends c ! p"
  using assms by (auto simp: get_pipe_def try_connect_ends split: if_splits option.splits)

lemma open_slots_put_ring:
  assumes "p < length (ends c)" and "open_slots ss c = Ret c1"
  shows "open_slots ss (put_ring p r c) = Ret (put_ring p r c1) \<and> p < length (ends c1) \<and> ends c1 ! p = ends c ! p"
  using assms
proof (induction ss arbitrary: c)
  case (Cons s ss)
  then obtain q c' where g: "get_pipe s c = Ret (Some q, c')" "open_slots ss c' = Ret c1"
    by (auto simp: bind_outcome_Ret_iff split: option.splits)
  note g' = get_pipe_put_ring[OF Cons.prems(1) g(1)]
  from Cons.IH[OF g'(2) g(2)] g'(1,3) show ?case by simp
qed simp

text \<open>An open pipe stays the pipe of its slot.\<close>

definition is_open :: "'h cluster \<Rightarrow> u16 \<Rightarrow> nat \<Rightarrow> bool" where
  "is_open c slot p \<longleftrightarrow> unat slot < num_slot \<and> (\<exists>s. slots (rt c) ! unat slot = Some s \<and> s \<notin> set (freed c) \<and> s < length (heap (rt c)) \<and>
     connected (heap (rt c) ! s) = 2 \<and> shard_pipe (heap (rt c) ! s) = Some p)"

lemma is_open_pipe_of: "is_open c slot p \<Longrightarrow> pipe_of c slot = Some p"
  by (auto simp: is_open_def pipe_of_def)

lemma is_open_put_ring [simp]: "is_open (put_ring q r c) slot p = is_open c slot p"
  by (simp add: is_open_def)

lemma try_connect_rest:
  "freed (snd (try_connect t c)) = freed c" "slots (rt (snd (try_connect t c))) = slots (rt c)"
  "length (heap (rt (snd (try_connect t c)))) = length (heap (rt c))"
  "s \<noteq> t \<or> connected (heap (rt c) ! s) = 2 \<Longrightarrow> heap (rt (snd (try_connect t c))) ! s = heap (rt c) ! s"
  by (cases "s = t"; simp add: try_connect_def Let_def split: prod.split)+

lemma try_connect_keeps:
  assumes "is_open c slot p" and "try_connect t c = (x, c')"
  shows "is_open c' slot p"
proof -
  have c': "c' = snd (try_connect t c)" using assms(2) by simp
  show ?thesis using assms(1) try_connect_rest(4)[of _ t c] unfolding c' is_open_def try_connect_rest(1-3) by metis
qed

lemma get_pipe_Ret:
  assumes "get_pipe slot c = Ret x"
  shows "unat slot < num_slot \<and> (\<exists>s. slots (rt c) ! unat slot = Some s \<and> s \<notin> set (freed c) \<and> try_connect s c = x)"
proof (cases "num_slot \<le> unat slot")
  case False
  then show ?thesis using assms unfolding get_pipe_def
    by (cases "slots (rt c) ! unat slot") (simp_all only: if_False option.case not_le simp_thms outcome.distinct outcome.inject ex_simps split: if_splits, blast)
qed (use assms in \<open>simp add: get_pipe_def\<close>)

lemma get_pipe_opens:
  assumes ok: "cluster_ok c" and g: "get_pipe slot c = Ret (Some p, c')"
  shows "cluster_ok c'" and "is_open c' slot p" and "p < length (ends c')"
    and "\<And>u q. is_open c u q \<Longrightarrow> is_open c' u q"
proof -
  from get_pipe_Ret[OF g] obtain s where s: "unat slot < num_slot" "slots (rt c) ! unat slot = Some s" "s \<notin> set (freed c)" "try_connect s c = (Some p, c')"
    by blast
  have "Some s \<in> set (slots (rt c))" using nth_mem[of "unat slot" "slots (rt c)"] s(1) unfolding cluster_okD(2)[OF ok] s(2) by blast
  then have len: "s < length (heap (rt c))" by (rule cluster_okD(5)[OF ok])
  from try_connect_spec[OF ok len] have spec: "cluster_ok c'" "slots (rt c') = slots (rt c)" "length (heap (rt c')) = length (heap (rt c))"
    "p < length (ends c')" "shard_pipe (heap (rt c') ! s) = Some p" "connected (heap (rt c') ! s) = 2"
    unfolding s(4) case_prod_conv option.case by blast+
  show "cluster_ok c'" "p < length (ends c')" using spec(1,4) .
  show "is_open c' slot p" using spec s(1-3) len try_connect_rest(1)[of s c] unfolding s(4) by (simp add: is_open_def)
  show "\<And>u q. is_open c u q \<Longrightarrow> is_open c' u q" using try_connect_keeps[OF _ s(4)] .
qed

lemma open_slots_opens:
  assumes "cluster_ok c" and "open_slots ss c = Ret c1"
  shows "cluster_ok c1 \<and> (\<forall>u q. is_open c u q \<longrightarrow> is_open c1 u q) \<and> (\<forall>s\<in>set ss. \<exists>p<length (ends c1). is_open c1 s p)"
  using assms
proof (induction ss arbitrary: c)
  case (Cons s ss)
  then obtain p c' where g: "get_pipe s c = Ret (Some p, c')" "open_slots ss c' = Ret c1"
    by (auto simp: bind_outcome_Ret_iff split: option.splits)
  note o = get_pipe_opens[OF Cons.prems(1) g(1)]
  note ih = Cons.IH[OF o(1) g(2)]
  have "p < length (ends c1)" using open_slots_put_ring[OF o(3) g(2)] by blast
  then have "\<exists>p<length (ends c1). is_open c1 s p" using ih o(2) by blast
  then show ?case using ih o(4) by simp
qed simp

lemma put_ring_ok:
  assumes "cluster_ok c" and "p < length (ends c)" and "ring_push e (ring_of (ends c ! p)) = (i, r)"
  shows "cluster_ok (put_ring p r c)"
proof -
  have wf: "ring_wf (ring_of (ends c ! p))" using cluster_okD(6)[OF assms(1,2)] .
  have "ring_wf r"
    using ring_push_accepted[OF wf assms(3)] ring_push_refused[OF wf assms(3)] wf by (cases "0 \<le> i") auto
  from cluster_ok_end[OF assms(1) this, of p "signals (ends c ! p)"] show ?thesis
    by (cases "ends c ! p") (simp add: put_ring_def)
qed

text \<open>Pushing pipe by pipe while they are opened is pushing to the pipes opened before.\<close>

definition over :: "'h cluster \<Rightarrow> 'h push_state \<Rightarrow> 'h cluster_push" where
  "over c st = \<lparr>the_cluster = c\<lparr>ends := pipes st\<rparr>, places = pipes_set st, pushed = op st\<rparr>"

lemma pushes_opened:
  assumes "cluster_ok c" and "open_slots (map fst ops) c = Ret c1"
  shows "push_cluster_pipes idx ops \<lparr>the_cluster = c, places = s, pushed = a\<rparr> =
    bind_outcome (push_all_pipe (pipe_of c1) idx ops \<lparr>pipes = ends c1, pipes_set = s, op = a\<rparr>) (\<lambda>st. Ret (over c1 st))"
  using assms
proof (induction ops arbitrary: idx c s a c1)
  case Nil
  then show ?case by (simp add: over_def)
next
  case (Cons x ops)
  obtain slot e where x: "x = (slot, e)" by (cases x)
  from Cons.prems(2) x obtain p c' where g: "get_pipe slot c = Ret (Some p, c')" "open_slots (map fst ops) c' = Ret c1"
    by (auto simp: bind_outcome_Ret_iff split: option.splits)
  note o = get_pipe_opens[OF Cons.prems(1) g(1)]
  obtain i r where push: "ring_push e (ring_of (ends c' ! p)) = (i, r)" by fastforce
  obtain s' w where cl: "claim_set p s = (s', w)" by fastforce
  from open_slots_put_ring[OF o(3) g(2), of r] have rest: "open_slots (map fst ops) (put_ring p r c') = Ret (put_ring p r c1)"
    "p < length (ends c1)" "ends c1 ! p = ends c' ! p" by auto
  have p: "pipe_of c1 slot = Some p" using open_slots_opens[OF o(1) g(2)] o(2) is_open_pipe_of by blast
  have over: "over (put_ring p r c1) = over c1" by (simp add: over_def fun_eq_iff)
  have ends: "ends (put_ring p r c1) = (ends c1)[p := (ends c1 ! p)\<lparr>ring_of := r\<rparr>]" by (simp add: put_ring_def)
  note ih = Cons.IH[OF put_ring_ok[OF o(1,3) push] rest(1), unfolded over put_ring_simps ends]
  show ?case
    using o(3) rest(2,3) by (simp add: x push_cluster_pipe_def push_pipe_def g(1) p cl push Let_def ih)
qed

lemma await_several_opened:
  assumes "hook \<noteq> Some False" and "cluster_ok c" and "open_slots (map fst ops) c = Ret c1"
  shows "await_several hook False ops a c =
    bind_outcome (cluster_suspend hook False (pipe_of c1) ops a (ends c1)) (\<lambda>(suspended, a', ps). Ret (suspended, a', c1\<lparr>ends := ps\<rparr>))"
proof -
  have "bind_outcome (push_all_pipe (pipe_of c1) 0 ops st) (\<lambda>st. bind_outcome (Ret (over c1 st)) f) =
      bind_outcome (push_all_pipe (pipe_of c1) 0 ops st) (\<lambda>st. f (over c1 st))" for st and f :: "_ \<Rightarrow> _ outcome" by simp
  then show ?thesis
    using assms(1) pushes_opened[OF assms(2,3), of 0 "replicate (length ops) None" a]
    by (cases "push_all_pipe (pipe_of c1) 0 ops \<lparr>pipes = ends c1, pipes_set = replicate (length ops) None, op = a\<rparr>")
      (simp_all add: await_several_def cluster_suspend_def over_def)
qed

section \<open>What awaiting does to the queues\<close>

lemma get_pipe_queue:
  assumes "cluster_ok c" and g: "get_pipe slot c = Ret (Some p, c')"
  shows "queue c' = queue c" and "slots (rt c') = slots (rt c)"
proof -
  from get_pipe_Ret[OF g] obtain s where s: "unat slot < num_slot" "slots (rt c) ! unat slot = Some s" "try_connect s c = (Some p, c')"
    by blast
  have "Some s \<in> set (slots (rt c))"
    using nth_mem[of "unat slot" "slots (rt c)"] s(1) unfolding cluster_okD(2)[OF assms(1)] s(2) by blast
  from try_connect_spec[OF assms(1) cluster_okD(5)[OF assms(1) this]]
  have ends: "ends c' = ends c \<or> (\<exists>q. ends c' = ends c @ [q] \<and> fresh_pipe c q)" and "slots (rt c') = slots (rt c)"
    unfolding s(3) case_prod_conv option.case by blast+
  then show "slots (rt c') = slots (rt c)" by simp
  from ends show "queue c' = queue c" by (auto simp: queue_def fun_eq_iff nth_append fresh_pipe_def)
qed

lemma open_slots_queue:
  assumes "cluster_ok c" and "open_slots ss c = Ret c1"
  shows "queue c1 = queue c \<and> slots (rt c1) = slots (rt c)"
  using assms
proof (induction ss arbitrary: c)
  case (Cons s ss)
  then obtain p c' where g: "get_pipe s c = Ret (Some p, c')" "open_slots ss c' = Ret c1"
    by (auto simp: bind_outcome_Ret_iff split: option.splits)
  show ?case
    using Cons.IH[OF get_pipe_opens(1)[OF Cons.prems(1) g(1)] g(2)] get_pipe_queue[OF Cons.prems(1) g(1)] by simp
qed simp

lemma queue_update:
  "p < length (ends c) \<Longrightarrow> queue (c\<lparr>ends := (ends c)[p := e]\<rparr>) = (queue c)(p := entries (ring_of e))"
  by (auto simp: queue_def fun_eq_iff)

lemma accepted_on_none: "\<forall>(slot, e)\<in>set ops. get slot \<noteq> Some p \<Longrightarrow> accepted_on get p ops acc = []"
  by (fastforce simp: accepted_on_def filter_empty_conv dest: set_zip_leftD)

lemma chained_calls_shape:
  assumes "chained_calls dtext ds c = Some c'"
  shows "\<exists>ss os. chain_slots c' = chain_slots c @ ss \<and> chain_ops c' = chain_ops c @ os \<and> length ss = length ds \<and> length os = length ds \<and>
    chain_multi c' = chain_multi c"
  using assms
proof (induction ds arbitrary: c)
  case (Cons d ds)
  then obtain slot payload where "chained_calls dtext ds (chain_slot slot payload c) = Some c'"
    by (auto simp: chained_call_def split: if_splits option.splits)
  from Cons.IH[OF this] show ?case by (auto simp: chain_slot_def)
qed simp

section \<open>A cluster of one shard\<close>

text \<open>All slots belong to one shard, which is not connected yet, and a ring has two places.\<close>

definition one_shard :: "nat cluster" where
  "one_shard = (new_cluster 1 2 0 99)\<lparr>rt := \<lparr>slots = replicate num_slot (Some 0), table = [Some 0], heap = [new_shard 0x7F000001 7000]\<rparr>\<rparr>"

definition one_open :: "nat cluster" where
  "one_open = snd (try_connect 0 one_shard)"

lemma one_shard_ok: "cluster_ok one_shard"
proof -
  have "\<exists>k. 1 \<le> k \<and> k \<le> 31 \<and> (2 :: nat) = 2 ^ k" by (rule exI[of _ 1]) simp
  then show ?thesis
    by (simp add: cluster_ok_def one_shard_def new_cluster_def table_ok_def home_def router_hash_def new_shard_def num_slot_def)
qed

lemma one_open_ends: "ends one_open = [\<lparr>ring_of = new_ring 2 0, signals = 0\<rparr>]"
  by (simp add: one_open_def one_shard_def new_cluster_def try_connect_def new_shard_def Let_def split: prod.split)

lemma key_slot_bound: "unat (get_slot k) < num_slot" "key_slot d = get_slot (the (command_key d))"
proof -
  have "unat (get_slot k) < unat (16384 :: u16)" using get_slot_tag[of k] by (metis word_less_nat_alt)
  then show "unat (get_slot k) < num_slot" by (simp add: num_slot_def)
  show "key_slot d = get_slot (the (command_key d))" using get_slot_tag by (simp add: key_slot_def)
qed

lemma one_get:
  assumes "unat slot < num_slot"
  shows "get_pipe slot one_shard = Ret (Some 0, one_open)" "get_pipe slot one_open = Ret (Some 0, one_open)"
    "slots (rt one_shard) ! unat slot = Some 0"
proof -
  show s: "slots (rt one_shard) ! unat slot = Some 0" using assms by (simp add: one_shard_def)
  have "try_connect 0 one_shard = (Some 0, one_open)"
    by (simp add: one_open_def one_shard_def new_cluster_def try_connect_def new_shard_def Let_def split: prod.split)
  then show 1: "get_pipe slot one_shard = Ret (Some 0, one_open)"
    using s assms by (simp add: get_pipe_def) (simp add: one_shard_def new_cluster_def)
  note o = get_pipe_opens(2)[OF one_shard_ok 1]
  then show "get_pipe slot one_open = Ret (Some 0, one_open)"
    by (auto simp: is_open_def get_pipe_def try_connect_def)
qed

lemma one_empty: "queue one_shard p = []"
  by (simp add: queue_def one_shard_def new_cluster_def)

lemma one_push:
  "\<exists>r. ring_push (h, d) (new_ring 2 (0 :: nat)) = (0, r) \<and> (\<exists>r'. ring_push (h', d') r = (1, r'))"
  by (simp add: ring_eval replicate_two)

section \<open>The properties\<close>

text \<open>A command of one key that is accepted by a cluster is appended, with the words the plain client
  would send, to the ring of the pipe of one shard, the one that the slot of the key's hash tag
  belongs to, and no other ring changes.\<close>

theorem cluster_command_to_owner:
  assumes "cluster_ok c" and "keyed_call d" and "cluster_calls dtext [d] = Some ch"
    and "slots (rt c) ! unat (key_slot d) = Some s" and "await_cluster hook h hs ch c = Ret (True, a, c')"
  shows "\<exists>ws p. client_words dtext d = Some ws \<and> shard_pipe (heap (rt c') ! s) = Some p \<and> connected (heap (rt c') ! s) = 2 \<and>
    queue c' = (queue c)(p := queue c p @ [(h, build_commands ws)])"
proof -
  from cluster_calls_words[OF _ assms(3)] assms(2) obtain ws where w: "client_words dtext d = Some ws"
    "chain_ops ch = [build_commands ws]" "chain_slots ch = [key_slot d]" by auto
  from assms(5) obtain p c1 where g: "get_pipe (key_slot d) c = Ret (Some p, c1)" and hook: "hook \<noteq> Some False"
    and res: "(case command_suspend hook h (build_commands ws) (ends c1 ! p) of (susp, v, e) \<Rightarrow> susp \<and> c' = c1\<lparr>ends := (ends c1)[p := e]\<rparr>)"
    by (auto simp: await_cluster_def w bind_outcome_Ret_iff split: if_splits option.splits prod.splits)
  note o = get_pipe_opens[OF assms(1) g] and q = get_pipe_queue[OF assms(1) g]
  obtain v e where e: "command_suspend hook h (build_commands ws) (ends c1 ! p) = (True, v, e)" "c' = c1\<lparr>ends := (ends c1)[p := e]\<rparr>"
    using res by auto
  have "entries (ring_of e) = entries (ring_of (ends c1 ! p)) @ [(h, build_commands ws)]"
    using command_suspend_spec[OF cluster_okD(6)[OF o(1,3)], of hook h "build_commands ws"] unfolding e(1) by simp
  moreover have "entries (ring_of (ends c1 ! p)) = queue c p" using q(1) o(3) by (simp add: queue_def flip: q(1))
  ultimately have "queue c' = (queue c)(p := queue c p @ [(h, build_commands ws)])"
    unfolding e(2) queue_update[OF o(3)] q(1) by simp
  moreover have "shard_pipe (heap (rt c') ! s) = Some p \<and> connected (heap (rt c') ! s) = 2"
    using o(2) q(2) assms(4) by (simp add: is_open_def e(2))
  ultimately show ?thesis using w(1) by blast
qed

theorem cluster_command_to_owner_witness:
  "\<exists>c' p. shard_pipe (heap (rt c') ! 0) = Some p \<and> queue c' = (queue one_shard)(p := queue one_shard p @ [(10, build_commands [''GET'', ''k''])])"
proof -
  let ?d = "Cmd_string (C_get ''k'')" and ?dt = "\<lambda>_. []" and ?ch = "cluster_operation False (get_slot ''k'') (build_commands [''GET'', ''k''])"
  have d: "keyed_call ?d" "cluster_calls ?dt [?d] = Some ?ch" "key_slot ?d = get_slot ''k''"
    by (simp_all add: keyed_call_def cluster_call_def api_simps key_slot_bound(2))
  obtain r where "ring_push (10, build_commands [''GET'', ''k'']) (new_ring 2 (0 :: nat)) = (0, r)" using one_push by blast
  then obtain a c' where "await_cluster None 10 [] ?ch one_shard = Ret (True, a, c')"
    using one_get(1)[OF key_slot_bound(1)]
    by (auto simp: await_cluster_def cluster_operation_def one_open_ends command_suspend_def)
  from cluster_command_to_owner[OF one_shard_ok d(1,2) _ this, of 0] one_get(3)[OF key_slot_bound(1), of "''k''"] d(3)
  obtain ws p where "client_words ?dt ?d = Some ws" "shard_pipe (heap (rt c') ! 0) = Some p"
    "queue c' = (queue one_shard)(p := queue one_shard p @ [(10, build_commands ws)])" by auto
  then show ?thesis by (intro exI[of _ c'] exI[of _ p]) (simp add: api_simps)
qed

text \<open>C19. A chain of commands that each have a key is split by the slots of the keys: when the shards of
  these slots can be connected, the accepted commands are appended, in the order of the chain and
  with the words the plain client would send, each to the ring of the pipe of its own slot.\<close>

theorem cluster_chain_to_owners:
  assumes "cluster_ok c" and "\<forall>d\<in>set ds. keyed_call d" and "cluster_calls dtext ds = Some ch" and "2 \<le> length ds" and "\<not> chain_multi ch"
    and "length hs = length ds" and "open_slots (map key_slot ds) c = Ret c1" and "await_cluster hook h hs ch c = Ret (True, a, c')"
  shows "\<exists>wss acc. map (client_words dtext) ds = map Some wss \<and> length acc = length ds \<and> True \<in> set acc \<and>
    slots (rt c') = slots (rt c) \<and>
    (\<forall>p. queue c' p = queue c p @ accepted_on (pipe_of c') p (zip (map key_slot ds) (zip hs (map build_commands wss))) acc)"
proof -
  from assms(4) obtain d d2 ds' where ds: "ds = d # d2 # ds'" by (cases ds; cases "tl ds") auto
  from cluster_calls_words[OF assms(2,3)[unfolded ds]] obtain wss where "map (client_words dtext) (d # d2 # ds') = map Some wss"
    "chain_ops ch = map build_commands wss" "chain_slots ch = map key_slot (d # d2 # ds')" by blast
  note w = this[folded ds]
  have len: "length wss = length ds" using w(1) by (metis length_map)
  let ?ops = "zip (map key_slot ds) (zip hs (map build_commands wss))"
  have ops: "map fst ?ops = map key_slot ds" "length ?ops = length ds" using len assms(6) by simp_all
  have await: "await_several hook False ?ops (new_operation (length ds)) c = Ret (True, a, c')"
    using assms(5,8) len by (simp add: await_cluster_def w(2,3) ds cluster_ready_def cross_slot_def)
  then have hook: "hook \<noteq> Some False" by (auto simp: await_several_def)
  have o1: "open_slots (map fst ?ops) c = Ret c1" using assms(7) ops(1) by simp
  note o = open_slots_opens[OF assms(1,7)] and q = open_slots_queue[OF assms(1,7)]
  have routed: "routed_ops (pipe_of c1) ?ops (ends c1)"
    unfolding routed_ops_def
  proof (intro conjI ballI allI impI, clarify)
    fix slot e x assume "(slot, e, x) \<in> set ?ops"
    then have "slot \<in> set (map key_slot ds)" by (rule set_zip_leftD)
    then show "\<exists>p<length (ends c1). pipe_of c1 slot = Some p" using o is_open_pipe_of by blast
  qed (use o cluster_okD(6) in blast)
  have new: "length (results (new_operation (length ds))) = length ?ops" "finished (new_operation (length ds)) = 0"
    using ops(2) by (simp_all add: new_operation_def)
  from cluster_suspend_spec[OF hook routed new] obtain acc a1 ps where
    s: "cluster_suspend hook False (pipe_of c1) ?ops (new_operation (length ds)) (ends c1) = Ret (True \<in> set acc, a1, ps)"
    "length acc = length ?ops" "length ps = length (ends c1)"
    "\<And>p. p < length (ends c1) \<Longrightarrow> entries (ring_of (ps ! p)) = entries (ring_of (ends c1 ! p)) @ accepted_on (pipe_of c1) p ?ops acc"
    by blast
  from await await_several_opened[OF hook assms(1) o1, of "new_operation (length ds)"] s(1)
  have c': "c' = c1\<lparr>ends := ps\<rparr>" "True \<in> set acc" by auto
  have pipes: "pipe_of c' = pipe_of c1" by (simp add: c'(1) pipe_of_def fun_eq_iff split: option.split)
  have "queue c' p = queue c1 p @ accepted_on (pipe_of c1) p ?ops acc" for p
  proof (cases "p < length (ends c1)")
    case True
    then show ?thesis using s(3,4) by (simp add: c'(1) queue_def)
  next
    case False
    then have "\<forall>(slot, e)\<in>set ?ops. pipe_of c1 slot \<noteq> Some p" using routed by (auto simp: routed_ops_def)
    from accepted_on_none[OF this] show ?thesis using False s(3) by (simp add: c'(1) queue_def)
  qed
  then show ?thesis
    using w(1) s(2) ops(2) c'(2) q pipes by (intro exI[of _ wss] exI[of _ acc]) (simp add: c'(1))
qed

theorem cluster_chain_to_owners_witness:
  "\<exists>(c' :: nat cluster) acc. length acc = 2 \<and> True \<in> set acc \<and>
     queue c' 0 = accepted_on (pipe_of c') 0 (zip [get_slot ''k'', get_slot ''k''] (zip [11, 12]
       [build_commands [''GET'', ''k''], build_commands [''GETDEL'', ''k'']])) acc"
proof -
  let ?ds = "[Cmd_string (C_get ''k''), Cmd_string (C_getdel ''k'')]" and ?dt = "\<lambda>_. []"
  let ?x = "build_commands [''GET'', ''k'']" and ?y = "build_commands [''GETDEL'', ''k'']" and ?s = "get_slot ''k''"
  let ?ch = "chain_slot ?s ?y (cluster_operation False ?s ?x)"
  have d: "\<forall>d\<in>set ?ds. keyed_call d" "cluster_calls ?dt ?ds = Some ?ch" "map key_slot ?ds = [?s, ?s]" "\<not> chain_multi ?ch"
    by (simp_all add: keyed_call_def cluster_call_def chained_call_def route_slot_def api_simps key_slot_bound(2) chain_slot_def cluster_operation_def)
  note g = one_get(1,2)[OF key_slot_bound(1), of "''k''"]
  have opn: "open_slots (map key_slot ?ds) one_shard = Ret one_open" unfolding d(3) using g by simp
  from one_push obtain r r' where push: "ring_push (11, ?x) (new_ring 2 (0 :: nat)) = (0, r)" "ring_push (12, ?y) r = (1, r')" by blast
  have p: "0 < length (ends one_open)" by (simp add: one_open_ends)
  have ends: "ends (put_ring 0 r one_open) = [\<lparr>ring_of = r, signals = 0\<rparr>]" by (simp add: put_ring_def one_open_ends)
  have first: "push_cluster_pipe 0 ?s (11, ?x) \<lparr>the_cluster = one_shard, places = [None, None], pushed = new_operation 2\<rparr> =
      Ret \<lparr>the_cluster = put_ring 0 r one_open, places = [Some 0, None], pushed = new_operation 2\<rparr>"
    using push(1) by (simp add: push_cluster_pipe_def g one_open_ends)
  have "\<exists>c2. push_cluster_pipe 1 ?s (12, ?y) \<lparr>the_cluster = put_ring 0 r one_open, places = [Some 0, None], pushed = new_operation 2\<rparr> =
      Ret \<lparr>the_cluster = c2, places = [Some 0, None], pushed = new_operation 2\<rparr>"
    using push(2) get_pipe_put_ring(1)[OF p g(2), of r] by (simp add: push_cluster_pipe_def ends)
  then obtain c2 where "push_cluster_pipe 1 ?s (12, ?y) \<lparr>the_cluster = put_ring 0 r one_open, places = [Some 0, None], pushed = new_operation 2\<rparr> =
      Ret \<lparr>the_cluster = c2, places = [Some 0, None], pushed = new_operation 2\<rparr>" by blast
  then have "\<exists>a c'. await_cluster None 10 [11, 12] ?ch one_shard = Ret (True, a, c')"
    using first by (simp add: await_cluster_def chain_slot_def cluster_operation_def cluster_ready_def cross_slot_def await_several_def
      replicate_two numeral_2_eq_2 new_operation_def)
  moreover have two: "2 \<le> length ?ds" "length [11 :: nat, 12] = length ?ds" by simp_all
  ultimately obtain a c' where await: "await_cluster None 10 [11, 12] ?ch one_shard = Ret (True, a, c')" by blast
  from cluster_chain_to_owners[OF one_shard_ok d(1,2) two(1) d(4) two(2) opn await] obtain wss acc where
    w: "map (client_words ?dt) ?ds = map Some wss" "length acc = length ?ds" "True \<in> set acc"
    "\<forall>p. queue c' p = queue one_shard p @ accepted_on (pipe_of c') p (zip (map key_slot ?ds) (zip [11, 12] (map build_commands wss))) acc" by blast
  have wss: "wss = [[''GET'', ''k''], [''GETDEL'', ''k'']]" using w(1) by (auto simp: api_simps)
  have "queue c' 0 = accepted_on (pipe_of c') 0 (zip [?s, ?s] (zip [11, 12] [?x, ?y])) acc"
    using w(4) unfolding d(3) by (simp add: one_empty wss)
  then show ?thesis using w(2,3) by (intro exI[of _ c'] exI[of _ acc]) simp
qed

text \<open>C20. A transaction on a cluster, \<open>multi(tag)\<close> with further calls: if a call has another slot than the
  tag, every place of the result holds \<open>CROSS SLOT\<close> and the cluster is as it was; otherwise, when the
  ring of the slot's pipe has room for the whole, all its commands follow each other in this
  ring, from \<open>MULTI\<close> on, and nothing else changes.\<close>

theorem cluster_transaction_whole:
  assumes "cluster_ok c" and "cluster_calls dtext (Cmd_trans (C_multi tag) # d # ds) = Some ch" and "length hs = Suc (Suc (length ds))"
    and "get_pipe (get_slot tag) c = Ret (Some p, c1)" and "hook \<noteq> Some False"
    and "length (queue c p) + length hs \<le> xcapacity (ring_of (ends c1 ! p))" and "unat (tail (ring_of (ends c1 ! p))) + length hs \<le> 2 ^ 63"
  shows "if list_all (\<lambda>s. s = get_slot tag) (chain_slots ch)
    then \<exists>ops c'. chain_ops ch = build_commands [''MULTI''] # ops \<and> await_cluster hook h hs ch c = Ret (True, new_operation (length hs), c') \<and>
      queue c' = (queue c)(p := queue c p @ zip hs (chain_ops ch))
    else await_cluster hook h hs ch c = Ret (False, set_all_cancelled CROSS_SLOT (new_operation (length hs)), c)"
proof -
  from assms(2) have "chained_calls dtext (d # ds) (cluster_operation True (get_slot tag) (build_commands [''MULTI''])) = Some ch"
    by (simp add: cluster_call_def cluster_defs)
  from chained_calls_shape[OF this] obtain ss os where sh: "chain_slots ch = get_slot tag # ss" "chain_ops ch = build_commands [''MULTI''] # os"
    "length ss = Suc (length ds)" "length os = Suc (length ds)" "chain_multi ch" by (auto simp: cluster_operation_def)
  have two: "ss \<noteq> []" "os \<noteq> []" using sh(3,4) by auto
  have same: "list_all (\<lambda>s. s = get_slot tag) (chain_slots ch) \<longleftrightarrow> \<not> cross_slot (chain_multi ch) (chain_slots ch)"
    using sh(5) by (auto simp: cross_slot_def sh(1) list_all_iff)
  let ?ops = "zip (chain_slots ch) (zip hs (chain_ops ch))" and ?a = "new_operation (length hs)"
  have await: "await_cluster hook h hs ch c =
      (let (ready, a) = cluster_ready True (chain_slots ch) ?a in if ready then Ret (False, a, c) else await_several hook True ?ops a c)"
  proof -
    obtain s1 ss1 o1 os1 where c: "ss = s1 # ss1" "os = o1 # os1" using two by (cases ss; cases os) auto
    then have "Suc (Suc (length os1)) = length hs" using sh(4) assms(3) by simp
    then show ?thesis unfolding await_cluster_def sh(1,2) eqTrueI[OF sh(5)] c by simp
  qed
  show ?thesis
  proof (cases "list_all (\<lambda>s. s = get_slot tag) (chain_slots ch)")
    case False
    then show ?thesis using same sh(5) by (simp add: await cluster_ready_def)
  next
    case True
    note o = get_pipe_opens[OF assms(1,4)] and q = get_pipe_queue[OF assms(1,4)]
    let ?r = "ring_of (ends c1 ! p)" and ?es = "zip hs (chain_ops ch)"
    have wf: "ring_wf ?r" using cluster_okD(6)[OF o(1,3)] .
    have ents: "entries ?r = queue c p" using o(3) by (simp add: queue_def flip: q(1))
    have len: "length ?es = length hs" "0 < length hs" using sh(2,4) assms(3) by simp_all
    have opn: "open_ring ?r" using assms(7) len(2) unfolding open_ring_def by linarith
    have room: "length (entries ?r) + length ?es \<le> xcapacity ?r" "unat (tail ?r) + length ?es \<le> 2 ^ 63"
      using assms(6,7) unfolding ents len(1) .
    have "length (entries ?r) < xcapacity ?r" using room(1) len by linarith
    from push_n_entries[OF wf opn this room] obtain i r where r: "ring_push_n ?es ?r = (i, r)" "0 \<le> i" "ring_wf r"
      "in_flight r = in_flight ?r" "uncommitted r = uncommitted ?r @ ?es" by blast
    have "entries r = queue c p @ ?es" using entries_split[OF wf] entries_split[OF r(3)] r(4,5) ents by simp
    moreover have snds: "map snd ?ops = ?es" using sh(1-4) assms(3) by simp
    moreover have "fst (hd ?ops) = get_slot tag" using sh(1,2) assms(3) by (cases hs) simp_all
    ultimately have "await_several hook True ?ops ?a c = Ret (True, ?a, c1\<lparr>ends := (ends c1)[p := notify ((ends c1 ! p)\<lparr>ring_of := r\<rparr>)]\<rparr>)"
      using assms(4,5) r(1,2) o(3) by (simp add: await_several_def)
    then have "await_cluster hook h hs ch c = Ret (True, ?a, c1\<lparr>ends := (ends c1)[p := notify ((ends c1 ! p)\<lparr>ring_of := r\<rparr>)]\<rparr>)"
      using True same sh(5) by (simp add: await cluster_ready_def)
    moreover have "queue (c1\<lparr>ends := (ends c1)[p := notify ((ends c1 ! p)\<lparr>ring_of := r\<rparr>)]\<rparr>) = (queue c)(p := queue c p @ ?es)"
      unfolding queue_update[OF o(3)] q(1) using \<open>entries r = _\<close> by (simp add: notify_def)
    ultimately show ?thesis using True sh(2) by auto
  qed
qed

theorem cluster_transaction_whole_witness:
  "\<exists>c' :: nat cluster. queue c' = (queue one_shard)(0 := [(11, build_commands [''MULTI'']), (12, build_commands [''GET'', ''k''])])"
proof -
  let ?d = "Cmd_string (C_get ''k'')" and ?dt = "\<lambda>_. []" and ?s = "get_slot ''k''"
  let ?ch = "chain_slot ?s (build_commands [''GET'', ''k'']) (cluster_operation True ?s (build_commands [''MULTI'']))"
  have calls: "cluster_calls ?dt [Cmd_trans (C_multi ''k''), ?d] = Some ?ch"
    by (simp add: cluster_call_def chained_call_def route_slot_def api_simps)
  have ch: "list_all (\<lambda>s. s = ?s) (chain_slots ?ch)" "chain_ops ?ch = [build_commands [''MULTI''], build_commands [''GET'', ''k'']]"
    by (simp_all add: chain_slot_def cluster_operation_def)
  have "length (queue one_shard 0) + length [11 :: nat, 12] \<le> xcapacity (ring_of (ends one_open ! 0))"
    "unat (tail (ring_of (ends one_open ! 0))) + length [11 :: nat, 12] \<le> 2 ^ 63"
    by (simp_all add: one_open_ends one_empty new_ring_def)
  from cluster_transaction_whole[OF one_shard_ok calls _ one_get(1)[OF key_slot_bound(1)] _ this, of None 10] ch
  show ?thesis by (auto simp: one_empty)
qed

end
