(* ===== verification/Cluster_Map.thy ===== *)
theory Cluster_Map
  imports Cluster_Core
begin

text \<open>
  \<open>RedisCluster::connect\<close> (include/RedisCluster.hpp): the answer to CLUSTER SLOTS is read into
  the slot map, and the shards it names are entered into the table.
\<close>

section \<open>The code\<close>

text \<open>
  What an entry of the answer says: the first and the last slot, the address and the port of its
  server. \<open>None\<close> is the early return with \<open>EPROTO\<close>. The code takes the entry for an array and
  its third element for an array of two, without looking.
\<close>

definition entry_fields :: "redis_value \<Rightarrow> (u64 \<times> u64 \<times> u32 \<times> u16) option outcome" where
  "entry_fields slot =
     bind_outcome (get_array slot) (\<lambda>arr.
       if length arr \<noteq> 3 \<or> \<not> is_integer (arr ! 0) \<or> \<not> is_integer (arr ! 1) \<or> \<not> is_array (arr ! 2) then Ret None
       else bind_outcome (get_integer (arr ! 0)) (\<lambda>b. bind_outcome (get_integer (arr ! 1)) (\<lambda>e.
         bind_outcome (get_array (arr ! 2)) (\<lambda>info.
           if info = [] then UB
           else if \<not> (is_simple_string (info ! 0) \<or> is_bulk_string (info ! 0)) then Ret None
           else if length info < 2 then UB
           else if \<not> is_integer (info ! 1) then Ret None
           else bind_outcome (get_integer (info ! 1)) (\<lambda>p.
             bind_outcome (iptouint32 (as_string (info ! 0) @ [CHR 0x00]) (length (as_string (info ! 0)))) (\<lambda>i.
               if i = 0 then Ret None else Ret (Some (of_int b, of_int e, i, of_int p))))))))"

text \<open>The loop over the slots of an entry; a slot behind the array is written out of bounds.\<close>

definition set_range :: "nat \<Rightarrow> u64 \<Rightarrow> u64 \<Rightarrow> router \<Rightarrow> router outcome" where
  "set_range s b e r =
     (if b \<le> e \<and> num_slot \<le> unat e then UB
      else Ret (r\<lparr>slots := fold (\<lambda>k sl. sl[k := Some s]) [unat b..<Suc (unat e)] (slots r)\<rparr>))"

text \<open>
  The loop over the entries with the shards made so far; the first result is false for the early
  return.
\<close>

fun read_slots :: "redis_value list \<Rightarrow> nat list \<Rightarrow> router \<Rightarrow> (bool \<times> nat list \<times> router) outcome" where
  "read_slots [] temp r = Ret (True, temp, r)"
| "read_slots (v # vs) temp r =
     bind_outcome (entry_fields v) (\<lambda>f. case f of
       None \<Rightarrow> Ret (False, temp, r)
     | Some (b, e, i, p) \<Rightarrow>
         (case find (\<lambda>s. at_address i p (heap r ! s)) temp of
            Some s \<Rightarrow> bind_outcome (set_range s b e r) (read_slots vs temp)
          | None \<Rightarrow> bind_outcome (set_range (length (heap r)) b e (r\<lparr>heap := heap r @ [new_shard i p]\<rparr>))
              (read_slots vs (temp @ [length (heap r)]))))"

fun enter_all :: "nat list \<Rightarrow> router \<Rightarrow> bool \<times> router" where
  "enter_all [] r = (True, r)"
| "enter_all (s # ss) r = (case enter_shard s r of None \<Rightarrow> (False, r) | Some r' \<Rightarrow> enter_all ss r')"

definition read_map :: "redis_value \<Rightarrow> cluster_option \<Rightarrow> 'h cluster \<Rightarrow> (bool io_result \<times> 'h cluster) outcome" where
  "read_map response o' c =
     bind_outcome (get_array response) (\<lambda>vs. bind_outcome (read_slots vs [] (rt c)) (\<lambda>(ok, temp, r).
       if \<not> ok then Ret ((False, EPROTO), c\<lparr>rt := r\<rparr>)
       else
         let c' = c\<lparr>options := set_cluster_option o'\<rparr>; (entered, r') = enter_all temp r
         in if entered then Ret ((True, 0), c'\<lparr>rt := r'\<rparr>) else Ret ((False, ENOMEM), c'\<lparr>rt := r'\<rparr>)))"

definition cluster_connect :: "(attempt \<times> parser) list \<Rightarrow> cluster_option \<Rightarrow> int \<Rightarrow> 'h cluster \<Rightarrow>
    (bool io_result \<times> 'h cluster) outcome" where
  "cluster_connect envs o' timeout c =
     bind_outcome (connect_cluster envs o' timeout) (\<lambda>(v, err).
       if err \<noteq> 0 then Ret ((False, err), c) else read_map v o' c)"

section \<open>Entries of the answer\<close>

text \<open>
  An entry with one server: the slots \<open>b\<close> to \<open>e\<close>, its address and port, and what the answer
  says about it besides. \<open>owner\<close> is the server of a slot.
\<close>

type_synonym slot_entry = "nat \<times> nat \<times> u32 \<times> u16 \<times> redis_value list"

fun entry_value :: "slot_entry \<Rightarrow> redis_value" where
  "entry_value (b, e, i, p, x) =
     Array [Integer (int b), Integer (int e), Array (Bulk_string (ip_text i) # Integer (int (unat p)) # x)]"

fun entry_ok :: "slot_entry \<Rightarrow> bool" where
  "entry_ok (b, e, i, p, x) \<longleftrightarrow> b < num_slot \<and> e < num_slot \<and> i \<noteq> 0"

fun owner :: "slot_entry list \<Rightarrow> nat \<Rightarrow> (u32 \<times> u16) option" where
  "owner [] k = None"
| "owner ((b, e, i, p, x) # es) k =
     (case owner es k of Some a \<Rightarrow> Some a | None \<Rightarrow> if b \<le> k \<and> k \<le> e then Some (i, p) else None)"

fun address :: "slot_entry \<Rightarrow> u32 \<times> u16" where
  "address (b, e, i, p, x) = (i, p)"

definition address_of :: "router \<Rightarrow> nat \<Rightarrow> u32 \<times> u16" where
  "address_of r s = (shard_ip (heap r ! s), shard_port (heap r ! s))"

lemma at_address_of: "at_address i p (heap r ! s) \<longleftrightarrow> address_of r s = (i, p)"
  by (simp add: at_address_def address_of_def)

lemma same_address_of: "same_address (heap r ! s) (heap r ! t) \<longleftrightarrow> address_of r s = address_of r t"
  by (simp add: same_address_def address_of_def)

lemma entry_fields_value:
  assumes "i \<noteq> 0"
  shows "entry_fields (entry_value (b, e, i, p, x)) = Ret (Some (of_nat b, of_nat e, i, p))"
  using assms iptouint32_text[of i "[CHR 0x00]"] by (simp add: entry_fields_def is_type_defs)

lemma unat_slot: "b < num_slot \<Longrightarrow> unat (of_nat b :: u64) = b"
  by (simp add: num_slot_def unat_of_nat)

lemma length_fold_update [simp]: "length (fold (\<lambda>k sl. sl[k := v]) ks sl) = length sl"
  by (induction ks arbitrary: sl) simp_all

lemma nth_fold_update: "k < length sl \<Longrightarrow> fold (\<lambda>k sl. sl[k := v]) ks sl ! k = (if k \<in> set ks then v else sl ! k)"
  by (induction ks arbitrary: sl) auto

lemma set_range_ok:
  assumes "b < num_slot" and "e < num_slot" and "length (slots r) = num_slot"
  obtains sl where "set_range s (of_nat b) (of_nat e) r = Ret (r\<lparr>slots := sl\<rparr>)" and "length sl = num_slot"
    and "\<And>k. k < num_slot \<Longrightarrow> sl ! k = (if b \<le> k \<and> k \<le> e then Some s else slots r ! k)"
proof
  let ?sl = "fold (\<lambda>k sl. sl[k := Some s]) [b..<Suc e] (slots r)"
  show "set_range s (of_nat b) (of_nat e) r = Ret (r\<lparr>slots := ?sl\<rparr>)"
    using assms(2) by (simp add: set_range_def unat_slot[OF assms(1)] unat_slot[OF assms(2)] not_le del: upt_Suc)
  show "length ?sl = num_slot" using assms(3) by simp
  show "?sl ! k = (if b \<le> k \<and> k \<le> e then Some s else slots r ! k)" if "k < num_slot" for k
    using nth_fold_update[of k "slots r" "Some s" "[b..<Suc e]"] that assms(3) by (simp add: less_Suc_eq_le del: upt_Suc)
qed

text \<open>The shards made so far have different addresses.\<close>

definition temp_ok :: "nat list \<Rightarrow> router \<Rightarrow> bool" where
  "temp_ok temp r \<longleftrightarrow> (\<forall>s\<in>set temp. s < length (heap r)) \<and> distinct (map (address_of r) temp) \<and> length (slots r) = num_slot"

text \<open>What reading the entries \<open>es\<close> makes of \<open>temp\<close> and \<open>r\<close>.\<close>

definition mapped :: "slot_entry list \<Rightarrow> nat list \<Rightarrow> router \<Rightarrow> nat list \<Rightarrow> router \<Rightarrow> bool" where
  "mapped es temp r temp' r' \<longleftrightarrow> temp_ok temp' r' \<and> table r' = table r \<and> set temp \<subseteq> set temp' \<and>
     (\<exists>xs. heap r' = heap r @ xs \<and> (\<forall>sh\<in>set xs. connected sh = 0) \<and> set temp' \<subseteq> set temp \<union> {length (heap r)..<length (heap r')}) \<and>
     address_of r' ` set temp' = address_of r ` set temp \<union> address ` set es \<and>
     (\<forall>k<num_slot. case owner es k of
        None \<Rightarrow> slots r' ! k = slots r ! k
      | Some a \<Rightarrow> \<exists>s\<in>set temp'. slots r' ! k = Some s \<and> address_of r' s = a)"

lemma address_of_slots [simp]: "address_of (r\<lparr>slots := sl\<rparr>) = address_of r"
  by (simp add: address_of_def fun_eq_iff)

lemma address_of_append: "s < length (heap r) \<Longrightarrow> heap r' = heap r @ xs \<Longrightarrow> address_of r' s = address_of r s"
  by (simp add: address_of_def nth_append)

lemma mapped_step:
  assumes tok: "temp_ok temp r" and b: "b < num_slot" "e < num_slot" "i \<noteq> 0"
  shows "\<exists>temp1 r1. mapped [(b, e, i, p, x)] temp r temp1 r1 \<and>
    read_slots (entry_value (b, e, i, p, x) # vs) temp r = read_slots vs temp1 r1"
proof -
  have len: "length (slots r) = num_slot" using tok by (simp add: temp_ok_def)
  show ?thesis
  proof (cases "find (\<lambda>s. at_address i p (heap r ! s)) temp")
    case (Some s)
    then have s: "s \<in> set temp" "address_of r s = (i, p)" by (auto simp: find_Some_iff at_address_of)
    obtain sl where sl: "set_range s (of_nat b) (of_nat e) r = Ret (r\<lparr>slots := sl\<rparr>)" "length sl = num_slot"
      "\<And>k. k < num_slot \<Longrightarrow> sl ! k = (if b \<le> k \<and> k \<le> e then Some s else slots r ! k)"
      using set_range_ok[OF b(1,2) len, where s = s] by blast
    have "mapped [(b, e, i, p, x)] temp r temp (r\<lparr>slots := sl\<rparr>)"
      using tok s sl by (auto simp: mapped_def temp_ok_def intro: rev_image_eqI)
    then show ?thesis using Some sl(1) entry_fields_value[OF b(3), of b e p x] by auto
  next
    case None
    let ?s = "length (heap r)"
    let ?r = "r\<lparr>heap := heap r @ [new_shard i p]\<rparr>"
    have new: "\<forall>t\<in>set temp. address_of r t \<noteq> (i, p)" using None by (auto simp: find_None_iff at_address_of)
    have sl0: "slots ?r = slots r" by simp
    obtain sl where sl: "set_range ?s (of_nat b) (of_nat e) ?r = Ret (?r\<lparr>slots := sl\<rparr>)" "length sl = num_slot"
      "\<And>k. k < num_slot \<Longrightarrow> sl ! k = (if b \<le> k \<and> k \<le> e then Some ?s else slots r ! k)"
      using set_range_ok[OF b(1,2), of ?r ?s, unfolded sl0, OF len] by blast
    have old: "address_of ?r t = address_of r t" if "t \<in> set temp" for t
      using that tok by (intro address_of_append) (auto simp: temp_ok_def)
    have here: "address_of ?r ?s = (i, p)" by (simp add: address_of_def new_shard_def)
    have maps: "map (address_of ?r) temp = map (address_of r) temp" using old by simp
    have "distinct (map (address_of ?r) (temp @ [?s]))"
      unfolding map_append maps using tok new here by (auto simp: temp_ok_def)
    moreover have "\<forall>t\<in>set (temp @ [?s]). t < length (heap ?r)" using tok by (auto simp: temp_ok_def)
    ultimately have "temp_ok (temp @ [?s]) (?r\<lparr>slots := sl\<rparr>)"
      using sl(2) by (simp add: temp_ok_def)
    moreover have "address_of ?r ` set (temp @ [?s]) = address_of r ` set temp \<union> {(i, p)}"
      using old here by auto
    ultimately have "mapped [(b, e, i, p, x)] temp r (temp @ [?s]) (?r\<lparr>slots := sl\<rparr>)"
      using sl(3) here by (auto simp: mapped_def new_shard_def)
    then show ?thesis using None sl(1) entry_fields_value[OF b(3), of b e p x] by auto
  qed
qed

lemma mapped_slot:
  assumes "mapped es temp r temp' r'" and "k < num_slot"
  shows "case owner es k of None \<Rightarrow> slots r' ! k = slots r ! k
      | Some a \<Rightarrow> \<exists>s\<in>set temp'. slots r' ! k = Some s \<and> address_of r' s = a"
  using assms(1) unfolding mapped_def by (elim conjE) (erule allE[of _ k], erule mp, rule assms(2))

lemma mapped_Nil: "temp_ok temp r \<Longrightarrow> mapped [] temp r temp r"
  by (simp add: mapped_def exI[of _ "[]"])

lemma mapped_Cons:
  assumes tok: "temp_ok temp r" and one: "mapped [a] temp r temp1 r1" and two: "mapped es temp1 r1 temp2 r2"
  shows "mapped (a # es) temp r temp2 r2"
proof -
  obtain xs ys where h: "heap r1 = heap r @ xs" "heap r2 = heap r1 @ ys"
    and zero: "\<forall>sh\<in>set xs. connected sh = 0" "\<forall>sh\<in>set ys. connected sh = 0"
    and new: "set temp1 \<subseteq> set temp \<union> {length (heap r)..<length (heap r1)}"
      "set temp2 \<subseteq> set temp1 \<union> {length (heap r1)..<length (heap r2)}"
    using one two unfolding mapped_def by auto
  have "heap r2 = heap r @ (xs @ ys)" "\<forall>sh\<in>set (xs @ ys). connected sh = 0" using h zero by auto
  moreover have "set temp2 \<subseteq> set temp \<union> {length (heap r)..<length (heap r2)}" using new h by fastforce
  moreover have addr: "address_of r2 s = address_of r1 s" if "s \<in> set temp1" for s
    using that one h(2) by (intro address_of_append) (auto simp: mapped_def temp_ok_def)
  have "case owner (a # es) k of None \<Rightarrow> slots r2 ! k = slots r ! k
      | Some a \<Rightarrow> \<exists>s\<in>set temp2. slots r2 ! k = Some s \<and> address_of r2 s = a" if k: "k < num_slot" for k
  proof -
    obtain b e i p x where a: "a = (b, e, i, p, x)" by (metis prod.exhaust)
    have "case owner es k of None \<Rightarrow> slots r2 ! k = slots r1 ! k
      | Some a \<Rightarrow> \<exists>s\<in>set temp2. slots r2 ! k = Some s \<and> address_of r2 s = a" using two k by (simp add: mapped_def)
    moreover have "case owner [a] k of None \<Rightarrow> slots r1 ! k = slots r ! k
      | Some a \<Rightarrow> \<exists>s\<in>set temp1. slots r1 ! k = Some s \<and> address_of r1 s = a" using one k unfolding mapped_def by blast
    moreover have "set temp1 \<subseteq> set temp2" using two by (simp add: mapped_def)
    ultimately show ?thesis
      using addr by (cases "owner es k"; cases "b \<le> k \<and> k \<le> e") (force simp: a)+
  qed
  moreover have "address_of r2 ` set temp2 = address_of r ` set temp \<union> address ` set (a # es)"
    using one two addr unfolding mapped_def by auto
  moreover have "temp_ok temp2 r2" "table r2 = table r" "set temp \<subseteq> set temp2"
    using one two by (auto simp: mapped_def)
  ultimately show ?thesis unfolding mapped_def by blast
qed

lemma read_slots_spec:
  assumes "\<forall>e\<in>set es. entry_ok e" and "temp_ok temp r"
  shows "\<exists>temp' r'. read_slots (map entry_value es @ vs) temp r = read_slots vs temp' r' \<and> mapped es temp r temp' r'"
  using assms
proof (induction es arbitrary: temp r)
  case Nil
  then show ?case using mapped_Nil by auto
next
  case (Cons a es)
  obtain b e i p x where a: "a = (b, e, i, p, x)" by (metis prod.exhaust)
  have "b < num_slot" "e < num_slot" "i \<noteq> 0" using Cons.prems(1) a by auto
  from mapped_step[OF Cons.prems(2) this] obtain temp1 r1 where one: "mapped [(b, e, i, p, x)] temp r temp1 r1"
    "read_slots (entry_value (b, e, i, p, x) # map entry_value es @ vs) temp r = read_slots (map entry_value es @ vs) temp1 r1"
    by blast
  then have tok1: "temp_ok temp1 r1" by (simp add: mapped_def)
  from Cons.IH[OF _ tok1] Cons.prems(1) obtain temp2 r2 where two: "mapped es temp1 r1 temp2 r2"
    "read_slots (map entry_value es @ vs) temp1 r1 = read_slots vs temp2 r2" by auto
  have "mapped (a # es) temp r temp2 r2" using mapped_Cons[OF Cons.prems(2) one(1)[folded a] two(1)] .
  then show ?case using one(2) two(2) a by (intro exI[of _ temp2] exI[of _ r2]) simp
qed

lemma card_held:
  assumes "table_ok r"
  shows "card {s. Some s \<in> set (table r)} \<le> length (table r)"
    and "None \<notin> set (table r) \<Longrightarrow> card {s. Some s \<in> set (table r)} = length (table r)"
proof -
  have image: "Some ` {s. Some s \<in> set (table r)} = set (table r) - {None}" by (auto simp: image_iff) (metis option.exhaust)
  have card: "card (Some ` {s. Some s \<in> set (table r)}) = card {s. Some s \<in> set (table r)}"
    by (rule card_image) simp
  have "card (set (table r) - {None}) \<le> card (set (table r))" by (rule card_mono) auto
  also have "\<dots> \<le> length (table r)" by (rule card_length)
  finally show "card {s. Some s \<in> set (table r)} \<le> length (table r)" using image card by simp
  assume full: "None \<notin> set (table r)"
  have "distinct (table r)"
  proof (rule distinct_conv_nth[THEN iffD2], intro allI impI)
    fix j k assume jk: "j < length (table r)" "k < length (table r)" "j \<noteq> k"
    have "table r ! j \<noteq> None" using full jk(1) by (metis nth_mem)
    then obtain s where s: "table r ! j = Some s" by blast
    have "table r ! k \<noteq> Some s"
    proof
      assume "table r ! k = Some s"
      then have "j = k" using assms jk s unfolding table_ok_def same_address_def by blast
      then show False using jk by simp
    qed
    then show "table r ! j \<noteq> table r ! k" using s by simp
  qed
  then have "card (set (table r)) = length (table r)" by (rule distinct_card)
  moreover have "set (table r) - {None} = set (table r)" using full by simp
  ultimately show "card {s. Some s \<in> set (table r)} = length (table r)" using image card by simp
qed

lemma enter_all_spec:
  assumes "table_ok r" and "\<forall>s\<in>set ss. s < length (heap r)" and "distinct (map (address_of r) ss)"
    and "\<forall>t. Some t \<in> set (table r) \<longrightarrow> address_of r t \<notin> address_of r ` set ss"
  shows "case enter_all ss r of (ok, r') \<Rightarrow>
    (ok \<longleftrightarrow> card {s. Some s \<in> set (table r)} + length ss \<le> length (table r)) \<and>
    slots r' = slots r \<and> heap r' = heap r \<and> table_ok r' \<and>
    (ok \<longrightarrow> (\<forall>t. Some t \<in> set (table r') \<longleftrightarrow> t \<in> set ss \<or> Some t \<in> set (table r)))"
  using assms
proof (induction ss arbitrary: r)
  case Nil
  then show ?case using card_held(1)[OF Nil.prems(1)] by simp
next
  case (Cons s ss)
  have fresh: "\<not> same_address (heap r ! s) (heap r ! t)" if "Some t \<in> set (table r)" for t
    using Cons.prems(4) that by (auto simp: same_address_of)
  have s: "s < length (heap r)" using Cons.prems(2) by simp
  note es = enter_shard_spec[OF Cons.prems(1) s fresh]
  show ?case
  proof (cases "enter_shard s r")
    case None
    then show ?thesis using es card_held(2)[OF Cons.prems(1)] Cons.prems(1) by simp
  next
    case (Some r1)
    have r1: "table_ok r1" "slots r1 = slots r" "heap r1 = heap r" "length (table r1) = length (table r)"
      "\<And>t. Some t \<in> set (table r1) \<longleftrightarrow> t = s \<or> Some t \<in> set (table r)" using es Some by auto
    have addr: "address_of r1 = address_of r" using r1(3) by (simp add: address_of_def fun_eq_iff)
    have notin: "Some s \<notin> set (table r)" using fresh[of s] by (auto simp: same_address_def)
    have "{t. Some t \<in> set (table r1)} = insert s {t. Some t \<in> set (table r)}" using r1(5) by auto
    moreover have "finite {t. Some t \<in> set (table r)}"
      by (rule finite_subset[of _ "the ` set (table r)"]) (auto simp: image_iff, metis option.sel)
    ultimately have card: "card {t. Some t \<in> set (table r1)} = card {t. Some t \<in> set (table r)} + 1"
      using notin by simp
    have "case enter_all ss r1 of (ok, r') \<Rightarrow>
      (ok \<longleftrightarrow> card {s. Some s \<in> set (table r1)} + length ss \<le> length (table r1)) \<and>
      slots r' = slots r1 \<and> heap r' = heap r1 \<and> table_ok r' \<and>
      (ok \<longrightarrow> (\<forall>t. Some t \<in> set (table r') \<longleftrightarrow> t \<in> set ss \<or> Some t \<in> set (table r1)))"
      using Cons.prems by (intro Cons.IH[OF r1(1)]) (auto simp: addr r1(3,5))
    then show ?thesis using Some card r1 by (auto split: prod.splits)
  qed
qed

section \<open>Properties\<close>

lemma read_map_run:
  assumes "read_slots vs [] (rt c) = Ret (True, temp, r)" and "enter_all temp r = (ok, r')"
  shows "read_map (Array vs) o' c =
    Ret (if ok then (True, 0) else (False, ENOMEM), c\<lparr>options := set_cluster_option o', rt := r'\<rparr>)"
  by (cases ok) (simp_all add: read_map_def assms Let_def)

lemma read_map_entries:
  assumes ok: "cluster_ok c" and empty: "set (table (rt c)) = {None}" and es: "\<forall>e\<in>set es. entry_ok e"
  obtains temp r where "read_slots (map entry_value es @ vs) [] (rt c) = read_slots vs temp r"
    and "mapped es [] (rt c) temp r" and "table_ok r"
proof -
  have "temp_ok [] (rt c)" using cluster_okD(2)[OF ok] by (simp add: temp_ok_def)
  from read_slots_spec[OF es this] obtain temp r where m: "mapped es [] (rt c) temp r"
    "read_slots (map entry_value es @ vs) [] (rt c) = read_slots vs temp r" by blast
  have "table r = table (rt c)" using m(1) by (simp add: mapped_def)
  then have "set (table r) = {None}" "table r \<noteq> []" using empty by (simp, metis empty_set insert_not_empty)
  then have "table_ok r" unfolding table_ok_def by (metis nth_mem singletonD option.distinct(1))
  then show ?thesis using that m by blast
qed

text \<open>C15. On a cluster without shards, \<open>connect\<close> reads an answer that gives every range one server: it
  succeeds exactly when the table has room for the different servers, and then every slot of an
  entry leads to the shard of the server named last for it, which the table holds under its
  address; the other slots are as before.\<close>
theorem connect_maps_slots:
  assumes "cluster_ok c" and "set (table (rt c)) = {None}" and "\<forall>e\<in>set es. entry_ok e"
  shows "\<exists>c'. read_map (Array (map entry_value es)) o' c =
      Ret (if card (address ` set es) \<le> length (table (rt c)) then (True, 0) else (False, ENOMEM), c') \<and>
    options c' = set_cluster_option o' \<and>
    (card (address ` set es) \<le> length (table (rt c)) \<longrightarrow> cluster_ok c' \<and>
      (\<forall>k<num_slot. case owner es k of
         None \<Rightarrow> slots (rt c') ! k = slots (rt c) ! k
       | Some (i, p) \<Rightarrow> \<exists>s. slots (rt c') ! k = Some s \<and> holds (rt c') i p s))"
proof -
  obtain temp r where rs: "read_slots (map entry_value es @ []) [] (rt c) = read_slots [] temp r"
    and m: "mapped es [] (rt c) temp r" and tok: "table_ok r"
    by (rule read_map_entries[OF assms])
  obtain ok r' where ea: "enter_all temp r = (ok, r')" by fastforce
  have none: "{s. Some s \<in> set (table r)} = {}" using m assms(2) by (auto simp: mapped_def)
  have d: "\<forall>s\<in>set temp. s < length (heap r)" "distinct (map (address_of r) temp)" "length (slots r) = num_slot"
    using m by (auto simp: mapped_def temp_ok_def)
  have tab: "table r = table (rt c)" using m by (simp add: mapped_def)
  have "card (address_of r ` set temp) = length temp"
    using d(2) distinct_card[of "map (address_of r) temp"] by simp
  then have len: "length temp = card (address ` set es)" using m by (simp add: mapped_def)
  have entered: "ok \<longleftrightarrow> card (address ` set es) \<le> length (table (rt c))" "slots r' = slots r" "heap r' = heap r" "table_ok r'"
    "ok \<Longrightarrow> \<forall>t. Some t \<in> set (table r') \<longleftrightarrow> t \<in> set temp"
    using enter_all_spec[OF tok d(1,2)] none ea len tab by auto
  let ?c = "c\<lparr>options := set_cluster_option o', rt := r'\<rparr>"
  have run: "read_map (Array (map entry_value es)) o' c = Ret (if ok then (True, 0) else (False, ENOMEM), ?c)"
    using rs by (intro read_map_run[OF _ ea]) simp
  obtain xs where xs: "heap r = heap (rt c) @ xs" "\<forall>sh\<in>set xs. connected sh = 0" using m unfolding mapped_def by metis
  have slot: "case owner es k of None \<Rightarrow> slots r ! k = slots (rt c) ! k
      | Some a \<Rightarrow> \<exists>s\<in>set temp. slots r ! k = Some s \<and> address_of r s = a" if "k < num_slot" for k
    using m that by (rule mapped_slot)
  have in_heap: "s < length (heap r)" if held: "Some s \<in> set (slots r)" for s
  proof -
    obtain k where k: "k < num_slot" "slots r ! k = Some s"
      using held unfolding in_set_conv_nth d(3) by blast
    have "s \<in> set temp \<or> Some s \<in> set (slots (rt c))"
    proof (cases "owner es k")
      case None
      then have "Some s = slots (rt c) ! k" using slot[OF k(1)] k(2) by simp
      then show ?thesis using k(1) cluster_okD(2)[OF assms(1)] by (metis nth_mem)
    qed (use slot[OF k(1)] k(2) in auto)
    then show ?thesis using d(1) cluster_okD(5)[OF assms(1), of s] xs(1) by auto
  qed
  have shards: "connected (heap r ! s) \<in> {0, 3} \<or> connected (heap r ! s) = 2 \<and>
      (\<exists>p<length (ends c). shard_pipe (heap r ! s) = Some p)" if "s < length (heap r)" for s
  proof (cases "s < length (heap (rt c))")
    case False
    then have "heap r ! s \<in> set xs" using that xs(1) by (simp add: nth_append)
    then show ?thesis using xs(2) by simp
  qed (use cluster_okD(7)[OF assms(1), of s] xs(1) in \<open>simp add: nth_append\<close>)
  have "cluster_ok ?c"
    using assms(1) entered(2,3,4) d(3) in_heap shards unfolding cluster_ok_def by simp
  moreover have rtc: "rt ?c = r'" "options ?c = set_cluster_option o'" by simp_all
  moreover have "case owner es k of None \<Rightarrow> slots (rt ?c) ! k = slots (rt c) ! k
      | Some (i, p) \<Rightarrow> \<exists>s. slots (rt ?c) ! k = Some s \<and> holds (rt ?c) i p s" if "k < num_slot" "ok" for k
    unfolding rtc using slot[OF that(1)] entered(2,3) entered(5)[OF that(2)]
    by (cases "owner es k") (auto simp: holds_def at_address_def address_of_def)
  ultimately show ?thesis using run unfolding entered(1) by blast
qed

definition demo_cluster_option :: cluster_option where
  "demo_cluster_option = \<lparr>seeds = [], c_username = None, c_password = None, c_clientname = None, c_resp = 3\<rparr>"

definition demo_entries :: "slot_entry list" where
  "demo_entries = [(0, 8191, 0x7F000001, 7000, []), (8192, 16383, 0x7F000001, 7001, [])]"

lemma demo_entries_ok: "\<forall>e\<in>set demo_entries. entry_ok e"
  by (simp add: demo_entries_def num_slot_def)

lemma demo_start: "cluster_ok (new_cluster 2 2 h0 nop)" "table (rt (new_cluster 2 2 h0 nop)) = [None, None]"
  using new_cluster_ok[of 2 1 h0 nop] by (simp_all add: new_cluster_def new_router_def replicate_two)

theorem connect_maps_slots_witness:
  "\<exists>c'. read_map (Array (map entry_value demo_entries)) demo_cluster_option (new_cluster 2 2 (0 :: nat) 0) = Ret ((True, 0), c') \<and> cluster_ok c' \<and>
     (\<exists>s. slots (rt c') ! 9000 = Some s \<and> holds (rt c') 0x7F000001 7001 s)"
proof -
  let ?c = "new_cluster 2 2 (0 :: nat) 0"
  have "set (table (rt ?c)) = {None}" by (simp add: demo_start)
  from connect_maps_slots[OF demo_start(1) this demo_entries_ok, of demo_cluster_option] obtain c' where c':
    "read_map (Array (map entry_value demo_entries)) demo_cluster_option ?c = Ret (if card (address ` set demo_entries) \<le> length (table (rt ?c)) then (True, 0) else (False, ENOMEM), c')"
    "card (address ` set demo_entries) \<le> length (table (rt ?c)) \<longrightarrow> cluster_ok c' \<and>
      (\<forall>k<num_slot. case owner demo_entries k of
         None \<Rightarrow> slots (rt c') ! k = slots (rt ?c) ! k
       | Some (i, p) \<Rightarrow> \<exists>s. slots (rt c') ! k = Some s \<and> holds (rt c') i p s)" by blast
  have card: "card (address ` set demo_entries) \<le> length (table (rt ?c))"
    by (simp add: demo_entries_def demo_start card_insert_if)
  have "9000 < num_slot" "owner demo_entries 9000 = Some (0x7F000001, 7001)" by (simp_all add: num_slot_def demo_entries_def)
  then have "\<exists>s. slots (rt c') ! 9000 = Some s \<and> holds (rt c') 0x7F000001 7001 s"
    using c'(2) card by fastforce
  then show ?thesis using c' card by auto
qed

text \<open>Behind any such entries, an entry that also names a replica, as CLUSTER SLOTS does for every
  range that has one, makes \<open>connect\<close> fail with \<open>EPROTO\<close>.\<close>
theorem connect_refuses_replicas:
  assumes "cluster_ok c" and "set (table (rt c)) = {None}" and "\<forall>e\<in>set es. entry_ok e"
  shows "\<exists>c'. read_map (Array (map entry_value es @ Array (b # e # master # replica # others) # vs)) o' c = Ret ((False, EPROTO), c')"
proof -
  obtain temp r where "read_slots (map entry_value es @ Array (b # e # master # replica # others) # vs) [] (rt c) =
      read_slots (Array (b # e # master # replica # others) # vs) temp r"
    by (rule read_map_entries[OF assms])
  then show ?thesis by (simp add: read_map_def entry_fields_def)
qed

theorem connect_refuses_replicas_witness:
  "\<exists>c'. read_map (Array [Array [Integer 0, Integer 16383, Array [Bulk_string ''127.0.0.1'', Integer 7000],
      Array [Bulk_string ''127.0.0.1'', Integer 7001]]]) demo_cluster_option (new_cluster 2 2 (0 :: nat) 0) = Ret ((False, EPROTO), c')"
  using connect_refuses_replicas[OF demo_start(1)[of "0 :: nat" 0], of "[]" "Integer 0" "Integer 16383"
      "Array [Bulk_string ''127.0.0.1'', Integer 7000]" "Array [Bulk_string ''127.0.0.1'', Integer 7001]" "[]" "[]" demo_cluster_option]
  by (simp add: demo_start)

end
