(* ===== verification/Client_Subscriber.thy ===== *)
theory Client_Subscriber
  imports Connection "HOL-Library.Sublist"
begin

text \<open>
  The two classes a program owns: \<open>RedisClient\<close> (include/RedisClient.hpp), here its connecting,
  closing, moving and destruction, and \<open>RedisSubscriber\<close> (include/RedisSubscriber.hpp).
\<close>

section \<open>RedisClient\<close>

text \<open>
  \<open>pipe\<close> is an index into the pipes made so far, of which the model keeps the \<open>alive\<close> flag, whether
  the socket was closed, the parser and the option; what runs in a pipe is in \<open>Pipe_Task\<close>.
\<close>

record client_pipe =
  cp_alive :: bool
  cp_open :: bool
  cp_parser :: parser
  cp_option :: long_option

record client =
  pipe :: "nat option"
  made :: "client_pipe list"

definition new_client :: "client_pipe list \<Rightarrow> client" where
  "new_client ps = \<lparr>pipe = None, made = ps\<rparr>"

definition client_connect :: "attempt \<Rightarrow> parser \<Rightarrow> connection_option \<Rightarrow> int \<Rightarrow> client \<Rightarrow>
    (bool io_result \<times> client) outcome" where
  "client_connect att p o' timeout c =
     bind_outcome (connect_spot att p o' timeout) (\<lambda>((v, err), st).
       if err \<noteq> 0 then Ret ((False, err), c)
       else
         let new = \<lparr>cp_alive = True, cp_open = True, cp_parser = conn_parser st, cp_option = set_option o'\<rparr>
         in Ret ((True, 0), c\<lparr>pipe := Some (length (made c)), made := made c @ [new]\<rparr>))"

definition stop_pipe :: "nat \<Rightarrow> client_pipe list \<Rightarrow> client_pipe list" where
  "stop_pipe k ps = ps[k := (ps ! k)\<lparr>cp_alive := False, cp_open := False\<rparr>]"

definition client_close :: "client \<Rightarrow> client" where
  "client_close c = (case pipe c of None \<Rightarrow> c | Some k \<Rightarrow> c\<lparr>pipe := None, made := stop_pipe k (made c)\<rparr>)"

text \<open>The move constructor: the new client and what is left of the other.\<close>

definition client_move :: "client \<Rightarrow> client \<times> client" where
  "client_move other = (other, other\<lparr>pipe := None\<rparr>)"

text \<open>The destructor, which shuts the socket down; the pipes are what it leaves.\<close>

definition client_destroy :: "client \<Rightarrow> client_pipe list" where
  "client_destroy c = (case pipe c of None \<Rightarrow> made c | Some k \<Rightarrow> stop_pipe k (made c))"

definition client_option :: "client \<Rightarrow> connection_option outcome" where
  "client_option c = (case pipe c of None \<Rightarrow> UB | Some k \<Rightarrow> Ret (to_option (cp_option (made c ! k))))"

text \<open>The pipes that are alive, and those among them that no client leads to.\<close>

definition owned :: "client \<Rightarrow> bool" where
  "owned c \<longleftrightarrow> (\<forall>k<length (made c). cp_alive (made c ! k) \<longrightarrow> pipe c = Some k) \<and>
     (\<forall>k. pipe c = Some k \<longrightarrow> k < length (made c) \<and> cp_alive (made c ! k))"

lemma owned_close:
  assumes "owned c"
  shows "owned (client_close c)" and "\<forall>q\<in>set (made (client_close c)). \<not> cp_alive q"
proof -
  have dead: "\<not> cp_alive (made (client_close c) ! k)" if "k < length (made (client_close c))" for k
  proof (cases "pipe c")
    case None
    then show ?thesis using assms that by (auto simp: owned_def client_close_def)
  next
    case (Some m)
    then have len: "k < length (made c)" using that by (simp add: client_close_def stop_pipe_def)
    show ?thesis
    proof (cases "k = m")
      case True
      then show ?thesis using Some len by (simp add: client_close_def stop_pipe_def)
    next
      case False
      then have "pipe c \<noteq> Some k" using Some by simp
      then have "\<not> cp_alive (made c ! k)" using assms len unfolding owned_def by blast
      then show ?thesis using False Some by (simp add: client_close_def stop_pipe_def)
    qed
  qed
  then show "\<forall>q\<in>set (made (client_close c)). \<not> cp_alive q"
    by (auto simp only: in_set_conv_nth)
  have "pipe (client_close c) = None" by (cases "pipe c") (simp_all add: client_close_def)
  then show "owned (client_close c)" using dead by (simp add: owned_def)
qed

text \<open>\<open>connect\<close> of a client without a pipe either fails with the error of the handshake and changes
  nothing, or leaves the client with one live pipe that has its option; \<open>close\<close> and the destructor
  then stop every pipe. But a client that is connected already loses the pipe it had: it stays
  alive, and closing the client does not stop it.\<close>
theorem client_connect_pipes:
  assumes "owned c" and "client_connect att p o' timeout c = Ret ((ok, err), c')"
  shows "(ok \<longleftrightarrow> err = 0) \<and> (\<not> ok \<longrightarrow> c' = c) \<and>
    (ok \<longrightarrow> client_option c' = Ret (to_option (set_option o')) \<and>
       (pipe c = None \<longrightarrow> owned c' \<and> (\<forall>q\<in>set (client_destroy c') \<union> set (made (client_close c')). \<not> cp_alive q)) \<and>
       (\<forall>k. pipe c = Some k \<longrightarrow> cp_alive (made (client_close c') ! k) \<and> pipe (client_close c') = None))"
proof -
  obtain v e st where "connect_spot att p o' timeout = Ret ((v, e), st)"
    using assms(2) unfolding client_connect_def bind_outcome_Ret_iff by (auto split: prod.splits)
  then have c: "if e \<noteq> 0 then ok = False \<and> err = e \<and> c' = c else ok = True \<and> err = 0 \<and>
      c' = c\<lparr>pipe := Some (length (made c)), made := made c @ [\<lparr>cp_alive = True, cp_open = True, cp_parser = conn_parser st, cp_option = set_option o'\<rparr>]\<rparr>"
    using assms(2) by (auto simp: client_connect_def Let_def split: if_splits)
  show ?thesis
  proof (cases "e = 0")
    case True
    then have "ok" "err = 0"
      and c': "pipe c' = Some (length (made c))" "made c' = made c @ [\<lparr>cp_alive = True, cp_open = True, cp_parser = conn_parser st, cp_option = set_option o'\<rparr>]"
      using c by simp_all
    moreover have "owned c'" if "pipe c = None"
      using assms(1) that c' by (auto simp: owned_def nth_append less_Suc_eq)
    moreover have "\<forall>q\<in>set (client_destroy c'). \<not> cp_alive q" if "owned c'"
      using owned_close(2)[OF that] c'(1) by (simp add: client_destroy_def client_close_def)
    moreover have "cp_alive (made (client_close c') ! k) \<and> pipe (client_close c') = None" if "pipe c = Some k" for k
      using assms(1) that c' by (auto simp: owned_def client_close_def stop_pipe_def nth_append)
    moreover have "client_option c' = Ret (to_option (set_option o'))" using c' by (simp add: client_option_def)
    ultimately show ?thesis using owned_close(2)[of c'] by blast
  qed (use c in auto)
qed

section \<open>RedisSubscriber\<close>

text \<open>
  The loop that sends: without a result it waits, and a result of zero bytes is tried again. The
  value is what the call returns and the bytes sent.
\<close>

fun send_all :: "nat io_result list \<Rightarrow> string \<Rightarrow> (bool io_result \<times> string) outcome" where
  "send_all res [] = Ret ((True, 0), [])"
| "send_all [] (b # data) = Suspended"
| "send_all ((n, err) # res) (b # data) =
     (if err \<noteq> 0 then Ret ((False, err), [])
      else bind_outcome (send_all res (drop n (b # data))) (\<lambda>(r, s). Ret (r, take n (b # data) @ s)))"

definition subscribe :: "string \<Rightarrow> string list \<Rightarrow> nat io_result list \<Rightarrow> (bool io_result \<times> string) outcome" where
  "subscribe channel channels res = send_all res (build_commands (''SUBSCRIBE'' # channel # channels))"

definition unsubscribe :: "string \<Rightarrow> string list \<Rightarrow> nat io_result list \<Rightarrow> (bool io_result \<times> string) outcome" where
  "unsubscribe channel channels res = send_all res (build_commands (''UNSUBSCRIBE'' # channel # channels))"

definition psubscribe :: "string \<Rightarrow> string list \<Rightarrow> nat io_result list \<Rightarrow> (bool io_result \<times> string) outcome" where
  "psubscribe pattern patterns res = send_all res (build_commands (''PSUBSCRIBE'' # pattern # patterns))"

definition punsubscribe :: "string \<Rightarrow> string list \<Rightarrow> nat io_result list \<Rightarrow> (bool io_result \<times> string) outcome" where
  "punsubscribe pattern patterns res = send_all res (build_commands (''PUNSUBSCRIBE'' # pattern # patterns))"

text \<open>The overloads with an iterator, as in \<open>build_commands_from_range\<close>.\<close>

definition subscribe_range :: "string list \<Rightarrow> u64 \<Rightarrow> nat io_result list \<Rightarrow> (bool io_result \<times> string) outcome" where
  "subscribe_range rest count res = bind_outcome (build_commands_from_range ''SUBSCRIBE'' rest count) (send_all res)"

definition unsubscribe_range :: "string list \<Rightarrow> u64 \<Rightarrow> nat io_result list \<Rightarrow> (bool io_result \<times> string) outcome" where
  "unsubscribe_range rest count res = bind_outcome (build_commands_from_range ''UNSUBSCRIBE'' rest count) (send_all res)"

definition psubscribe_range :: "string list \<Rightarrow> u64 \<Rightarrow> nat io_result list \<Rightarrow> (bool io_result \<times> string) outcome" where
  "psubscribe_range rest count res = bind_outcome (build_commands_from_range ''PSUBSCRIBE'' rest count) (send_all res)"

definition punsubscribe_range :: "string list \<Rightarrow> u64 \<Rightarrow> nat io_result list \<Rightarrow> (bool io_result \<times> string) outcome" where
  "punsubscribe_range rest count res = bind_outcome (build_commands_from_range ''PUNSUBSCRIBE'' rest count) (send_all res)"

definition read_one_packet :: "int \<Rightarrow> parser \<Rightarrow> ((redis_value \<times> int) \<times> parser) outcome" where
  "read_one_packet timeout p = parse timeout p"

text \<open>What a call of these may give for the command \<open>data\<close>.\<close>

definition sent_as :: "string \<Rightarrow> nat io_result list \<Rightarrow> (bool io_result \<times> string) outcome \<Rightarrow> bool" where
  "sent_as data res out \<longleftrightarrow> (case out of
     Ret ((ok, err), s) \<Rightarrow> (ok \<longleftrightarrow> err = 0) \<and> (if ok then s = data else prefix s data \<and> s \<noteq> data)
   | Suspended \<Rightarrow> (\<forall>x\<in>set res. snd x = 0) \<and> sum_list (map fst res) < length data
   | _ \<Rightarrow> False)"

lemma send_all_sent: "sent_as data res (send_all res data)"
proof (induction res data rule: send_all.induct)
  case (3 n err res b data)
  show ?case
  proof (cases "err = 0")
    case True
    have IH: "sent_as (drop n (b # data)) res (send_all res (drop n (b # data)))" using 3 True by simp
    have glue: "take n (b # data) @ drop n (b # data) = b # data" by (rule append_take_drop_id)
    show ?thesis
    proof (cases "send_all res (drop n (b # data))")
      case (Ret x)
      obtain ok e s where x: "x = ((ok, e), s)" by (metis prod.exhaust)
      have "prefix s (drop n (b # data)) \<Longrightarrow> prefix (take n (b # data) @ s) (b # data)"
        using glue same_prefix_prefix[of "take n (b # data)" s "drop n (b # data)"] by simp
      moreover have "take n (b # data) @ s = b # data \<longleftrightarrow> s = drop n (b # data)"
        using glue by (metis same_append_eq)
      ultimately show ?thesis using IH Ret True x by (auto simp: sent_as_def split: if_splits)
    next
      case Suspended
      then show ?thesis using IH True by (auto simp: sent_as_def)
    qed (use IH in \<open>auto simp: sent_as_def\<close>)
  qed (simp add: sent_as_def)
qed (auto simp: sent_as_def)

text \<open>Every call of the subscriber sends its command whole when it reports success and a proper part of
  it when it reports an error; it waits only while nothing failed and bytes are left.\<close>
theorem subscriber_sends_whole:
  "sent_as (build_commands (''SUBSCRIBE'' # ch # chs)) res (subscribe ch chs res) \<and>
   sent_as (build_commands (''UNSUBSCRIBE'' # ch # chs)) res (unsubscribe ch chs res) \<and>
   sent_as (build_commands (''PSUBSCRIBE'' # ch # chs)) res (psubscribe ch chs res) \<and>
   sent_as (build_commands (''PUNSUBSCRIBE'' # ch # chs)) res (punsubscribe ch chs res)"
  by (simp add: subscribe_def unsubscribe_def psubscribe_def punsubscribe_def send_all_sent)

subsection \<open>Moving and destroying\<close>

text \<open>
  The members of a subscriber that its compiler-made move constructor copies as they are: the
  pointer \<open>sockbuffer\<close> of the parser and the client object that the parser reads from. Objects and
  blocks are numbers; \<open>live\<close> lists the blocks that are allocated.
\<close>

record subscriber =
  self_client :: nat
  stream_of :: nat
  sockbuffer :: nat
  sub_parser :: parser

definition new_subscriber :: "nat \<Rightarrow> nat \<Rightarrow> parser \<Rightarrow> nat list \<Rightarrow> subscriber \<times> nat list" where
  "new_subscriber obj block p live = (\<lparr>self_client = obj, stream_of = obj, sockbuffer = block, sub_parser = p\<rparr>, block # live)"

definition move_subscriber :: "nat \<Rightarrow> subscriber \<Rightarrow> subscriber \<times> subscriber" where
  "move_subscriber obj other =
     (\<lparr>self_client = obj, stream_of = stream_of other, sockbuffer = sockbuffer other, sub_parser = sub_parser other\<rparr>,
      other\<lparr>sub_parser := (sub_parser other)\<lparr>linebuffer := []\<rparr>\<rparr>)"

text \<open>The destructor of the parser; freeing a block that is not allocated is undefined.\<close>

definition destroy_subscriber :: "subscriber \<Rightarrow> nat list \<Rightarrow> nat list outcome" where
  "destroy_subscriber s live = (if sockbuffer s \<in> set live then Ret (removeAll (sockbuffer s) live) else UB)"

definition close_subscriber :: "subscriber \<Rightarrow> subscriber" where
  "close_subscriber s = s\<lparr>sub_parser := reset_parser (sub_parser s)\<rparr>"

text \<open>A subscriber that was moved and the one it was moved to share the buffer of the parser, which the
  two destructors free twice; and the parser of the new one still reads from the client of the
  old one.\<close>
theorem subscriber_move_shares:
  "case new_subscriber obj block p live of (s, live1) \<Rightarrow> (case move_subscriber obj' s of (s', s0) \<Rightarrow>
     stream_of s' = obj \<and> self_client s' = obj' \<and> bind_outcome (destroy_subscriber s' live1) (destroy_subscriber s0) = UB)"
  by (simp add: new_subscriber_def move_subscriber_def destroy_subscriber_def)

theorem client_connect_pipes_witness:
  "\<exists>c1. client_connect (0, [(length (spot_data demo_option), 0)]) demo_parser demo_option 10 (new_client []) = Ret ((True, 0), c1) \<and>
     owned c1"
proof -
  obtain st where "connect_spot (0, [(length (spot_data demo_option), 0)]) demo_parser demo_option 10 = Ret ((Array [], 0), st)"
    using demo_connect by blast
  then obtain c1 where c1: "client_connect (0, [(length (spot_data demo_option), 0)]) demo_parser demo_option 10 (new_client []) =
      Ret ((True, 0), c1)"
    by (simp add: client_connect_def Let_def)
  moreover have "owned (new_client [])" by (simp add: owned_def new_client_def)
  ultimately show ?thesis using client_connect_pipes[OF _ c1] by (auto simp: new_client_def)
qed

end
