(* ===== verification/Pipe_Close.thy ===== *)
theory Pipe_Close
  imports Pipe_Task Resp_Api
begin

text \<open>
  The end of a client (include/RedisClient.hpp, include/RedisCluster.hpp): the destructor of
  \<open>RedisClient\<close> and of a \<open>Shard\<close> marks the pipe dead and shuts the socket down; \<open>close()\<close> of
  \<open>RedisClient\<close> marks it and closes the descriptor. Here the reader is not given the results of its
  awaits: they are those of \<open>parse\<close> over the socket, so it is the parser that ends the reader.
\<close>

section \<open>The code\<close>

text \<open>
  \<open>AsyncSocket::shutdown\<close>: what has arrived can still be read, then every \<open>recv\<close>, also one that is
  pending, delivers no bytes. \<open>::close\<close> delivers nothing to a \<open>recv\<close> that is pending.
\<close>

definition shutdown_socket :: "parser \<Rightarrow> parser" where
  "shutdown_socket p = p\<lparr>stream := stream p @ [Recv_data []]\<rparr>"

definition destroy_client :: "'h pipe_sys \<times> parser \<Rightarrow> 'h pipe_sys \<times> parser" where
  "destroy_client = (\<lambda>(s, p). (s\<lparr>alive := False\<rparr>, shutdown_socket p))"

definition close_client :: "'h pipe_sys \<times> parser \<Rightarrow> 'h pipe_sys \<times> parser" where
  "close_client = (\<lambda>(s, p). (s\<lparr>alive := False\<rparr>, p))"

text \<open>
  The reader waits in \<open>co_await pipe.parser.parse()\<close>, without a timeout: what it does with all the
  socket delivers until it has a reply or an error, and \<open>Suspended\<close> while it has neither.
\<close>

definition reader_wakes :: "'h pipe_sys \<times> parser \<Rightarrow> ('h pipe_sys \<times> parser) outcome" where
  "reader_wakes = (\<lambda>(s, p).
     case task s of
       Serving w Await_parse \<Rightarrow>
         bind_outcome (parse (-1) p) (\<lambda>(res, p').
           Ret (run_reader (reader_parsed res (queue s)) w
                  (s\<lparr>replies := replies s @ (if res_err res = 0 then [res_val res] else [])\<rparr>), p'))
     | _ \<Rightarrow> Ret (s, p))"

section \<open>A parser whose socket is shut down\<close>

lemma avail_shut: "avail (es @ [Recv_data []]) = avail es"
  by (induction es rule: avail.induct) auto

lemma after_shut: "after es = [] \<Longrightarrow> after (es @ [Recv_data []]) = [Recv_data []]"
  by (induction es rule: after.induct) (auto split: if_splits)

lemma parse_suspended:
  "parse t p = Suspended \<longleftrightarrow> parse_recursion (depth_fuel (p\<lparr>timed := t\<rparr>)) (p\<lparr>timed := t\<rparr>) = Suspended"
  by (cases "parse_recursion (depth_fuel (p\<lparr>timed := t\<rparr>)) (p\<lparr>timed := t\<rparr>)")
     (auto simp: parse_def Let_def outcome_simps)

text \<open>A \<open>parse\<close> that waits for more bytes returns \<open>ECONNRESET\<close> when the socket is shut down.\<close>

lemma parse_shut_down:
  assumes "sized p" and "parse t p = Suspended"
  shows "\<exists>v p'. parse t (shutdown_socket p) = Ret ((v, ECONNRESET), p')"
proof -
  let ?p = "p\<lparr>timed := t\<rparr>" and ?q = "(shutdown_socket p)\<lparr>timed := t\<rparr>"
  have same: "same_input [] ?p ?q"
    using assms(1)
    by (simp add: same_input_def shutdown_socket_def sized_def pos_ok_def all_bytes_def unread_def avail_shut)
  have sus: "parse_recursion (depth_fuel ?p) ?p = Suspended" using assms(2) by (simp add: parse_suspended)
  from same show ?thesis
  proof (cases rule: co_co_runs)
    case stop
    have "after (stream p) = []"
      using stop(1) sus by (auto simp: stalled_def end_of_def split: list.splits recv_event.splits option.splits)
    then have e: "end_of co_stall ?q = Some (ECONNRESET, [])"
      by (simp add: end_of_def shutdown_socket_def after_shut)
    from stalled_parse[OF stop(2)[OF refl]] e show ?thesis by (auto simp: stalled_def)
  next
    case reply
    with sus show ?thesis by simp
  qed
qed

section \<open>The property\<close>

text \<open>C39. A client is destroyed while its connection is up and its reader waits for a reply: the
  shutdown makes \<open>parse\<close> return \<open>ECONNRESET\<close>, the reader ends with it, and the worker drains the ring
  and deletes the pipe. Every coroutine whose request was in the ring is resumed with CONN ERR, in
  the order of the requests, and with that every accepted request has been answered. (The pipe was made
  with a ring of up to 2 to the 31 places, and what the parser has and what still arrives is together
  shorter than the longest bulk.)\<close>

theorem pipe_destroy_answers:
  assumes "pipe_reach (new_pipe (2 ^ k) h0 ph) s" and "k \<le> 31" and "first_phase ph"
    and "task s = Serving w Await_parse" and "sized p" and "reader_wakes (s, p) = Suspended"
  shows "\<exists>s' p'. reader_wakes (destroy_client (s, p)) = Ret (s', p') \<and>
    pipe_reach (new_pipe (2 ^ k) h0 ph) s' \<and> task s' = Deleted \<and>
    answered s' = answered s @ map (\<lambda>e. (fst e, Simple_error CONN_ERR)) (entries (queue s)) \<and>
    accepted s' = accepted s \<and> map fst (accepted s') = map fst (answered s')"
proof -
  have inv: "ledger s" using pipe_reach_inv[OF assms(1-3)] assms(4) by (auto dest: pipe_invD)
  then have wf: "ring_wf (queue s)" by (simp add: ledger_def)
  have "parse (-1) p = Suspended"
    using assms(4,6) by (cases "parse (-1) p") (auto simp: reader_wakes_def outcome_simps)
  then obtain v p' where parse: "parse (-1) (shutdown_socket p) = Ret ((v, ECONNRESET), p')"
    using parse_shut_down[OF assms(5)] by blast
  let ?dead = "s\<lparr>alive := False\<rparr>"
  let ?s' = "run_reader (reader_parsed (v, ECONNRESET) (queue s)) w (?dead\<lparr>replies := replies s\<rparr>)"
  have e: "ECONNRESET \<noteq> 0" by (simp add: ECONNRESET_def)
  have dead: "reader_parsed (v, ECONNRESET) (queue s) = (Inl ECONNRESET, [], queue s)" by (simp add: reader_parsed_def e)
  have "pipe_step ?dead (run_reader (reader_parsed (v, ECONNRESET) (queue ?dead)) w
      (?dead\<lparr>replies := replies ?dead @ (if res_err (v, ECONNRESET) = 0 then [res_val (v, ECONNRESET)] else [])\<rparr>))"
    by (rule step_parsed) (simp_all add: assms(4) e)
  then have "pipe_step ?dead ?s'" by (simp add: e)
  then have reach: "pipe_reach (new_pipe (2 ^ k) h0 ph) ?s'"
    using reach_step[OF reach_step[OF assms(1) step_close]] by blast
  obtain hs r where d: "drain (queue s) = (hs, r)" by fastforce
  then have hs: "hs = map fst (entries (queue s))" using drain_entries[OF wf] by simp
  have fields: "task ?s' = Deleted" "accepted ?s' = accepted s"
    "answered ?s' = answered s @ map (\<lambda>e. (fst e, Simple_error CONN_ERR)) (entries (queue s))"
    using d hs by (simp_all add: dead run_reader_def race_ended_def drain_all_def Let_def comp_def)
  then have "map fst (accepted ?s') = map fst (answered ?s')" using inv by (simp add: ledger_def comp_def)
  moreover have "reader_wakes (destroy_client (s, p)) = Ret (?s', p')"
    using assms(4) by (simp add: reader_wakes_def destroy_client_def parse outcome_simps e)
  ultimately show ?thesis using reach fields by blast
qed

text \<open>A reply that has arrived in part.\<close>

lemma demo_waits: "parse (-1) (new_parser 0 [Recv_data ''+O'']) = Suspended"
proof -
  let ?p = "\<lparr>linebuffer = [], pos = 0, timed = -1, stream = [Recv_data ''+O''], mem_limit = 0\<rparr>"
  let ?q = "\<lparr>linebuffer = ''+O'', pos = 0, timed = -1, stream = [], mem_limit = 0\<rparr>"
  note eval = find_from_def recv_with_def recv_error_def co_stall_def max_bulk_size_def LF_def outcome_simps
  have "line_loop co_stall 0 ?q = Suspended"
    by (subst line_loop.simps) (simp add: eval)
  then have "read_line ?p = Suspended"
    unfolding read_line_def by (subst line_loop.simps) (simp add: eval)
  then show ?thesis by (simp add: parse_suspended depth_fuel_def new_parser_def outcome_simps)
qed

theorem pipe_destroy_answers_witness:
  "\<exists>s' p'. reader_wakes (destroy_client (pushed_pipe (Serving Await_event Await_parse), new_parser 0 [Recv_data ''+O''])) = Ret (s', p') \<and>
     task s' = Deleted \<and> answered s' = [(10, Simple_error CONN_ERR)] \<and> accepted s' = [(10, ''a'')]"
proof -
  have "reader_wakes (pushed_pipe (Serving Await_event Await_parse), new_parser 0 [Recv_data ''+O'']) = Suspended"
    by (simp add: reader_wakes_def pushed_serving demo_waits outcome_simps)
  moreover have "sized (new_parser 0 [Recv_data ''+O''])"
    by (simp add: sized_def pos_ok_def all_bytes_def new_parser_def max_bulk_size_def)
  ultimately show ?thesis
    using pipe_destroy_answers[OF pushed_serving(1) _ pushed_serving(2), of Await_event]
    by (fastforce simp: pushed_serving demo_entries)
qed

text \<open>\<open>close()\<close> leaves a waiting reader where it is: the pipe and the requests in its ring stay until
  the server sends something or ends the connection.\<close>

lemma close_client_waits:
  "reader_wakes (s, p) = Suspended \<Longrightarrow> reader_wakes (close_client (s, p)) = Suspended"
  by (cases "parse (-1) p") (auto simp: reader_wakes_def close_client_def outcome_simps split: phase.splits reader_state.splits)

end
