(* ===== verification/Xnet_Join.thy ===== *)
theory Xnet_Join
  imports Xredis_Prelude
begin

text \<open>
  \<open>race\<close>, \<open>any\<close>, \<open>all\<close> and \<open>allSettled\<close> of include/xnet.hpp: \<open>AnyAwaiter\<close> and \<open>AllAwaiter\<close>, which start a
  worker for every operation and resume the awaiting coroutine when the last one is done. The client
  runs the reader and the writer of a pipe in a \<open>race\<close>. The first part has the variants for one
  thread, the second those whose workers run on several threads, as sequences of atomic steps.
\<close>

section \<open>On one thread\<close>

text \<open>
  \<open>done\<close> counts the workers and is negative while \<open>any\<close> has no success, and from the first failure
  on for \<open>all\<close>. Every operation has a \<open>cancel\<close>, which asks and does not resume a worker at once.
  \<open>cancels\<close> are the operations asked to cancel, in order, and \<open>resumes\<close> is how often the awaiting
  coroutine was resumed.
\<close>

record 'r any_state =
  any_done :: int
  winner :: "(nat \<times> 'r) option"
  any_cancels :: "nat list"
  any_resumes :: nat

record 'r all_state =
  all_done :: int
  tuple :: "'r option list"
  all_cancels :: "nat list"
  all_resumes :: nat

definition new_any :: "'r any_state" where
  "new_any = \<lparr>any_done = 0, winner = None, any_cancels = [], any_resumes = 0\<rparr>"

definition new_all :: "nat \<Rightarrow> 'r all_state" where
  "new_all n = \<lparr>all_done = 0, tuple = replicate n None, all_cancels = [], all_resumes = 0\<rparr>"

definition cancel_except :: "nat \<Rightarrow> nat \<Rightarrow> nat list" where
  "cancel_except hit n = filter (\<lambda>i. i \<noteq> hit) [0..<n]"

definition race_worker :: "nat \<Rightarrow> nat \<Rightarrow> 'r \<Rightarrow> 'r any_state \<Rightarrow> 'r any_state" where
  "race_worker n i result a =
     (let a1 = a\<lparr>any_done := any_done a + 1\<rparr>;
          need_cancel = (any_done a1 = 1);
          a2 = (if need_cancel then a1\<lparr>winner := Some (i, result)\<rparr> else a1);
          need_resume = (any_done a2 = int n);
          a3 = (if need_cancel then a2\<lparr>any_cancels := any_cancels a2 @ cancel_except i n\<rparr> else a2)
      in if need_resume then a3\<lparr>any_resumes := any_resumes a3 + 1\<rparr> else a3)"

definition any_worker :: "nat \<Rightarrow> nat \<Rightarrow> bool \<Rightarrow> 'r \<Rightarrow> 'r any_state \<Rightarrow> 'r any_state" where
  "any_worker n i ok result a =
     (let need_cancel = (\<not> 0 < any_done a \<and> ok);
          a1 = (if 0 < any_done a then a\<lparr>any_done := any_done a + 1\<rparr>
                else if ok then a\<lparr>any_done := 1 - any_done a, winner := Some (i, result)\<rparr>
                else a\<lparr>any_done := any_done a - 1\<rparr>);
          need_resume = ((if 0 \<le> any_done a1 then any_done a1 else - any_done a1) = int n);
          a2 = (if need_cancel then a1\<lparr>any_cancels := any_cancels a1 @ cancel_except i n\<rparr> else a1)
      in if need_resume then a2\<lparr>any_resumes := any_resumes a2 + 1\<rparr> else a2)"

definition all_worker :: "nat \<Rightarrow> nat \<Rightarrow> bool \<Rightarrow> 'r \<Rightarrow> 'r all_state \<Rightarrow> 'r all_state" where
  "all_worker n i ok result a =
     (let a1 = a\<lparr>tuple := (tuple a)[i := Some result]\<rparr>;
          need_cancel = (\<not> all_done a1 < 0 \<and> \<not> ok);
          a2 = a1\<lparr>all_done := (if all_done a1 < 0 then all_done a1 - 1 else if ok then all_done a1 + 1 else - (all_done a1 + 1))\<rparr>;
          need_resume = ((if 0 \<le> all_done a2 then all_done a2 else - all_done a2) = int n);
          a3 = (if need_cancel then a2\<lparr>all_cancels := all_cancels a2 @ cancel_except i n\<rparr> else a2)
      in if need_resume then a3\<lparr>all_resumes := all_resumes a3 + 1\<rparr> else a3)"

definition all_settled_worker :: "nat \<Rightarrow> nat \<Rightarrow> 'r \<Rightarrow> 'r all_state \<Rightarrow> 'r all_state" where
  "all_settled_worker n i result a =
     (let a1 = a\<lparr>all_done := all_done a + 1, tuple := (tuple a)[i := Some result]\<rparr>
      in if all_done a1 = int n then a1\<lparr>all_resumes := all_resumes a1 + 1\<rparr> else a1)"

section \<open>On several threads\<close>

text \<open>
  Where a worker is: awaiting its operation; about to read the counter; about to exchange it, having
  seen a value; the first of \<open>any\<close> about to write the result, and about to count down; about to
  cancel the others; about to resume the coroutine. The flag of \<open>Cas\<close> is \<open>need_cancel\<close>, which \<open>all\<close> keeps
  when the exchange fails, the flag of the other places is \<open>need_resume\<close>. The atomic
  accesses are sequentially consistent here; a step of \<open>compare_exchange_weak\<close> that fails without
  need changes nothing and is left out.
\<close>

datatype place = Await | Ready | Cas bool int | First bool | Written bool | Cancel bool | Resume | Finished

text \<open>The fields \<open>arrived\<close>, the workers in the order in which they counted themselves, and \<open>released\<close>,
  whether the first has counted down, record what happened.\<close>

record 'r threads =
  places :: "place list"
  counter :: int
  first_result :: "(nat \<times> 'r) option"
  results_of :: "'r option list"
  cancelled :: "nat list"
  resumed :: nat
  arrived :: "nat list"
  released :: bool

definition new_threads :: "nat \<Rightarrow> 'r threads" where
  "new_threads n = \<lparr>places = replicate n Await, counter = 0, first_result = None, results_of = replicate n None,
     cancelled = [], resumed = 0, arrived = [], released = False\<rparr>"

definition go :: "nat \<Rightarrow> place \<Rightarrow> 'r threads \<Rightarrow> 'r threads" where
  "go i p st = st\<lparr>places := (places st)[i := p]\<rparr>"

definition count_in :: "nat \<Rightarrow> int \<Rightarrow> 'r threads \<Rightarrow> 'r threads" where
  "count_in i c st = st\<lparr>counter := c, arrived := arrived st @ [i]\<rparr>"

text \<open>What the workers of \<open>race\<close> and \<open>any\<close> do once they are counted.\<close>

definition any_rest :: "nat \<Rightarrow> 'r \<Rightarrow> nat \<Rightarrow> 'r threads \<Rightarrow> 'r threads" where
  "any_rest n result i st =
     (case places st ! i of
        First b \<Rightarrow> go i (Written b) (st\<lparr>first_result := Some (i, result)\<rparr>)
      | Written b \<Rightarrow> go i (if counter st = int n * 2 then Resume else Cancel b) (st\<lparr>counter := counter st - 1, released := True\<rparr>)
      | Cancel b \<Rightarrow> go i (if b then Resume else Finished) (st\<lparr>cancelled := cancelled st @ cancel_except i n\<rparr>)
      | Resume \<Rightarrow> go i Finished (st\<lparr>resumed := resumed st + 1\<rparr>)
      | _ \<Rightarrow> st)"

definition race_thread :: "nat \<Rightarrow> (nat \<Rightarrow> 'r) \<Rightarrow> nat \<Rightarrow> 'r threads \<Rightarrow> 'r threads" where
  "race_thread n vals i st =
     (if n \<le> i then st
      else case places st ! i of
        Await \<Rightarrow> go i Ready st
      | Ready \<Rightarrow>
          let seen = counter st
          in go i (if seen = 0 then First False else if seen + 2 = int n * 2 - 1 then Resume else Finished) (count_in i (seen + 2) st)
      | _ \<Rightarrow> any_rest n (vals i) i st)"

definition any_new_val :: "bool \<Rightarrow> int \<Rightarrow> int" where
  "any_new_val ok seen = (if ok then if 0 < seen then seen + 2 else 2 - seen else if 0 < seen then seen + 2 else seen - 2)"

definition any_thread :: "nat \<Rightarrow> (nat \<Rightarrow> bool) \<Rightarrow> (nat \<Rightarrow> 'r) \<Rightarrow> nat \<Rightarrow> 'r threads \<Rightarrow> 'r threads" where
  "any_thread n oks vals i st =
     (if n \<le> i then st
      else case places st ! i of
        Await \<Rightarrow> go i Ready st
      | Ready \<Rightarrow> go i (Cas (oks i \<and> \<not> 0 < counter st) (counter st)) st
      | Cas _ seen \<Rightarrow>
          if counter st \<noteq> seen then go i (Cas (oks i \<and> \<not> 0 < counter st) (counter st)) st
          else
            let new_val = any_new_val (oks i) seen;
                need_cancel = (oks i \<and> \<not> 0 < seen);
                need_resume = (new_val = int n * 2 - 1 \<or> - new_val = int n * 2)
            in go i (if need_cancel then First need_resume else if need_resume then Resume else Finished) (count_in i new_val st)
      | _ \<Rightarrow> any_rest n (vals i) i st)"

text \<open>\<open>all\<close> and \<open>allSettled\<close> write their place of the tuple before they count themselves.\<close>

definition all_new_val :: "bool \<Rightarrow> int \<Rightarrow> int" where
  "all_new_val ok seen = (if ok then if 0 \<le> seen then seen + 1 else seen - 1 else if 0 \<le> seen then - (seen + 1) else seen - 1)"

definition all_thread :: "nat \<Rightarrow> (nat \<Rightarrow> bool) \<Rightarrow> (nat \<Rightarrow> 'r) \<Rightarrow> nat \<Rightarrow> 'r threads \<Rightarrow> 'r threads" where
  "all_thread n oks vals i st =
     (if n \<le> i then st
      else case places st ! i of
        Await \<Rightarrow> go i Ready (st\<lparr>results_of := (results_of st)[i := Some (vals i)]\<rparr>)
      | Ready \<Rightarrow> go i (Cas (\<not> oks i \<and> 0 \<le> counter st) (counter st)) st
      | Cas need_cancel seen \<Rightarrow>
          if counter st \<noteq> seen then go i (Cas (need_cancel \<or> \<not> oks i \<and> 0 \<le> counter st) (counter st)) st
          else
            let new_val = all_new_val (oks i) seen;
                need_resume = ((if 0 \<le> new_val then new_val else - new_val) = int n)
            in go i (if need_cancel then Cancel need_resume else if need_resume then Resume else Finished) (count_in i new_val st)
      | Cancel b \<Rightarrow> go i (if b then Resume else Finished) (st\<lparr>cancelled := cancelled st @ cancel_except i n\<rparr>)
      | Resume \<Rightarrow> go i Finished (st\<lparr>resumed := resumed st + 1\<rparr>)
      | _ \<Rightarrow> st)"

definition all_settled_thread :: "nat \<Rightarrow> (nat \<Rightarrow> 'r) \<Rightarrow> nat \<Rightarrow> 'r threads \<Rightarrow> 'r threads" where
  "all_settled_thread n vals i st =
     (if n \<le> i then st
      else case places st ! i of
        Await \<Rightarrow> go i Ready (st\<lparr>results_of := (results_of st)[i := Some (vals i)]\<rparr>)
      | Ready \<Rightarrow> let seen = counter st in go i (if seen + 1 = int n then Resume else Finished) (count_in i (seen + 1) st)
      | Resume \<Rightarrow> go i Finished (st\<lparr>resumed := resumed st + 1\<rparr>)
      | _ \<Rightarrow> st)"

text \<open>A schedule is the list of the workers that take a step, one after the other.\<close>

definition run :: "(nat \<Rightarrow> 'r threads \<Rightarrow> 'r threads) \<Rightarrow> nat list \<Rightarrow> 'r threads \<Rightarrow> 'r threads" where
  "run thread schedule st = fold thread schedule st"

definition all_finished :: "'r threads \<Rightarrow> bool" where
  "all_finished st \<longleftrightarrow> list_all (\<lambda>p. p = Finished) (places st)"

text \<open>
  \<open>race_thread\<close> lets every operation return. In \<open>race_step\<close> only those return by themselves that \<open>own\<close>
  names: the worker of any other stays where it is until its operation has been asked to cancel, as
  the reader of a pipe does whose server is silent.
\<close>

definition race_step :: "(nat \<Rightarrow> bool) \<Rightarrow> nat \<Rightarrow> (nat \<Rightarrow> 'r) \<Rightarrow> nat \<Rightarrow> 'r threads \<Rightarrow> 'r threads" where
  "race_step own n vals i st =
     (if i < n \<and> places st ! i = Await \<and> \<not> own i \<and> i \<notin> set (cancelled st) then st else race_thread n vals i st)"

text \<open>A round in which every worker takes a step at least once, in any order.\<close>

definition fair_round :: "nat \<Rightarrow> nat list \<Rightarrow> bool" where
  "fair_round n xs \<longleftrightarrow> list_all (\<lambda>i. i \<in> set xs) [0..<n]"

section \<open>The invariant of \<open>race\<close> and \<open>any\<close>\<close>

fun counted :: "place \<Rightarrow> bool" where
  "counted Await = False"
| "counted Ready = False"
| "counted (Cas b seen) = False"
| "counted _ = True"

text \<open>The places of the first worker with a success before it resumes or finishes.\<close>

definition leading :: "place \<Rightarrow> bool" where
  "leading p \<longleftrightarrow> (\<exists>b. p = First b \<or> p = Written b \<or> p = Cancel b)"

definition sound_place :: "place \<Rightarrow> bool" where
  "sound_place p \<longleftrightarrow> p \<notin> {First True, Written True, Cancel True}"

text \<open>\<open>complete\<close>: the coroutine is due to be resumed, which one worker does.\<close>

definition one_resumes :: "(place \<Rightarrow> bool) \<Rightarrow> bool \<Rightarrow> nat \<Rightarrow> 'r threads \<Rightarrow> bool" where
  "one_resumes due complete n st \<longleftrightarrow>
     (if complete
      then \<exists>r<n. (due (places st ! r) \<and> resumed st = 0 \<or> places st ! r = Finished \<and> resumed st = 1) \<and>
        (\<forall>i<n. i \<noteq> r \<longrightarrow> \<not> due (places st ! i))
      else resumed st = 0 \<and> (\<forall>i<n. \<not> due (places st ! i)))"

definition join_ok :: "nat \<Rightarrow> 'r threads \<Rightarrow> bool" where
  "join_ok n st \<longleftrightarrow> length (places st) = n \<and> distinct (arrived st) \<and>
     (\<forall>i. i \<in> set (arrived st) \<longleftrightarrow> i < n \<and> counted (places st ! i))"

definition any_result :: "(nat \<Rightarrow> bool) \<Rightarrow> (nat \<Rightarrow> 'r) \<Rightarrow> nat \<Rightarrow> 'r threads \<Rightarrow> bool" where
  "any_result oks vals n st \<longleftrightarrow>
     (case filter oks (arrived st) of
        [] \<Rightarrow> counter st = - 2 * int (length (arrived st)) \<and> \<not> released st \<and> first_result st = None \<and>
          (\<forall>i<n. \<not> leading (places st ! i))
      | w # ws \<Rightarrow> counter st = 2 * int (length (arrived st)) - (if released st then 1 else 0) \<and>
          first_result st = (if places st ! w = First False then None else Some (w, vals w)) \<and>
          (released st \<longleftrightarrow> places st ! w \<notin> {First False, Written False}) \<and>
          (\<forall>i<n. i \<noteq> w \<longrightarrow> \<not> leading (places st ! i)))"

definition any_complete :: "(nat \<Rightarrow> bool) \<Rightarrow> nat \<Rightarrow> 'r threads \<Rightarrow> bool" where
  "any_complete oks n st \<longleftrightarrow> length (arrived st) = n \<and> (filter oks (arrived st) = [] \<or> released st)"

definition any_inv :: "nat \<Rightarrow> (nat \<Rightarrow> bool) \<Rightarrow> (nat \<Rightarrow> 'r) \<Rightarrow> 'r threads \<Rightarrow> bool" where
  "any_inv n oks vals st \<longleftrightarrow> join_ok n st \<and> any_result oks vals n st \<and> (\<forall>i<n. sound_place (places st ! i)) \<and>
     one_resumes (\<lambda>p. p = Resume) (any_complete oks n st) n st"

lemma update_place: "i < length ps \<Longrightarrow> ps[i := p] ! j = (if j = i then p else ps ! j)"
  by (simp add: nth_list_update)

lemma go_simps [simp]:
  "places (go i p st) = (places st)[i := p]" "counter (go i p st) = counter st" "first_result (go i p st) = first_result st"
  "results_of (go i p st) = results_of st" "cancelled (go i p st) = cancelled st" "resumed (go i p st) = resumed st"
  "arrived (go i p st) = arrived st" "released (go i p st) = released st"
  by (simp_all add: go_def)

lemma count_simps [simp]:
  "places (count_in i c st) = places st" "counter (count_in i c st) = c" "first_result (count_in i c st) = first_result st"
  "results_of (count_in i c st) = results_of st" "cancelled (count_in i c st) = cancelled st" "resumed (count_in i c st) = resumed st"
  "arrived (count_in i c st) = arrived st @ [i]" "released (count_in i c st) = released st"
  by (simp_all add: count_in_def)

lemma place_simps [simp]:
  "leading (First b)" "leading (Written b)" "leading (Cancel b)" "\<not> leading Await" "\<not> leading Ready" "\<not> leading (Cas b s)"
  "\<not> leading Resume" "\<not> leading Finished"
  "sound_place Await" "sound_place Ready" "sound_place (Cas b s)" "sound_place Resume" "sound_place Finished"
  "sound_place (First b) \<longleftrightarrow> \<not> b" "sound_place (Written b) \<longleftrightarrow> \<not> b" "sound_place (Cancel b) \<longleftrightarrow> \<not> b"
  by (simp_all add: leading_def sound_place_def)

lemma join_okD:
  assumes "join_ok n st"
  shows "length (places st) = n" "i \<in> set (arrived st) \<longleftrightarrow> i < n \<and> counted (places st ! i)" "length (arrived st) \<le> n"
    "i < n \<Longrightarrow> \<not> counted (places st ! i) \<Longrightarrow> length (arrived st) < n"
proof -
  show l: "length (places st) = n" "i \<in> set (arrived st) \<longleftrightarrow> i < n \<and> counted (places st ! i)" for i
    using assms by (simp_all add: join_ok_def)
  have d: "distinct (arrived st)" using assms by (simp add: join_ok_def)
  have sub: "set (arrived st) \<subseteq> {..<n}" using l(2) by auto
  show "length (arrived st) \<le> n" using card_mono[OF _ sub] distinct_card[OF d] by simp
  assume "i < n" "\<not> counted (places st ! i)"
  then have "set (arrived st) \<subset> {..<n}" using l(2) sub by blast
  then show "length (arrived st) < n" using psubset_card_mono[of "{..<n}" "set (arrived st)"] distinct_card[OF d] by simp
qed

text \<open>The worker that is due to resume: it stays the same, is chosen, and resumes.\<close>

lemma one_resumes_stays:
  assumes "one_resumes due complete n st" and "i < n" "length (places st) = n" and "\<not> due (places st ! i)" "places st ! i \<noteq> Finished" "\<not> due p"
    and "places st' = (places st)[i := p]" "resumed st' = resumed st"
  shows "one_resumes due complete n st'"
proof (cases complete)
  case True
  then obtain r where r: "r < n" "due (places st ! r) \<and> resumed st = 0 \<or> places st ! r = Finished \<and> resumed st = 1"
    "\<forall>i<n. i \<noteq> r \<longrightarrow> \<not> due (places st ! i)" using assms(1) by (auto simp: one_resumes_def)
  then have "r \<noteq> i" using assms(4,5) by auto
  then show ?thesis using True r assms by (auto simp: one_resumes_def update_place intro!: exI[of _ r])
qed (use assms in \<open>auto simp: one_resumes_def update_place\<close>)

lemma one_resumes_chosen:
  assumes "one_resumes due complete n st" and "i < n" "length (places st) = n" and "\<not> complete" "complete' \<longleftrightarrow> due p"
    and "places st' = (places st)[i := p]" "resumed st' = resumed st"
  shows "one_resumes due complete' n st'"
  using assms by (auto simp: one_resumes_def update_place)

lemma one_resumes_done:
  assumes "one_resumes due complete n st" and "i < n" "length (places st) = n" and "due (places st ! i)" "\<not> due Finished"
    and "places st' = (places st)[i := Finished]" "resumed st' = resumed st + 1"
  shows "one_resumes due complete n st'"
proof (cases complete)
  case True
  then obtain r where r: "r < n" "due (places st ! r) \<and> resumed st = 0 \<or> places st ! r = Finished \<and> resumed st = 1"
    "\<forall>i<n. i \<noteq> r \<longrightarrow> \<not> due (places st ! i)" using assms(1) by (auto simp: one_resumes_def)
  then have "r = i" using assms(2,4) by auto
  then show ?thesis using True r assms by (auto simp: one_resumes_def update_place intro!: exI[of _ i])
qed (use assms in \<open>auto simp: one_resumes_def\<close>)

lemma any_invD:
  assumes "any_inv n oks vals st"
  shows "join_ok n st" "any_result oks vals n st" "i < n \<Longrightarrow> sound_place (places st ! i)" "length (places st) = n"
    "one_resumes (\<lambda>p. p = Resume) (any_complete oks n st) n st"
  using assms by (simp_all add: any_inv_def join_ok_def)

lemma any_invI:
  assumes "any_inv n oks vals st" and "i < n" and "places st' = (places st)[i := p]" and "sound_place p"
    and "join_ok n st'" and "any_result oks vals n st'" and "one_resumes (\<lambda>p. p = Resume) (any_complete oks n st') n st'"
  shows "any_inv n oks vals st'"
  using assms(2-) any_invD(3,4)[OF assms(1)] by (simp add: any_inv_def update_place)

lemma join_ok_go:
  assumes "join_ok n st" and "i < n" and "counted p = counted (places st ! i)" and "places st' = (places st)[i := p]" "arrived st' = arrived st"
  shows "join_ok n st'"
  using assms unfolding join_ok_def by (metis length_list_update update_place)

lemma join_ok_count:
  assumes "join_ok n st" and "i < n" and "\<not> counted (places st ! i)" and "counted p" and "places st' = (places st)[i := p]" "arrived st' = arrived st @ [i]"
  shows "join_ok n st'"
proof -
  have len: "length (places st) = n" "i \<notin> set (arrived st)" using assms(1,3) by (auto simp: join_ok_def)
  then have "j \<in> set (arrived st @ [i]) \<longleftrightarrow> j < n \<and> counted ((places st)[i := p] ! j)" for j
    using assms(1-4) by (cases "j = i") (simp_all add: join_ok_def)
  then show ?thesis using assms(1,5,6) len unfolding join_ok_def by simp
qed

text \<open>A worker that is not counted yet moves on.\<close>

lemma any_inv_uncounted:
  assumes inv: "any_inv n oks vals st" and i: "i < n" "\<not> counted (places st ! i)" and p: "\<not> counted p"
  shows "any_inv n oks vals (go i p st)"
proof (rule any_invI[OF inv i(1)])
  note d = any_invD[OF inv]
  have np: "\<not> leading p" "p \<noteq> Resume" using p by (cases p; simp)+
  have ni: "places st ! i \<noteq> Resume" "places st ! i \<noteq> Finished" using i(2) by (cases "places st ! i"; simp)+
  show "join_ok n (go i p st)" using i p by (intro join_ok_go[OF d(1) i(1)]) simp_all
  show "sound_place p" using p by (cases p) simp_all
  show "any_result oks vals n (go i p st)"
  proof (cases "filter oks (arrived st)")
    case Nil
    then show ?thesis using d(2,4) np i(1) by (simp add: any_result_def update_place)
  next
    case (Cons w ws)
    then have "w \<in> set (arrived st)" using filter_is_subset[of oks "arrived st"] by simp
    then have "w \<noteq> i" using join_okD(2)[OF d(1)] i by auto
    then show ?thesis using d(2,4) Cons np i(1) by (simp add: any_result_def update_place)
  qed
  have "any_complete oks n (go i p st) = any_complete oks n st" by (simp add: any_complete_def)
  then show "one_resumes (\<lambda>p. p = Resume) (any_complete oks n (go i p st)) n (go i p st)"
    using one_resumes_stays[OF d(5) i(1) d(4) ni np(2), of "go i p st"] by simp
qed simp

text \<open>A worker counts itself; \<open>race\<close> does it as \<open>any\<close> does when every result is a success.\<close>

definition any_place :: "nat \<Rightarrow> bool \<Rightarrow> int \<Rightarrow> place" where
  "any_place n ok seen =
     (let need_resume = (any_new_val ok seen = int n * 2 - 1 \<or> - any_new_val ok seen = int n * 2)
      in if ok \<and> \<not> 0 < seen then First need_resume else if need_resume then Resume else Finished)"

lemma any_count_later:
  assumes "0 < L" and "seen = 2 * int L - (if b then 1 else 0)"
  shows "any_new_val ok seen = 2 * int (Suc L) - (if b then 1 else 0)" and "any_place n ok seen = (if b \<and> Suc L = n then Resume else Finished)"
proof -
  have pos: "0 < seen" using assms by (cases b) auto
  then show new: "any_new_val ok seen = 2 * int (Suc L) - (if b then 1 else 0)" using assms(2) by (simp add: any_new_val_def)
  have "2 * int (Suc L) = int n * 2 \<longleftrightarrow> Suc L = n" "2 * int (Suc L) \<noteq> int n * 2 - 1" by presburger+
  then show "any_place n ok seen = (if b \<and> Suc L = n then Resume else Finished)"
    using pos unfolding any_place_def new Let_def by (cases b) auto
qed

lemma any_count_first:
  assumes "seen = - 2 * int L"
  shows "any_new_val True seen = 2 * int (Suc L)" and "any_place n True seen = First False"
    and "any_new_val False seen = - 2 * int (Suc L)" and "any_place n False seen = (if Suc L = n then Resume else Finished)"
proof -
  show 1: "any_new_val True seen = 2 * int (Suc L)" and 2: "any_new_val False seen = - 2 * int (Suc L)"
    using assms by (simp_all add: any_new_val_def)
  have "2 * int (Suc L) \<noteq> int n * 2 - 1" "- (2 * int (Suc L)) \<noteq> int n * 2" by presburger+
  then show "any_place n True seen = First False" using assms unfolding any_place_def 1 Let_def by simp
  have "- (- 2 * int (Suc L)) = int n * 2 \<longleftrightarrow> Suc L = n" "- 2 * int (Suc L) \<noteq> int n * 2 - 1" by presburger+
  then show "any_place n False seen = (if Suc L = n then Resume else Finished)" using assms unfolding any_place_def 2 Let_def by simp
qed

lemma any_inv_count:
  assumes inv: "any_inv n oks vals st" and i: "i < n" "\<not> counted (places st ! i)"
  shows "any_inv n oks vals (go i (any_place n (oks i) (counter st)) (count_in i (any_new_val (oks i) (counter st)) st))"
    (is "any_inv n oks vals ?st")
proof (rule any_invI[OF inv i(1)])
  let ?p = "any_place n (oks i) (counter st)" and ?c = "any_new_val (oks i) (counter st)" and ?L = "length (arrived st)"
  note d = any_invD[OF inv]
  have ar: "i \<notin> set (arrived st)" using join_okD(2)[OF d(1)] i by auto
  have L: "?L < n" using join_okD(4)[OF d(1) i] .
  have cp: "counted ?p" by (simp add: any_place_def Let_def)
  show "join_ok n ?st" using i cp by (intro join_ok_count[OF d(1) i(1)]) simp_all
  have notyet: "\<not> any_complete oks n st" using L by (simp add: any_complete_def)
  have "any_result oks vals n ?st \<and> sound_place ?p \<and> (any_complete oks n ?st \<longleftrightarrow> ?p = Resume)"
  proof (cases "filter oks (arrived st)")
    case Nil
    then have old: "counter st = - 2 * int ?L" "\<not> released st" "first_result st = None" "\<forall>j<n. \<not> leading (places st ! j)"
      using d(2) by (simp_all add: any_result_def)
    show ?thesis
      using any_count_first(1,3)[OF old(1)] any_count_first(2,4)[OF old(1), of n] Nil old d(4) i(1)
      by (cases "oks i") (simp_all add: any_result_def any_complete_def update_place)
  next
    case (Cons w ws)
    then have old: "counter st = 2 * int ?L - (if released st then 1 else 0)" "first_result st = (if places st ! w = First False then None else Some (w, vals w))"
      "released st \<longleftrightarrow> places st ! w \<notin> {First False, Written False}" "\<forall>j<n. j \<noteq> w \<longrightarrow> \<not> leading (places st ! j)"
      using d(2) by (simp_all add: any_result_def)
    have "w \<in> set (arrived st)" using filter_is_subset[of oks "arrived st"] unfolding Cons by simp
    then have w: "w \<noteq> i" "0 < ?L" using ar by auto
    show ?thesis
      using any_count_later(1)[OF w(2) old(1), of "oks i"] any_count_later(2)[where n = n and ok = "oks i", OF w(2) old(1)] Cons old d(4) i(1) w(1)
      by (simp add: any_result_def any_complete_def update_place)
  qed
  then have r: "any_result oks vals n ?st" "sound_place ?p" "any_complete oks n ?st \<longleftrightarrow> ?p = Resume" by auto
  show "any_result oks vals n ?st" "sound_place ?p" using r(1,2) .
  show "one_resumes (\<lambda>p. p = Resume) (any_complete oks n ?st) n ?st"
    using one_resumes_chosen[OF d(5) i(1) d(4) notyet r(3), of ?st] by simp
qed simp

text \<open>A worker that is counted goes on.\<close>

lemma any_inv_rest:
  assumes inv: "any_inv n oks vals st" and i: "i < n" "counted (places st ! i)"
  shows "any_inv n oks vals (any_rest n (vals i) i st)"
proof -
  note d = any_invD[OF inv]
  have lead: "\<exists>ws. filter oks (arrived st) = i # ws" if "leading (places st ! i)"
    using that d(2) i(1) by (cases "filter oks (arrived st)") (auto simp: any_result_def)
  have go: "any_inv n oks vals (go i p st')" if "places st' = places st" "arrived st' = arrived st" "counted p" "sound_place p"
    "any_result oks vals n (go i p st')" "one_resumes (\<lambda>p. p = Resume) (any_complete oks n (go i p st')) n (go i p st')" for p st'
    by (rule any_invI[OF inv i(1), of _ p]) (use that i in \<open>auto intro: join_ok_go[OF d(1) i(1)]\<close>)
  from d(3)[OF i(1)] i(2) consider "places st ! i = First False" | "places st ! i = Written False" | "places st ! i = Cancel False"
    | "places st ! i = Resume" | "places st ! i = Finished" by (cases "places st ! i") auto
  then show ?thesis
  proof cases
    case 1
    obtain ws where f: "filter oks (arrived st) = i # ws" using lead 1 by auto
    let ?st = "st\<lparr>first_result := Some (i, vals i)\<rparr>"
    have "any_inv n oks vals (go i (Written False) ?st)"
      using d(2,4) 1 f i(1) one_resumes_stays[OF d(5) i(1) d(4), of "Written False" "go i (Written False) ?st"]
      by (intro go) (simp_all add: any_result_def any_complete_def update_place)
    then show ?thesis using 1 by (simp add: any_rest_def)
  next
    case 2
    obtain ws where f: "filter oks (arrived st) = i # ws" using lead 2 by auto
    have c: "counter st = 2 * int (length (arrived st))" "\<not> released st" using d(2) 2 f by (auto simp: any_result_def)
    have full: "counter st = int n * 2 \<longleftrightarrow> length (arrived st) = n" using c(1) by presburger
    let ?st = "st\<lparr>counter := counter st - 1, released := True\<rparr>" and ?p = "if length (arrived st) = n then Resume else Cancel False"
    have "\<not> any_complete oks n st" using c f by (simp add: any_complete_def)
    from one_resumes_chosen[OF d(5) i(1) d(4) this, of "length (arrived st) = n" ?p "go i ?p ?st"]
    have "any_inv n oks vals (go i ?p ?st)"
      using d(2,4) 2 f i(1) c by (intro go) (auto simp: any_result_def any_complete_def update_place)
    then show ?thesis using 2 full by (simp add: any_rest_def)
  next
    case 3
    obtain ws where f: "filter oks (arrived st) = i # ws" using lead 3 by auto
    let ?st = "st\<lparr>cancelled := cancelled st @ cancel_except i n\<rparr>"
    have "any_inv n oks vals (go i Finished ?st)"
      using d(2,4) 3 f i(1) one_resumes_stays[OF d(5) i(1) d(4), of Finished "go i Finished ?st"]
      by (intro go) (simp_all add: any_result_def any_complete_def update_place)
    then show ?thesis using 3 by (simp add: any_rest_def)
  next
    case 4
    let ?st = "st\<lparr>resumed := resumed st + 1\<rparr>"
    have "any_result oks vals n (go i Finished ?st)"
    proof (cases "filter oks (arrived st)")
      case Nil
      then show ?thesis using d(2,4) i(1) by (simp add: any_result_def update_place)
    next
      case (Cons w ws)
      then show ?thesis using d(2,4) i(1) 4 by (cases "w = i") (simp_all add: any_result_def update_place)
    qed
    moreover have "any_complete oks n (go i Finished ?st) = any_complete oks n st" by (simp add: any_complete_def)
    ultimately have "any_inv n oks vals (go i Finished ?st)"
      using 4 one_resumes_done[OF d(5) i(1) d(4), of "go i Finished ?st"] by (intro go) simp_all
    then show ?thesis using 4 by (simp add: any_rest_def)
  next
    case 5
    then show ?thesis using inv by (simp add: any_rest_def)
  qed
qed

lemma any_start: "0 < n \<Longrightarrow> any_inv n oks vals (new_threads n)"
  by (auto simp: any_inv_def join_ok_def any_result_def one_resumes_def any_complete_def new_threads_def)

lemma any_thread_inv:
  assumes "any_inv n oks vals st"
  shows "any_inv n oks vals (any_thread n oks vals i st)"
proof (cases "i < n")
  case True
  show ?thesis
  proof (cases "places st ! i")
    case (Cas b seen)
    have "any_place n (oks i) seen = (let new_val = any_new_val (oks i) seen; need_cancel = (oks i \<and> \<not> 0 < seen);
        need_resume = (new_val = int n * 2 - 1 \<or> - new_val = int n * 2)
      in if need_cancel then First need_resume else if need_resume then Resume else Finished)"
      by (simp add: any_place_def Let_def)
    then show ?thesis
      using any_inv_count[OF assms True] any_inv_uncounted[OF assms True, of "Cas (oks i \<and> \<not> 0 < counter st) (counter st)"] True Cas
      by (cases "counter st = seen") (simp_all add: any_thread_def Let_def)
  qed (use True any_inv_uncounted[OF assms True] any_inv_rest[OF assms True] in \<open>simp_all add: any_thread_def\<close>)
qed (simp add: any_thread_def assms)

text \<open>In a \<open>race\<close> every result counts as a success.\<close>

lemma race_thread_inv:
  assumes "any_inv n (\<lambda>i. True) vals st"
  shows "any_inv n (\<lambda>i. True) vals (race_thread n vals i st)"
proof (cases "i < n")
  case True
  show ?thesis
  proof (cases "places st ! i")
    case Ready
    have "0 \<le> counter st" using any_invD(2)[OF assms] by (cases "arrived st") (auto simp: any_result_def)
    moreover have "2 \<noteq> int n * 2 - 1" by presburger
    ultimately have "any_new_val True (counter st) = counter st + 2" and "any_place n True (counter st) =
        (if counter st = 0 then First False else if counter st + 2 = int n * 2 - 1 then Resume else Finished)"
      by (auto simp: any_new_val_def any_place_def Let_def)
    then show ?thesis using any_inv_count[OF assms True] True Ready by (simp add: race_thread_def Let_def)
  qed (use True any_inv_uncounted[OF assms True] any_inv_rest[OF assms True] in \<open>simp_all add: race_thread_def\<close>,
    simp add: any_rest_def assms)
qed (simp add: race_thread_def assms)

lemma run_invariant:
  assumes "P st" and "\<And>i st. P st \<Longrightarrow> P (thread i st)"
  shows "P (run thread schedule st)"
  using assms(1) unfolding run_def by (induction schedule arbitrary: st) (auto intro: assms(2))

section \<open>The invariant of \<open>all\<close> and \<open>allSettled\<close>\<close>

definition all_due :: "place \<Rightarrow> bool" where
  "all_due p \<longleftrightarrow> p = Resume \<or> p = Cancel True"

definition all_inv :: "nat \<Rightarrow> (nat \<Rightarrow> bool) \<Rightarrow> (nat \<Rightarrow> 'r) \<Rightarrow> 'r threads \<Rightarrow> bool" where
  "all_inv n oks vals st \<longleftrightarrow> join_ok n st \<and> length (results_of st) = n \<and>
     counter st = (if list_all oks (arrived st) then int (length (arrived st)) else - int (length (arrived st))) \<and>
     (\<forall>i<n. places st ! i \<noteq> Await \<longrightarrow> results_of st ! i = Some (vals i)) \<and>
     (\<forall>i<n. \<forall>b. places st ! i \<noteq> First b \<and> places st ! i \<noteq> Written b) \<and>
     one_resumes all_due (length (arrived st) = n) n st"

lemma all_due_simps [simp]:
  "all_due Resume" "all_due (Cancel b) = b" "\<not> all_due Await" "\<not> all_due Ready" "\<not> all_due (Cas b s)" "\<not> all_due Finished"
  "\<not> all_due (First b)" "\<not> all_due (Written b)"
  by (simp_all add: all_due_def)

lemma all_invI:
  assumes "all_inv n oks vals st" and i: "i < n" and pl: "places st' = (places st)[i := p]" and p: "\<forall>b. p \<noteq> First b \<and> p \<noteq> Written b" "p \<noteq> Await"
    and "join_ok n st'" and c: "counter st' = (if list_all oks (arrived st') then int (length (arrived st')) else - int (length (arrived st')))"
    and r: "results_of st' = results_of st \<and> places st ! i \<noteq> Await \<or> results_of st' = (results_of st)[i := Some (vals i)]"
    and "one_resumes all_due (length (arrived st') = n) n st'"
  shows "all_inv n oks vals st'"
proof -
  have len: "length (places st) = n" "length (results_of st) = n" using assms(1) by (simp_all add: all_inv_def join_ok_def)
  have old: "j < n \<Longrightarrow> places st ! j \<noteq> Await \<Longrightarrow> results_of st ! j = Some (vals j)" "j < n \<Longrightarrow> \<forall>b. places st ! j \<noteq> First b \<and> places st ! j \<noteq> Written b" for j
    using assms(1) by (simp_all add: all_inv_def)
  have "\<forall>j<n. places st' ! j \<noteq> Await \<longrightarrow> results_of st' ! j = Some (vals j)"
    using r
  proof
    assume "results_of st' = results_of st \<and> places st ! i \<noteq> Await"
    then show ?thesis using old(1) i len unfolding pl by (auto simp: update_place split: if_splits)
  next
    assume "results_of st' = (results_of st)[i := Some (vals i)]"
    then show ?thesis using old(1) i len unfolding pl by (simp add: update_place nth_list_update)
  qed
  moreover have "\<forall>j<n. \<forall>b. places st' ! j \<noteq> First b \<and> places st' ! j \<noteq> Written b"
    using old(2) i len p unfolding pl by (simp add: update_place)
  ultimately show ?thesis using assms(6,9) c r len by (auto simp: all_inv_def)
qed

lemma all_invD:
  assumes "all_inv n oks vals st"
  shows "join_ok n st" "length (places st) = n" "one_resumes all_due (length (arrived st) = n) n st"
    "counter st = (if list_all oks (arrived st) then int (length (arrived st)) else - int (length (arrived st)))"
    "i < n \<Longrightarrow> places st ! i \<noteq> First b \<and> places st ! i \<noteq> Written b"
  using assms by (simp_all add: all_inv_def join_ok_def)

text \<open>The steps before a worker is counted, its count, and the steps after it.\<close>

lemma all_inv_uncounted:
  assumes inv: "all_inv n oks vals st" and i: "i < n" "\<not> counted (places st ! i)" and p: "p = Ready \<or> p = Cas b c"
    and st': "places st' = (places st)[i := p]" "arrived st' = arrived st" "counter st' = counter st" "resumed st' = resumed st"
    and r: "results_of st' = results_of st \<and> places st ! i \<noteq> Await \<or> results_of st' = (results_of st)[i := Some (vals i)]"
  shows "all_inv n oks vals st'"
proof (rule all_invI[OF inv i(1) st'(1)])
  note d = all_invD[OF inv]
  have u: "\<not> counted p" "\<not> all_due p" using p by auto
  have v: "\<not> all_due (places st ! i)" "places st ! i \<noteq> Finished" using i(2) by (cases "places st ! i"; simp)+
  show "join_ok n st'" using join_ok_go[OF d(1) i(1) _ st'(1,2)] u i by simp
  show "one_resumes all_due (length (arrived st') = n) n st'" using one_resumes_stays[OF d(3) i(1) d(2) v u(2) st'(1,4)] st'(2) by simp
qed (use p all_invD(4)[OF inv] st' r in auto)

lemma all_inv_count:
  assumes inv: "all_inv n oks vals st" and i: "i < n" "\<not> counted (places st ! i)" "places st ! i \<noteq> Await"
    and p: "counted p" "\<forall>b. p \<noteq> First b \<and> p \<noteq> Written b" "all_due p \<longleftrightarrow> Suc (length (arrived st)) = n"
    and c: "c = (if list_all oks (arrived st @ [i]) then int (Suc (length (arrived st))) else - int (Suc (length (arrived st))))"
  shows "all_inv n oks vals (go i p (count_in i c st))"
proof (rule all_invI[OF inv i(1), of _ p])
  note d = all_invD[OF inv]
  have L: "length (arrived st) \<noteq> n" using join_okD(4)[OF d(1) i(1,2)] by simp
  show "join_ok n (go i p (count_in i c st))" using join_ok_count[OF d(1) i(1,2) p(1), of "go i p (count_in i c st)"] by simp
  have "length (arrived (go i p (count_in i c st))) = n \<longleftrightarrow> all_due p" using p(3) by simp
  then show "one_resumes all_due (length (arrived (go i p (count_in i c st))) = n) n (go i p (count_in i c st))"
    using one_resumes_chosen[OF d(3) i(1) d(2) L, of "length (arrived (go i p (count_in i c st))) = n" p "go i p (count_in i c st)"] by simp
qed (use p i c in auto)

lemma all_inv_cancel:
  assumes inv: "all_inv n oks vals st" and i: "i < n" "places st ! i = Cancel b"
  shows "all_inv n oks vals (go i (if b then Resume else Finished) (st\<lparr>cancelled := xs\<rparr>))"
proof -
  note d = all_invD[OF inv]
  let ?p = "if b then Resume else Finished" and ?st = "st\<lparr>cancelled := xs\<rparr>"
  have pl: "places (go i ?p ?st) = (places st)[i := ?p]" by simp
  have "one_resumes all_due (length (arrived st) = n) n (go i ?p ?st)"
  proof (cases b)
    case False
    then show ?thesis using one_resumes_stays[OF d(3) i(1) d(2), of Finished "go i ?p ?st"] i(2) by simp
  next
    case True
    then obtain "length (arrived st) = n" "resumed st = 0" "\<forall>j<n. j \<noteq> i \<longrightarrow> \<not> all_due (places st ! j)"
      using d(3) i unfolding one_resumes_def by (metis all_due_simps(1,2,6))
    then show ?thesis using True i d(2) by (auto simp: one_resumes_def update_place intro!: exI[of _ i])
  qed
  then show ?thesis
    using all_invI[OF inv i(1) pl] join_ok_go[OF d(1) i(1) _ pl] d(4) i(2) by simp
qed

lemma all_inv_resume:
  assumes inv: "all_inv n oks vals st" and i: "i < n" "places st ! i = Resume"
  shows "all_inv n oks vals (go i Finished (st\<lparr>resumed := resumed st + 1\<rparr>))"
proof -
  note d = all_invD[OF inv]
  let ?st = "st\<lparr>resumed := resumed st + 1\<rparr>"
  have pl: "places (go i Finished ?st) = (places st)[i := Finished]" by simp
  have "one_resumes all_due (length (arrived st) = n) n (go i Finished ?st)"
    using one_resumes_done[OF d(3) i(1) d(2), of "go i Finished ?st"] i(2) by simp
  then show ?thesis
    using all_invI[OF inv i(1) pl] join_ok_go[OF d(1) i(1) _ pl] d(4) i(2) by simp
qed

lemma all_start: "0 < n \<Longrightarrow> all_inv n oks vals (new_threads n)"
  by (auto simp: all_inv_def join_ok_def one_resumes_def new_threads_def)

lemma all_new_val_ok:
  assumes "c = (if list_all oks xs then int (length xs) else - int (length xs))"
  shows "all_new_val (oks i) c = (if list_all oks (xs @ [i]) then int (Suc (length xs)) else - int (Suc (length xs)))"
  using assms by (cases xs) (auto simp: all_new_val_def)

lemma all_thread_inv:
  assumes inv: "all_inv n oks vals st"
  shows "all_inv n oks vals (all_thread n oks vals i st)"
proof (cases "i < n")
  case i: True
  note d = all_invD[OF inv]
  show ?thesis
  proof (cases "places st ! i")
    case Await
    then show ?thesis using i all_inv_uncounted[OF inv i, of Ready False 0] by (simp add: all_thread_def)
  next
    case Ready
    then show ?thesis using i all_inv_uncounted[OF inv i, of "Cas (\<not> oks i \<and> 0 \<le> counter st) (counter st)" "\<not> oks i \<and> 0 \<le> counter st" "counter st"] by (simp add: all_thread_def)
  next
    case (Cas b seen)
    let ?c = "all_new_val (oks i) seen"
    let ?b = "(if 0 \<le> ?c then ?c else - ?c) = int n"
    let ?nc = "b \<or> \<not> oks i \<and> 0 \<le> counter st"
    let ?p = "if b then Cancel ?b else if ?b then Resume else Finished"
    have "all_inv n oks vals (go i ?p (count_in i ?c st))" if "counter st = seen"
    proof (rule all_inv_count[OF inv i])
      show c: "?c = (if list_all oks (arrived st @ [i]) then int (Suc (length (arrived st))) else - int (Suc (length (arrived st))))"
        using all_new_val_ok[OF d(4)] that by simp
      show "all_due ?p \<longleftrightarrow> Suc (length (arrived st)) = n" unfolding c by auto
    qed (use Cas in auto)
    then show ?thesis using i Cas all_inv_uncounted[OF inv i, of "Cas ?nc (counter st)" ?nc "counter st" "go i (Cas ?nc (counter st)) st"]
      by (simp add: all_thread_def Let_def)
  qed (use i inv d(5) all_inv_cancel[OF inv i] all_inv_resume[OF inv i] in \<open>auto simp: all_thread_def\<close>)
qed (simp add: all_thread_def inv)

lemma all_settled_thread_inv:
  assumes inv: "all_inv n (\<lambda>i. True) vals st"
  shows "all_inv n (\<lambda>i. True) vals (all_settled_thread n vals i st)"
proof (cases "i < n")
  case i: True
  note d = all_invD[OF inv]
  show ?thesis
  proof (cases "places st ! i")
    case Await
    then show ?thesis using i all_inv_uncounted[OF inv i, of Ready False 0] by (simp add: all_settled_thread_def)
  next
    case Ready
    have c: "counter st = int (length (arrived st))" using d(4) by (simp add: list_all_iff)
    have "counter st + 1 = int n \<longleftrightarrow> Suc (length (arrived st)) = n" unfolding c by linarith
    then show ?thesis using i Ready c
        all_inv_count[OF inv i, of "if counter st + 1 = int n then Resume else Finished" "counter st + 1"]
      by (auto simp: all_settled_thread_def Let_def list_all_iff)
  qed (use i inv all_inv_resume[OF inv i] in \<open>auto simp: all_settled_thread_def\<close>)
qed (simp add: all_settled_thread_def inv)

section \<open>The variants for one thread\<close>

definition first_ok :: "(nat \<Rightarrow> bool) \<Rightarrow> (nat \<Rightarrow> 'r) \<Rightarrow> nat list \<Rightarrow> (nat \<times> 'r) option" where
  "first_ok oks vals xs = (case filter oks xs of [] \<Rightarrow> None | w # ws \<Rightarrow> Some (w, vals w))"

lemma any_worker_simps:
  "any_done (any_worker n i ok r a) = (if 0 < any_done a then any_done a + 1 else if ok then 1 - any_done a else any_done a - 1)"
  "winner (any_worker n i ok r a) = (if \<not> 0 < any_done a \<and> ok then Some (i, r) else winner a)"
  "any_resumes (any_worker n i ok r a) = any_resumes a +
     (if \<bar>if 0 < any_done a then any_done a + 1 else if ok then 1 - any_done a else any_done a - 1\<bar> = int n then 1 else 0)"
  by (auto simp: any_worker_def Let_def)

lemma race_worker_any:
  "0 \<le> any_done a \<Longrightarrow> race_worker n i r a = any_worker n i True r a"
  by (auto simp: race_worker_def any_worker_def Let_def)

lemma any_fold:
  assumes "0 < n" and "length xs \<le> n"
  shows "any_done (fold (\<lambda>i. any_worker n i (oks i) (vals i)) xs new_any) =
      (if filter oks xs = [] then - int (length xs) else int (length xs)) \<and>
    winner (fold (\<lambda>i. any_worker n i (oks i) (vals i)) xs new_any) = first_ok oks vals xs \<and>
    any_resumes (fold (\<lambda>i. any_worker n i (oks i) (vals i)) xs new_any) = (if length xs = n then 1 else 0)"
  using assms(2)
proof (induction xs rule: rev_induct)
  case Nil
  then show ?case using assms(1) by (simp add: new_any_def first_ok_def)
next
  case (snoc x xs)
  let ?a = "fold (\<lambda>i. any_worker n i (oks i) (vals i)) xs new_any"
  have ih: "any_done ?a = (if filter oks xs = [] then - int (length xs) else int (length xs))" "winner ?a = first_ok oks vals xs"
    "any_resumes ?a = 0" using snoc by auto
  have len: "filter oks xs \<noteq> [] \<Longrightarrow> 0 < length xs" by (cases xs) auto
  have step: "fold (\<lambda>i. any_worker n i (oks i) (vals i)) (xs @ [x]) new_any = any_worker n x (oks x) (vals x) ?a" by simp
  have d: "any_done (any_worker n x (oks x) (vals x) ?a) = (if filter oks (xs @ [x]) = [] then - int (Suc (length xs)) else int (Suc (length xs)))"
    unfolding any_worker_simps ih(1) using len by auto
  have w: "winner (any_worker n x (oks x) (vals x) ?a) = first_ok oks vals (xs @ [x])"
    unfolding any_worker_simps ih(1,2) using len by (cases "filter oks xs") (auto simp: first_ok_def)
  have "\<bar>any_done (any_worker n x (oks x) (vals x) ?a)\<bar> = int n \<longleftrightarrow> Suc (length xs) = n" unfolding d by auto
  then have "any_resumes (any_worker n x (oks x) (vals x) ?a) = (if Suc (length xs) = n then 1 else 0)"
    unfolding any_worker_simps(1) unfolding any_worker_simps(3) ih(3) by simp
  then show ?case using d w unfolding step by simp
qed

lemma race_fold:
  assumes "0 < n" and "length xs \<le> n"
  shows "fold (\<lambda>i. race_worker n i (vals i)) xs new_any = fold (\<lambda>i. any_worker n i True (vals i)) xs new_any"
  using assms(2)
proof (induction xs rule: rev_induct)
  case (snoc x xs)
  then have "0 \<le> any_done (fold (\<lambda>i. any_worker n i True (vals i)) xs new_any)" using any_fold[OF assms(1), of xs "\<lambda>i. True" vals] by simp
  then show ?case using snoc by (simp add: race_worker_any)
qed simp

lemma all_worker_simps:
  "all_done (all_worker n i ok r a) = all_new_val ok (all_done a)"
  "tuple (all_worker n i ok r a) = (tuple a)[i := Some r]"
  "all_resumes (all_worker n i ok r a) = all_resumes a + (if \<bar>all_new_val ok (all_done a)\<bar> = int n then 1 else 0)"
  by (auto simp: all_worker_def all_new_val_def Let_def)

lemma all_fold:
  assumes "0 < n" and "length xs \<le> n"
  shows "all_done (fold (\<lambda>i. all_worker n i (oks i) (vals i)) xs (new_all n)) =
      (if list_all oks xs then int (length xs) else - int (length xs)) \<and>
    length (tuple (fold (\<lambda>i. all_worker n i (oks i) (vals i)) xs (new_all n))) = n \<and>
    (\<forall>i<n. tuple (fold (\<lambda>i. all_worker n i (oks i) (vals i)) xs (new_all n)) ! i = (if i \<in> set xs then Some (vals i) else None)) \<and>
    all_resumes (fold (\<lambda>i. all_worker n i (oks i) (vals i)) xs (new_all n)) = (if length xs = n then 1 else 0)"
  using assms(2)
proof (induction xs rule: rev_induct)
  case Nil
  then show ?case using assms(1) by (simp add: new_all_def)
next
  case (snoc x xs)
  let ?a = "fold (\<lambda>i. all_worker n i (oks i) (vals i)) xs (new_all n)"
  have ih: "all_done ?a = (if list_all oks xs then int (length xs) else - int (length xs))" "length (tuple ?a) = n"
    "\<forall>i<n. tuple ?a ! i = (if i \<in> set xs then Some (vals i) else None)" "all_resumes ?a = 0" using snoc by auto
  have step: "fold (\<lambda>i. all_worker n i (oks i) (vals i)) (xs @ [x]) (new_all n) = all_worker n x (oks x) (vals x) ?a" by simp
  note d = all_new_val_ok[OF ih(1), of x]
  have t: "\<forall>i<n. (tuple ?a)[x := Some (vals x)] ! i = (if i \<in> set (xs @ [x]) then Some (vals i) else None)"
  proof (intro allI impI)
    show "(tuple ?a)[x := Some (vals x)] ! i = (if i \<in> set (xs @ [x]) then Some (vals i) else None)" if "i < n" for i
      by (cases "i = x") (use ih(2,3) that in auto)
  qed
  have "\<bar>all_new_val (oks x) (all_done ?a)\<bar> = int n \<longleftrightarrow> Suc (length xs) = n" unfolding d by auto
  then show ?case using d ih(2,4) t unfolding step all_worker_simps by simp
qed

lemma all_settled_worker_all:
  "0 \<le> all_done a \<Longrightarrow> all_settled_worker n i r a = all_worker n i True r a"
  by (simp add: all_worker_def all_settled_worker_def Let_def)

lemma all_settled_fold:
  assumes "0 < n" and "length xs \<le> n"
  shows "fold (\<lambda>i. all_settled_worker n i (vals i)) xs (new_all n) = fold (\<lambda>i. all_worker n i True (vals i)) xs (new_all n)"
  using assms(2)
proof (induction xs rule: rev_induct)
  case (snoc x xs)
  then have "0 \<le> all_done (fold (\<lambda>i. all_worker n i True (vals i)) xs (new_all n))" using all_fold[OF assms(1), of xs "\<lambda>i. True" vals] by (simp add: list_all_iff)
  then show ?case using snoc by (simp add: all_settled_worker_all)
qed simp

section \<open>Complete runs\<close>

lemma finished_counted:
  assumes "join_ok n st" and "all_finished st"
  shows "length (arrived st) = n"
proof -
  have "set (arrived st) = {..<n}" using assms by (auto simp: join_ok_def all_finished_def list_all_length)
  moreover have "distinct (arrived st)" using assms(1) by (simp add: join_ok_def)
  ultimately show ?thesis using distinct_card by fastforce
qed

lemma arrived_all:
  assumes "join_ok n st" and "length (arrived st) = n"
  shows "set (arrived st) = {..<n}"
proof -
  have d: "distinct (arrived st)" "set (arrived st) \<subseteq> {..<n}" using assms(1) by (auto simp: join_ok_def)
  then have "card (set (arrived st)) = card {..<n}" using distinct_card[OF d(1)] assms(2) by simp
  then show ?thesis using d(2) by (simp add: card_subset_eq)
qed

lemma resumed_once:
  assumes "one_resumes due complete n st" and "\<not> due Finished"
  shows "resumed st \<le> 1" and "resumed st = 1 \<Longrightarrow> complete"
    and "complete \<Longrightarrow> all_finished st \<Longrightarrow> length (places st) = n \<Longrightarrow> resumed st = 1"
  using assms by (auto simp: one_resumes_def all_finished_def list_all_length split: if_splits)

lemma any_end:
  assumes inv: "any_inv n oks vals st" and n: "0 < n" and e: "resumed st = 1 \<or> all_finished st"
  shows "resumed st = 1 \<and> length (arrived st) = n \<and> first_result st = first_ok oks vals (arrived st)"
proof -
  note d = any_invD[OF inv]
  have c: "any_complete oks n st"
  proof (cases "resumed st = 1")
    case True
    then show ?thesis using resumed_once(2)[OF d(5)] by simp
  next
    case False
    then have fin: "all_finished st" using e by blast
    have "released st" if "filter oks (arrived st) = w # ws" for w ws
    proof -
      have "w \<in> set (arrived st)" using filter_is_subset[of oks "arrived st"] unfolding that by simp
      then have "w < n" using join_okD(2)[OF d(1)] by simp
      then have "places st ! w = Finished" using fin d(4) by (simp add: all_finished_def list_all_length)
      then show ?thesis using d(2) that by (simp add: any_result_def)
    qed
    then show ?thesis using finished_counted[OF d(1) fin] by (cases "filter oks (arrived st)") (auto simp: any_complete_def)
  qed
  then have "resumed st = 1" using e resumed_once(3)[OF d(5) _ c _ d(4)] by auto
  moreover have "first_result st = first_ok oks vals (arrived st)"
    using c d(2) by (cases "filter oks (arrived st)") (auto simp: any_result_def any_complete_def first_ok_def)
  ultimately show ?thesis using c by (simp add: any_complete_def)
qed

lemma all_end:
  assumes inv: "all_inv n oks vals st" and e: "resumed st = 1 \<or> all_finished st"
  shows "resumed st = 1 \<and> length (arrived st) = n \<and> results_of st = map (\<lambda>i. Some (vals i)) [0..<n]"
proof -
  note d = all_invD[OF inv]
  have c: "length (arrived st) = n"
    using e
  proof
    show "resumed st = 1 \<Longrightarrow> length (arrived st) = n" by (rule resumed_once(2)[OF d(3) all_due_simps(6)])
    show "all_finished st \<Longrightarrow> length (arrived st) = n" by (rule finished_counted[OF d(1)])
  qed
  have here: "places st ! i \<noteq> Await" if "i < n" for i
  proof -
    have "i \<in> set (arrived st)" using arrived_all[OF d(1) c] that by simp
    then have "counted (places st ! i)" using join_okD(2)[OF d(1)] by blast
    then show ?thesis by auto
  qed
  have old: "length (results_of st) = n" "\<forall>i<n. places st ! i \<noteq> Await \<longrightarrow> results_of st ! i = Some (vals i)"
    using inv by (simp_all add: all_inv_def)
  then have "results_of st = map (\<lambda>i. Some (vals i)) [0..<n]" using here by (intro nth_equalityI) simp_all
  then show ?thesis using c e resumed_once(3)[OF d(3) all_due_simps(6) c _ d(2)] by blast
qed

lemma all_refines:
  assumes "0 < n" and inv: "all_inv n oks vals st"
  shows "resumed st \<le> 1 \<and> (resumed st = 1 \<or> all_finished st \<longrightarrow>
    resumed st = 1 \<and> all_resumes (fold (\<lambda>i. all_worker n i (oks i) (vals i)) (arrived st) (new_all n)) = 1 \<and>
    results_of st = tuple (fold (\<lambda>i. all_worker n i (oks i) (vals i)) (arrived st) (new_all n)) \<and>
    results_of st = map (\<lambda>i. Some (vals i)) [0..<n])"
proof -
  let ?one = "fold (\<lambda>i. all_worker n i (oks i) (vals i)) (arrived st) (new_all n)"
  have le: "resumed st \<le> 1" using resumed_once(1)[OF all_invD(3)[OF inv]] by simp
  show ?thesis
  proof (cases "resumed st = 1 \<or> all_finished st")
    case True
    note e = all_end[OF inv True]
    have arr: "set (arrived st) = {..<n}" using arrived_all[OF all_invD(1)[OF inv]] e by blast
    have one: "length (tuple ?one) = n" "\<forall>i<n. tuple ?one ! i = Some (vals i)" "all_resumes ?one = 1"
      using all_fold[OF assms(1), of "arrived st" oks vals] arr e by auto
    have "tuple ?one = map (\<lambda>i. Some (vals i)) [0..<n]" using one by (intro nth_equalityI) simp_all
    then show ?thesis using e one by simp
  qed (use le in simp)
qed

section \<open>Every worker ends\<close>

fun rank :: "place \<Rightarrow> nat" where
  "rank Await = 0"
| "rank Ready = 1"
| "rank (Cas b seen) = 1"
| "rank (First b) = 2"
| "rank (Written b) = 3"
| "rank (Cancel b) = 4"
| "rank Resume = 4"
| "rank Finished = 5"

lemma rank_5: "5 \<le> rank p \<longleftrightarrow> p = Finished"
  by (cases p) auto

lemma run_append: "run thread (xs @ ys) st = run thread ys (run thread xs st)"
  by (simp add: run_def)

lemma run_Cons: "run thread (x # xs) st = run thread xs (thread x st)"
  by (simp add: run_def)

text \<open>A worker that can go on: it is past its operation, or this returns.\<close>

definition can_go :: "(nat \<Rightarrow> bool) \<Rightarrow> nat \<Rightarrow> 'r threads \<Rightarrow> bool" where
  "can_go own j st \<longleftrightarrow> places st ! j \<noteq> Await \<or> own j \<or> j \<in> set (cancelled st)"

definition no_cas :: "nat \<Rightarrow> 'r threads \<Rightarrow> bool" where
  "no_cas n st \<longleftrightarrow> (\<forall>i<n. \<forall>b s. places st ! i \<noteq> Cas b s)"

text \<open>Once the worker that counted itself first is done, the others are counted or asked to cancel.\<close>

definition losers_asked :: "nat \<Rightarrow> 'r threads \<Rightarrow> bool" where
  "losers_asked n st \<longleftrightarrow> (\<forall>w ws. arrived st = w # ws \<longrightarrow> places st ! w \<in> {Resume, Finished} \<longrightarrow>
     length (arrived st) = n \<or> (\<forall>i<n. i \<noteq> w \<longrightarrow> i \<in> set (cancelled st)))"

definition race_inv :: "nat \<Rightarrow> (nat \<Rightarrow> 'r) \<Rightarrow> 'r threads \<Rightarrow> bool" where
  "race_inv n vals st \<longleftrightarrow> any_inv n (\<lambda>_. True) vals st \<and> no_cas n st \<and> losers_asked n st"

lemma race_thread_other: "j \<noteq> i \<Longrightarrow> places (race_thread n vals i st) ! j = places st ! j"
  by (auto simp: race_thread_def any_rest_def Let_def split: place.split)

lemma race_thread_cancelled: "set (cancelled st) \<subseteq> set (cancelled (race_thread n vals i st))"
  by (auto simp: race_thread_def any_rest_def Let_def split: place.split)

lemma race_thread_rank:
  assumes "length (places st) = n" and "i < n" and "sound_place (places st ! i)" "\<And>b s. places st ! i \<noteq> Cas b s"
  shows "min 5 (Suc (rank (places st ! i))) \<le> rank (places (race_thread n vals i st) ! i) \<and> places (race_thread n vals i st) ! i \<noteq> Cas b s"
  using assms by (cases "places st ! i") (auto simp: race_thread_def any_rest_def Let_def)

lemma race_inv_start: "0 < n \<Longrightarrow> race_inv n vals (new_threads n)"
  using any_start[of n "\<lambda>_. True" vals] by (simp add: race_inv_def no_cas_def losers_asked_def new_threads_def)

lemma losers_asked_step:
  assumes inv: "any_inv n (\<lambda>_. True) vals st" and nc: "no_cas n st" and la: "losers_asked n st" and i: "i < n"
  shows "losers_asked n (race_thread n vals i st)"
proof -
  note d = any_invD[OF inv]
  have l: "length (places st) = n" by (rule d(4))
  have sound: "sound_place (places st ! i)" using d(3) i by blast
  have first: "\<exists>ws. arrived st = i # ws" if "leading (places st ! i)"
    using d(2) that i unfolding any_result_def by (cases "arrived st") auto
  have counted: "w < n" "counted (places st ! w)" if "arrived st = w # ws" for w ws
    using join_okD(2)[OF d(1), of w] that by auto
  show ?thesis
  proof (cases "places st ! i")
    case Await
    then have "w \<noteq> i" if "arrived st = w # ws" for w ws using counted(2)[OF that] by auto
    then show ?thesis using la i l Await by (auto simp: losers_asked_def race_thread_def update_place)
  next
    case Ready
    have less: "length (arrived st) < n" using join_okD(4)[OF d(1) i] Ready by simp
    show ?thesis
    proof (cases "arrived st")
      case Nil
      then have "counter st = 0" using d(2) by (simp add: any_result_def)
      then show ?thesis using Nil i l Ready by (simp add: losers_asked_def race_thread_def update_place Let_def)
    next
      case (Cons w ws)
      then have "w \<noteq> i" using counted(2)[OF Cons] Ready by auto
      then show ?thesis using la less i l Ready Cons
        by (auto simp: losers_asked_def race_thread_def update_place Let_def)
    qed
  next
    case (Cas b c)
    then show ?thesis using nc i by (auto simp: no_cas_def)
  next
    case (First b)
    then show ?thesis using first i l by (auto simp: losers_asked_def race_thread_def any_rest_def update_place)
  next
    case (Written b)
    obtain ws where ws: "arrived st = i # ws" using first Written by auto
    have "counter st = 2 * int (length (arrived st))"
      using d(2) ws Written sound by (simp add: any_result_def)
    then show ?thesis using ws i l Written
      by (auto simp: losers_asked_def race_thread_def any_rest_def update_place)
  next
    case (Cancel b)
    obtain ws where ws: "arrived st = i # ws" using first Cancel by auto
    then show ?thesis using i l Cancel
      by (auto simp: losers_asked_def race_thread_def any_rest_def update_place cancel_except_def)
  next
    case Resume
    then show ?thesis using la i l by (auto simp: losers_asked_def race_thread_def any_rest_def update_place)
  next
    case Finished
    then show ?thesis using la i by (simp add: race_thread_def any_rest_def)
  qed
qed

lemma race_inv_step:
  assumes "race_inv n vals st"
  shows "race_inv n vals (race_thread n vals i st)"
proof (cases "i < n")
  case True
  note a = assms[unfolded race_inv_def]
  have "no_cas n (race_thread n vals i st)"
    unfolding no_cas_def
  proof (intro allI impI)
    fix j b s assume j: "j < n"
    have old: "\<And>b s. places st ! k \<noteq> Cas b s" if "k < n" for k using a that by (simp add: no_cas_def)
    have "length (places st) = n" "sound_place (places st ! i)" using any_invD(3,4) a True by blast+
    from race_thread_rank[OF this(1) True this(2) old[OF True], of vals b s] old[OF j, of b s]
    show "places (race_thread n vals i st) ! j \<noteq> Cas b s"
      by (cases "j = i") (simp_all add: race_thread_other)
  qed
  then show ?thesis using a race_thread_inv losers_asked_step True unfolding race_inv_def by blast
next
  case False
  then show ?thesis using assms by (simp add: race_thread_def)
qed

text \<open>What a step of \<open>race_step\<close> keeps, and what it brings about.\<close>

lemma race_step_inv: "race_inv n vals st \<Longrightarrow> race_inv n vals (race_step own n vals i st)"
  by (simp add: race_step_def race_inv_step)

lemma race_inv_rank:
  assumes "race_inv n vals st" and "j < n"
  shows "min 5 (Suc (rank (places st ! j))) \<le> rank (places (race_thread n vals j st) ! j)"
proof -
  have old: "\<And>b s. places st ! j \<noteq> Cas b s" using assms by (simp add: race_inv_def no_cas_def)
  have "length (places st) = n" "sound_place (places st ! j)" using any_invD(3,4) assms unfolding race_inv_def by blast+
  from race_thread_rank[OF this(1) assms(2) this(2) old] show ?thesis by simp
qed

lemma race_step_mono:
  assumes "race_inv n vals st" and "j < n"
  shows "rank (places st ! j) \<le> rank (places (race_step own n vals i st) ! j)"
proof -
  have "rank (places st ! j) \<le> min 5 (Suc (rank (places st ! j)))" by (cases "places st ! j") simp_all
  then have "rank (places st ! j) \<le> rank (places (race_thread n vals i st) ! j)"
    using race_inv_rank[OF assms] race_thread_other[of j i n vals st] by (cases "i = j") simp_all
  then show ?thesis by (simp add: race_step_def)
qed

lemma race_step_goes:
  assumes "race_inv n vals st" and "j < n" and "can_go own j st"
  shows "min 5 (Suc (rank (places st ! j))) \<le> rank (places (race_step own n vals j st) ! j)"
proof -
  have "race_step own n vals j st = race_thread n vals j st" using assms(3) by (auto simp: race_step_def can_go_def)
  then show ?thesis using race_inv_rank[OF assms(1,2)] by simp
qed

lemma can_go_step:
  assumes "race_inv n vals st" and "j < n" and "can_go own j st"
  shows "can_go own j (race_step own n vals i st)"
proof -
  have "places (race_step own n vals i st) ! j = Await \<Longrightarrow> places st ! j = Await"
    using race_step_mono[OF assms(1,2), of own i] assms(1,2)
    by (cases "places st ! j") (auto simp: race_inv_def no_cas_def)
  moreover have "set (cancelled st) \<subseteq> set (cancelled (race_step own n vals i st))"
    using race_thread_cancelled[of st n vals i] by (simp add: race_step_def)
  ultimately show ?thesis using assms(3) by (auto simp: can_go_def)
qed

text \<open>A segment of a schedule, a round, several rounds.\<close>

lemma segment:
  assumes "race_inv n vals st"
  shows "race_inv n vals (run (race_step own n vals) xs st)"
    and "j < n \<Longrightarrow> rank (places st ! j) \<le> rank (places (run (race_step own n vals) xs st) ! j)"
    and "j < n \<Longrightarrow> can_go own j st \<Longrightarrow> can_go own j (run (race_step own n vals) xs st)"
  using assms
proof (induction xs arbitrary: st)
  case (Cons x xs)
  { case 1 then show ?case using Cons.IH(1)[OF race_step_inv] by (simp add: run_Cons) }
  { case 2
    from Cons.IH(2)[OF 2(1) race_step_inv[OF 2(2)], of own x] race_step_mono[OF 2(2,1), of own x]
    show ?case by (simp add: run_Cons) }
  { case 3
    from Cons.IH(3)[OF 3(1) can_go_step[OF 3(3,1,2)] race_step_inv[OF 3(3)], of x] show ?case by (simp add: run_Cons) }
qed (simp_all add: run_def)

lemma round_goes:
  assumes inv: "race_inv n vals st" and j: "j < n" and go: "can_go own j st" and fair: "fair_round n xs"
  shows "min 5 (Suc (rank (places st ! j))) \<le> rank (places (run (race_step own n vals) xs st) ! j)"
proof -
  have "j \<in> set xs" using fair j by (simp add: fair_round_def list_all_iff)
  then obtain ys zs where xs: "xs = ys @ j # zs" by (meson split_list)
  let ?a = "run (race_step own n vals) ys st"
  let ?b = "race_step own n vals j ?a"
  note a = segment[OF inv, where own = own and xs = ys]
  have "run (race_step own n vals) xs st = run (race_step own n vals) zs ?b" by (simp add: xs run_append run_Cons)
  moreover have "min 5 (Suc (rank (places ?a ! j))) \<le> rank (places ?b ! j)"
    by (rule race_step_goes[OF a(1) j a(3)[OF j go]])
  moreover have "rank (places ?b ! j) \<le> rank (places (run (race_step own n vals) zs ?b) ! j)"
    by (rule segment(2)[OF race_step_inv[OF a(1)] j])
  ultimately show ?thesis using a(2)[OF j] by (auto simp: min_def split: if_splits)
qed

lemma rounds_go:
  assumes "race_inv n vals st" and "j < n" and "can_go own j st" and "list_all (fair_round n) rounds"
  shows "min 5 (rank (places st ! j) + length rounds) \<le> rank (places (run (race_step own n vals) (concat rounds) st) ! j)"
  using assms
proof (induction rounds arbitrary: st)
  case (Cons r rounds)
  let ?st = "run (race_step own n vals) r st"
  note a = segment[OF Cons.prems(1), where own = own and xs = r]
  have "min 5 (rank (places ?st ! j) + length rounds) \<le> rank (places (run (race_step own n vals) (concat rounds) ?st) ! j)"
    using Cons.prems(4) by (intro Cons.IH a(1) Cons.prems(2) a(3)[OF Cons.prems(2,3)]) simp
  moreover have "min 5 (Suc (rank (places st ! j))) \<le> rank (places ?st ! j)"
    using Cons.prems(4) by (intro round_goes Cons.prems(1-3)) simp
  ultimately show ?case by (simp add: run_append min_def split: if_splits)
qed (simp add: run_def)

text \<open>After two rounds some worker is the first; after three more it is done.\<close>

lemma first_arrives:
  assumes inv: "race_inv n vals st" and i: "i < n" and "2 \<le> rank (places st ! i)"
  shows "\<exists>w ws. arrived st = w # ws \<and> w < n \<and> 2 \<le> rank (places st ! w)"
proof -
  have j: "join_ok n st" using any_invD(1) inv unfolding race_inv_def by blast
  have "counted (places st ! i)" using assms(3) by (cases "places st ! i") simp_all
  then have "i \<in> set (arrived st)" using join_okD(2)[OF j] i by simp
  then obtain w ws where ws: "arrived st = w # ws" by (cases "arrived st") auto
  then have w: "w < n" "counted (places st ! w)" using join_okD(2)[OF j, of w] by auto
  then have "2 \<le> rank (places st ! w)" using inv by (cases "places st ! w") (auto simp: race_inv_def no_cas_def)
  then show ?thesis using ws w by blast
qed

lemma arrived_hd:
  assumes "arrived st = w # ws"
  shows "\<exists>ws'. arrived (run (race_step own n vals) xs st) = w # ws'"
  using assms
proof (induction xs arbitrary: st ws)
  case (Cons x xs)
  have "\<exists>ws'. arrived (race_step own n vals x st) = w # ws'"
    using Cons.prems by (auto simp: race_step_def race_thread_def any_rest_def Let_def split: place.split)
  then show ?case using Cons.IH by (auto simp: run_Cons)
qed (simp add: run_def)

lemma all_can_go:
  assumes inv: "race_inv n vals st" and w: "arrived st = w # ws" "places st ! w = Finished" and j: "j < n"
  shows "can_go own j st"
proof (cases "j = w")
  case False
  have jo: "join_ok n st" using any_invD(1) inv unfolding race_inv_def by blast
  have "length (arrived st) = n \<or> j \<in> set (cancelled st)"
    using inv w False j by (auto simp: race_inv_def losers_asked_def)
  then show ?thesis
  proof
    assume "length (arrived st) = n"
    then have "j \<in> set (arrived st)" using arrived_all[OF jo] j by simp
    then have "counted (places st ! j)" using join_okD(2)[OF jo] by blast
    then show ?thesis by (auto simp: can_go_def)
  qed (simp add: can_go_def)
qed (use w in \<open>simp add: can_go_def\<close>)

lemma race_step_finishes:
  assumes n: "i < n" and own: "own i" and fair: "list_all (fair_round n) rounds" and many: "10 \<le> length rounds"
  shows "all_finished (run (race_step own n vals) (concat rounds) (new_threads n))"
    and "race_inv n vals (run (race_step own n vals) (concat rounds) (new_threads n))"
proof -
  let ?run = "\<lambda>rs st. run (race_step own n vals) (concat rs) st"
  let ?s0 = "new_threads n :: 'a threads"
  let ?A = "take 2 rounds" and ?B = "take 3 (drop 2 rounds)" and ?C = "drop 5 rounds"
  have inv0: "race_inv n vals ?s0" using n by (intro race_inv_start) simp
  have split: "rounds = ?A @ ?B @ ?C"
    using append_take_drop_id[of 2 rounds] append_take_drop_id[of 3 "drop 2 rounds"] by simp
  let ?s1 = "?run ?A ?s0" let ?s2 = "?run ?B ?s1" let ?s3 = "?run ?C ?s2"
  have run: "?run rounds ?s0 = ?s3" by (subst split) (simp add: run_append)
  have fairs: "list_all (fair_round n) ?A" "list_all (fair_round n) ?B" "list_all (fair_round n) ?C"
    using fair by (auto simp: list_all_iff dest: in_set_takeD in_set_dropD)
  have lens: "length ?A = 2" "length ?B = 3" "5 \<le> length ?C" using many by simp_all
  have inv1: "race_inv n vals ?s1" and inv2: "race_inv n vals ?s2" and inv3: "race_inv n vals ?s3"
    using segment(1) inv0 by blast+
  have "min 5 (rank (places ?s0 ! i) + length ?A) \<le> rank (places ?s1 ! i)"
    by (rule rounds_go[OF inv0 n _ fairs(1)]) (simp add: can_go_def own)
  then have "2 \<le> rank (places ?s1 ! i)" using lens(1) by simp
  from first_arrives[OF inv1 n this] obtain w ws where
    w: "arrived ?s1 = w # ws" "w < n" "2 \<le> rank (places ?s1 ! w)" by blast
  have "min 5 (rank (places ?s1 ! w) + length ?B) \<le> rank (places ?s2 ! w)"
    by (rule rounds_go[OF inv1 w(2) _ fairs(2)]) (use w(3) in \<open>auto simp: can_go_def\<close>)
  then have "places ?s2 ! w = Finished" using w(3) lens(2) by (simp flip: rank_5)
  moreover obtain ws' where "arrived ?s2 = w # ws'" using arrived_hd[OF w(1)] by blast
  ultimately have go: "can_go own j ?s2" if "j < n" for j using all_can_go[OF inv2 _ _ that] by blast
  have "places ?s3 ! j = Finished" if "j < n" for j
  proof -
    have "min 5 (rank (places ?s2 ! j) + length ?C) \<le> rank (places ?s3 ! j)"
      by (rule rounds_go[OF inv2 that go[OF that] fairs(3)])
    then show ?thesis using lens(3) by (simp flip: rank_5)
  qed
  moreover have "length (places ?s3) = n" using any_invD(4) inv3 unfolding race_inv_def by blast
  ultimately have "all_finished ?s3" by (simp add: all_finished_def list_all_length)
  then show "all_finished (?run rounds ?s0)" "race_inv n vals (?run rounds ?s0)" using run inv3 by simp_all
qed

section \<open>The properties\<close>

text \<open>C14. A \<open>race\<close> over threads: in every schedule the awaiting coroutine is resumed at most once. When it
  is resumed, and when all workers are done, it was resumed exactly once, after every operation had
  returned; the result is that of the worker that counted itself first and is the result of the
  awaiter for one thread when the operations return in this order.\<close>

theorem race_threads_refine:
  assumes "0 < n" and "st = run (race_thread n vals) schedule (new_threads n)"
    and "one = fold (\<lambda>i. race_worker n i (vals i)) (arrived st) new_any"
  shows "resumed st \<le> 1 \<and> (resumed st = 1 \<or> all_finished st \<longrightarrow>
    resumed st = 1 \<and> any_resumes one = 1 \<and> set (arrived st) = {..<n} \<and> first_result st = winner one \<and>
    first_result st = Some (hd (arrived st), vals (hd (arrived st))))"
proof -
  have inv: "any_inv n (\<lambda>i. True) vals st"
    unfolding assms(2) using any_start[OF assms(1)] race_thread_inv by (rule run_invariant)
  have one: "winner one = first_ok (\<lambda>i. True) vals (arrived st)" "any_resumes one = (if length (arrived st) = n then 1 else 0)"
    using any_fold[OF assms(1) join_okD(3)[OF any_invD(1)[OF inv]], of "\<lambda>i. True" vals]
    unfolding assms(3) race_fold[OF assms(1) join_okD(3)[OF any_invD(1)[OF inv]]] by simp_all
  have le: "resumed st \<le> 1" using resumed_once(1)[OF any_invD(5)[OF inv]] by simp
  show ?thesis
  proof (cases "resumed st = 1 \<or> all_finished st")
    case True
    note e = any_end[OF inv assms(1) True]
    have "arrived st \<noteq> []" using e assms(1) by auto
    then have "first_ok (\<lambda>i. True) vals (arrived st) = Some (hd (arrived st), vals (hd (arrived st)))" by (cases "arrived st") (simp_all add: first_ok_def)
    then show ?thesis using e one arrived_all[OF any_invD(1)[OF inv]] by simp
  qed (use le in simp)
qed

lemma race_threads_refine_witness:
  "resumed (run (race_thread 2 (\<lambda>i. i)) [1, 1, 0, 1, 0, 1, 1] (new_threads 2)) = 1 \<and>
   first_result (run (race_thread 2 (\<lambda>i. i)) [1, 1, 0, 1, 0, 1, 1] (new_threads 2)) = Some (1, 1)"
proof -
  let ?st = "run (race_thread 2 (\<lambda>i::nat. i)) [1, 1, 0, 1, 0, 1, 1] (new_threads 2)"
  have st: "resumed ?st = 1" "arrived ?st = [1, 0]"
    by (simp_all add: run_def race_thread_def any_rest_def go_def count_in_def new_threads_def eval_nat_numeral)
  have "first_result ?st = Some (hd (arrived ?st), hd (arrived ?st))"
    using race_threads_refine[of 2 ?st "\<lambda>i. i" _ _, OF zero_less_numeral refl refl] st(1) by blast
  then show ?thesis using st by simp
qed

text \<open>C27. \<open>any\<close> over threads, likewise: the result is that of the first worker to count itself whose
  operation succeeded, and there is none when all have failed.\<close>

theorem any_threads_refine:
  assumes "0 < n" and "st = run (any_thread n oks vals) schedule (new_threads n)"
    and "one = fold (\<lambda>i. any_worker n i (oks i) (vals i)) (arrived st) new_any"
  shows "resumed st \<le> 1 \<and> (resumed st = 1 \<or> all_finished st \<longrightarrow>
    resumed st = 1 \<and> any_resumes one = 1 \<and> set (arrived st) = {..<n} \<and> first_result st = winner one \<and>
    first_result st = map_option (\<lambda>w. (w, vals w)) (List.find oks (arrived st)))"
proof -
  have inv: "any_inv n oks vals st"
    unfolding assms(2) using any_start[OF assms(1)] any_thread_inv by (rule run_invariant)
  have one: "winner one = first_ok oks vals (arrived st)" "any_resumes one = (if length (arrived st) = n then 1 else 0)"
    using any_fold[OF assms(1) join_okD(3)[OF any_invD(1)[OF inv]], of oks vals] unfolding assms(3) by simp_all
  have le: "resumed st \<le> 1" using resumed_once(1)[OF any_invD(5)[OF inv]] by simp
  have find: "first_ok oks vals xs = map_option (\<lambda>w. (w, vals w)) (List.find oks xs)" for xs
    by (induction xs) (simp_all add: first_ok_def)
  show ?thesis
  proof (cases "resumed st = 1 \<or> all_finished st")
    case True
    then show ?thesis using any_end[OF inv assms(1) True] one find arrived_all[OF any_invD(1)[OF inv]] by simp
  qed (use le in simp)
qed

lemma any_threads_refine_witness:
  "resumed (run (any_thread 2 (\<lambda>i. i = 1) (\<lambda>i. i)) [0, 0, 1, 1, 0, 1, 1, 1, 1, 1] (new_threads 2)) = 1 \<and>
   first_result (run (any_thread 2 (\<lambda>i. i = 1) (\<lambda>i. i)) [0, 0, 1, 1, 0, 1, 1, 1, 1, 1] (new_threads 2)) = Some (1, 1)"
proof -
  let ?st = "run (any_thread 2 (\<lambda>i. i = 1) (\<lambda>i::nat. i)) [0, 0, 1, 1, 0, 1, 1, 1, 1, 1] (new_threads 2)"
  have st: "resumed ?st = 1" "arrived ?st = [0, 1]"
    by (simp_all add: run_def any_thread_def any_new_val_def any_rest_def go_def count_in_def new_threads_def eval_nat_numeral)
  have "first_result ?st = map_option (\<lambda>w. (w, w)) (List.find (\<lambda>i. i = 1) (arrived ?st))"
    using any_threads_refine[of 2 ?st "\<lambda>i. i = 1" "\<lambda>i. i" _ _, OF zero_less_numeral refl refl] st(1) by blast
  then show ?thesis using st by simp
qed

text \<open>C28. \<open>all\<close> over threads: in every schedule the awaiting coroutine is resumed at most once, and after
  every operation has returned; then the tuple holds the result of each, as the awaiter for one
  thread leaves it.\<close>

theorem all_threads_refine:
  assumes "0 < n" and "st = run (all_thread n oks vals) schedule (new_threads n)"
    and "one = fold (\<lambda>i. all_worker n i (oks i) (vals i)) (arrived st) (new_all n)"
  shows "resumed st \<le> 1 \<and> (resumed st = 1 \<or> all_finished st \<longrightarrow>
    resumed st = 1 \<and> all_resumes one = 1 \<and> results_of st = tuple one \<and> results_of st = map (\<lambda>i. Some (vals i)) [0..<n])"
proof -
  have "all_inv n oks vals st" unfolding assms(2) using all_start[OF assms(1)] all_thread_inv by (rule run_invariant)
  then show ?thesis unfolding assms(3) by (rule all_refines[OF assms(1)])
qed

lemma all_threads_refine_witness:
  "resumed (run (all_thread 2 (\<lambda>i. i = 0) (\<lambda>i. i)) [0, 0, 1, 1, 0, 1, 1, 1, 1] (new_threads 2)) = 1 \<and>
   results_of (run (all_thread 2 (\<lambda>i. i = 0) (\<lambda>i. i)) [0, 0, 1, 1, 0, 1, 1, 1, 1] (new_threads 2)) = [Some 0, Some 1]"
proof -
  let ?st = "run (all_thread 2 (\<lambda>i. i = 0) (\<lambda>i::nat. i)) [0, 0, 1, 1, 0, 1, 1, 1, 1] (new_threads 2)"
  have st: "resumed ?st = 1"
    by (simp add: run_def all_thread_def all_new_val_def go_def count_in_def new_threads_def eval_nat_numeral)
  have "results_of ?st = map Some [0..<2]"
    using all_threads_refine[of 2 ?st "\<lambda>i. i = 0" "\<lambda>i. i" _ _, OF zero_less_numeral refl refl] st by blast
  then show ?thesis using st by (simp add: upt_rec)
qed

text \<open>\<open>allSettled\<close> over threads: likewise, whatever the operations return.\<close>

theorem all_settled_threads_refine:
  assumes "0 < n" and "st = run (all_settled_thread n vals) schedule (new_threads n)"
    and "one = fold (\<lambda>i. all_settled_worker n i (vals i)) (arrived st) (new_all n)"
  shows "resumed st \<le> 1 \<and> (resumed st = 1 \<or> all_finished st \<longrightarrow>
    resumed st = 1 \<and> all_resumes one = 1 \<and> results_of st = tuple one \<and> results_of st = map (\<lambda>i. Some (vals i)) [0..<n])"
proof -
  have inv: "all_inv n (\<lambda>i. True) vals st"
    unfolding assms(2) using all_start[OF assms(1)] all_settled_thread_inv by (rule run_invariant)
  show ?thesis
    unfolding assms(3) all_settled_fold[OF assms(1) join_okD(3)[OF all_invD(1)[OF inv]]] using inv by (rule all_refines[OF assms(1)])
qed

lemma all_settled_threads_refine_witness:
  "resumed (run (all_settled_thread 2 (\<lambda>i. i)) [0, 1, 1, 0, 0] (new_threads 2)) = 1 \<and>
   results_of (run (all_settled_thread 2 (\<lambda>i. i)) [0, 1, 1, 0, 0] (new_threads 2)) = [Some 0, Some 1]"
proof -
  let ?st = "run (all_settled_thread 2 (\<lambda>i::nat. i)) [0, 1, 1, 0, 0] (new_threads 2)"
  have st: "resumed ?st = 1"
    by (simp add: run_def all_settled_thread_def go_def count_in_def new_threads_def eval_nat_numeral)
  have "results_of ?st = map Some [0..<2]"
    using all_settled_threads_refine[of 2 ?st "\<lambda>i. i" _ _, OF zero_less_numeral refl refl] st by blast
  then show ?thesis using st by (simp add: upt_rec)
qed

text \<open>C29. A \<open>race\<close> ends although its losers would wait for ever: if one operation returns by itself and
  every other returns at the latest when it is asked to cancel, ten rounds in which each worker gets
  a step, in any order, end with all workers done and the coroutine resumed. It is the first worker's
  \<open>cancel_except\<close> that frees the others.\<close>

theorem race_ends:
  assumes "i < n" and "own i" and "list_all (fair_round n) rounds" and "10 \<le> length rounds"
  shows "all_finished (run (race_step own n vals) (concat rounds) (new_threads n)) \<and>
    resumed (run (race_step own n vals) (concat rounds) (new_threads n)) = 1"
proof -
  note fin = race_step_finishes[where i = i and own = own and n = n and rounds = rounds and vals = vals, OF assms]
  have "any_inv n (\<lambda>_. True) vals (run (race_step own n vals) (concat rounds) (new_threads n))"
    using fin(2) by (simp add: race_inv_def)
  from any_end[OF this] show ?thesis using fin(1) assms(1) by simp
qed

lemma race_ends_witness:
  "resumed (run (race_step (\<lambda>i. i = 1) 2 (\<lambda>i. i)) (concat (replicate 10 [0, 1])) (new_threads 2)) = 1"
  using race_ends[of 1 2 "\<lambda>i. i = 1" "replicate 10 [0, 1]" "\<lambda>i. i"]
  by (simp add: fair_round_def upt_rec list_all_iff)

text \<open>The first worker counts down before it cancels the others, and may then find that the last of them
  has resumed the coroutine: the awaiter, which \<open>cancel_except\<close> reads, can be gone by then.\<close>

lemma race_cancels_late:
  "places (run (race_thread 2 vals) [0, 0, 0, 0, 1, 1, 1] (new_threads 2)) ! 0 = Cancel False \<and>
   resumed (run (race_thread 2 vals) [0, 0, 0, 0, 1, 1, 1] (new_threads 2)) = 1"
  by (simp add: run_def race_thread_def any_rest_def go_def count_in_def new_threads_def eval_nat_numeral)

lemma any_cancels_late:
  "places (run (any_thread 2 (\<lambda>i. True) vals) [0, 0, 0, 0, 0, 1, 1, 1, 1] (new_threads 2)) ! 0 = Cancel False \<and>
   resumed (run (any_thread 2 (\<lambda>i. True) vals) [0, 0, 0, 0, 0, 1, 1, 1, 1] (new_threads 2)) = 1"
  by (simp add: run_def any_thread_def any_new_val_def any_rest_def go_def count_in_def new_threads_def eval_nat_numeral)

lemma all_cancels_late:
  "places (run (all_thread 2 (\<lambda>i. False) vals) [0, 0, 0, 1, 1, 1, 1] (new_threads 2)) ! 0 = Cancel False \<and>
   resumed (run (all_thread 2 (\<lambda>i. False) vals) [0, 0, 0, 1, 1, 1, 1] (new_threads 2)) = 1"
  by (simp add: run_def all_thread_def all_new_val_def go_def count_in_def new_threads_def eval_nat_numeral)

text \<open>\<open>all\<close> keeps \<open>need_cancel\<close> when its exchange fails, so a second failure can cancel again.\<close>

lemma all_cancels_twice:
  "cancelled (run (all_thread 2 (\<lambda>i. False) vals) [0, 1, 0, 1, 0, 1, 1, 0, 1] (new_threads 2)) = [1, 0]"
  by (simp add: run_def all_thread_def all_new_val_def go_def count_in_def new_threads_def cancel_except_def upt_rec eval_nat_numeral)

end
