(* ===== verification/Xnet_Tasks.thy ===== *)
theory Xnet_Tasks
  imports Xredis_Prelude
begin

unbundle bit_operations_syntax

text \<open>
  The cancellation of coroutines of include/xnet.hpp: \<open>cancelable_promise_type\<close>, \<open>CancelChain\<close> and
  \<open>task\<close>. A task that awaits another becomes its parent, and all tasks of one await chain share a
  \<open>CancelChain\<close> with the handle of the operation the innermost of them waits in. An operation hooks
  itself into the chain before it is submitted and is unhooked when it returns; \<open>request_cancel\<close> on
  any task of the chain cancels the operation. The operations are run one after the other here, each
  to its end. Addresses are numbers, the coroutine and its promise have the same one.
\<close>

section \<open>The data of a promise\<close>

text \<open>Bit 0 of \<open>state\<close> is set when the task was cancelled, bit 1 while an operation is hooked.\<close>

record promise =
  parent :: "nat option"
  chain_of :: "nat option"
  state :: int
  use_count :: int

record cancel_chain =
  cancelhandle :: "nat option"
  chain_uses :: int

record tasks =
  promises :: "nat \<Rightarrow> promise option"
  chains :: "nat \<Rightarrow> cancel_chain option"
  next_task :: nat
  next_chain :: nat

definition no_tasks :: tasks where
  "no_tasks = \<lparr>promises = (\<lambda>_. None), chains = (\<lambda>_. None), next_task = 0, next_chain = 0\<rparr>"

definition with_promise :: "nat \<Rightarrow> tasks \<Rightarrow> (promise \<Rightarrow> 'a outcome) \<Rightarrow> 'a outcome" where
  "with_promise t ts f = (case promises ts t of None \<Rightarrow> UB | Some p \<Rightarrow> f p)"

definition with_chain :: "nat \<Rightarrow> tasks \<Rightarrow> (cancel_chain \<Rightarrow> 'a outcome) \<Rightarrow> 'a outcome" where
  "with_chain c ts f = (case chains ts c of None \<Rightarrow> UB | Some cc \<Rightarrow> f cc)"

definition set_promise :: "nat \<Rightarrow> promise option \<Rightarrow> tasks \<Rightarrow> tasks" where
  "set_promise t p ts = ts\<lparr>promises := (promises ts)(t := p)\<rparr>"

definition set_chain :: "nat \<Rightarrow> cancel_chain option \<Rightarrow> tasks \<Rightarrow> tasks" where
  "set_chain c cc ts = ts\<lparr>chains := (chains ts)(c := cc)\<rparr>"

definition set_state :: "nat \<Rightarrow> int \<Rightarrow> tasks \<Rightarrow> tasks" where
  "set_state t v ts = set_promise t (map_option (\<lambda>p. p\<lparr>state := v\<rparr>) (promises ts t)) ts"

definition and_state :: "nat \<Rightarrow> int \<Rightarrow> tasks \<Rightarrow> tasks" where
  "and_state t v ts = set_promise t (map_option (\<lambda>p. p\<lparr>state := state p AND v\<rparr>) (promises ts t)) ts"

text \<open>\<open>new CancelChain\<close>, stored in the promise.\<close>

definition new_chain :: "nat \<Rightarrow> promise \<Rightarrow> cancel_chain \<Rightarrow> tasks \<Rightarrow> tasks" where
  "new_chain t p cc ts =
     set_promise t (Some (p\<lparr>chain_of := Some (next_chain ts)\<rparr>))
       (set_chain (next_chain ts) (Some cc) (ts\<lparr>next_chain := Suc (next_chain ts)\<rparr>))"

section \<open>Hooks\<close>

text \<open>The walk up the parents has the fuel \<open>next_task\<close>, the number of promises ever made.\<close>

fun xcoro_hook_recursion :: "nat \<Rightarrow> nat \<Rightarrow> tasks \<Rightarrow> (bool \<times> tasks) outcome" where
  "xcoro_hook_recursion 0 node ts = No_fuel"
| "xcoro_hook_recursion (Suc f) node ts = with_promise node ts (\<lambda>p.
     if state p \<noteq> 0b00 then Ret (False, ts)
     else
       let ts = set_state node 0b10 ts
       in case parent p of
            None \<Rightarrow> Ret (True, ts)
          | Some next \<Rightarrow> bind_outcome (xcoro_hook_recursion f next ts) (\<lambda>(ok, ts).
              if ok then Ret (True, ts) else Ret (False, and_state node 0b01 ts)))"

definition xcoro_hook :: "nat \<Rightarrow> nat \<Rightarrow> tasks \<Rightarrow> (bool \<times> tasks) outcome" where
  "xcoro_hook t io ts = with_promise t ts (\<lambda>p.
     case chain_of p of
       None \<Rightarrow>
         let ts = new_chain t p \<lparr>cancelhandle = Some io, chain_uses = 1\<rparr> ts
         in if state p \<noteq> 0b00 then Ret (False, ts) else Ret (True, set_state t 0b10 ts)
     | Some c \<Rightarrow> with_chain c ts (\<lambda>cc.
         let ts = set_chain c (Some (cc\<lparr>cancelhandle := Some io\<rparr>)) ts
         in if state p \<noteq> 0b00 then Ret (False, ts)
            else
              let ts = set_state t 0b10 ts
              in case parent p of
                   None \<Rightarrow> Ret (True, ts)
                 | Some node \<Rightarrow> bind_outcome (xcoro_hook_recursion (next_task ts) node ts) (\<lambda>(ok, ts).
                     if ok then Ret (True, ts) else Ret (False, and_state t 0b01 ts))))"

fun unhook_loop :: "nat \<Rightarrow> nat option \<Rightarrow> tasks \<Rightarrow> tasks outcome" where
  "unhook_loop f None ts = Ret ts"
| "unhook_loop 0 (Some node) ts = No_fuel"
| "unhook_loop (Suc f) (Some node) ts = with_promise node ts (\<lambda>p. unhook_loop f (parent p) (and_state node 0b01 ts))"

definition xcoro_unhook :: "nat \<Rightarrow> tasks \<Rightarrow> tasks outcome" where
  "xcoro_unhook t ts = unhook_loop (next_task ts) (Some t) ts"

text \<open>The result is the operation whose \<open>cancel\<close> is called; without a call it is \<open>None\<close>, and the code
  reports success.\<close>

definition request_cancel :: "nat \<Rightarrow> tasks \<Rightarrow> (nat option \<times> tasks) outcome" where
  "request_cancel t ts = with_promise t ts (\<lambda>p.
     if state p AND 0b01 \<noteq> 0 then Ret (None, ts)
     else
       let expected = state p;
           ts = set_state t (expected OR 0b01) ts
       in if expected = 0b10 then
            (case chain_of p of
               None \<Rightarrow> UB
             | Some c \<Rightarrow> with_chain c ts (\<lambda>cc. with_promise t ts (\<lambda>p.
                 if state p AND 0b10 \<noteq> 0
                 then (case cancelhandle cc of None \<Rightarrow> UB | Some io \<Rightarrow> Ret (Some io, ts))
                 else Ret (None, ts))))
          else Ret (None, ts))"

section \<open>Tasks\<close>

definition new_task :: "tasks \<Rightarrow> tasks" where
  "new_task ts = set_promise (next_task ts) (Some \<lparr>parent = None, chain_of = None, state = 0b00, use_count = 1\<rparr>)
     (ts\<lparr>next_task := Suc (next_task ts)\<rparr>)"

text \<open>\<open>task::await_suspend\<close> when the caller is a task as well.\<close>

definition task_suspend :: "nat \<Rightarrow> nat \<Rightarrow> tasks \<Rightarrow> tasks outcome" where
  "task_suspend t caller ts = with_promise caller ts (\<lambda>pc.
     bind_outcome
       (case chain_of pc of
          None \<Rightarrow> Ret (next_chain ts, new_chain caller pc \<lparr>cancelhandle = None, chain_uses = 2\<rparr> ts)
        | Some c \<Rightarrow> with_chain c ts (\<lambda>cc. Ret (c, set_chain c (Some (cc\<lparr>chain_uses := chain_uses cc + 1\<rparr>)) ts)))
       (\<lambda>(c, ts). with_promise t ts (\<lambda>p.
          Ret (set_promise t (Some (p\<lparr>chain_of := Some c, parent := Some caller\<rparr>)) ts))))"

definition destroy_promise :: "nat \<Rightarrow> tasks \<Rightarrow> tasks outcome" where
  "destroy_promise t ts = with_promise t ts (\<lambda>p.
     case chain_of p of
       None \<Rightarrow> Ret (set_promise t None ts)
     | Some c \<Rightarrow> with_chain c ts (\<lambda>cc.
         let n = chain_uses cc - 1
         in Ret (set_promise t None (set_chain c (if n = 0 then None else Some (cc\<lparr>chain_uses := n\<rparr>)) ts))))"

definition add_ref :: "nat \<Rightarrow> tasks \<Rightarrow> tasks outcome" where
  "add_ref t ts = with_promise t ts (\<lambda>p. Ret (set_promise t (Some (p\<lparr>use_count := use_count p + 1\<rparr>)) ts))"

text \<open>The destructors of \<open>task\<close> and of \<open>CancelToken\<close>.\<close>

definition drop_task :: "nat \<Rightarrow> tasks \<Rightarrow> tasks outcome" where
  "drop_task t ts = with_promise t ts (\<lambda>p.
     let n = use_count p - 1;
         ts = set_promise t (Some (p\<lparr>use_count := n\<rparr>)) ts
     in if n = 0 then destroy_promise t ts else Ret ts)"

section \<open>What the code promises\<close>

text \<open>The stacks of awaiting tasks, innermost first, with the operation the innermost waits in. A task
  is \<open>fresh\<close> until it is awaited, and \<open>refs\<close> counts the \<open>task\<close> and the tokens that hold it. An event
  that the program does not bring about is \<open>None\<close>.\<close>

record await_stack =
  coros :: "nat list"
  waits :: "nat option"

record scopes =
  stacks :: "await_stack list"
  fresh :: "nat \<Rightarrow> bool"
  flagged :: "nat \<Rightarrow> bool"
  refs :: "nat \<Rightarrow> nat"
  made :: nat

datatype task_event = New | Start nat | Await nat nat | Hook nat nat | Unhook nat | Finish nat | Cancel nat | Token nat | Drop nat

datatype task_answer = Accepted | Hooked bool | Cancels "nat option"

definition no_scopes :: scopes where
  "no_scopes = \<lparr>stacks = [], fresh = (\<lambda>_. False), flagged = (\<lambda>_. False), refs = (\<lambda>_. 0), made = 0\<rparr>"

definition stack_of :: "nat \<Rightarrow> scopes \<Rightarrow> await_stack option" where
  "stack_of t sc = List.find (\<lambda>s. t \<in> set (coros s)) (stacks sc)"

definition on_stack :: "nat \<Rightarrow> scopes \<Rightarrow> (await_stack \<Rightarrow> 'a option) \<Rightarrow> 'a option" where
  "on_stack t sc f = (case stack_of t sc of None \<Rightarrow> None | Some s \<Rightarrow> if hd (coros s) = t then f s else None)"

definition put_stack :: "await_stack \<Rightarrow> await_stack \<Rightarrow> scopes \<Rightarrow> scopes" where
  "put_stack s s' sc = sc\<lparr>stacks := map (\<lambda>x. if x = s then s' else x) (stacks sc)\<rparr>"

fun scope_event :: "task_event \<Rightarrow> scopes \<Rightarrow> (task_answer \<times> scopes) option" where
  "scope_event New sc = Some (Accepted, sc\<lparr>made := Suc (made sc), fresh := (fresh sc)(made sc := True), refs := (refs sc)(made sc := 1)\<rparr>)"
| "scope_event (Start t) sc =
     (if fresh sc t then Some (Accepted, sc\<lparr>stacks := \<lparr>coros = [t], waits = None\<rparr> # stacks sc, fresh := (fresh sc)(t := False)\<rparr>) else None)"
| "scope_event (Await caller t) sc = on_stack caller sc (\<lambda>s.
     if waits s = None \<and> fresh sc t
     then Some (Accepted, (put_stack s (s\<lparr>coros := t # coros s\<rparr>) sc)\<lparr>fresh := (fresh sc)(t := False)\<rparr>) else None)"
| "scope_event (Hook t io) sc = on_stack t sc (\<lambda>s.
     if waits s \<noteq> None then None
     else
       let ok = list_all (\<lambda>u. \<not> flagged sc u) (coros s)
       in Some (Hooked ok, if ok then put_stack s (s\<lparr>waits := Some io\<rparr>) sc else sc))"
| "scope_event (Unhook t) sc = on_stack t sc (\<lambda>s.
     if waits s = None then None else Some (Accepted, put_stack s (s\<lparr>waits := None\<rparr>) sc))"
| "scope_event (Finish t) sc = on_stack t sc (\<lambda>s.
     if waits s \<noteq> None then None
     else Some (Accepted, if tl (coros s) = [] then sc\<lparr>stacks := filter (\<lambda>x. x \<noteq> s) (stacks sc)\<rparr>
       else put_stack s (s\<lparr>coros := tl (coros s)\<rparr>) sc))"
| "scope_event (Cancel t) sc =
     (if refs sc t = 0 then None
      else Some (Cancels (if flagged sc t then None else case stack_of t sc of None \<Rightarrow> None | Some s \<Rightarrow> waits s),
        sc\<lparr>flagged := (flagged sc)(t := True)\<rparr>))"
| "scope_event (Token t) sc = (if refs sc t = 0 then None else Some (Accepted, sc\<lparr>refs := (refs sc)(t := Suc (refs sc t))\<rparr>))"
| "scope_event (Drop t) sc =
     (if refs sc t = 0 \<or> refs sc t = 1 \<and> stack_of t sc \<noteq> None then None
      else Some (Accepted, sc\<lparr>refs := (refs sc)(t := refs sc t - 1), fresh := (fresh sc)(t := fresh sc t \<and> 1 < refs sc t)\<rparr>))"

text \<open>The same events on the promises.\<close>

definition accepted :: "tasks outcome \<Rightarrow> (task_answer \<times> tasks) outcome" where
  "accepted m = bind_outcome m (\<lambda>ts. Ret (Accepted, ts))"

fun task_step :: "task_event \<Rightarrow> tasks \<Rightarrow> (task_answer \<times> tasks) outcome" where
  "task_step New ts = Ret (Accepted, new_task ts)"
| "task_step (Start t) ts = Ret (Accepted, ts)"
| "task_step (Await caller t) ts = accepted (task_suspend t caller ts)"
| "task_step (Hook t io) ts = bind_outcome (xcoro_hook t io ts) (\<lambda>(ok, ts). Ret (Hooked ok, ts))"
| "task_step (Unhook t) ts = accepted (xcoro_unhook t ts)"
| "task_step (Finish t) ts = Ret (Accepted, ts)"
| "task_step (Cancel t) ts = bind_outcome (request_cancel t ts) (\<lambda>(io, ts). Ret (Cancels io, ts))"
| "task_step (Token t) ts = accepted (add_ref t ts)"
| "task_step (Drop t) ts = accepted (drop_task t ts)"

fun scope_run :: "task_event list \<Rightarrow> scopes \<Rightarrow> (task_answer list \<times> scopes) option" where
  "scope_run [] sc = Some ([], sc)"
| "scope_run (e # es) sc =
     (case scope_event e sc of None \<Rightarrow> None | Some (a, sc) \<Rightarrow> map_option (\<lambda>(as, sc). (a # as, sc)) (scope_run es sc))"

fun task_run :: "task_event list \<Rightarrow> tasks \<Rightarrow> (task_answer list \<times> tasks) outcome" where
  "task_run [] ts = Ret ([], ts)"
| "task_run (e # es) ts =
     bind_outcome (task_step e ts) (\<lambda>(a, ts). bind_outcome (task_run es ts) (\<lambda>(as, ts). Ret (a # as, ts)))"

section \<open>Walks up the parents\<close>

definition parent_at :: "tasks \<Rightarrow> nat \<Rightarrow> nat option" where
  "parent_at ts t = (case promises ts t of None \<Rightarrow> None | Some p \<Rightarrow> parent p)"

definition chain_at :: "tasks \<Rightarrow> nat \<Rightarrow> nat option" where
  "chain_at ts t = (case promises ts t of None \<Rightarrow> None | Some p \<Rightarrow> chain_of p)"

lemma promise_at: "promises ts t = Some p \<Longrightarrow> parent_at ts t = parent p" "promises ts t = Some p \<Longrightarrow> chain_at ts t = chain_of p"
  by (simp_all add: parent_at_def chain_at_def)

fun linked :: "(nat \<Rightarrow> nat option) \<Rightarrow> nat list \<Rightarrow> bool" where
  "linked up [] = True"
| "linked up [t] = (up t = None)"
| "linked up (t # u # us) = (up t = Some u \<and> linked up (u # us))"

definition mark :: "nat list \<Rightarrow> (int \<Rightarrow> int) \<Rightarrow> tasks \<Rightarrow> tasks" where
  "mark xs g ts = ts\<lparr>promises := (\<lambda>t. if t \<in> set xs then map_option (\<lambda>p. p\<lparr>state := g (state p)\<rparr>) (promises ts t) else promises ts t)\<rparr>"

lemma linked_cong: "(\<And>t. t \<in> set xs \<Longrightarrow> up t = up' t) \<Longrightarrow> linked up xs = linked up' xs"
  by (induction up xs rule: linked.induct) auto

lemma mark_simps [simp]:
  "parent_at (mark xs g ts) = parent_at ts" "chain_at (mark xs g ts) = chain_at ts" "chains (mark xs g ts) = chains ts"
  "next_task (mark xs g ts) = next_task ts" "next_chain (mark xs g ts) = next_chain ts"
  by (auto simp: mark_def parent_at_def chain_at_def fun_eq_iff split: option.split)

lemma mark_promise:
  "promises (mark xs g ts) t = (if t \<in> set xs then map_option (\<lambda>p. p\<lparr>state := g (state p)\<rparr>) (promises ts t) else promises ts t)"
  by (simp add: mark_def)

lemma set_state_mark: "set_state t v ts = mark [t] (\<lambda>_. v) ts" and and_state_mark: "and_state t v ts = mark [t] (\<lambda>s. s AND v) ts"
  by (auto simp: set_state_def and_state_def set_promise_def mark_def fun_eq_iff)

lemma mark_mark: "mark [t] g (mark xs g ts) = mark (t # xs) g ts" if "t \<notin> set xs"
  using that by (auto simp: mark_def fun_eq_iff)

lemma mark_mark': "mark xs g (mark [t] g ts) = mark (t # xs) g ts" if "t \<notin> set xs"
  using that by (auto simp: mark_def fun_eq_iff)

lemma mark_Nil [simp]: "mark [] g ts = ts"
  by (simp add: mark_def)

lemma mark_undo: "promises ts t = Some p \<Longrightarrow> state p = 0 \<Longrightarrow> mark [t] (\<lambda>s. s AND 1) (mark [t] (\<lambda>_. 2) ts) = ts"
  by (cases ts; cases p) (auto simp: mark_def fun_eq_iff)

text \<open>All states on the way are 0: then all are set, and otherwise none is changed.\<close>

definition idle :: "tasks \<Rightarrow> nat list \<Rightarrow> bool" where
  "idle ts xs \<longleftrightarrow> (\<forall>t\<in>set xs. \<forall>p. promises ts t = Some p \<longrightarrow> state p = 0)"

lemma hook_recursion_walks:
  assumes "linked (parent_at ts) xs" and "xs \<noteq> []" and "distinct xs" and "\<forall>t\<in>set xs. promises ts t \<noteq> None" and "length xs \<le> f"
  shows "xcoro_hook_recursion f (hd xs) ts = Ret (idle ts xs, if idle ts xs then mark xs (\<lambda>_. 2) ts else ts)"
  using assms
proof (induction xs arbitrary: f ts)
  case (Cons x xs)
  obtain p where p: "promises ts x = Some p" using Cons.prems(4) by auto
  obtain g where f: "f = Suc g" using Cons.prems(5) by (cases f) auto
  show ?case
  proof (cases xs)
    case Nil
    then have "parent p = None" using Cons.prems(1) p by (simp add: parent_at_def)
    then show ?thesis using p Nil by (auto simp: f with_promise_def idle_def set_state_mark)
  next
    case ys: (Cons y ys)
    then have up: "parent p = Some y" "linked (parent_at ts) xs" using Cons.prems(1) promise_at(1)[OF p] by simp_all
    show ?thesis
    proof (cases "state p = 0")
      case False
      then show ?thesis using p by (auto simp: f with_promise_def idle_def)
    next
      case True
      let ?ts = "mark [x] (\<lambda>_. 2) ts"
      have same: "idle ?ts xs = idle ts xs" using Cons.prems(3) by (auto simp: idle_def mark_promise)
      have "xcoro_hook_recursion g (hd xs) ?ts = Ret (idle ?ts xs, if idle ?ts xs then mark xs (\<lambda>_. 2) ?ts else ?ts)"
        using Cons.prems up ys f by (intro Cons.IH) (auto simp: mark_promise)
      then have "xcoro_hook_recursion g y ?ts = Ret (idle ts xs, if idle ts xs then mark xs (\<lambda>_. 2) ?ts else ?ts)"
        using same unfolding ys by simp
      moreover have "idle ts (x # xs) = idle ts xs" using p True by (simp add: idle_def)
      ultimately show ?thesis
        using p True up(1) Cons.prems(3) mark_undo[OF p True] mark_mark'[of x xs "\<lambda>_. 2" ts]
        by (simp add: f with_promise_def set_state_mark and_state_mark)
    qed
  qed
qed simp

lemma unhook_walks:
  assumes "linked (parent_at ts) xs" and "xs \<noteq> []" and "distinct xs" and "\<forall>t\<in>set xs. promises ts t \<noteq> None" and "length xs \<le> f"
  shows "unhook_loop f (Some (hd xs)) ts = Ret (mark xs (\<lambda>s. s AND 1) ts)"
  using assms
proof (induction xs arbitrary: f ts)
  case (Cons x xs)
  obtain p where p: "promises ts x = Some p" using Cons.prems(4) by auto
  obtain g where f: "f = Suc g" using Cons.prems(5) by (cases f) auto
  show ?case
  proof (cases xs)
    case Nil
    then have "parent p = None" using Cons.prems(1) p by (simp add: parent_at_def)
    then show ?thesis using p Nil by (simp add: f with_promise_def and_state_mark)
  next
    case ys: (Cons y ys)
    then have up: "parent p = Some y" "linked (parent_at ts) xs" using Cons.prems(1) promise_at(1)[OF p] by simp_all
    let ?ts = "mark [x] (\<lambda>s. s AND 1) ts"
    have "unhook_loop g (Some (hd xs)) ?ts = Ret (mark xs (\<lambda>s. s AND 1) ?ts)"
      using Cons.prems up ys f by (intro Cons.IH) (auto simp: mark_promise)
    then show ?thesis
      using p up(1) ys Cons.prems(3) mark_mark'[of x xs _ ts] by (simp add: f with_promise_def and_state_mark)
  qed
qed simp


section \<open>The promises against the stacks\<close>

definition hooked :: "scopes \<Rightarrow> nat \<Rightarrow> bool" where
  "hooked sc t \<longleftrightarrow> (\<exists>s\<in>set (stacks sc). t \<in> set (coros s) \<and> waits s \<noteq> None)"

definition code :: "bool \<Rightarrow> bool \<Rightarrow> int" where
  "code f h = (if f then 1 else 0) + (if h then 2 else 0)"

definition promise_ok :: "scopes \<Rightarrow> nat \<Rightarrow> promise \<Rightarrow> bool" where
  "promise_ok sc t p \<longleftrightarrow> state p = code (flagged sc t) (hooked sc t) \<and> use_count p = int (refs sc t) \<and>
     (fresh sc t \<longrightarrow> parent p = None \<and> chain_of p = None)"

text \<open>All tasks of a stack have one chain, which a single task may still lack, and its handle is the
  operation waited in.\<close>

definition waits_in :: "tasks \<Rightarrow> nat option \<Rightarrow> nat option \<Rightarrow> bool" where
  "waits_in ts ch io \<longleftrightarrow> (io \<noteq> None \<longrightarrow> (\<exists>c cc. ch = Some c \<and> chains ts c = Some cc \<and> cancelhandle cc = io))"

definition stack_ok :: "scopes \<Rightarrow> tasks \<Rightarrow> await_stack \<Rightarrow> bool" where
  "stack_ok sc ts s \<longleftrightarrow> coros s \<noteq> [] \<and> distinct (coros s) \<and> linked (parent_at ts) (coros s) \<and>
     (\<forall>t\<in>set (coros s). refs sc t \<noteq> 0 \<and> \<not> fresh sc t \<and> chain_at ts t = chain_at ts (hd (coros s))) \<and>
     (chain_at ts (hd (coros s)) = None \<longrightarrow> length (coros s) = 1) \<and> waits_in ts (chain_at ts (hd (coros s))) (waits s)"

definition stacks_apart :: "scopes \<Rightarrow> tasks \<Rightarrow> bool" where
  "stacks_apart sc ts \<longleftrightarrow> (\<forall>s\<in>set (stacks sc). \<forall>s'\<in>set (stacks sc). s \<noteq> s' \<longrightarrow>
     set (coros s) \<inter> set (coros s') = {} \<and>
     (\<forall>c. chain_at ts (hd (coros s)) = Some c \<longrightarrow> chain_at ts (hd (coros s')) \<noteq> Some c))"

definition users :: "tasks \<Rightarrow> nat \<Rightarrow> nat set" where
  "users ts c = {t. chain_at ts t = Some c}"

definition chains_ok :: "tasks \<Rightarrow> bool" where
  "chains_ok ts \<longleftrightarrow> (\<forall>c. (chains ts c = None \<longleftrightarrow> users ts c = {}) \<and> (\<forall>cc. chains ts c = Some cc \<longrightarrow> chain_uses cc = int (card (users ts c))) \<and>
     (chains ts c \<noteq> None \<longrightarrow> c < next_chain ts))"

definition alive_ok :: "scopes \<Rightarrow> tasks \<Rightarrow> bool" where
  "alive_ok sc ts \<longleftrightarrow> next_task ts = made sc \<and> (\<forall>t. promises ts t = None \<longleftrightarrow> refs sc t = 0) \<and>
     (\<forall>t. refs sc t \<noteq> 0 \<or> flagged sc t \<longrightarrow> t < made sc) \<and> (\<forall>t. fresh sc t \<longrightarrow> refs sc t \<noteq> 0)"

definition tasks_rel :: "scopes \<Rightarrow> tasks \<Rightarrow> bool" where
  "tasks_rel sc ts \<longleftrightarrow> alive_ok sc ts \<and> (\<forall>t p. promises ts t = Some p \<longrightarrow> promise_ok sc t p) \<and>
     (\<forall>s\<in>set (stacks sc). stack_ok sc ts s) \<and> stacks_apart sc ts \<and> chains_ok ts"

lemma tasks_relD:
  assumes "tasks_rel sc ts"
  shows "alive_ok sc ts" "promises ts t = Some p \<Longrightarrow> promise_ok sc t p" "s \<in> set (stacks sc) \<Longrightarrow> stack_ok sc ts s"
    "stacks_apart sc ts" "chains_ok ts" "promises ts t = None \<longleftrightarrow> refs sc t = 0"
  using assms by (simp_all add: tasks_rel_def alive_ok_def)

lemma held_promise: "tasks_rel sc ts \<Longrightarrow> refs sc t \<noteq> 0 \<Longrightarrow> \<exists>p. promises ts t = Some p"
  using tasks_relD(6) by (metis not_None_eq)

lemma stack_okD:
  assumes "stack_ok sc ts s"
  shows "coros s \<noteq> []" "distinct (coros s)" "linked (parent_at ts) (coros s)" "t \<in> set (coros s) \<Longrightarrow> refs sc t \<noteq> 0"
    "t \<in> set (coros s) \<Longrightarrow> \<not> fresh sc t" "t \<in> set (coros s) \<Longrightarrow> chain_at ts t = chain_at ts (hd (coros s))"
    "chain_at ts (hd (coros s)) = None \<Longrightarrow> length (coros s) = 1" "waits_in ts (chain_at ts (hd (coros s))) (waits s)"
    "hd (coros s) \<in> set (coros s)"
  using assms unfolding stack_ok_def by (blast | metis list.set_sel(1))+

lemma stack_of_iff:
  assumes "tasks_rel sc ts"
  shows "stack_of t sc = Some s \<longleftrightarrow> s \<in> set (stacks sc) \<and> t \<in> set (coros s)"
proof -
  have one: "s = s'" if "s \<in> set (stacks sc)" "s' \<in> set (stacks sc)" "t \<in> set (coros s)" "t \<in> set (coros s')" for s s'
    using tasks_relD(4)[OF assms] that unfolding stacks_apart_def by blast
  show ?thesis
  proof (cases "stack_of t sc")
    case None
    then have "\<forall>s\<in>set (stacks sc). t \<notin> set (coros s)" by (simp add: stack_of_def find_None_iff)
    then show ?thesis using None by auto
  next
    case (Some s')
    then have "s' \<in> set (stacks sc)" "t \<in> set (coros s')" by (auto simp: stack_of_def find_Some_iff)
    then show ?thesis using Some one by auto
  qed
qed

lemma on_stack_iff:
  assumes "tasks_rel sc ts"
  shows "on_stack t sc f = Some r \<longleftrightarrow> (\<exists>s\<in>set (stacks sc). hd (coros s) = t \<and> f s = Some r)"
proof
  show "on_stack t sc f = Some r \<Longrightarrow> \<exists>s\<in>set (stacks sc). hd (coros s) = t \<and> f s = Some r"
    using stack_of_iff[OF assms] by (auto simp: on_stack_def split: option.splits if_splits)
  assume "\<exists>s\<in>set (stacks sc). hd (coros s) = t \<and> f s = Some r"
  then obtain s where s: "s \<in> set (stacks sc)" "hd (coros s) = t" "f s = Some r" by blast
  then have "stack_of t sc = Some s" using stack_of_iff[OF assms] stack_okD(9)[OF tasks_relD(3)[OF assms s(1)]] by simp
  then show "on_stack t sc f = Some r" using s by (simp add: on_stack_def)
qed

lemma put_stack_set: "s \<in> set (stacks sc) \<Longrightarrow> set (stacks (put_stack s s' sc)) = insert s' (set (stacks sc) - {s})"
  by (auto simp: put_stack_def)

lemma put_stack_simps [simp]:
  "fresh (put_stack s s' sc) = fresh sc" "flagged (put_stack s s' sc) = flagged sc" "refs (put_stack s s' sc) = refs sc" "made (put_stack s s' sc) = made sc"
  by (simp_all add: put_stack_def)

text \<open>What leaves the links and chains of a stack alone keeps it.\<close>

lemma stack_ok_frame:
  assumes "stack_ok sc ts s" and "\<And>t. t \<in> set (coros s) \<Longrightarrow> parent_at ts' t = parent_at ts t \<and> chain_at ts' t = chain_at ts t"
    and "\<And>t. t \<in> set (coros s) \<Longrightarrow> refs sc' t \<noteq> 0 \<and> \<not> fresh sc' t"
    and "\<And>c. chain_at ts (hd (coros s)) = Some c \<Longrightarrow> map_option cancelhandle (chains ts' c) = map_option cancelhandle (chains ts c)"
  shows "stack_ok sc' ts' s"
proof -
  note d = stack_okD[OF assms(1)]
  have "linked (parent_at ts') (coros s)" using d(3) assms(2) linked_cong[of "coros s" "parent_at ts'" "parent_at ts"] by simp
  moreover have "waits_in ts' (chain_at ts (hd (coros s))) (waits s)"
    using d(8) assms(4) unfolding waits_in_def by (metis (no_types, lifting) map_option_eq_Some)
  moreover have "chain_at ts' t = chain_at ts (hd (coros s))" if "t \<in> set (coros s)" for t using assms(2)[OF that] d(6)[OF that] by simp
  ultimately show ?thesis using assms(3) d(1,2,7,9) unfolding stack_ok_def by (simp only: simp_thms ball_simps) blast
qed

lemma start_rel: "tasks_rel no_scopes no_tasks"
  by (simp add: tasks_rel_def no_scopes_def no_tasks_def alive_ok_def stacks_apart_def chains_ok_def users_def chain_at_def)


lemma hooked_iff:
  assumes "tasks_rel sc ts" and "s \<in> set (stacks sc)" and "t \<in> set (coros s)"
  shows "hooked sc t \<longleftrightarrow> waits s \<noteq> None"
proof -
  have "s' = s" if "s' \<in> set (stacks sc)" "t \<in> set (coros s')" for s'
  proof -
    have "stack_of t sc = Some s'" "stack_of t sc = Some s" using stack_of_iff[OF assms(1)] assms(2,3) that by blast+
    then show ?thesis by simp
  qed
  then show ?thesis using assms(2,3) unfolding hooked_def by blast
qed

lemma alive_okD:
  assumes "alive_ok sc ts"
  shows "next_task ts = made sc" "promises ts t = None \<longleftrightarrow> refs sc t = 0" "refs sc t \<noteq> 0 \<Longrightarrow> t < made sc" "flagged sc t \<Longrightarrow> t < made sc"
    "fresh sc t \<Longrightarrow> refs sc t \<noteq> 0"
  using assms by (simp_all add: alive_ok_def)

lemma alive_okI:
  assumes "next_task ts = made sc" "\<And>t. promises ts t = None \<longleftrightarrow> refs sc t = 0" "\<And>t. refs sc t \<noteq> 0 \<Longrightarrow> t < made sc" "\<And>t. flagged sc t \<Longrightarrow> t < made sc"
    "\<And>t. fresh sc t \<Longrightarrow> refs sc t \<noteq> 0"
  shows "alive_ok sc ts"
  using assms by (auto simp: alive_ok_def)

lemma hooked_held: "tasks_rel sc ts \<Longrightarrow> hooked sc t \<Longrightarrow> refs sc t \<noteq> 0 \<and> \<not> fresh sc t"
  unfolding hooked_def using stack_okD(4,5)[OF tasks_relD(3)] by blast

text \<open>Events that leave the links, the chains and the stacks as they are.\<close>

lemma same_links_rel:
  assumes r: "tasks_rel sc ts" and l: "parent_at ts' = parent_at ts" "chain_at ts' = chain_at ts" "chains ts' = chains ts" "next_chain ts' = next_chain ts"
    and st: "stacks sc' = stacks sc" "\<And>t. refs sc t \<noteq> 0 \<Longrightarrow> \<not> fresh sc t \<Longrightarrow> (\<exists>s\<in>set (stacks sc). t \<in> set (coros s)) \<Longrightarrow> refs sc' t \<noteq> 0 \<and> \<not> fresh sc' t"
    and a: "alive_ok sc' ts'" "\<And>t p. promises ts' t = Some p \<Longrightarrow> promise_ok sc' t p"
  shows "tasks_rel sc' ts'"
proof -
  have "stack_ok sc' ts' s" if s: "s \<in> set (stacks sc)" for s
  proof (rule stack_ok_frame[OF tasks_relD(3)[OF r s]])
    show "refs sc' t \<noteq> 0 \<and> \<not> fresh sc' t" if "t \<in> set (coros s)" for t
      using st(2) s that stack_okD(4,5)[OF tasks_relD(3)[OF r s] that] by blast
  qed (simp_all add: l)
  moreover have "stacks_apart sc' ts'" using tasks_relD(4)[OF r] by (simp add: stacks_apart_def l st(1))
  moreover have "chains_ok ts'" using tasks_relD(5)[OF r] unfolding chains_ok_def users_def l .
  ultimately show ?thesis using a st(1) by (simp add: tasks_rel_def)
qed

lemma New_rel:
  assumes r: "tasks_rel sc ts" and e: "scope_event New sc = Some (a, sc')"
  shows "\<exists>ts'. task_step New ts = Ret (a, ts') \<and> tasks_rel sc' ts'"
proof -
  have al: "alive_ok sc ts" using tasks_relD(1)[OF r] .
  have n: "next_task ts = made sc" "refs sc (made sc) = 0" "\<not> flagged sc (made sc)" "\<not> fresh sc (made sc)"
    using alive_okD(1)[OF al] alive_okD(3,4,5)[OF al, of "made sc"] by auto
  then have none: "promises ts (made sc) = None" "\<not> hooked sc (made sc)" using tasks_relD(6)[OF r] hooked_held[OF r, of "made sc"] by auto
  have sc': "a = Accepted" "sc' = sc\<lparr>made := Suc (made sc), fresh := (fresh sc)(made sc := True), refs := (refs sc)(made sc := 1)\<rparr>" using e by auto
  have "tasks_rel sc' (new_task ts)"
  proof (rule same_links_rel[OF r])
    show "parent_at (new_task ts) = parent_at ts" "chain_at (new_task ts) = chain_at ts"
      using none n(1) by (auto simp: new_task_def set_promise_def parent_at_def chain_at_def fun_eq_iff)
    show "alive_ok sc' (new_task ts)"
      by (rule alive_okI) (use alive_okD[OF al] in \<open>auto simp: sc' new_task_def set_promise_def less_Suc_eq split: if_splits\<close>)
    show "promise_ok sc' t p" if "promises (new_task ts) t = Some p" for t p
      using that n none tasks_relD(2)[OF r, of t p]
      by (auto simp: promise_ok_def hooked_def code_def sc' new_task_def set_promise_def split: if_splits)
    show "refs sc' t \<noteq> 0 \<and> \<not> fresh sc' t" if "refs sc t \<noteq> 0" "\<not> fresh sc t" for t using that n by (auto simp: sc')
  qed (simp_all add: new_task_def set_promise_def sc')
  then show ?thesis by (simp add: sc'(1))
qed

lemma Token_rel:
  assumes r: "tasks_rel sc ts" and e: "scope_event (Token t) sc = Some (a, sc')"
  shows "\<exists>ts'. task_step (Token t) ts = Ret (a, ts') \<and> tasks_rel sc' ts'"
proof -
  have sc': "refs sc t \<noteq> 0" "a = Accepted" "sc' = sc\<lparr>refs := (refs sc)(t := Suc (refs sc t))\<rparr>" using e by (auto split: if_splits)
  obtain p where p: "promises ts t = Some p" using held_promise[OF r sc'(1)] by blast
  let ?ts = "set_promise t (Some (p\<lparr>use_count := use_count p + 1\<rparr>)) ts"
  have "tasks_rel sc' ?ts"
  proof (rule same_links_rel[OF r])
    show "parent_at ?ts = parent_at ts" "chain_at ?ts = chain_at ts" using p by (auto simp: set_promise_def parent_at_def chain_at_def fun_eq_iff)
    show "alive_ok sc' ?ts"
      by (rule alive_okI) (use alive_okD[OF tasks_relD(1)[OF r]] p sc'(1) in \<open>auto simp: sc'(3) set_promise_def split: if_splits\<close>)
    show "promise_ok sc' u q" if "promises ?ts u = Some q" for u q
      using that tasks_relD(2)[OF r, of u] p by (auto simp: promise_ok_def hooked_def sc' set_promise_def split: if_splits)
  qed (auto simp: set_promise_def sc')
  then show ?thesis using p by (simp add: accepted_def add_ref_def with_promise_def sc'(2))
qed

lemma code_simps: "code f h AND 1 = code f False" "code f h OR 1 = code True h" "code f h = 2 \<longleftrightarrow> \<not> f \<and> h" "code f h = 0 \<longleftrightarrow> \<not> f \<and> \<not> h"
  "code f h AND 2 = (if h then 2 else 0)" "code f False = (if f then 1 else 0)" "code False True = 2"
  by (cases f; cases h; simp add: code_def)+

lemma Cancel_rel:
  assumes r: "tasks_rel sc ts" and e: "scope_event (Cancel t) sc = Some (a, sc')"
  shows "\<exists>ts'. task_step (Cancel t) ts = Ret (a, ts') \<and> tasks_rel sc' ts'"
proof -
  have sc': "refs sc t \<noteq> 0" "sc' = sc\<lparr>flagged := (flagged sc)(t := True)\<rparr>"
    and a: "a = Cancels (if flagged sc t then None else case stack_of t sc of None \<Rightarrow> None | Some s \<Rightarrow> waits s)" using e by (auto split: if_splits)
  obtain p where p: "promises ts t = Some p" using held_promise[OF r sc'(1)] by blast
  have st: "state p = code (flagged sc t) (hooked sc t)" using tasks_relD(2)[OF r p] by (simp add: promise_ok_def)
  show ?thesis
  proof (cases "flagged sc t")
    case True
    then have "sc' = sc" using sc'(2) by (simp add: fun_upd_idem)
    then show ?thesis using True p st r a by (simp add: request_cancel_def with_promise_def code_simps)
  next
    case False
    let ?ts = "set_state t (state p OR 1) ts"
    have ts: "promises ?ts t = Some (p\<lparr>state := code True (hooked sc t)\<rparr>)" "chains ?ts = chains ts"
      using p st by (auto simp: set_state_def set_promise_def code_simps)
    have "tasks_rel sc' ?ts"
    proof (rule same_links_rel[OF r])
      show "alive_ok sc' ?ts"
        by (rule alive_okI) (use alive_okD[OF tasks_relD(1)[OF r]] sc'(1) in \<open>auto simp: sc'(2) set_state_mark mark_promise split: if_splits\<close>)
      show "promise_ok sc' u q" if "promises ?ts u = Some q" for u q
        using that tasks_relD(2)[OF r, of u] p st by (auto simp: promise_ok_def hooked_def sc' set_state_mark mark_promise code_simps split: if_splits)
    qed (auto simp: set_state_mark sc')
    moreover have "request_cancel t ts = Ret (case stack_of t sc of None \<Rightarrow> None | Some s \<Rightarrow> waits s, ?ts)"
    proof (cases "hooked sc t")
      case True
      then obtain s where s: "s \<in> set (stacks sc)" "t \<in> set (coros s)" "waits s \<noteq> None" by (auto simp: hooked_def)
      note d = stack_okD[OF tasks_relD(3)[OF r s(1)]]
      obtain c cc where c: "chain_at ts t = Some c" "chains ts c = Some cc" "cancelhandle cc = waits s"
        using d(6)[OF s(2)] d(8) s(3) unfolding waits_in_def by auto
      have "stack_of t sc = Some s" using stack_of_iff[OF r] s by simp
      then show ?thesis
        using p st True False c s(3) promise_at(2)[OF p] ts by (auto simp: request_cancel_def with_promise_def with_chain_def code_simps)
    next
      case nh: False
      then have "(case stack_of t sc of None \<Rightarrow> None | Some s \<Rightarrow> waits s) = None"
        using stack_of_iff[OF r, of t] hooked_iff[OF r] by (auto split: option.split)
      then show ?thesis using p st nh False by (simp add: request_cancel_def with_promise_def code_simps)
    qed
    ultimately show ?thesis using a False by simp
  qed
qed


text \<open>Events that replace a stack, or add one.\<close>

lemma changed_stack_rel:
  assumes r: "tasks_rel sc ts" and st: "set (stacks sc') = insert s' old" "old \<subseteq> set (stacks sc)"
    and frame: "\<And>s t. s \<in> old \<Longrightarrow> t \<in> set (coros s) \<Longrightarrow>
      parent_at ts' t = parent_at ts t \<and> chain_at ts' t = chain_at ts t \<and> refs sc' t \<noteq> 0 \<and> \<not> fresh sc' t"
    and handles: "\<And>s c. s \<in> old \<Longrightarrow> chain_at ts (hd (coros s)) = Some c \<Longrightarrow> map_option cancelhandle (chains ts' c) = map_option cancelhandle (chains ts c)"
    and s': "stack_ok sc' ts' s'" "\<And>s. s \<in> old \<Longrightarrow> set (coros s') \<inter> set (coros s) = {}"
      "\<And>s c. s \<in> old \<Longrightarrow> chain_at ts' (hd (coros s')) = Some c \<Longrightarrow> chain_at ts (hd (coros s)) \<noteq> Some c"
    and a: "alive_ok sc' ts'" "\<And>t p. promises ts' t = Some p \<Longrightarrow> promise_ok sc' t p" "chains_ok ts'"
  shows "tasks_rel sc' ts'"
proof -
  have old: "stack_ok sc' ts' s" if "s \<in> old" for s
    by (rule stack_ok_frame[OF tasks_relD(3)[OF r]]) (use that st(2) frame handles in blast)+
  have hd: "chain_at ts' (hd (coros s)) = chain_at ts (hd (coros s))" if "s \<in> old" for s
    using that stack_okD(9)[OF old] frame by blast
  have "stacks_apart sc' ts'"
    unfolding stacks_apart_def
  proof (intro ballI impI)
    fix x y assume "x \<in> set (stacks sc')" "y \<in> set (stacks sc')" and ne: "x \<noteq> y"
    then consider "x = s'" "y \<in> old" | "x \<in> old" "y = s'" | "x \<in> old" "y \<in> old" unfolding st(1) by blast
    then show "set (coros x) \<inter> set (coros y) = {} \<and> (\<forall>c. chain_at ts' (hd (coros x)) = Some c \<longrightarrow> chain_at ts' (hd (coros y)) \<noteq> Some c)"
    proof cases
      case 1
      then show ?thesis using s'(2,3) hd by metis
    next
      case 2
      then show ?thesis using s'(2,3) hd by (metis inf_commute)
    next
      case 3
      then have "x \<in> set (stacks sc)" "y \<in> set (stacks sc)" using st(2) by auto
      then show ?thesis using tasks_relD(4)[OF r] ne unfolding stacks_apart_def hd[OF 3(1)] hd[OF 3(2)] by blast
    qed
  qed
  moreover have "\<forall>s\<in>set (stacks sc'). stack_ok sc' ts' s" unfolding st(1) using old s'(1) by blast
  ultimately show ?thesis using a unfolding tasks_rel_def by (intro conjI allI impI)
qed

lemma Start_rel:
  assumes r: "tasks_rel sc ts" and e: "scope_event (Start t) sc = Some (a, sc')"
  shows "\<exists>ts'. task_step (Start t) ts = Ret (a, ts') \<and> tasks_rel sc' ts'"
proof -
  have f: "fresh sc t" and a: "a = Accepted" and sc': "sc' = sc\<lparr>stacks := \<lparr>coros = [t], waits = None\<rparr> # stacks sc, fresh := (fresh sc)(t := False)\<rparr>"
    using e by (auto split: if_splits)
  note al = alive_okD[OF tasks_relD(1)[OF r]]
  obtain p where p: "promises ts t = Some p" using held_promise[OF r al(5)[OF f]] by blast
  have at: "parent_at ts t = None" "chain_at ts t = None" using promise_at[OF p] tasks_relD(2)[OF r p] f by (simp_all add: promise_ok_def)
  have nt: "t \<notin> set (coros s)" if "s \<in> set (stacks sc)" for s using stack_okD(5)[OF tasks_relD(3)[OF r that]] f by blast
  have "tasks_rel sc' ts"
  proof (rule changed_stack_rel[OF r, where s' = "\<lparr>coros = [t], waits = None\<rparr>" and old = "set (stacks sc)"])
    show "parent_at ts u = parent_at ts u \<and> chain_at ts u = chain_at ts u \<and> refs sc' u \<noteq> 0 \<and> \<not> fresh sc' u" if "s \<in> set (stacks sc)" "u \<in> set (coros s)" for s u
      using stack_okD(4,5)[OF tasks_relD(3)[OF r that(1)] that(2)] by (simp add: sc')
    show "stack_ok sc' ts \<lparr>coros = [t], waits = None\<rparr>" using at al(5)[OF f] by (simp add: stack_ok_def sc' waits_in_def)
    show "alive_ok sc' ts" by (rule alive_okI) (use al in \<open>auto simp: sc' split: if_splits\<close>)
    show "promise_ok sc' u q" if "promises ts u = Some q" for u q
      using tasks_relD(2)[OF r that] by (auto simp: promise_ok_def hooked_def sc')
    show "chains_ok ts" using tasks_relD(5)[OF r] .
  qed (use nt at in \<open>auto simp: sc'\<close>)
  then show ?thesis by (simp add: a)
qed

lemma task_of_stack:
  assumes r: "tasks_rel sc ts" and s: "s \<in> set (stacks sc)"
  shows "t \<in> set (coros s) \<Longrightarrow> \<exists>p. promises ts t = Some p" and "length (coros s) \<le> next_task ts"
    and "x \<in> set (stacks sc) - {s} \<Longrightarrow> set (coros s) \<inter> set (coros x) = {}"
    and "x \<in> set (stacks sc) - {s} \<Longrightarrow> chain_at ts (hd (coros s)) = Some c \<Longrightarrow> chain_at ts (hd (coros x)) \<noteq> Some c"
proof -
  note d = stack_okD[OF tasks_relD(3)[OF r s]]
  show "t \<in> set (coros s) \<Longrightarrow> \<exists>p. promises ts t = Some p" using d(4) held_promise[OF r] by blast
  have "set (coros s) \<subseteq> {..<next_task ts}" using d(4) alive_okD(1,3)[OF tasks_relD(1)[OF r]] by auto
  then show "length (coros s) \<le> next_task ts" using card_mono[OF finite_lessThan, of "set (coros s)" "next_task ts"] distinct_card[OF d(2)] by simp
  show "x \<in> set (stacks sc) - {s} \<Longrightarrow> set (coros s) \<inter> set (coros x) = {}"
    and "x \<in> set (stacks sc) - {s} \<Longrightarrow> chain_at ts (hd (coros s)) = Some c \<Longrightarrow> chain_at ts (hd (coros x)) \<noteq> Some c"
    using tasks_relD(4)[OF r] s unfolding stacks_apart_def by blast+
qed

lemma others_kept:
  assumes r: "tasks_rel sc ts" and x: "x \<in> set (stacks sc) - {s}" and u: "u \<in> set (coros x)"
  shows "refs sc u \<noteq> 0 \<and> \<not> fresh sc u"
  using stack_okD(4,5)[OF tasks_relD(3)[OF r, of x] u] x by blast

lemma stack_ok_rewait:
  assumes "stack_ok sc ts s" and "waits_in ts' (chain_at ts (hd (coros s))) w"
    and "parent_at ts' = parent_at ts" "chain_at ts' = chain_at ts" "refs sc' = refs sc" "fresh sc' = fresh sc"
  shows "stack_ok sc' ts' (s\<lparr>waits := w\<rparr>)"
proof -
  have c: "coros (s\<lparr>waits := w\<rparr>) = coros s" "waits (s\<lparr>waits := w\<rparr>) = w" by simp_all
  show ?thesis using assms(1,2) unfolding stack_ok_def c assms(3-6) by blast
qed

lemma chains_ok_cong:
  assumes "chains_ok ts" and "chain_at ts' = chain_at ts" "next_chain ts' = next_chain ts"
    and "\<And>c. map_option chain_uses (chains ts' c) = map_option chain_uses (chains ts c)"
  shows "chains_ok ts'"
proof -
  have "chains ts' c = None \<longleftrightarrow> chains ts c = None" for c using assms(4)[of c] by (metis map_option_is_None)
  moreover have "chains ts' c = Some cc \<Longrightarrow> \<exists>cc'. chains ts c = Some cc' \<and> chain_uses cc' = chain_uses cc" for c cc
    using assms(4)[of c] by (metis (no_types, lifting) map_option_eq_Some option.simps(9))
  ultimately show ?thesis using assms(1) unfolding chains_ok_def users_def assms(2,3) by metis
qed

lemma Unhook_rel:
  assumes r: "tasks_rel sc ts" and e: "scope_event (Unhook t) sc = Some (a, sc')"
  shows "\<exists>ts'. task_step (Unhook t) ts = Ret (a, ts') \<and> tasks_rel sc' ts'"
proof -
  obtain s where s: "s \<in> set (stacks sc)" "hd (coros s) = t" "waits s \<noteq> None" and a: "a = Accepted" and sc': "sc' = put_stack s (s\<lparr>waits := None\<rparr>) sc"
    using e unfolding scope_event.simps on_stack_iff[OF r] by (auto split: if_splits)
  note d = stack_okD[OF tasks_relD(3)[OF r s(1)]] and al = alive_okD[OF tasks_relD(1)[OF r]]
  let ?ts = "mark (coros s) (\<lambda>s. s AND 1) ts"
  have "xcoro_unhook t ts = Ret ?ts"
    unfolding xcoro_unhook_def s(2)[symmetric]
    by (rule unhook_walks[OF d(3,1,2)]) (use task_of_stack[OF r s(1)] in auto)
  moreover have "tasks_rel sc' ?ts"
  proof (rule changed_stack_rel[OF r, where s' = "s\<lparr>waits := None\<rparr>" and old = "set (stacks sc) - {s}"])
    show set: "set (stacks sc') = insert (s\<lparr>waits := None\<rparr>) (set (stacks sc) - {s})" using s(1) by (simp add: sc' put_stack_set)
    show "parent_at ?ts u = parent_at ts u \<and> chain_at ?ts u = chain_at ts u \<and> refs sc' u \<noteq> 0 \<and> \<not> fresh sc' u" if "x \<in> set (stacks sc) - {s}" "u \<in> set (coros x)" for x u
      using others_kept[OF r that] by (simp add: sc')
    show "stack_ok sc' ?ts (s\<lparr>waits := None\<rparr>)"
      by (rule stack_ok_rewait[OF tasks_relD(3)[OF r s(1)]]) (simp_all add: sc' waits_in_def)
    show "alive_ok sc' ?ts" by (rule alive_okI) (use al in \<open>auto simp: sc' mark_promise split: if_splits\<close>)
    show "chains_ok ?ts" using tasks_relD(5)[OF r] by (rule chains_ok_cong) simp_all
    have hook': "hooked sc' u \<longleftrightarrow> hooked sc u \<and> u \<notin> set (coros s)" for u
      using task_of_stack(3)[OF r s(1)] s(1) unfolding hooked_def set by auto
    show "promise_ok sc' u q" if "promises ?ts u = Some q" for u q
      using that tasks_relD(2)[OF r, of u] hook'
      by (auto simp: promise_ok_def sc' mark_promise code_simps split: if_splits)
  qed (use task_of_stack(3,4)[OF r s(1)] in auto)
  ultimately show ?thesis by (simp add: accepted_def a)
qed


text \<open>A hook makes a chain or writes the handle of the one there is; what follows are marks.\<close>

definition handled :: "nat \<Rightarrow> promise \<Rightarrow> nat \<Rightarrow> cancel_chain \<Rightarrow> tasks \<Rightarrow> tasks \<Rightarrow> bool" where
  "handled t p c cc ts ts' \<longleftrightarrow> promises ts' = (promises ts)(t \<mapsto> p\<lparr>chain_of := Some c\<rparr>) \<and> chains ts' = (chains ts)(c \<mapsto> cc) \<and>
     next_task ts' = next_task ts"

lemma handled_at:
  assumes "handled t p c cc ts ts'" and "promises ts t = Some p"
  shows "parent_at ts' = parent_at ts" "chain_at ts' = (chain_at ts)(t := Some c)"
  using assms by (auto simp: handled_def parent_at_def chain_at_def fun_eq_iff)

lemma fresh_chain:
  assumes "chains_ok ts"
  shows "chains ts (next_chain ts) = None" "chain_at ts t \<noteq> Some (next_chain ts)"
proof -
  show none: "chains ts (next_chain ts) = None" using assms unfolding chains_ok_def by blast
  then have "users ts (next_chain ts) = {}" using assms unfolding chains_ok_def by blast
  then show "chain_at ts t \<noteq> Some (next_chain ts)" by (auto simp: users_def)
qed

lemma chain_used:
  assumes "chains_ok ts" and "chain_at ts t = Some c"
  shows "\<exists>cc. chains ts c = Some cc \<and> chain_uses cc = int (card (users ts c))"
proof -
  have "users ts c \<noteq> {}" using assms(2) by (auto simp: users_def)
  then have "chains ts c \<noteq> None" using assms(1) unfolding chains_ok_def by blast
  then obtain cc where "chains ts c = Some cc" by blast
  then show ?thesis using assms(1) unfolding chains_ok_def by blast
qed

lemma chains_ok_update:
  assumes ok: "chains_ok ts" and us: "\<And>d. users ts' d = (if d = c then U else users ts d)" and ch: "chains ts' = (chains ts)(c := new)"
    and new: "new = None \<longleftrightarrow> U = {}" "\<And>cc. new = Some cc \<Longrightarrow> chain_uses cc = int (card U) \<and> c < next_chain ts'"
    and n: "next_chain ts \<le> next_chain ts'"
  shows "chains_ok ts'"
  unfolding chains_ok_def us ch
proof (rule allI)
  fix d
  have "(chains ts d = None \<longleftrightarrow> users ts d = {}) \<and> (\<forall>cc. chains ts d = Some cc \<longrightarrow> chain_uses cc = int (card (users ts d))) \<and> (chains ts d \<noteq> None \<longrightarrow> d < next_chain ts)"
    using ok unfolding chains_ok_def by blast
  then show "(((chains ts)(c := new)) d = None \<longleftrightarrow> (if d = c then U else users ts d) = {}) \<and>
      (\<forall>cca. ((chains ts)(c := new)) d = Some cca \<longrightarrow> chain_uses cca = int (card (if d = c then U else users ts d))) \<and>
      (((chains ts)(c := new)) d \<noteq> None \<longrightarrow> d < next_chain ts')"
    using new n by (cases "d = c") auto
qed

lemma new_chain_ok:
  assumes ok: "chains_ok ts" and t: "promises ts t = Some p" "chain_of p = None"
  shows "handled t p (next_chain ts) cc ts (new_chain t p cc ts)" "next_chain (new_chain t p cc ts) = Suc (next_chain ts)"
    "chain_uses cc = 1 \<Longrightarrow> chains_ok (new_chain t p cc ts)"
proof -
  let ?c = "next_chain ts" and ?ts = "new_chain t p cc ts"
  show h: "handled t p ?c cc ts ?ts" and n: "next_chain ?ts = Suc ?c" by (simp_all add: handled_def new_chain_def set_promise_def set_chain_def)
  have at: "chain_at ts t = None" using promise_at(2)[OF t(1)] t(2) by simp
  have us: "users ?ts d = (if d = ?c then {t} else users ts d)" for d
    using handled_at(2)[OF h t(1)] fresh_chain(2)[OF ok] at by (auto simp: users_def)
  show "chains_ok ?ts" if "chain_uses cc = 1"
    by (rule chains_ok_update[OF ok us, where new = "Some cc"]) (use that h n in \<open>auto simp: handled_def\<close>)
qed

lemma hook_eval:
  assumes r: "tasks_rel sc ts" and s: "s \<in> set (stacks sc)" "waits s = None" and t: "t = hd (coros s)" and p: "promises ts t = Some p"
  shows "\<exists>c cc ts'. handled t p c cc ts ts' \<and> cancelhandle cc = Some io \<and> chains_ok ts' \<and>
    (chain_at ts t = Some c \<or> chain_at ts t = None \<and> (\<forall>u. chain_at ts u \<noteq> Some c)) \<and>
    xcoro_hook t io ts = Ret (idle ts (coros s), if idle ts (coros s) then mark (coros s) (\<lambda>_. 2) ts' else ts')"
proof -
  note d = stack_okD[OF tasks_relD(3)[OF r s(1)]]
  have xs: "coros s = t # tl (coros s)" using d(1) t by simp
  have up: "linked (parent_at ts) (t # tl (coros s))" using d(3) xs by simp
  have p': "parent_at ts t = parent p" "chain_at ts t = chain_of p" using promise_at[OF p] .
  show ?thesis
  proof (cases "chain_of p")
    case None
    let ?cc = "\<lparr>cancelhandle = Some io, chain_uses = 1\<rparr>"
    have "length (coros s) = 1" using d(7) None p'(2) t by simp
    then have one: "coros s = [t]" using t by (cases "coros s") auto
    note n = new_chain_ok[OF tasks_relD(5)[OF r] p None, of ?cc]
    have idle: "idle ts (coros s) \<longleftrightarrow> state p = 0" using one p by (simp add: idle_def)
    have "xcoro_hook t io ts = Ret (idle ts (coros s), if idle ts (coros s) then mark (coros s) (\<lambda>_. 2) (new_chain t p ?cc ts) else new_chain t p ?cc ts)"
      using p None idle one by (simp add: xcoro_hook_def with_promise_def set_state_mark)
    then show ?thesis using n p'(2) None fresh_chain(2)[OF tasks_relD(5)[OF r]] by (intro exI[of _ "next_chain ts"] exI[of _ ?cc] exI[of _ "new_chain t p ?cc ts"]) simp
  next
    case (Some c)
    obtain cc where cc: "chains ts c = Some cc" using chain_used[OF tasks_relD(5)[OF r], of t c] Some p'(2) by auto
    let ?cc = "cc\<lparr>cancelhandle := Some io\<rparr>"
    let ?ts = "set_chain c (Some ?cc) ts"
    have same: "promises ?ts = promises ts" "parent_at ?ts = parent_at ts" "chain_at ?ts = chain_at ts" "next_task ?ts = next_task ts"
      by (simp_all add: set_chain_def parent_at_def[abs_def] chain_at_def[abs_def])
    have pp: "p\<lparr>chain_of := Some c\<rparr> = p" using Some by simp
    have h: "handled t p c ?cc ts ?ts" using p unfolding handled_def pp by (auto simp: set_chain_def fun_eq_iff)
    have ok: "chains_ok ?ts" using tasks_relD(5)[OF r] by (rule chains_ok_cong[OF _ same(3)]) (simp_all add: set_chain_def cc)
    have idle: "idle ?ts xs = idle ts xs" for xs by (simp add: idle_def same)
    have "xcoro_hook t io ts = Ret (idle ts (coros s), if idle ts (coros s) then mark (coros s) (\<lambda>_. 2) ?ts else ?ts)"
    proof (cases "state p = 0")
      case False
      then have "\<not> idle ts (coros s)" using p d(9) t unfolding idle_def by blast
      then show ?thesis using p Some cc False by (simp add: xcoro_hook_def with_promise_def with_chain_def)
    next
      case z: True
      show ?thesis
      proof (cases "tl (coros s)")
        case Nil
        then have "parent p = None" using up p'(1) by simp
        moreover have "coros s = [t]" using xs Nil by simp
        ultimately show ?thesis using p Some cc z by (simp add: xcoro_hook_def with_promise_def with_chain_def set_state_mark idle_def)
      next
        case (Cons y ys)
        then have pa: "parent p = Some y" and l: "linked (parent_at ts) (y # ys)" using up p'(1) by simp_all
        let ?m = "mark [t] (\<lambda>_. 2) ?ts"
        have dis: "distinct (t # y # ys)" using d(2) xs Cons by simp
        have same_idle: "idle ?m (y # ys) = idle ts (y # ys)" using dis by (auto simp: idle_def mark_promise same)
        have alive: "promises ?m u \<noteq> None" if "u \<in> set (y # ys)" for u
        proof -
          have "u \<in> set (coros s)" using that xs Cons by (metis list.set_intros(2))
          then show ?thesis using task_of_stack(1)[OF r s(1)] by (auto simp: mark_promise same)
        qed
        have "length (y # ys) \<le> next_task ?m" using task_of_stack(2)[OF r s(1)] xs Cons by (metis Suc_leD length_Cons mark_simps(4) same(4))
        then have "xcoro_hook_recursion (next_task ?m) (hd (y # ys)) ?m = Ret (idle ?m (y # ys), if idle ?m (y # ys) then mark (y # ys) (\<lambda>_. 2) ?m else ?m)"
          using l dis alive by (intro hook_recursion_walks) (simp_all add: same)
        then have rec: "xcoro_hook_recursion (next_task ?m) y ?m = Ret (idle ts (y # ys), if idle ts (y # ys) then mark (y # ys) (\<lambda>_. 2) ?m else ?m)"
          unfolding same_idle by simp
        have two: "idle ts (coros s) = idle ts (y # ys)" using z p xs Cons by (auto simp: idle_def)
        have "coros s = t # y # ys" using xs Cons by simp
        then have mk: "mark (y # ys) (\<lambda>_. 2) ?m = mark (coros s) (\<lambda>_. 2) ?ts" using mark_mark'[of t "y # ys" "\<lambda>_. 2" ?ts] dis by simp
        have undo: "mark [t] (\<lambda>s. s AND 1) ?m = ?ts" using mark_undo[of ?ts t p] p z same(1) by simp
        show ?thesis
          using p Some cc z pa rec undo mk unfolding two
          by (simp add: xcoro_hook_def with_promise_def with_chain_def set_state_mark and_state_mark)
      qed
    qed
    then show ?thesis using h ok p'(2) Some by (intro exI[of _ c] exI[of _ ?cc] exI[of _ ?ts]) simp
  qed
qed


lemma stack_ok_handled:
  assumes ok: "stack_ok sc ts s" and c: "chain_at ts (hd (coros s)) = Some c \<or> chain_at ts (hd (coros s)) = None"
    and at: "parent_at ts' = parent_at ts" "chain_at ts' = (chain_at ts)(hd (coros s) := Some c)" "chains ts' c = Some cc"
    and w: "w = None \<or> cancelhandle cc = w" and sc': "refs sc' = refs sc" "fresh sc' = fresh sc"
  shows "stack_ok sc' ts' (s\<lparr>waits := w\<rparr>)"
proof -
  note d = stack_okD[OF ok]
  have ch: "chain_at ts' u = Some c" if "u \<in> set (coros s)" for u
  proof (cases "chain_at ts (hd (coros s))")
    case None
    then have "length (coros s) = 1" using d(7) by simp
    then have "u = hd (coros s)" using that by (cases "coros s") auto
    then show ?thesis by (simp add: at(2))
  next
    case (Some c')
    then show ?thesis using c d(6)[OF that] by (simp add: at(2))
  qed
  have co: "coros (s\<lparr>waits := w\<rparr>) = coros s" "waits (s\<lparr>waits := w\<rparr>) = w" by simp_all
  have "waits_in ts' (Some c) w" using at(3) w by (auto simp: waits_in_def)
  then show ?thesis using d(1-5) ch ch[OF d(9)] unfolding stack_ok_def co sc' at(1) by (simp only: simp_thms option.distinct ball_simps) blast
qed

lemma Hook_rel:
  assumes r: "tasks_rel sc ts" and e: "scope_event (Hook t io) sc = Some (a, sc')"
  shows "\<exists>ts'. task_step (Hook t io) ts = Ret (a, ts') \<and> tasks_rel sc' ts'"
proof -
  obtain s where s: "s \<in> set (stacks sc)" "hd (coros s) = t" "waits s = None"
    and a: "a = Hooked (list_all (\<lambda>u. \<not> flagged sc u) (coros s))"
    and sc': "sc' = (if list_all (\<lambda>u. \<not> flagged sc u) (coros s) then put_stack s (s\<lparr>waits := Some io\<rparr>) sc else sc)"
    using e unfolding scope_event.simps on_stack_iff[OF r] by (auto simp: Let_def split: if_splits)
  note d = stack_okD[OF tasks_relD(3)[OF r s(1)]] and al = alive_okD[OF tasks_relD(1)[OF r]]
  obtain p where p: "promises ts t = Some p" using task_of_stack(1)[OF r s(1) d(9)] s(2) by blast
  obtain c cc ts1 where h: "handled t p c cc ts ts1" and cc: "cancelhandle cc = Some io" and ok: "chains_ok ts1"
    and c: "chain_at ts t = Some c \<or> chain_at ts t = None \<and> (\<forall>u. chain_at ts u \<noteq> Some c)"
    and hook: "xcoro_hook t io ts = Ret (idle ts (coros s), if idle ts (coros s) then mark (coros s) (\<lambda>_. 2) ts1 else ts1)"
    using hook_eval[OF r s(1,3) s(2)[symmetric] p, of io] by blast
  let ?ok = "idle ts (coros s)"
  have st: "state q = code (flagged sc u) False" if "u \<in> set (coros s)" "promises ts u = Some q" for u q
    using tasks_relD(2)[OF r that(2)] hooked_iff[OF r s(1) that(1)] s(3) by (simp add: promise_ok_def)
  have ok_iff: "?ok \<longleftrightarrow> list_all (\<lambda>u. \<not> flagged sc u) (coros s)"
    using st task_of_stack(1)[OF r s(1)] unfolding idle_def list_all_iff by (metis code_simps(4))
  let ?ts = "if ?ok then mark (coros s) (\<lambda>_. 2) ts1 else ts1" and ?s = "s\<lparr>waits := if ?ok then Some io else None\<rparr>"
  have at: "parent_at ?ts = parent_at ts" "chain_at ?ts = (chain_at ts)(t := Some c)" "chains ?ts = (chains ts)(c \<mapsto> cc)" "next_task ?ts = next_task ts"
    using handled_at[OF h p] h by (simp_all add: handled_def)
  have same: "refs sc' = refs sc" "fresh sc' = fresh sc" "flagged sc' = flagged sc" "made sc' = made sc" by (simp_all add: sc')
  have none: "s\<lparr>waits := None\<rparr> = s" using s(3) by (cases s) simp
  have set: "set (stacks sc') = insert ?s (set (stacks sc) - {s})"
    using s(1) put_stack_set[OF s(1)] none unfolding sc' ok_iff[symmetric] by (cases ?ok) auto
  have "tasks_rel sc' ?ts"
  proof (rule changed_stack_rel[OF r, where s' = ?s and old = "set (stacks sc) - {s}"])
    show "set (stacks sc') = insert ?s (set (stacks sc) - {s})" by (rule set)
    show "parent_at ?ts u = parent_at ts u \<and> chain_at ?ts u = chain_at ts u \<and> refs sc' u \<noteq> 0 \<and> \<not> fresh sc' u" if "x \<in> set (stacks sc) - {s}" "u \<in> set (coros x)" for x u
    proof -
      have "u \<noteq> t" using task_of_stack(3)[OF r s(1) that(1)] that(2) d(9) s(2) by blast
      then show ?thesis using others_kept[OF r that] unfolding at same by simp
    qed
    show "map_option cancelhandle (chains ?ts e) = map_option cancelhandle (chains ts e)" if "x \<in> set (stacks sc) - {s}" "chain_at ts (hd (coros x)) = Some e" for x e
    proof -
      have "e \<noteq> c" using c task_of_stack(4)[OF r s(1) that(1)] that(2) s(2) by auto
      then show ?thesis unfolding at by simp
    qed
    show "stack_ok sc' ?ts ?s"
      using c s(2) cc by (intro stack_ok_handled[OF tasks_relD(3)[OF r s(1)] _ at(1), of c cc]) (auto simp: at(2,3) same)
    show "alive_ok sc' ?ts"
      by (rule alive_okI) (use al h p d(4)[OF d(9)] s(2) in \<open>auto simp: same at(4) mark_promise handled_def split: if_splits\<close>)
    show "chains_ok ?ts" using ok by (cases ?ok) (auto intro: chains_ok_cong)
    have hook': "hooked sc' u \<longleftrightarrow> hooked sc u \<or> ?ok \<and> u \<in> set (coros s)" for u
      using s(1,3) unfolding hooked_def set by auto
    show "promise_ok sc' u q" if u: "promises ?ts u = Some q" for u q
    proof -
      obtain q0 where q0: "promises ts u = Some q0" "parent q = parent q0" "use_count q = use_count q0" "u \<noteq> t \<Longrightarrow> chain_of q = chain_of q0"
        "state q = (if ?ok \<and> u \<in> set (coros s) then 2 else state q0)"
        using u h p by (auto simp: mark_promise handled_def split: if_splits)
      have "\<not> fresh sc t" using d(5)[OF d(9)] s(2) by simp
      moreover have "state q = code (flagged sc u) (hooked sc' u)"
      proof (cases "?ok \<and> u \<in> set (coros s)")
        case True
        then have "\<not> flagged sc u" using ok_iff by (simp add: list_all_iff)
        then show ?thesis using True q0(5) hook' by (simp add: code_simps)
      next
        case False
        then have "hooked sc' u = hooked sc u" "state q = state q0" using hook' q0(5) by auto
        then show ?thesis using tasks_relD(2)[OF r q0(1)] by (simp add: promise_ok_def)
      qed
      ultimately show ?thesis using tasks_relD(2)[OF r q0(1)] q0(2-4) by (cases "u = t") (auto simp: promise_ok_def same)
    qed
    show "set (coros ?s) \<inter> set (coros x) = {}" if "x \<in> set (stacks sc) - {s}" for x using task_of_stack(3)[OF r s(1) that] by simp
    show "chain_at ts (hd (coros x)) \<noteq> Some e" if "x \<in> set (stacks sc) - {s}" "chain_at ?ts (hd (coros ?s)) = Some e" for x e
      using that c task_of_stack(4)[OF r s(1) that(1)] s(2) by (auto simp: at(2))
  qed simp
  then show ?thesis using hook ok_iff a by simp
qed


lemma finite_users: "alive_ok sc ts \<Longrightarrow> finite (users ts c)"
proof (rule finite_subset)
  assume al: "alive_ok sc ts"
  show "users ts c \<subseteq> {..<made sc}"
    using alive_okD(2,3)[OF al] by (auto simp: users_def chain_at_def split: option.splits)
qed simp

text \<open>A caller and its chain, which the awaited task joins.\<close>

lemma suspend_eval:
  assumes r: "tasks_rel sc ts" and p: "promises ts caller = Some p" "promises ts t = Some q" and ne: "t \<noteq> caller" and q: "chain_of q = None"
  shows "\<exists>c cc ts1 ts'. handled caller p c cc ts ts1 \<and> ts' = set_promise t (Some (q\<lparr>chain_of := Some c, parent := Some caller\<rparr>)) ts1 \<and>
    chains_ok ts' \<and> (chain_at ts caller = Some c \<and> map_option cancelhandle (chains ts c) = Some (cancelhandle cc) \<or> chain_at ts caller = None \<and> (\<forall>u. chain_at ts u \<noteq> Some c)) \<and>
    task_suspend t caller ts = Ret ts'"
proof -
  have ok: "chains_ok ts" and fin: "finite (users ts c)" for c using tasks_relD(1,5)[OF r] finite_users by blast+
  have at: "chain_at ts caller = chain_of p" "chain_at ts t = None" using promise_at(2)[OF p(1)] promise_at(2)[OF p(2)] q by simp_all
  have joined: "users (set_promise t (Some (q\<lparr>chain_of := Some c, parent := Some caller\<rparr>)) ts1) d = (if d = c then insert t (insert caller (users ts c)) else users ts d)"
    if "handled caller p c cc ts ts1" "chain_of p = Some c \<or> chain_of p = None" for c cc ts1 d
  proof -
    let ?ts' = "set_promise t (Some (q\<lparr>chain_of := Some c, parent := Some caller\<rparr>)) ts1"
    have "chain_at ?ts' = (chain_at ts)(caller := Some c, t := Some c)"
      using handled_at(2)[OF that(1) p(1)] by (auto simp: chain_at_def set_promise_def fun_eq_iff split: if_splits)
    then show ?thesis using at that(2) by (auto simp: users_def)
  qed
  show ?thesis
  proof (cases "chain_of p")
    case None
    let ?c = "next_chain ts" and ?cc = "\<lparr>cancelhandle = None, chain_uses = 2\<rparr>"
    let ?ts1 = "new_chain caller p ?cc ts"
    let ?ts' = "set_promise t (Some (q\<lparr>chain_of := Some ?c, parent := Some caller\<rparr>)) ?ts1"
    note n = new_chain_ok(1,2)[OF ok p(1) None, of ?cc]
    have no: "chain_at ts u \<noteq> Some ?c" for u using fresh_chain(2)[OF ok] .
    then have none: "users ts ?c = {}" by (auto simp: users_def)
    have "chains_ok ?ts'"
      by (rule chains_ok_update[OF ok joined[OF n(1)], where new = "Some ?cc"]) (use n ne none None in \<open>auto simp: handled_def set_promise_def\<close>)
    moreover have "promises ?ts1 t = Some q" using n(1) p(2) ne by (simp add: handled_def)
    then have "task_suspend t caller ts = Ret ?ts'" using p None by (simp add: task_suspend_def with_promise_def)
    ultimately show ?thesis using n(1) no at None by (intro exI[of _ ?c] exI[of _ ?cc] exI[of _ ?ts1] exI[of _ ?ts']) simp
  next
    case (Some c)
    obtain cc where cc: "chains ts c = Some cc" "chain_uses cc = int (card (users ts c))" using chain_used[OF ok, of caller c] Some at by auto
    let ?cc = "cc\<lparr>chain_uses := chain_uses cc + 1\<rparr>"
    let ?ts1 = "set_chain c (Some ?cc) ts"
    let ?ts' = "set_promise t (Some (q\<lparr>chain_of := Some c, parent := Some caller\<rparr>)) ?ts1"
    have pp: "p\<lparr>chain_of := Some c\<rparr> = p" using Some by simp
    have h: "handled caller p c ?cc ts ?ts1" using p unfolding handled_def pp by (auto simp: set_chain_def fun_eq_iff)
    have mem: "caller \<in> users ts c" "t \<notin> users ts c" using at Some by (auto simp: users_def)
    have lt: "c < next_chain ts" using ok cc(1) unfolding chains_ok_def by blast
    have "card (insert t (insert caller (users ts c))) = card (users ts c) + 1" using mem fin by (simp add: insert_absorb)
    then have "chains_ok ?ts'"
      by (intro chains_ok_update[OF ok joined[OF h], where new = "Some ?cc"]) (use cc(2) lt Some in \<open>auto simp: set_chain_def set_promise_def\<close>)
    moreover have "task_suspend t caller ts = Ret ?ts'" using p Some cc(1) by (simp add: task_suspend_def with_promise_def with_chain_def set_chain_def)
    moreover have "map_option cancelhandle (chains ts c) = Some (cancelhandle ?cc)" using cc(1) by simp
    ultimately show ?thesis using h at Some by (intro exI[of _ c] exI[of _ ?cc] exI[of _ ?ts1] exI[of _ ?ts']) simp
  qed
qed


lemma Await_rel:
  assumes r: "tasks_rel sc ts" and e: "scope_event (Await caller t) sc = Some (a, sc')"
  shows "\<exists>ts'. task_step (Await caller t) ts = Ret (a, ts') \<and> tasks_rel sc' ts'"
proof -
  obtain s where s: "s \<in> set (stacks sc)" "hd (coros s) = caller" "waits s = None" and f: "fresh sc t" and a: "a = Accepted"
    and sc': "sc' = (put_stack s (s\<lparr>coros := t # coros s\<rparr>) sc)\<lparr>fresh := (fresh sc)(t := False)\<rparr>"
    using e unfolding scope_event.simps on_stack_iff[OF r] by (auto split: if_splits)
  note d = stack_okD[OF tasks_relD(3)[OF r s(1)]] and al = alive_okD[OF tasks_relD(1)[OF r]]
  have hd: "caller \<in> set (coros s)" using d(9) s(2) by simp
  obtain p where p: "promises ts caller = Some p" using task_of_stack(1)[OF r s(1) hd] by blast
  obtain q where q: "promises ts t = Some q" using held_promise[OF r al(5)[OF f]] by blast
  have q0: "parent q = None" "chain_of q = None" using tasks_relD(2)[OF r q] f by (simp_all add: promise_ok_def)
  have nt: "t \<notin> set (coros x)" if "x \<in> set (stacks sc)" for x using stack_okD(5)[OF tasks_relD(3)[OF r that]] f by blast
  have ne: "t \<noteq> caller" using nt[OF s(1)] hd by blast
  obtain c cc ts1 ts' where h: "handled caller p c cc ts ts1" and ts': "ts' = set_promise t (Some (q\<lparr>chain_of := Some c, parent := Some caller\<rparr>)) ts1"
    and ok: "chains_ok ts'" and c: "chain_at ts caller = Some c \<and> map_option cancelhandle (chains ts c) = Some (cancelhandle cc) \<or> chain_at ts caller = None \<and> (\<forall>u. chain_at ts u \<noteq> Some c)"
    and step: "task_suspend t caller ts = Ret ts'"
    using suspend_eval[OF r p q ne q0(2)] by blast
  have at: "parent_at ts' = (parent_at ts)(t := Some caller)" "chain_at ts' = (chain_at ts)(caller := Some c, t := Some c)" "chains ts' = (chains ts)(c \<mapsto> cc)"
    "next_task ts' = next_task ts"
    using handled_at[OF h p] h ne by (auto simp: ts' handled_def parent_at_def chain_at_def set_promise_def fun_eq_iff split: if_splits)
  have pr: "promises ts' = (promises ts)(caller \<mapsto> p\<lparr>chain_of := Some c\<rparr>, t \<mapsto> q\<lparr>chain_of := Some c, parent := Some caller\<rparr>)"
    using h by (auto simp: ts' handled_def set_promise_def)
  let ?s = "s\<lparr>coros := t # coros s\<rparr>"
  have same: "refs sc' = refs sc" "fresh sc' = (fresh sc)(t := False)" "flagged sc' = flagged sc" "made sc' = made sc" by (simp_all add: sc')
  have set: "set (stacks sc') = insert ?s (set (stacks sc) - {s})" using put_stack_set[OF s(1)] by (simp add: sc')
  have "tasks_rel sc' ts'"
  proof (rule changed_stack_rel[OF r, where s' = ?s and old = "set (stacks sc) - {s}"])
    show "set (stacks sc') = insert ?s (set (stacks sc) - {s})" by (rule set)
    show "parent_at ts' u = parent_at ts u \<and> chain_at ts' u = chain_at ts u \<and> refs sc' u \<noteq> 0 \<and> \<not> fresh sc' u" if "x \<in> set (stacks sc) - {s}" "u \<in> set (coros x)" for x u
    proof -
      have "u \<noteq> caller" "u \<noteq> t" using task_of_stack(3)[OF r s(1) that(1)] that nt hd by blast+
      then show ?thesis using others_kept[OF r that] unfolding at same by simp
    qed
    show "map_option cancelhandle (chains ts' e) = map_option cancelhandle (chains ts e)" if "x \<in> set (stacks sc) - {s}" "chain_at ts (hd (coros x)) = Some e" for x e
    proof -
      have "e \<noteq> c" using c task_of_stack(4)[OF r s(1) that(1)] that(2) s(2) by auto
      then show ?thesis unfolding at by simp
    qed
    have ch: "chain_at ts' u = Some c" if "u \<in> set (coros s)" for u
    proof (cases "chain_at ts caller")
      case None
      then have "length (coros s) = 1" using d(7) s(2) by simp
      then have "u = caller" using that s(2) by (cases "coros s") auto
      then show ?thesis by (simp add: at(2))
    next
      case (Some c')
      then show ?thesis using c d(6)[OF that] s(2) by (simp add: at(2))
    qed
    have up: "linked (parent_at ts') (t # coros s)"
    proof -
      have "parent_at ts' u = parent_at ts u" if "u \<in> set (coros s)" for u using that nt[OF s(1)] by (auto simp: at(1))
      then have "linked (parent_at ts') (coros s)" using d(3) linked_cong by metis
      then show ?thesis using s(2) d(1) by (cases "coros s") (auto simp: at(1))
    qed
    show "stack_ok sc' ts' ?s"
      unfolding stack_ok_def using d(1,2,4,5) nt[OF s(1)] up ch s(3) al(5)[OF f] by (auto simp: same at(2) waits_in_def)
    show "alive_ok sc' ts'"
      by (rule alive_okI) (use al d(4)[OF hd] al(5)[OF f] in \<open>auto simp: same at(4) pr split: if_splits\<close>)
    show "chains_ok ts'" by (rule ok)
    have hook': "hooked sc' u = hooked sc u" for u using s(1,3) unfolding hooked_def set by auto
    show "promise_ok sc' u w" if u: "promises ts' u = Some w" for u w
      using u tasks_relD(2)[OF r, of u] p q d(5)[OF hd] by (auto simp: promise_ok_def same pr hook' split: if_splits)
    show "set (coros ?s) \<inter> set (coros x) = {}" if "x \<in> set (stacks sc) - {s}" for x using task_of_stack(3)[OF r s(1) that] nt that by simp
    show "chain_at ts (hd (coros x)) \<noteq> Some e" if "x \<in> set (stacks sc) - {s}" "chain_at ts' (hd (coros ?s)) = Some e" for x e
      using that c task_of_stack(4)[OF r s(1) that(1)] s(2) by (auto simp: at(2))
  qed simp
  then show ?thesis using step a by (simp add: accepted_def)
qed

text \<open>Events that only remove stacks or tasks.\<close>

lemma fewer_stacks_rel:
  assumes r: "tasks_rel sc ts" and st: "set (stacks sc') \<subseteq> set (stacks sc)"
    and frame: "\<And>s t. s \<in> set (stacks sc') \<Longrightarrow> t \<in> set (coros s) \<Longrightarrow>
      parent_at ts' t = parent_at ts t \<and> chain_at ts' t = chain_at ts t \<and> refs sc' t \<noteq> 0 \<and> \<not> fresh sc' t"
    and handles: "\<And>s c. s \<in> set (stacks sc') \<Longrightarrow> chain_at ts (hd (coros s)) = Some c \<Longrightarrow> map_option cancelhandle (chains ts' c) = map_option cancelhandle (chains ts c)"
    and a: "alive_ok sc' ts'" "\<And>t p. promises ts' t = Some p \<Longrightarrow> promise_ok sc' t p" "chains_ok ts'"
  shows "tasks_rel sc' ts'"
proof (cases "stacks sc' = []")
  case True
  then show ?thesis using a by (simp add: tasks_rel_def stacks_apart_def)
next
  case False
  then obtain s where insert: "s \<in> set (stacks sc')" by (cases "stacks sc'") auto
  note ok = stack_okD[OF tasks_relD(3)[OF r]]
  have s: "s \<in> set (stacks sc)" using insert st by blast
  show ?thesis
  proof (rule changed_stack_rel[OF r, where s' = s and old = "set (stacks sc') - {s}"])
    show "stack_ok sc' ts' s"
      by (rule stack_ok_frame[OF tasks_relD(3)[OF r s]]) (use insert frame handles in blast)+
    have hd: "chain_at ts' (hd (coros s)) = chain_at ts (hd (coros s))" using ok(9)[OF s] frame insert by blast
    show "set (coros s) \<inter> set (coros x) = {}" if "x \<in> set (stacks sc') - {s}" for x using task_of_stack(3)[OF r s] that st by blast
    show "chain_at ts (hd (coros x)) \<noteq> Some c" if "x \<in> set (stacks sc') - {s}" "chain_at ts' (hd (coros s)) = Some c" for x c
      using task_of_stack(4)[OF r s] that st unfolding hd by blast
  qed (use st insert frame handles a in blast)+
qed


lemma linked_tl: "linked up (t # xs) \<Longrightarrow> linked up xs"
  by (cases xs) auto

lemma Finish_rel:
  assumes r: "tasks_rel sc ts" and e: "scope_event (Finish t) sc = Some (a, sc')"
  shows "\<exists>ts'. task_step (Finish t) ts = Ret (a, ts') \<and> tasks_rel sc' ts'"
proof -
  obtain s where s: "s \<in> set (stacks sc)" "hd (coros s) = t" "waits s = None" and a: "a = Accepted"
    and sc': "sc' = (if tl (coros s) = [] then sc\<lparr>stacks := filter (\<lambda>x. x \<noteq> s) (stacks sc)\<rparr> else put_stack s (s\<lparr>coros := tl (coros s)\<rparr>) sc)"
    using e unfolding scope_event.simps on_stack_iff[OF r] by (auto split: if_splits)
  note d = stack_okD[OF tasks_relD(3)[OF r s(1)]] and al = alive_okD[OF tasks_relD(1)[OF r]]
  have same: "refs sc' = refs sc" "fresh sc' = fresh sc" "flagged sc' = flagged sc" "made sc' = made sc" by (simp_all add: sc')
  have xs: "coros s = t # tl (coros s)" using d(1) s(2) by (cases "coros s") auto
  have al': "alive_ok sc' ts" by (rule alive_okI) (use al in \<open>auto simp: same\<close>)
  have "tasks_rel sc' ts"
  proof (cases "tl (coros s) = []")
    case True
    have set: "set (stacks sc') = set (stacks sc) - {s}" using True by (auto simp: sc')
    have hook': "hooked sc' u = hooked sc u" for u using s(1,3) unfolding hooked_def set by auto
    show ?thesis
    proof (rule fewer_stacks_rel[OF r])
      show "parent_at ts u = parent_at ts u \<and> chain_at ts u = chain_at ts u \<and> refs sc' u \<noteq> 0 \<and> \<not> fresh sc' u" if "x \<in> set (stacks sc')" "u \<in> set (coros x)" for x u
        using others_kept[OF r _ that(2)] that(1) unfolding set same by blast
      show "promise_ok sc' u q" if "promises ts u = Some q" for u q using tasks_relD(2)[OF r that] by (simp add: promise_ok_def same hook')
    qed (use set al' tasks_relD(5)[OF r] in auto)
  next
    case False
    let ?s = "s\<lparr>coros := tl (coros s)\<rparr>"
    have set: "set (stacks sc') = insert ?s (set (stacks sc) - {s})" using put_stack_set[OF s(1)] False by (simp add: sc')
    have hook': "hooked sc' u = hooked sc u" for u using s(1,3) unfolding hooked_def set by auto
    have sub: "u \<in> set (tl (coros s)) \<Longrightarrow> u \<in> set (coros s)" for u using xs by (metis list.set_intros(2))
    have hd: "hd (tl (coros s)) \<in> set (coros s)" using False sub by simp
    have ch: "chain_at ts (hd (tl (coros s))) = chain_at ts (hd (coros s))" using d(6)[OF hd] .
    have some: "chain_at ts (hd (coros s)) \<noteq> None" using d(7) xs False by (metis One_nat_def length_0_conv length_Cons nat.inject)
    show ?thesis
    proof (rule changed_stack_rel[OF r, where s' = ?s and old = "set (stacks sc) - {s}"])
      show "set (stacks sc') = insert ?s (set (stacks sc) - {s})" by (rule set)
      show "parent_at ts u = parent_at ts u \<and> chain_at ts u = chain_at ts u \<and> refs sc' u \<noteq> 0 \<and> \<not> fresh sc' u" if "x \<in> set (stacks sc) - {s}" "u \<in> set (coros x)" for x u
        using others_kept[OF r that] by (simp add: same)
      have co: "coros ?s = tl (coros s)" "waits ?s = None" using s(3) by simp_all
      have "linked (parent_at ts) (tl (coros s))" "distinct (tl (coros s))" using d(2,3) linked_tl xs distinct_tl by metis+
      then show "stack_ok sc' ts ?s"
        unfolding stack_ok_def co same using False d(4,5) sub ch d(6)[OF sub] some unfolding waits_in_def by (simp only: simp_thms) blast
      show "promise_ok sc' u q" if "promises ts u = Some q" for u q using tasks_relD(2)[OF r that] by (simp add: promise_ok_def same hook')
      show "set (coros ?s) \<inter> set (coros x) = {}" if "x \<in> set (stacks sc) - {s}" for x using task_of_stack(3)[OF r s(1) that] sub by auto
      show "chain_at ts (hd (coros x)) \<noteq> Some c" if "x \<in> set (stacks sc) - {s}" "chain_at ts (hd (coros ?s)) = Some c" for x c
        using task_of_stack(4)[OF r s(1) that(1)] that(2) ch by simp
    qed (use al' tasks_relD(5)[OF r] in auto)
  qed
  then show ?thesis by (simp add: a)
qed

lemma drop_rel_held:
  assumes r: "tasks_rel sc ts" and t: "1 < refs sc t" "promises ts t = Some p" and sc': "sc' = sc\<lparr>refs := (refs sc)(t := refs sc t - 1)\<rparr>"
  shows "tasks_rel sc' (set_promise t (Some (p\<lparr>use_count := use_count p - 1\<rparr>)) ts)" (is "tasks_rel sc' ?ts")
proof (rule same_links_rel[OF r])
  show "parent_at ?ts = parent_at ts" "chain_at ?ts = chain_at ts" using t(2) by (auto simp: set_promise_def parent_at_def chain_at_def fun_eq_iff)
  show "alive_ok sc' ?ts"
    by (rule alive_okI) (use alive_okD[OF tasks_relD(1)[OF r]] t in \<open>auto simp: sc' set_promise_def split: if_splits\<close>)
  show "promise_ok sc' u q" if "promises ?ts u = Some q" for u q
    using that tasks_relD(2)[OF r, of u] t by (auto simp: promise_ok_def hooked_def sc' set_promise_def split: if_splits)
qed (use t(1) in \<open>auto simp: set_promise_def sc'\<close>)

lemma drop_rel_last:
  assumes r: "tasks_rel sc ts" and t: "refs sc t = 1" "promises ts t = Some p" "\<forall>s\<in>set (stacks sc). t \<notin> set (coros s)"
    and sc': "sc' = sc\<lparr>refs := (refs sc)(t := 0), fresh := (fresh sc)(t := False)\<rparr>"
  shows "\<exists>ts'. destroy_promise t (set_promise t (Some (p\<lparr>use_count := 0\<rparr>)) ts) = Ret ts' \<and> tasks_rel sc' ts'"
proof -
  note al = alive_okD[OF tasks_relD(1)[OF r]]
  let ?t0 = "set_promise t (Some (p\<lparr>use_count := 0\<rparr>)) ts"
  have others: "refs sc' u \<noteq> 0 \<and> \<not> fresh sc' u \<and> u \<noteq> t" if "x \<in> set (stacks sc)" "u \<in> set (coros x)" for x u
    using stack_okD(4,5)[OF tasks_relD(3)[OF r that(1)] that(2)] t(3) that by (auto simp: sc')
  have finish: "tasks_rel sc' ts'" if ts': "promises ts' = (promises ts)(t := None)" "next_task ts' = next_task ts" "chains_ok ts'"
    and keep: "\<And>x c. x \<in> set (stacks sc) \<Longrightarrow> chain_at ts (hd (coros x)) = Some c \<Longrightarrow> map_option cancelhandle (chains ts' c) = map_option cancelhandle (chains ts c)" for ts'
  proof (rule fewer_stacks_rel[OF r])
    show "parent_at ts' u = parent_at ts u \<and> chain_at ts' u = chain_at ts u \<and> refs sc' u \<noteq> 0 \<and> \<not> fresh sc' u" if "x \<in> set (stacks sc')" "u \<in> set (coros x)" for x u
      using others[of x u] that by (auto simp: sc' parent_at_def chain_at_def ts'(1))
    show "map_option cancelhandle (chains ts' c) = map_option cancelhandle (chains ts c)" if "x \<in> set (stacks sc')" "chain_at ts (hd (coros x)) = Some c" for x c
      using keep that by (simp add: sc')
    show "alive_ok sc' ts'" by (rule alive_okI) (use al t(1) in \<open>auto simp: sc' ts' split: if_splits\<close>)
    show "promise_ok sc' u q" if "promises ts' u = Some q" for u q
      using that tasks_relD(2)[OF r, of u q] by (auto simp: promise_ok_def hooked_def sc' ts'(1) split: if_splits)
  qed (use ts'(3) in \<open>auto simp: sc'\<close>)
  show ?thesis
  proof (cases "chain_of p")
    case None
    have at: "chain_at (set_promise t None ?t0) = chain_at ts" using promise_at(2)[OF t(2)] None by (auto simp: set_promise_def chain_at_def fun_eq_iff)
    have "chains_ok (set_promise t None ?t0)" using tasks_relD(5)[OF r] by (rule chains_ok_cong[OF _ at]) (simp_all add: set_promise_def)
    then have "tasks_rel sc' (set_promise t None ?t0)" by (intro finish) (simp_all add: set_promise_def)
    moreover have "destroy_promise t ?t0 = Ret (set_promise t None ?t0)" using None by (simp add: destroy_promise_def with_promise_def set_promise_def)
    ultimately show ?thesis by blast
  next
    case (Some c)
    have at: "chain_at ts t = Some c" using promise_at(2)[OF t(2)] Some by simp
    obtain cc where cc: "chains ts c = Some cc" "chain_uses cc = int (card (users ts c))" using chain_used[OF tasks_relD(5)[OF r] at] by blast
    have fin: "finite (users ts c)" using finite_users[OF tasks_relD(1)[OF r]] .
    have mem: "t \<in> users ts c" using at by (simp add: users_def)
    have card: "card (users ts c) = Suc (card (users ts c - {t}))" using card_Suc_Diff1[OF fin mem] by simp
    let ?n = "chain_uses cc - 1"
    let ?new = "if ?n = 0 then None else Some (cc\<lparr>chain_uses := ?n\<rparr>)"
    let ?ts = "set_promise t None (set_chain c ?new ?t0)"
    have us: "users ?ts d = (if d = c then users ts c - {t} else users ts d)" for d
      using at by (auto simp: users_def chain_at_def set_promise_def set_chain_def split: if_splits)
    have zero: "?n = 0 \<longleftrightarrow> users ts c - {t} = {}" using cc(2) card fin by simp
    have lt: "c < next_chain ts" using tasks_relD(5)[OF r] cc(1) unfolding chains_ok_def by blast
    have "chains_ok ?ts"
      by (rule chains_ok_update[OF tasks_relD(5)[OF r] us, where new = ?new])
        (use zero cc(2) card lt in \<open>auto simp: set_promise_def set_chain_def split: if_splits\<close>)
    moreover have "map_option cancelhandle (chains ?ts d) = map_option cancelhandle (chains ts d)" if "x \<in> set (stacks sc)" "chain_at ts (hd (coros x)) = Some d" for x d
    proof (cases "d = c")
      case True
      have "hd (coros x) \<noteq> t" using others[OF that(1)] stack_okD(9)[OF tasks_relD(3)[OF r that(1)]] by blast
      then have "hd (coros x) \<in> users ts c - {t}" using that(2) True by (simp add: users_def)
      then have "?n \<noteq> 0" using zero by blast
      then show ?thesis using True cc(1) by (simp add: set_promise_def set_chain_def)
    qed (simp add: set_promise_def set_chain_def)
    ultimately have "tasks_rel sc' ?ts" by (intro finish) (auto simp: set_promise_def set_chain_def)
    moreover have "destroy_promise t ?t0 = Ret ?ts" using Some cc(1) by (simp add: destroy_promise_def with_promise_def with_chain_def set_promise_def Let_def)
    ultimately show ?thesis by blast
  qed
qed

lemma Drop_rel:
  assumes r: "tasks_rel sc ts" and e: "scope_event (Drop t) sc = Some (a, sc')"
  shows "\<exists>ts'. task_step (Drop t) ts = Ret (a, ts') \<and> tasks_rel sc' ts'"
proof -
  have n: "refs sc t \<noteq> 0" "refs sc t = 1 \<longrightarrow> stack_of t sc = None" and a: "a = Accepted"
    and sc': "sc' = sc\<lparr>refs := (refs sc)(t := refs sc t - 1), fresh := (fresh sc)(t := fresh sc t \<and> 1 < refs sc t)\<rparr>"
    using e by (auto split: if_splits)
  obtain p where p: "promises ts t = Some p" using held_promise[OF r n(1)] by blast
  have use: "use_count p = int (refs sc t)" using tasks_relD(2)[OF r p] by (simp add: promise_ok_def)
  show ?thesis
  proof (cases "refs sc t = 1")
    case True
    have out: "\<forall>s\<in>set (stacks sc). t \<notin> set (coros s)" using n(2) True by (simp add: stack_of_def find_None_iff)
    have "sc' = sc\<lparr>refs := (refs sc)(t := 0), fresh := (fresh sc)(t := False)\<rparr>" using True by (simp add: sc')
    from drop_rel_last[OF r True p out this] show ?thesis
      using p use True a by (auto simp: accepted_def drop_task_def with_promise_def)
  next
    case False
    then have gt: "1 < refs sc t" using n(1) by simp
    have "sc' = sc\<lparr>refs := (refs sc)(t := refs sc t - 1)\<rparr>" using gt by (simp add: sc' fun_upd_idem)
    from drop_rel_held[OF r gt p this] show ?thesis
      using p use gt a by (simp add: accepted_def drop_task_def with_promise_def Let_def)
  qed
qed

text \<open>Every event, and every run.\<close>

lemma event_rel:
  assumes "tasks_rel sc ts" and "scope_event e sc = Some (a, sc')"
  shows "\<exists>ts'. task_step e ts = Ret (a, ts') \<and> tasks_rel sc' ts'"
proof (cases e)
  case New
  show ?thesis using New_rel[OF assms(1)] assms(2) unfolding New by blast
next
  case (Start t)
  show ?thesis using Start_rel[OF assms(1)] assms(2) unfolding Start by blast
next
  case (Await c t)
  show ?thesis using Await_rel[OF assms(1)] assms(2) unfolding Await by blast
next
  case (Hook t io)
  show ?thesis using Hook_rel[OF assms(1)] assms(2) unfolding Hook by blast
next
  case (Unhook t)
  show ?thesis using Unhook_rel[OF assms(1)] assms(2) unfolding Unhook by blast
next
  case (Finish t)
  show ?thesis using Finish_rel[OF assms(1)] assms(2) unfolding Finish by blast
next
  case (Cancel t)
  show ?thesis using Cancel_rel[OF assms(1)] assms(2) unfolding Cancel by blast
next
  case (Token t)
  show ?thesis using Token_rel[OF assms(1)] assms(2) unfolding Token by blast
next
  case (Drop t)
  show ?thesis using Drop_rel[OF assms(1)] assms(2) unfolding Drop by blast
qed

lemma run_rel:
  "tasks_rel sc ts \<Longrightarrow> scope_run es sc = Some (as, sc') \<Longrightarrow> \<exists>ts'. task_run es ts = Ret (as, ts') \<and> tasks_rel sc' ts'"
proof (induction es arbitrary: sc ts as)
  case (Cons e es)
  from Cons.prems(2) obtain a sc1 bs where e: "scope_event e sc = Some (a, sc1)" and es: "scope_run es sc1 = Some (bs, sc')" and as: "as = a # bs"
    by (auto split: option.splits)
  obtain ts1 where ts1: "task_step e ts = Ret (a, ts1)" "tasks_rel sc1 ts1" using event_rel[OF Cons.prems(1) e] by blast
  from Cons.IH[OF ts1(2) es] show ?case using ts1(1) as by auto
qed simp


lemma on_stack_Some: "on_stack t sc f = Some r \<Longrightarrow> \<exists>s. f s = Some r"
  by (auto simp: on_stack_def split: option.splits if_splits)

lemma flagged_event:
  assumes "scope_event e sc = Some (a, sc')"
  shows "flagged sc' u \<longleftrightarrow> flagged sc u \<or> e = Cancel u"
  using assms by (cases e) (auto simp: Let_def split: if_splits dest!: on_stack_Some)

lemma flagged_run:
  "scope_run es sc = Some (bs, sc') \<Longrightarrow> flagged sc' t \<longleftrightarrow> flagged sc t \<or> Cancel t \<in> set es"
proof (induction es arbitrary: sc bs)
  case (Cons e es)
  from Cons.prems obtain a sc1 ds where e: "scope_event e sc = Some (a, sc1)" and es: "scope_run es sc1 = Some (ds, sc')"
    by (auto split: option.splits)
  show ?case using Cons.IH[OF es] flagged_event[OF e, of t] by auto
qed simp

section \<open>The properties\<close>

text \<open>C23. Cancelable tasks as a whole: every program of awaits, hooks, completions, cancellations, tokens and
  destructions that a client can run reads no freed promise or chain, gets from the code the answers
  the stacks of awaiting tasks give, and leaves exactly the promises that are still referred to and
  the chains that one of them uses.\<close>

theorem tasks_refine_stacks:
  assumes "scope_run events no_scopes = Some (answers, sc)"
  shows "\<exists>ts. task_run events no_tasks = Ret (answers, ts) \<and> (\<forall>t. promises ts t \<noteq> None \<longleftrightarrow> 0 < refs sc t) \<and>
    (\<forall>c. chains ts c \<noteq> None \<longleftrightarrow> (\<exists>t p. promises ts t = Some p \<and> chain_of p = Some c))"
proof -
  obtain ts where run: "task_run events no_tasks = Ret (answers, ts)" and r: "tasks_rel sc ts" using run_rel[OF start_rel assms] by blast
  have c: "chains ts c \<noteq> None \<longleftrightarrow> users ts c \<noteq> {}" for c
    using spec[OF tasks_relD(5)[OF r, unfolded chains_ok_def], of c] by (simp only: simp_thms)
  have u: "users ts c \<noteq> {} \<longleftrightarrow> (\<exists>t p. promises ts t = Some p \<and> chain_of p = Some c)" for c
    by (auto simp: users_def chain_at_def split: option.splits)
  have p: "promises ts t \<noteq> None \<longleftrightarrow> 0 < refs sc t" for t using tasks_relD(6)[OF r, of t] by simp
  show ?thesis
    by (rule exI[of _ ts], intro conjI allI) (rule run, rule p, simp only: c u)
qed

definition example_tasks :: "task_event list" where
  "example_tasks = [New, Start 0, New, Token 1, Await 0 1, Hook 1 7, Cancel 0, Cancel 1, Unhook 1, Hook 1 8, Finish 1, Drop 1, Drop 1]"

lemma tasks_refine_stacks_witness:
  "\<exists>ts. task_run example_tasks no_tasks =
    Ret ([Accepted, Accepted, Accepted, Accepted, Accepted, Hooked True, Cancels (Some 7), Cancels (Some 7), Accepted, Hooked False, Accepted, Accepted, Accepted], ts) \<and>
    promises ts 1 = None \<and> chains ts 0 \<noteq> None"
proof -
  let ?as = "[Accepted, Accepted, Accepted, Accepted, Accepted, Hooked True, Cancels (Some 7), Cancels (Some 7), Accepted, Hooked False, Accepted, Accepted, Accepted]"
  obtain sc where sc: "scope_run example_tasks no_scopes = Some (?as, sc)" "refs sc 1 = 0"
    by (simp add: example_tasks_def no_scopes_def on_stack_def stack_of_def put_stack_def)
  from tasks_refine_stacks[OF sc(1)] obtain ts where ts: "task_run example_tasks no_tasks = Ret (?as, ts)" "promises ts 1 \<noteq> None \<longleftrightarrow> 0 < refs sc 1"
    by blast
  have "task_run example_tasks no_tasks = Ret (as, ts) \<Longrightarrow> chains ts 0 \<noteq> None" for as
    by (auto simp: example_tasks_def no_tasks_def new_task_def set_promise_def task_suspend_def with_promise_def new_chain_def set_chain_def accepted_def
        xcoro_hook_def with_chain_def set_state_def and_state_def request_cancel_def xcoro_unhook_def add_ref_def drop_task_def destroy_promise_def Let_def eval_nat_numeral)
  then have "chains ts 0 \<noteq> None" using ts(1) by blast
  moreover have "promises ts 1 = None" using ts(2) sc(2) by simp
  ultimately show ?thesis using ts(1) by blast
qed

text \<open>C24. Cancelling works at every level: in any state that a program reaches, cancelling a task whose
  await chain waits in an operation calls that operation's \<open>cancel\<close>, and once a task was cancelled no
  operation can be hooked in a chain it is part of.\<close>

theorem task_cancel_works:
  assumes "scope_run events no_scopes = Some (answers, sc)" and "task_run events no_tasks = Ret (answers, ts)"
    and "s \<in> set (stacks sc)" and "t \<in> set (coros s)"
  shows "(case waits s of
       Some io \<Rightarrow> Cancel t \<in> set events \<or> (\<exists>ts'. request_cancel t ts = Ret (Some io, ts'))
     | None \<Rightarrow> Cancel t \<notin> set events \<or> (\<exists>ts'. xcoro_hook (hd (coros s)) io ts = Ret (False, ts')))"
proof -
  have r: "tasks_rel sc ts" using run_rel[OF start_rel assms(1)] assms(2) by auto
  note st = stack_of_iff[OF r, of t s]
  have held: "refs sc t \<noteq> 0" using stack_okD(4)[OF tasks_relD(3)[OF r assms(3)] assms(4)] .
  have flag: "flagged sc t \<longleftrightarrow> Cancel t \<in> set events" using flagged_run[OF assms(1)] by (simp add: no_scopes_def)
  show ?thesis
  proof (cases "waits s")
    case None
    have "\<exists>ts'. xcoro_hook (hd (coros s)) io ts = Ret (False, ts')" if "Cancel t \<in> set events"
    proof -
      have "flagged sc t" using flag that by simp
      then have no: "\<not> list_all (\<lambda>u. \<not> flagged sc u) (coros s)" using assms(4) by (auto simp: list_all_iff)
      have "stack_of (hd (coros s)) sc = Some s" using stack_of_iff[OF r] assms(3) stack_okD(9)[OF tasks_relD(3)[OF r assms(3)]] by blast
      then have "scope_event (Hook (hd (coros s)) io) sc = Some (Hooked False, sc)" using no None by (simp add: on_stack_def)
      from event_rel[OF r this] show ?thesis by (auto simp: outcome_simps split: prod.splits)
    qed
    then show ?thesis using None by auto
  next
    case (Some io')
    have "\<exists>ts'. request_cancel t ts = Ret (Some io', ts')" if "Cancel t \<notin> set events"
    proof -
      have "\<not> flagged sc t" using flag that by simp
      then have "scope_event (Cancel t) sc = Some (Cancels (Some io'), sc\<lparr>flagged := (flagged sc)(t := True)\<rparr>)"
        using held st assms(3,4) Some by simp
      from event_rel[OF r this] show ?thesis by (auto simp: outcome_simps split: prod.splits)
    qed
    then show ?thesis using Some by auto
  qed
qed

lemma task_cancel_works_witness:
  "\<exists>ts ts'. task_run [New, Start 0, New, Await 0 1, Hook 1 7] no_tasks = Ret ([Accepted, Accepted, Accepted, Accepted, Hooked True], ts) \<and>
    request_cancel 0 ts = Ret (Some 7, ts')"
proof -
  let ?es = "[New, Start 0, New, Await 0 1, Hook 1 7]" and ?as = "[Accepted, Accepted, Accepted, Accepted, Hooked True]"
  obtain sc where sc: "scope_run ?es no_scopes = Some (?as, sc)" "stacks sc = [\<lparr>coros = [1, 0], waits = Some 7\<rparr>]"
    by (simp add: no_scopes_def on_stack_def stack_of_def put_stack_def)
  obtain ts where ts: "task_run ?es no_tasks = Ret (?as, ts)" using run_rel[OF start_rel sc(1)] by blast
  show ?thesis using task_cancel_works[OF sc(1) ts, of "\<lparr>coros = [1, 0], waits = Some 7\<rparr>" 0 0] sc(2) ts by auto
qed

section \<open>Without thread safety\<close>

text \<open>The variant of \<open>XNET_DISABLE_THREAD_SAFE\<close> has plain fields instead of atomic ones. Its walks are the
  ones above; its hook tests the state of a root before it makes the chain, and its
  \<open>request_cancel\<close> takes the state \<open>&=\<close> 0b01 where the other one sets the bit.\<close>

definition plain_hook :: "nat \<Rightarrow> nat \<Rightarrow> tasks \<Rightarrow> (bool \<times> tasks) outcome" where
  "plain_hook t io ts = with_promise t ts (\<lambda>p.
     case chain_of p of
       None \<Rightarrow>
         if state p \<noteq> 0b00 then Ret (False, ts)
         else Ret (True, set_state t 0b10 (new_chain t p \<lparr>cancelhandle = Some io, chain_uses = 1\<rparr> ts))
     | Some c \<Rightarrow> with_chain c ts (\<lambda>cc.
         let ts = set_chain c (Some (cc\<lparr>cancelhandle := Some io\<rparr>)) ts
         in if state p \<noteq> 0b00 then Ret (False, ts)
            else
              let ts = set_state t 0b10 ts
              in case parent p of
                   None \<Rightarrow> Ret (True, ts)
                 | Some node \<Rightarrow> bind_outcome (xcoro_hook_recursion (next_task ts) node ts) (\<lambda>(ok, ts).
                     if ok then Ret (True, ts) else Ret (False, and_state t 0b01 ts))))"

definition plain_request_cancel :: "nat \<Rightarrow> tasks \<Rightarrow> (nat option \<times> tasks) outcome" where
  "plain_request_cancel t ts = with_promise t ts (\<lambda>p.
     let expected = state p;
         ts = and_state t 0b01 ts
     in if expected = 0b10 then
          (case chain_of p of
             None \<Rightarrow> UB
           | Some c \<Rightarrow> with_chain c ts (\<lambda>cc. case cancelhandle cc of None \<Rightarrow> UB | Some io \<Rightarrow> Ret (Some io, ts)))
        else Ret (None, ts))"

lemma plain_hook_same:
  assumes "promises ts t = Some p" and "chain_of p \<noteq> None \<or> state p = 0"
  shows "plain_hook t io ts = xcoro_hook t io ts"
  using assms by (auto simp: plain_hook_def xcoro_hook_def with_promise_def Let_def split: option.split)

text \<open>A cancelled task goes on as if nothing had been asked: the next operation is hooked.\<close>

lemma plain_cancel_forgets:
  "bind_outcome (plain_request_cancel 0 (new_task no_tasks)) (\<lambda>(io, ts). bind_outcome (plain_hook 0 7 ts) (\<lambda>(ok, ts). Ret (io, ok))) = Ret (None, True)"
  "bind_outcome (request_cancel 0 (new_task no_tasks)) (\<lambda>(io, ts). bind_outcome (xcoro_hook 0 7 ts) (\<lambda>(ok, ts). Ret (io, ok))) = Ret (None, False)"
  by (simp_all add: new_task_def no_tasks_def set_promise_def plain_request_cancel_def request_cancel_def plain_hook_def xcoro_hook_def
      with_promise_def with_chain_def and_state_def set_state_def new_chain_def set_chain_def)

end
