(* ===== verification/Xnet_Awaiters.thy ===== *)
theory Xnet_Awaiters
  imports Xnet_Tasks
begin

text \<open>
  The awaiters of include/xnet.hpp and the \<open>io_context\<close> they share: \<open>IOAwaiter\<close>, \<open>AcceptAwaiter\<close>,
  their variants with a timeout, the timer and the file system. \<open>await_suspend\<close> hooks the operation
  into the await chain of the coroutine, puts it into the submission queue and counts it;
  \<open>await_resume\<close>, behind the \<open>Wrapper\<close> of \<open>await_transform\<close>, unhooks it and counts it down. The
  kernel's part, which submissions complete with which result, comes as events.
\<close>

section \<open>State\<close>

definition ECANCELED :: int where "ECANCELED = 125"
definition ETIME :: int where "ETIME = 62"

text \<open>Entries of the submission queue: an operation with the coroutine as its user data, one linked to a
  timeout, the timeout, and the requests to cancel the submission with the user data given.\<close>

datatype sqe = Prep nat nat | Prep_linked nat nat | Link_timeout nat | Prep_cancel nat | Prep_poll_remove nat | Prep_timeout_remove nat

datatype kind = Io | Poll | Io_timeout | Poll_timeout | Accept | Accept_timeout | Timer | File

text \<open>An awaiter is a number, \<open>handler\<close> its coroutine while it is pending. \<open>result_slot\<close> is
  \<open>io_context::result()\<close>.\<close>

record runtime =
  coroutines :: tasks
  handler :: "nat \<Rightarrow> nat option"
  sq :: "sqe list"
  sq_entries :: nat
  evs_count :: u64
  result_slot :: int

definition new_context :: "nat \<Rightarrow> runtime" where
  "new_context entries = \<lparr>coroutines = no_tasks, handler = (\<lambda>_. None), sq = [], sq_entries = entries, evs_count = 0, result_slot = 0\<rparr>"

definition sq_space_left :: "runtime \<Rightarrow> nat" where
  "sq_space_left rt = sq_entries rt - length (sq rt)"

definition add_events :: "u64 \<Rightarrow> runtime \<Rightarrow> runtime" where
  "add_events n rt = rt\<lparr>evs_count := evs_count rt + n\<rparr>"

definition sub_events :: "u64 \<Rightarrow> runtime \<Rightarrow> runtime" where
  "sub_events n rt = rt\<lparr>evs_count := evs_count rt - n\<rparr>"

definition set_handler :: "nat \<Rightarrow> nat option \<Rightarrow> runtime \<Rightarrow> runtime" where
  "set_handler op h rt = rt\<lparr>handler := (handler rt)(op := h)\<rparr>"

definition prepare :: "sqe list \<Rightarrow> runtime \<Rightarrow> runtime" where
  "prepare es rt = rt\<lparr>sq := sq rt @ es\<rparr>"

section \<open>Suspending\<close>

text \<open>The awaiters have this start in common: the handle is set and the operation hooked.\<close>

definition hook_first :: "nat \<Rightarrow> nat \<Rightarrow> (runtime \<Rightarrow> bool \<times> runtime) \<Rightarrow> runtime \<Rightarrow> (bool \<times> runtime) outcome" where
  "hook_first op h submit rt = bind_outcome (xcoro_hook h op (coroutines rt)) (\<lambda>(ok, ts).
     let rt = set_handler op (Some h) (rt\<lparr>coroutines := ts\<rparr>)
     in if \<not> ok then Ret (False, set_handler op None (rt\<lparr>result_slot := - ECANCELED\<rparr>)) else Ret (submit rt))"

definition io_suspend :: "nat \<Rightarrow> nat \<Rightarrow> runtime \<Rightarrow> (bool \<times> runtime) outcome" where
  "io_suspend op h = hook_first op h (\<lambda>rt.
     if 1 \<le> sq_space_left rt then (True, add_events 1 (prepare [Prep op h] rt))
     else (False, set_handler op None (rt\<lparr>result_slot := - EAGAIN\<rparr>)))"

definition io_timeout_suspend :: "nat \<Rightarrow> nat \<Rightarrow> runtime \<Rightarrow> (bool \<times> runtime) outcome" where
  "io_timeout_suspend op h = hook_first op h (\<lambda>rt.
     if 2 \<le> sq_space_left rt then (True, add_events 1 (prepare [Prep_linked op h, Link_timeout op] rt))
     else (False, set_handler op None (rt\<lparr>result_slot := - EAGAIN\<rparr>)))"

definition accept_suspend :: "nat \<Rightarrow> nat \<Rightarrow> runtime \<Rightarrow> (bool \<times> runtime) outcome" where
  "accept_suspend op h = hook_first op h (\<lambda>rt.
     if 1 \<le> sq_space_left rt then (True, add_events 1 (prepare [Prep op h] rt))
     else (False, set_handler op None (rt\<lparr>result_slot := - EAGAIN\<rparr>)))"

definition accept_timeout_suspend :: "nat \<Rightarrow> nat \<Rightarrow> runtime \<Rightarrow> (bool \<times> runtime) outcome" where
  "accept_timeout_suspend op h = hook_first op h (\<lambda>rt.
     if 2 \<le> sq_space_left rt then (True, add_events 1 (prepare [Prep_linked op h, Link_timeout op] rt))
     else (False, set_handler op None (rt\<lparr>result_slot := - EAGAIN\<rparr>)))"

text \<open>Without room the timer keeps its handle and takes \<open>errno\<close>, a parameter, as its result.\<close>

definition timer_suspend :: "int \<Rightarrow> nat \<Rightarrow> nat \<Rightarrow> runtime \<Rightarrow> (bool \<times> runtime) outcome" where
  "timer_suspend errno op h = hook_first op h (\<lambda>rt.
     if 1 \<le> sq_space_left rt then (True, add_events 1 (prepare [Prep op h] rt))
     else (False, rt\<lparr>result_slot := errno\<rparr>))"

definition file_suspend :: "nat \<Rightarrow> nat \<Rightarrow> runtime \<Rightarrow> (bool \<times> runtime) outcome" where
  "file_suspend op h = hook_first op h (\<lambda>rt.
     if 1 \<le> sq_space_left rt then (True, add_events 1 (prepare [Prep op h] rt))
     else (False, set_handler op None (rt\<lparr>result_slot := - EAGAIN\<rparr>)))"

definition op_suspend :: "int \<Rightarrow> kind \<Rightarrow> nat \<Rightarrow> nat \<Rightarrow> runtime \<Rightarrow> (bool \<times> runtime) outcome" where
  "op_suspend errno k =
     (case k of Io \<Rightarrow> io_suspend | Poll \<Rightarrow> io_suspend | Io_timeout \<Rightarrow> io_timeout_suspend | Poll_timeout \<Rightarrow> io_timeout_suspend
      | Accept \<Rightarrow> accept_suspend | Accept_timeout \<Rightarrow> accept_timeout_suspend | Timer \<Rightarrow> timer_suspend errno | File \<Rightarrow> file_suspend)"

section \<open>Resuming\<close>

definition release :: "nat \<Rightarrow> runtime \<Rightarrow> runtime" where
  "release op rt = (if handler rt op \<noteq> None then sub_events 1 (set_handler op None rt) else rt)"

text \<open>Each result is a value and an error code. \<open>nodelay\<close> is the \<open>errno\<close> of the \<open>setsockopt\<close> call on the
  accepted socket, 0 when it succeeds.\<close>

definition io_resume :: "nat \<Rightarrow> runtime \<Rightarrow> int io_result \<times> runtime" where
  "io_resume op rt =
     (let result = result_slot rt;
          err = (if result < 0 then - result else 0);
          r = (if result < 0 then 0 else result)
      in ((r, err), release op rt))"

definition accept_resume :: "int \<Rightarrow> nat \<Rightarrow> runtime \<Rightarrow> int io_result \<times> runtime" where
  "accept_resume nodelay op rt =
     (let result = result_slot rt
      in (if result < 0 then (-1, - result) else if nodelay \<noteq> 0 then (-1, nodelay) else (result, 0), release op rt))"

definition timer_resume :: "nat \<Rightarrow> runtime \<Rightarrow> int io_result \<times> runtime" where
  "timer_resume op rt = ((0, if result_slot rt \<noteq> - ETIME then - result_slot rt else 0), release op rt)"

definition file_resume :: "nat \<Rightarrow> runtime \<Rightarrow> int io_result \<times> runtime" where
  "file_resume op rt = (let result = result_slot rt in (if result < 0 then (-1, - result) else (result, 0), release op rt))"

definition op_resume :: "int \<Rightarrow> kind \<Rightarrow> nat \<Rightarrow> runtime \<Rightarrow> int io_result \<times> runtime" where
  "op_resume nodelay k =
     (case k of Accept \<Rightarrow> accept_resume nodelay | Accept_timeout \<Rightarrow> accept_resume nodelay | Timer \<Rightarrow> timer_resume | File \<Rightarrow> file_resume
      | _ \<Rightarrow> io_resume)"

text \<open>\<open>Wrapper::await_resume\<close>.\<close>

definition wrapper_resume :: "int \<Rightarrow> kind \<Rightarrow> nat \<Rightarrow> runtime \<Rightarrow> (int io_result \<times> runtime) outcome" where
  "wrapper_resume nodelay k op rt =
     bind_outcome
       (case handler rt op of
          None \<Rightarrow> Ret rt
        | Some h \<Rightarrow> bind_outcome (xcoro_unhook h (coroutines rt)) (\<lambda>ts. Ret (rt\<lparr>coroutines := ts\<rparr>)))
       (\<lambda>rt. Ret (op_resume nodelay k op rt))"

section \<open>Cancelling\<close>

definition context_cancel :: "(nat \<Rightarrow> sqe) \<Rightarrow> nat \<Rightarrow> runtime \<Rightarrow> bool io_result \<times> runtime" where
  "context_cancel prep target rt =
     (if 1 \<le> sq_space_left rt then ((True, 0), prepare [prep target] rt) else ((False, EAGAIN), rt))"

definition op_cancel :: "kind \<Rightarrow> nat \<Rightarrow> runtime \<Rightarrow> bool io_result \<times> runtime" where
  "op_cancel k op rt =
     (case handler rt op of
        None \<Rightarrow> ((False, ECANCELED), rt)
      | Some h \<Rightarrow>
          context_cancel (if k = Poll \<or> k = Poll_timeout then Prep_poll_remove else if k = Timer then Prep_timeout_remove else Prep_cancel) h rt)"

text \<open>\<open>task::cancel\<close>; \<open>kinds\<close> is the function the cancel handle of an awaiter calls.\<close>

definition task_cancel :: "(nat \<Rightarrow> kind) \<Rightarrow> nat \<Rightarrow> runtime \<Rightarrow> (bool io_result \<times> runtime) outcome" where
  "task_cancel kinds t rt = bind_outcome (request_cancel t (coroutines rt)) (\<lambda>(op, ts).
     let rt = rt\<lparr>coroutines := ts\<rparr>
     in case op of None \<Rightarrow> Ret ((True, 0), rt) | Some op \<Rightarrow> Ret (op_cancel (kinds op) op rt))"

section \<open>Submitting\<close>

definition submit :: "runtime \<Rightarrow> runtime" where
  "submit rt = rt\<lparr>sq := []\<rparr>"

text \<open>\<open>co_await\<close> of an awaiter: without a suspension the result is there at once.\<close>

definition co_await :: "int \<Rightarrow> int \<Rightarrow> kind \<Rightarrow> nat \<Rightarrow> nat \<Rightarrow> runtime \<Rightarrow> (int io_result option \<times> runtime) outcome" where
  "co_await errno nodelay k op h rt = bind_outcome (op_suspend errno k op h rt) (\<lambda>(suspended, rt).
     if suspended then Ret (None, rt)
     else bind_outcome (wrapper_resume nodelay k op rt) (\<lambda>(r, rt). Ret (Some r, rt)))"

section \<open>What the awaiters promise\<close>

text \<open>The stacks of tasks with the operation each waits in, and the submissions prepared. Suspending is
  considered while there is room for the submission; the answers are the results the coroutines get.\<close>

record world =
  stacked :: scopes
  prepared :: "sqe list"

datatype rt_event = Task task_event | Co_await nat nat | Complete nat int | Request nat | Submit

datatype rt_answer = Goes_on | Suspends | Returns "int io_result" | Requested "bool io_result"

definition sqes :: "kind \<Rightarrow> nat \<Rightarrow> nat \<Rightarrow> sqe list" where
  "sqes k op h = (if k \<in> {Io_timeout, Poll_timeout, Accept_timeout} then [Prep_linked op h, Link_timeout op] else [Prep op h])"

definition cancel_sqe :: "kind \<Rightarrow> nat \<Rightarrow> sqe" where
  "cancel_sqe k = (if k = Poll \<or> k = Poll_timeout then Prep_poll_remove else if k = Timer then Prep_timeout_remove else Prep_cancel)"

definition op_result :: "int \<Rightarrow> kind \<Rightarrow> int \<Rightarrow> int io_result" where
  "op_result nodelay k res =
     (if k = Timer then (0, if res = - ETIME then 0 else - res)
      else if res < 0 then (if k \<in> {Accept, Accept_timeout, File} then -1 else 0, - res)
      else if k \<in> {Accept, Accept_timeout} \<and> nodelay \<noteq> 0 then (-1, nodelay) else (res, 0))"

fun not_io :: "task_event \<Rightarrow> bool" where
  "not_io (Hook t io) = False"
| "not_io (Unhook t) = False"
| "not_io (Cancel t) = False"
| "not_io _ = True"

fun world_event :: "nat \<Rightarrow> int \<Rightarrow> (nat \<Rightarrow> kind) \<Rightarrow> rt_event \<Rightarrow> world \<Rightarrow> (rt_answer \<times> world) option" where
  "world_event entries nodelay kinds (Task e) w =
     (if not_io e then map_option (\<lambda>(_, sc). (Goes_on, w\<lparr>stacked := sc\<rparr>)) (scope_event e (stacked w)) else None)"
| "world_event entries nodelay kinds (Co_await op h) w =
     (if list_ex (\<lambda>s. waits s = Some op) (stacks (stacked w)) \<or> entries < length (prepared w) + length (sqes (kinds op) op h) then None
      else case scope_event (Hook h op) (stacked w) of
          Some (Hooked ok, sc) \<Rightarrow>
            Some (if ok then (Suspends, w\<lparr>stacked := sc, prepared := prepared w @ sqes (kinds op) op h\<rparr>)
              else (Returns (op_result nodelay (kinds op) (- ECANCELED)), w\<lparr>stacked := sc\<rparr>))
        | _ \<Rightarrow> None)"
| "world_event entries nodelay kinds (Complete op res) w =
     (case List.find (\<lambda>s. waits s = Some op) (stacks (stacked w)) of
        None \<Rightarrow> None
      | Some s \<Rightarrow> map_option (\<lambda>(_, sc). (Returns (op_result nodelay (kinds op) res), w\<lparr>stacked := sc\<rparr>)) (scope_event (Unhook (hd (coros s))) (stacked w)))"
| "world_event entries nodelay kinds (Request t) w =
     (case scope_event (Cancel t) (stacked w) of
        Some (Cancels None, sc) \<Rightarrow> Some (Requested (True, 0), w\<lparr>stacked := sc\<rparr>)
      | Some (Cancels (Some op), sc) \<Rightarrow>
          (case stack_of t (stacked w) of
             None \<Rightarrow> None
           | Some s \<Rightarrow>
               Some (if length (prepared w) < entries
                 then (Requested (True, 0), w\<lparr>stacked := sc, prepared := prepared w @ [cancel_sqe (kinds op) (hd (coros s))]\<rparr>)
                 else (Requested (False, EAGAIN), w\<lparr>stacked := sc\<rparr>)))
      | _ \<Rightarrow> None)"
| "world_event entries nodelay kinds Submit w = Some (Goes_on, w\<lparr>prepared := []\<rparr>)"

fun rt_step :: "int \<Rightarrow> int \<Rightarrow> (nat \<Rightarrow> kind) \<Rightarrow> rt_event \<Rightarrow> runtime \<Rightarrow> (rt_answer \<times> runtime) outcome" where
  "rt_step errno nodelay kinds (Task e) rt = bind_outcome (task_step e (coroutines rt)) (\<lambda>(_, ts). Ret (Goes_on, rt\<lparr>coroutines := ts\<rparr>))"
| "rt_step errno nodelay kinds (Co_await op h) rt =
     bind_outcome (co_await errno nodelay (kinds op) op h rt) (\<lambda>(r, rt). Ret (case r of None \<Rightarrow> Suspends | Some r \<Rightarrow> Returns r, rt))"
| "rt_step errno nodelay kinds (Complete op res) rt =
     bind_outcome (wrapper_resume nodelay (kinds op) op (rt\<lparr>result_slot := res\<rparr>)) (\<lambda>(r, rt). Ret (Returns r, rt))"
| "rt_step errno nodelay kinds (Request t) rt = bind_outcome (task_cancel kinds t rt) (\<lambda>(r, rt). Ret (Requested r, rt))"
| "rt_step errno nodelay kinds Submit rt = Ret (Goes_on, submit rt)"

fun world_run :: "nat \<Rightarrow> int \<Rightarrow> (nat \<Rightarrow> kind) \<Rightarrow> rt_event list \<Rightarrow> world \<Rightarrow> (rt_answer list \<times> world) option" where
  "world_run entries nodelay kinds [] w = Some ([], w)"
| "world_run entries nodelay kinds (e # es) w =
     (case world_event entries nodelay kinds e w of None \<Rightarrow> None
      | Some (a, w) \<Rightarrow> map_option (\<lambda>(as, w). (a # as, w)) (world_run entries nodelay kinds es w))"

fun rt_run :: "int \<Rightarrow> int \<Rightarrow> (nat \<Rightarrow> kind) \<Rightarrow> rt_event list \<Rightarrow> runtime \<Rightarrow> (rt_answer list \<times> runtime) outcome" where
  "rt_run errno nodelay kinds [] rt = Ret ([], rt)"
| "rt_run errno nodelay kinds (e # es) rt =
     bind_outcome (rt_step errno nodelay kinds e rt) (\<lambda>(a, rt). bind_outcome (rt_run errno nodelay kinds es rt) (\<lambda>(as, rt). Ret (a # as, rt)))"

section \<open>The awaiters against the stacks\<close>

definition pairs :: "scopes \<Rightarrow> (nat \<times> nat) set" where
  "pairs sc = {(op, hd (coros s)) | op s. s \<in> set (stacks sc) \<and> waits s = Some op}"

definition graph_of :: "(nat \<Rightarrow> nat option) \<Rightarrow> (nat \<times> nat) set" where
  "graph_of f = {(op, h). f op = Some h}"

definition rt_rel :: "nat \<Rightarrow> world \<Rightarrow> runtime \<Rightarrow> bool" where
  "rt_rel entries w rt \<longleftrightarrow> tasks_rel (stacked w) (coroutines rt) \<and> graph_of (handler rt) = pairs (stacked w) \<and>
     sq rt = prepared w \<and> sq_entries rt = entries \<and> evs_count rt = of_nat (card (dom (handler rt)))"

lemma rt_relD:
  assumes "rt_rel entries w rt"
  shows "tasks_rel (stacked w) (coroutines rt)" "graph_of (handler rt) = pairs (stacked w)" "sq rt = prepared w" "sq_entries rt = entries"
    "evs_count rt = of_nat (card (dom (handler rt)))"
  using assms by (simp_all add: rt_rel_def)

lemma finite_handlers: "graph_of f = pairs sc \<Longrightarrow> finite (dom f)"
proof -
  assume "graph_of f = pairs sc"
  moreover have "pairs sc \<subseteq> (\<lambda>s. (the (waits s), hd (coros s))) ` set (stacks sc)" by (force simp: pairs_def)
  moreover have "dom f = fst ` graph_of f" by (force simp: graph_of_def)
  ultimately show ?thesis by (metis finite_imageI finite_set finite_subset)
qed

lemma pairs_iff: "(op, h) \<in> pairs sc \<longleftrightarrow> (\<exists>s\<in>set (stacks sc). waits s = Some op \<and> hd (coros s) = h)"
  by (auto simp: pairs_def)

lemma handler_iff: "graph_of f = pairs sc \<Longrightarrow> f op = Some h \<longleftrightarrow> (\<exists>s\<in>set (stacks sc). waits s = Some op \<and> hd (coros s) = h)"
  using pairs_iff[of op h sc] unfolding graph_of_def by blast

lemma handler_None: "graph_of f = pairs sc \<Longrightarrow> f op = None \<longleftrightarrow> (\<forall>s\<in>set (stacks sc). waits s \<noteq> Some op)"
  using handler_iff[of f sc op] by (metis not_None_eq)

lemma pairs_kept:
  assumes r: "tasks_rel sc ts" and "not_io e" and "scope_event e sc = Some (a, sc')"
  shows "pairs sc' = pairs sc"
proof -
  have put: "pairs (put_stack s s' sc) = pairs sc" if "s \<in> set (stacks sc)" "waits s = None" "waits s' = None" for s s'
  proof -
    have "s \<in> set (stacks (put_stack s s' sc)) \<and> waits s = Some op \<longleftrightarrow> False" for op using that(2) by simp
    moreover have "x \<in> set (stacks (put_stack s s' sc)) \<and> waits x = Some op \<longleftrightarrow> x \<in> set (stacks sc) \<and> waits x = Some op" for x op
      using put_stack_set[OF that(1)] that(2,3) by (cases "x = s"; cases "x = s'") auto
    ultimately show ?thesis unfolding pairs_def by simp
  qed
  show ?thesis
  proof (cases e)
    case (Await c t)
    then obtain s where s: "s \<in> set (stacks sc)" "waits s = None" "sc' = (put_stack s (s\<lparr>coros := t # coros s\<rparr>) sc)\<lparr>fresh := (fresh sc)(t := False)\<rparr>"
      using assms(3) unfolding Await scope_event.simps on_stack_iff[OF r] by (auto split: if_splits)
    then show ?thesis using put[OF s(1,2), of "s\<lparr>coros := t # coros s\<rparr>"] by (simp add: pairs_def)
  next
    case (Finish t)
    then obtain s where s: "s \<in> set (stacks sc)" "waits s = None"
        "sc' = (if tl (coros s) = [] then sc\<lparr>stacks := filter (\<lambda>x. x \<noteq> s) (stacks sc)\<rparr> else put_stack s (s\<lparr>coros := tl (coros s)\<rparr>) sc)"
      using assms(3) unfolding Finish scope_event.simps on_stack_iff[OF r] by (auto split: if_splits)
    show ?thesis
    proof (cases "tl (coros s) = []")
      case True
      have "x \<in> set (stacks sc') \<and> waits x = Some op \<longleftrightarrow> x \<in> set (stacks sc) \<and> waits x = Some op" for x op
        using s(2) True unfolding s(3) by auto
      then show ?thesis unfolding pairs_def by simp
    next
      case False
      then show ?thesis using put[OF s(1,2), of "s\<lparr>coros := tl (coros s)\<rparr>"] s(2) by (simp add: s(3))
    qed
  qed (use assms(2,3) in \<open>auto simp: pairs_def split: if_splits\<close>)
qed

lemma op_resume_eq: "op_resume nodelay k op rt = (op_result nodelay k (result_slot rt), release op rt)"
  by (cases k) (auto simp: op_resume_def io_resume_def accept_resume_def timer_resume_def file_resume_def op_result_def Let_def)

lemma op_suspend_room:
  assumes "length (sqes k op h) \<le> sq_space_left rt"
  shows "op_suspend errno k op h rt = bind_outcome (xcoro_hook h op (coroutines rt)) (\<lambda>(ok, ts).
    let rt = set_handler op (Some h) (rt\<lparr>coroutines := ts\<rparr>)
    in if ok then Ret (True, add_events 1 (prepare (sqes k op h) rt)) else Ret (False, set_handler op None (rt\<lparr>result_slot := - ECANCELED\<rparr>)))"
proof -
  have left: "sq_space_left (set_handler op (Some h) (rt\<lparr>coroutines := ts\<rparr>)) = sq_space_left rt" for ts
    by (simp add: sq_space_left_def set_handler_def)
  show ?thesis using assms
    by (cases k; cases "xcoro_hook h op (coroutines rt)") (auto simp: op_suspend_def io_suspend_def io_timeout_suspend_def accept_suspend_def accept_timeout_suspend_def timer_suspend_def file_suspend_def
        hook_first_def sqes_def Let_def left split_beta)
qed

lemma step_answers:
  "task_step (Hook t io) ts = Ret (a, ts') \<longleftrightarrow> (\<exists>ok. a = Hooked ok \<and> xcoro_hook t io ts = Ret (ok, ts'))"
  "task_step (Unhook t) ts = Ret (a, ts') \<longleftrightarrow> a = Accepted \<and> xcoro_unhook t ts = Ret ts'"
  "task_step (Cancel t) ts = Ret (a, ts') \<longleftrightarrow> (\<exists>io. a = Cancels io \<and> request_cancel t ts = Ret (io, ts'))"
  by (auto simp: outcome_simps accepted_def split: prod.splits)


lemma graph_put: "graph_of (f(op := Some h)) = insert (op, h) (graph_of f)" if "f op = None"
  using that by (auto simp: graph_of_def split: if_splits)

lemma graph_drop: "graph_of (f(op := None)) = graph_of f - {(op, h)}" if "f op = Some h"
  using that by (auto simp: graph_of_def split: if_splits)

lemma pairs_hook:
  assumes "s \<in> set (stacks sc)" and "waits s = None"
  shows "pairs (put_stack s (s\<lparr>waits := Some op\<rparr>) sc) = insert (op, hd (coros s)) (pairs sc)"
proof -
  have "s\<lparr>waits := Some op\<rparr> \<noteq> s" using assms(2) by (cases s) auto
  then have "x \<in> set (stacks (put_stack s (s\<lparr>waits := Some op\<rparr>) sc)) \<and> waits x = Some o' \<longleftrightarrow> x \<in> set (stacks sc) \<and> waits x = Some o' \<or> x = s\<lparr>waits := Some op\<rparr> \<and> o' = op" for x o'
    using put_stack_set[OF assms(1)] assms(2) by (cases "x = s"; cases "x = s\<lparr>waits := Some op\<rparr>") auto
  then have "pairs (put_stack s (s\<lparr>waits := Some op\<rparr>) sc) =
      {(o', hd (coros x)) | o' x. x \<in> set (stacks sc) \<and> waits x = Some o' \<or> x = s\<lparr>waits := Some op\<rparr> \<and> o' = op}" unfolding pairs_def by simp
  also have "\<dots> = insert (op, hd (coros (s\<lparr>waits := Some op\<rparr>))) (pairs sc)" unfolding pairs_def by blast
  finally show ?thesis by simp
qed

lemma pairs_unhook:
  assumes r: "tasks_rel sc ts" and s: "s \<in> set (stacks sc)" "waits s = Some op"
  shows "pairs (put_stack s (s\<lparr>waits := None\<rparr>) sc) = pairs sc - {(op, hd (coros s))}"
proof -
  have one: "x = s" if "x \<in> set (stacks sc)" "hd (coros x) = hd (coros s)" for x
  proof -
    have "hd (coros s) \<in> set (coros s)" "hd (coros s) \<in> set (coros x)"
      using stack_okD(9)[OF tasks_relD(3)[OF r s(1)]] stack_okD(9)[OF tasks_relD(3)[OF r that(1)]] that(2) by simp_all
    then have "stack_of (hd (coros s)) sc = Some s" "stack_of (hd (coros s)) sc = Some x" using stack_of_iff[OF r] s(1) that(1) by blast+
    then show ?thesis by simp
  qed
  have "s\<lparr>waits := None\<rparr> \<noteq> s" using s(2) by (cases s) auto
  then have "x \<in> set (stacks (put_stack s (s\<lparr>waits := None\<rparr>) sc)) \<and> waits x = Some o' \<longleftrightarrow> x \<in> set (stacks sc) \<and> waits x = Some o' \<and> x \<noteq> s" for x o'
    using put_stack_set[OF s(1)] s(2) by (cases "x = s"; cases "x = s\<lparr>waits := None\<rparr>") auto
  then have "pairs (put_stack s (s\<lparr>waits := None\<rparr>) sc) = {(o', hd (coros x)) | o' x. x \<in> set (stacks sc) \<and> waits x = Some o' \<and> x \<noteq> s}" unfolding pairs_def by simp
  also have "\<dots> = pairs sc - {(op, hd (coros s))}" using one s(2) unfolding pairs_def by auto
  finally show ?thesis .
qed

lemma Task_rt:
  assumes r: "rt_rel entries w rt" and e: "world_event entries nodelay kinds (Task e) w = Some (a, w')"
  shows "\<exists>rt'. rt_step errno nodelay kinds (Task e) rt = Ret (a, rt') \<and> rt_rel entries w' rt'"
proof -
  note d = rt_relD[OF r]
  obtain b sc where n: "not_io e" "scope_event e (stacked w) = Some (b, sc)" and a: "a = Goes_on" "w' = w\<lparr>stacked := sc\<rparr>"
    using e by (auto split: if_splits)
  obtain ts where ts: "task_step e (coroutines rt) = Ret (b, ts)" "tasks_rel sc ts" using event_rel[OF d(1) n(2)] by blast
  have "rt_rel entries w' (rt\<lparr>coroutines := ts\<rparr>)" using ts(2) d pairs_kept[OF d(1) n] by (simp add: rt_rel_def a(2))
  then show ?thesis using ts(1) a(1) by simp
qed

lemma Co_await_rt:
  assumes r: "rt_rel entries w rt" and e: "world_event entries nodelay kinds (Co_await op h) w = Some (a, w')"
  shows "\<exists>rt'. rt_step errno nodelay kinds (Co_await op h) rt = Ret (a, rt') \<and> rt_rel entries w' rt'"
proof -
  note d = rt_relD[OF r]
  let ?k = "kinds op"
  have free: "\<not> list_ex (\<lambda>s. waits s = Some op) (stacks (stacked w))" and room: "length (prepared w) + length (sqes ?k op h) \<le> entries"
    using e by (auto split: if_splits)
  obtain ok sc where h: "scope_event (Hook h op) (stacked w) = Some (Hooked ok, sc)"
    and a: "a = (if ok then Suspends else Returns (op_result nodelay ?k (- ECANCELED)))"
      "w' = (if ok then w\<lparr>stacked := sc, prepared := prepared w @ sqes ?k op h\<rparr> else w\<lparr>stacked := sc\<rparr>)"
    using e free room by (auto split: option.splits prod.splits task_answer.splits if_splits)
  obtain ts where ts: "xcoro_hook h op (coroutines rt) = Ret (ok, ts)" "tasks_rel sc ts"
    using event_rel[OF d(1) h] unfolding step_answers by auto
  have none: "handler rt op = None" using handler_None[OF d(2)] free by (simp add: list_ex_iff)
  have left: "length (sqes ?k op h) \<le> sq_space_left rt" using room d(3,4) by (simp add: sq_space_left_def)
  note susp = op_suspend_room[OF left, of errno, unfolded ts(1) bind_outcome.simps prod.case Let_def]
  obtain s where s: "s \<in> set (stacks (stacked w))" "hd (coros s) = h" "waits s = None"
    and sc: "sc = (if ok then put_stack s (s\<lparr>waits := Some op\<rparr>) (stacked w) else stacked w)"
    using h unfolding scope_event.simps on_stack_iff[OF d(1)] by (auto simp: Let_def split: if_splits)
  show ?thesis
  proof (cases ok)
    case True
    let ?rt = "add_events 1 (prepare (sqes ?k op h) (set_handler op (Some h) (rt\<lparr>coroutines := ts\<rparr>)))"
    have "card (insert op (dom (handler rt))) = Suc (card (dom (handler rt)))" using finite_handlers[OF d(2)] none by (simp add: domIff)
    moreover have "pairs sc = insert (op, h) (pairs (stacked w))" using pairs_hook[OF s(1,3)] s(2) True sc by simp
    ultimately have "rt_rel entries w' ?rt"
      using ts(2) d graph_put[where f = "handler rt" and op = op, OF none, of h] True
      by (simp add: rt_rel_def a(2) add_events_def prepare_def set_handler_def)
    then show ?thesis using susp True a(1) by (simp add: co_await_def)
  next
    case False
    let ?rt = "set_handler op None (set_handler op (Some h) (rt\<lparr>coroutines := ts\<rparr>)\<lparr>result_slot := - ECANCELED\<rparr>)"
    have same: "handler ?rt = handler rt" using none by (auto simp: set_handler_def fun_eq_iff)
    have "rt_rel entries w' ?rt" using ts(2) d sc same False by (simp add: rt_rel_def a(2)) (simp add: set_handler_def)
    moreover have "release op ?rt = ?rt" using same none by (simp add: release_def)
    moreover have "result_slot ?rt = - ECANCELED" by (simp add: set_handler_def)
    ultimately show ?thesis using susp False a(1) same none by (simp add: co_await_def wrapper_resume_def op_resume_eq)
  qed
qed

lemma Complete_rt:
  assumes r: "rt_rel entries w rt" and e: "world_event entries nodelay kinds (Complete op res) w = Some (a, w')"
  shows "\<exists>rt'. rt_step errno nodelay kinds (Complete op res) rt = Ret (a, rt') \<and> rt_rel entries w' rt'"
proof -
  note d = rt_relD[OF r]
  obtain s b sc where find: "List.find (\<lambda>s. waits s = Some op) (stacks (stacked w)) = Some s"
    and u: "scope_event (Unhook (hd (coros s))) (stacked w) = Some (b, sc)"
    and a: "a = Returns (op_result nodelay (kinds op) res)" "w' = w\<lparr>stacked := sc\<rparr>"
    using e by (auto split: option.splits)
  have s: "s \<in> set (stacks (stacked w))" "waits s = Some op" using find by (auto simp: find_Some_iff)
  let ?h = "hd (coros s)"
  have hd: "handler rt op = Some ?h" using handler_iff[OF d(2)] s by blast
  obtain ts where ts: "xcoro_unhook ?h (coroutines rt) = Ret ts" "tasks_rel sc ts" using event_rel[OF d(1) u] unfolding step_answers by auto
  have st: "stack_of ?h (stacked w) = Some s" using stack_of_iff[OF d(1)] s(1) stack_okD(9)[OF tasks_relD(3)[OF d(1) s(1)]] by blast
  have sc: "sc = put_stack s (s\<lparr>waits := None\<rparr>) (stacked w)" using u st s(2) by (simp add: on_stack_def)
  let ?rt = "release op (rt\<lparr>result_slot := res, coroutines := ts\<rparr>)"
  have h': "handler ?rt = (handler rt)(op := None)" using hd by (simp add: release_def sub_events_def set_handler_def)
  have "card (dom (handler rt)) = Suc (card (dom (handler rt) - {op}))"
    using card_Suc_Diff1[OF finite_handlers[OF d(2)], of op] hd by (simp add: domI)
  then have "evs_count ?rt = of_nat (card (dom (handler ?rt)))"
    unfolding h' using d(5) hd by (simp add: release_def sub_events_def set_handler_def)
  moreover have "graph_of (handler ?rt) = pairs sc"
    unfolding h' graph_drop[where f = "handler rt", OF hd] d(2) sc using pairs_unhook[OF d(1) s] by simp
  ultimately have "rt_rel entries w' ?rt" using ts(2) d(3,4) hd by (simp add: rt_rel_def a(2)) (simp add: release_def sub_events_def set_handler_def)
  then show ?thesis using ts(1) hd a(1) by (simp add: wrapper_resume_def op_resume_eq)
qed

lemma Request_rt:
  assumes r: "rt_rel entries w rt" and e: "world_event entries nodelay kinds (Request t) w = Some (a, w')"
  shows "\<exists>rt'. rt_step errno nodelay kinds (Request t) rt = Ret (a, rt') \<and> rt_rel entries w' rt'"
proof -
  note d = rt_relD[OF r]
  obtain io sc where c: "scope_event (Cancel t) (stacked w) = Some (Cancels io, sc)" using e by (auto split: option.splits prod.splits task_answer.splits)
  obtain ts where ts: "request_cancel t (coroutines rt) = Ret (io, ts)" "tasks_rel sc ts" using event_rel[OF d(1) c] unfolding step_answers by auto
  have sc: "sc = (stacked w)\<lparr>flagged := (flagged (stacked w))(t := True)\<rparr>"
    and io: "io = (if flagged (stacked w) t then None else case stack_of t (stacked w) of None \<Rightarrow> None | Some s \<Rightarrow> waits s)"
    using c by (auto split: if_splits)
  have pairs: "pairs sc = pairs (stacked w)" by (simp add: sc pairs_def)
  show ?thesis
  proof (cases io)
    case None
    have "a = Requested (True, 0)" "w' = w\<lparr>stacked := sc\<rparr>" using e None unfolding world_event.simps c by simp_all
    moreover have "rt_rel entries (w\<lparr>stacked := sc\<rparr>) (rt\<lparr>coroutines := ts\<rparr>)" using ts(2) d pairs by (simp add: rt_rel_def)
    ultimately show ?thesis using ts(1) None by (simp add: task_cancel_def)
  next
    case (Some op)
    obtain s where s: "stack_of t (stacked w) = Some s" "waits s = Some op" using io Some by (auto split: if_splits option.splits)
    have a: "(a, w') = (if length (prepared w) < entries
        then (Requested (True, 0), w\<lparr>stacked := sc, prepared := prepared w @ [cancel_sqe (kinds op) (hd (coros s))]\<rparr>)
        else (Requested (False, EAGAIN), w\<lparr>stacked := sc\<rparr>))"
      using e Some s(1) unfolding world_event.simps c by simp
    have "s \<in> set (stacks (stacked w))" using stack_of_iff[OF d(1)] s(1) by blast
    then have hd: "handler rt op = Some (hd (coros s))" using handler_iff[OF d(2)] s(2) by blast
    have cancel: "op_cancel (kinds op) op (rt\<lparr>coroutines := ts\<rparr>) =
        (if length (prepared w) < entries then ((True, 0), prepare [cancel_sqe (kinds op) (hd (coros s))] (rt\<lparr>coroutines := ts\<rparr>))
         else ((False, EAGAIN), rt\<lparr>coroutines := ts\<rparr>))"
      using hd d(3,4) by (auto simp: op_cancel_def context_cancel_def sq_space_left_def cancel_sqe_def)
    show ?thesis
    proof (cases "length (prepared w) < entries")
      case True
      have "rt_rel entries w' (prepare [cancel_sqe (kinds op) (hd (coros s))] (rt\<lparr>coroutines := ts\<rparr>))"
        using ts(2) d pairs a True by (simp add: rt_rel_def prepare_def)
      then show ?thesis using ts(1) Some cancel a True by (simp add: task_cancel_def)
    next
      case False
      have "rt_rel entries w' (rt\<lparr>coroutines := ts\<rparr>)" using ts(2) d pairs a False by (simp add: rt_rel_def)
      then show ?thesis using ts(1) Some cancel a False by (simp add: task_cancel_def)
    qed
  qed
qed

lemma rt_event_rel:
  assumes r: "rt_rel entries w rt" and e: "world_event entries nodelay kinds e w = Some (a, w')"
  shows "\<exists>rt'. rt_step errno nodelay kinds e rt = Ret (a, rt') \<and> rt_rel entries w' rt'"
proof (cases e)
  case (Task te)
  show ?thesis using Task_rt[OF r] e unfolding Task by blast
next
  case (Co_await op h)
  show ?thesis using Co_await_rt[OF r] e unfolding Co_await by blast
next
  case (Complete op res)
  show ?thesis using Complete_rt[OF r] e unfolding Complete by blast
next
  case (Request t)
  show ?thesis using Request_rt[OF r] e unfolding Request by blast
next
  case Submit
  have "rt_rel entries (w\<lparr>prepared := []\<rparr>) (submit rt)" using r by (simp add: rt_rel_def submit_def)
  then show ?thesis using e unfolding Submit by simp
qed

lemma rt_run_rel:
  "rt_rel entries w rt \<Longrightarrow> world_run entries nodelay kinds es w = Some (as, w') \<Longrightarrow>
   \<exists>rt'. rt_run errno nodelay kinds es rt = Ret (as, rt') \<and> rt_rel entries w' rt'"
proof (induction es arbitrary: w rt as)
  case (Cons e es)
  from Cons.prems(2) obtain a w1 bs where e: "world_event entries nodelay kinds e w = Some (a, w1)" and es: "world_run entries nodelay kinds es w1 = Some (bs, w')" and as: "as = a # bs"
    by (auto split: option.splits)
  obtain rt1 where rt1: "rt_step errno nodelay kinds e rt = Ret (a, rt1)" "rt_rel entries w1 rt1" using rt_event_rel[OF Cons.prems(1) e] by blast
  from Cons.IH[OF rt1(2) es] show ?case using rt1(1) as by auto
qed simp

section \<open>The properties\<close>

definition new_world :: world where
  "new_world = \<lparr>stacked = no_scopes, prepared = []\<rparr>"

text \<open>C25. Operations and their count: in every run of awaits, completions, cancellations and task events in
  which the submission queue has room for each operation, the coroutines get the results of their own
  operations, an operation of a cancelled task ends at once with \<open>ECANCELED\<close>, a request to cancel a task
  puts the right request for the coroutine that waits into the queue, and \<open>evs_count\<close> is the number of
  operations still waited in.\<close>

theorem awaiters_counted:
  assumes "world_run entries nodelay kinds events new_world = Some (answers, w)"
  shows "\<exists>rt. rt_run errno nodelay kinds events (new_context entries) = Ret (answers, rt) \<and> sq rt = prepared w \<and>
    evs_count rt = of_nat (card {op. \<exists>s\<in>set (stacks (stacked w)). waits s = Some op})"
proof -
  have "rt_rel entries new_world (new_context entries)"
    using start_rel by (simp add: rt_rel_def new_world_def new_context_def pairs_def graph_of_def no_scopes_def)
  then obtain rt where run: "rt_run errno nodelay kinds events (new_context entries) = Ret (answers, rt)" and r: "rt_rel entries w rt"
    using rt_run_rel[OF _ assms] by blast
  have "dom (handler rt) = {op. \<exists>s\<in>set (stacks (stacked w)). waits s = Some op}"
    using handler_None[OF rt_relD(2)[OF r]] by (auto simp: dom_def)
  then show ?thesis using run rt_relD(3,5)[OF r] by auto
qed

definition example_io :: "rt_event list" where
  "example_io = [Task New, Task (Start 0), Task New, Task (Await 0 1), Co_await 5 1, Request 0, Submit, Complete 5 (-125), Co_await 6 1]"

lemma awaiters_counted_witness:
  "\<exists>rt. rt_run 0 0 (\<lambda>_. Io) example_io (new_context 8) =
    Ret ([Goes_on, Goes_on, Goes_on, Goes_on, Suspends, Requested (True, 0), Goes_on, Returns (0, 125), Returns (0, 125)], rt) \<and> evs_count rt = 0"
proof -
  obtain w where w: "world_run 8 0 (\<lambda>_. Io) example_io new_world =
      Some ([Goes_on, Goes_on, Goes_on, Goes_on, Suspends, Requested (True, 0), Goes_on, Returns (0, 125), Returns (0, 125)], w)"
    "{op. \<exists>s\<in>set (stacks (stacked w)). waits s = Some op} = {}"
    by (simp add: example_io_def new_world_def no_scopes_def on_stack_def stack_of_def put_stack_def sqes_def op_result_def ECANCELED_def)
  show ?thesis using awaiters_counted[OF w(1), of 0] w(2) by auto
qed

section \<open>What goes wrong without room\<close>

text \<open>An operation that is hooked and finds no room gives up its handle, so the \<open>Wrapper\<close> does not unhook
  it: every later operation of the chain ends as if it had been cancelled.\<close>

lemma full_queue_cancels_chain:
  "bind_outcome (co_await errno nodelay Io 5 0 (new_context 0\<lparr>coroutines := new_task no_tasks\<rparr>)) (\<lambda>(r, rt).
     bind_outcome (co_await errno nodelay Io 6 0 (rt\<lparr>sq_entries := 8\<rparr>)) (\<lambda>(r', rt). Ret (r, r'))) =
   Ret (Some (0, EAGAIN), Some (0, ECANCELED))"
  by (simp add: co_await_def op_suspend_def io_suspend_def hook_first_def new_context_def new_task_def no_tasks_def set_promise_def
      xcoro_hook_def with_promise_def with_chain_def new_chain_def set_chain_def set_state_def sq_space_left_def set_handler_def
      wrapper_resume_def op_resume_def io_resume_def release_def EAGAIN_def ECANCELED_def)

text \<open>The timer keeps its handle: it reports \<open>errno\<close> with the wrong sign, success when it is 0, and counts
  down what it never counted up.\<close>

lemma full_queue_timer_underflows:
  "bind_outcome (co_await 0 nodelay Timer 5 0 (new_context 0\<lparr>coroutines := new_task no_tasks\<rparr>)) (\<lambda>(r, rt). Ret (r, evs_count rt)) =
   Ret (Some (0, 0), -1)"
  by (simp add: co_await_def op_suspend_def timer_suspend_def hook_first_def new_context_def new_task_def no_tasks_def set_promise_def
      xcoro_hook_def with_promise_def with_chain_def new_chain_def set_chain_def set_state_def and_state_def sq_space_left_def set_handler_def
      wrapper_resume_def op_resume_def timer_resume_def release_def sub_events_def xcoro_unhook_def ETIME_def)

end
