(* ===== verification/Xnet_Loop.thy ===== *)
theory Xnet_Loop
  imports Xnet_Awaiters "HOL-Library.Multiset"
begin

text \<open>
  \<open>io_context::run_until_complete\<close> of include/xnet.hpp with the ring it submits to. What lies in the
  submission queue reaches the kernel only when it is submitted, and the kernel completes only what it
  has; which of it, in which order and with which results is a parameter. The coroutines are programs
  that await one operation after the other and choose each by the results before.
\<close>

section \<open>The loop\<close>

text \<open>A coroutine: it has returned, or awaits an operation and goes on with what the result tells it.\<close>

datatype script = Returned | Awaits nat "int io_result \<Rightarrow> script"

text \<open>The runtime, the submissions the kernel has and has not completed, and what each coroutine awaits.\<close>

record machine =
  context_of :: runtime
  kernel :: "sqe list"
  script_of :: "nat \<Rightarrow> script"

text \<open>The user data of a submission: a coroutine, or nothing.\<close>

fun data_of :: "sqe \<Rightarrow> nat option" where
  "data_of (Prep op h) = Some h"
| "data_of (Prep_linked op h) = Some h"
| "data_of e = None"

text \<open>\<open>submit\<close> and \<open>submit_and_wait\<close> hand the queue to the kernel.\<close>

definition submit_ring :: "machine \<Rightarrow> machine" where
  "submit_ring m = m\<lparr>kernel := kernel m @ sq (context_of m), context_of := submit (context_of m)\<rparr>"

text \<open>\<open>resume\<close> is what a resumed coroutine does until it is suspended again. A batch is what one
  \<open>io_uring_peek_batch_cqe\<close> returns, each completion with its user data and result.\<close>

fun complete_batch :: "(nat \<Rightarrow> machine \<Rightarrow> machine outcome) \<Rightarrow> nat \<Rightarrow> nat \<Rightarrow> (nat option \<times> int) list \<Rightarrow> machine \<Rightarrow> machine outcome" where
  "complete_batch resume num_batch i [] m = Ret m"
| "complete_batch resume num_batch i ((data, res) # cqes) m =
     bind_outcome (case data of None \<Rightarrow> Ret m | Some h \<Rightarrow> resume h (m\<lparr>context_of := (context_of m)\<lparr>result_slot := res\<rparr>\<rparr>)) (\<lambda>m.
       if num_batch = 0 then UB
       else complete_batch resume num_batch (i + 1) cqes (if (i + 1) mod num_batch = 0 then submit_ring m else m))"

text \<open>\<open>serve n pending\<close> are the completions of the nth wait and what the kernel still has then. The wait
  does not end when it has nothing.\<close>

fun context_loop :: "(nat \<Rightarrow> machine \<Rightarrow> machine outcome) \<Rightarrow> nat \<Rightarrow> (nat \<Rightarrow> sqe list \<Rightarrow> (nat option \<times> int) list \<times> sqe list) \<Rightarrow> nat \<Rightarrow> machine \<Rightarrow> machine outcome" where
  "context_loop resume num_batch serve 0 m = No_fuel"
| "context_loop resume num_batch serve (Suc n) m =
     (if kernel m = [] then Suspended
      else
        let (cqes, rest) = serve n (kernel m)
        in bind_outcome (complete_batch resume num_batch 0 cqes (m\<lparr>kernel := rest\<rparr>)) (\<lambda>m.
             if evs_count (context_of m) = 0 then Ret m
             else context_loop resume num_batch serve n (submit_ring m)))"

definition run_until_complete :: "(nat \<Rightarrow> machine \<Rightarrow> machine outcome) \<Rightarrow> (nat \<Rightarrow> sqe list \<Rightarrow> (nat option \<times> int) list \<times> sqe list) \<Rightarrow> nat \<Rightarrow> machine \<Rightarrow> machine outcome" where
  "run_until_complete resume serve fuel m =
     (if evs_count (context_of m) = 0 then Ret m
      else context_loop resume (min (sq_entries (context_of m) div 4) 256) serve fuel (submit_ring m))"

section \<open>The coroutines\<close>

text \<open>What a coroutine does with the processor: it awaits, and goes on when the result is there at once.\<close>

primrec run_on :: "int \<Rightarrow> int \<Rightarrow> (nat \<Rightarrow> kind) \<Rightarrow> nat \<Rightarrow> script \<Rightarrow> machine \<Rightarrow> machine outcome" where
  "run_on errno nodelay kinds h Returned m = Ret (m\<lparr>script_of := (script_of m)(h := Returned)\<rparr>)"
| "run_on errno nodelay kinds h (Awaits op f) m =
     bind_outcome (co_await errno nodelay (kinds op) op h (context_of m)) (\<lambda>(r, rt).
       case r of
         None \<Rightarrow> Ret (m\<lparr>context_of := rt, script_of := (script_of m)(h := Awaits op f)\<rparr>)
       | Some r \<Rightarrow> run_on errno nodelay kinds h (f r) (m\<lparr>context_of := rt\<rparr>))"

text \<open>\<open>handle.resume()\<close>: the operation it waited in gives its result.\<close>

definition resume_coroutine :: "int \<Rightarrow> int \<Rightarrow> (nat \<Rightarrow> kind) \<Rightarrow> nat \<Rightarrow> machine \<Rightarrow> machine outcome" where
  "resume_coroutine errno nodelay kinds h m =
     (case script_of m h of
        Returned \<Rightarrow> UB
      | Awaits op f \<Rightarrow> bind_outcome (wrapper_resume nodelay (kinds op) op (context_of m)) (\<lambda>(r, rt).
          run_on errno nodelay kinds h (f r) (m\<lparr>context_of := rt\<rparr>)))"

text \<open>The tasks made and started, one after the other, before the loop runs.\<close>

definition new_machine :: "nat \<Rightarrow> machine" where
  "new_machine entries = \<lparr>context_of = new_context entries, kernel = [], script_of = (\<lambda>_. Returned)\<rparr>"

definition start_task :: "int \<Rightarrow> int \<Rightarrow> (nat \<Rightarrow> kind) \<Rightarrow> script \<Rightarrow> machine \<Rightarrow> machine outcome" where
  "start_task errno nodelay kinds s m =
     run_on errno nodelay kinds (next_task (coroutines (context_of m))) s
       (m\<lparr>context_of := (context_of m)\<lparr>coroutines := new_task (coroutines (context_of m))\<rparr>\<rparr>)"

fun launch :: "int \<Rightarrow> int \<Rightarrow> (nat \<Rightarrow> kind) \<Rightarrow> script list \<Rightarrow> machine \<Rightarrow> machine outcome" where
  "launch errno nodelay kinds [] m = Ret m"
| "launch errno nodelay kinds (s # ss) m = bind_outcome (start_task errno nodelay kinds s m) (launch errno nodelay kinds ss)"

section \<open>What the kernel and the coroutines promise\<close>

definition handles :: "sqe list \<Rightarrow> nat list" where
  "handles es = List.map_filter data_of es"

text \<open>The kernel completes: while it has an operation of a coroutine a wait ends, with completions of
  what it has, each operation once. Entries without user data may complete with one of their own or,
  as the successes skipped by a flag, without.\<close>

definition completes :: "(nat \<Rightarrow> sqe list \<Rightarrow> (nat option \<times> int) list \<times> sqe list) \<Rightarrow> bool" where
  "completes serve \<longleftrightarrow> (\<forall>n pending. handles pending \<noteq> [] \<longrightarrow>
     (case serve n pending of (cqes, rest) \<Rightarrow>
        cqes \<noteq> [] \<and> length cqes + length rest \<le> length pending \<and>
        mset (List.map_filter fst cqes) + mset (handles rest) = mset (handles pending)))"

text \<open>The coroutine h awaits at most k operations, whatever their results are, and only its own.\<close>

primrec fits :: "(nat \<Rightarrow> nat) \<Rightarrow> nat \<Rightarrow> script \<Rightarrow> nat \<Rightarrow> bool" where
  "fits owner h Returned k \<longleftrightarrow> True"
| "fits owner h (Awaits op f) k \<longleftrightarrow> owner op = h \<and> 0 < k \<and> (\<forall>r. fits owner h (f r) (k - 1))"

section \<open>The coroutines as stacks\<close>

text \<open>N tasks, none cancelled, each a stack of its own that waits in the operation \<open>ops\<close> says.\<close>

definition waiting_world :: "nat \<Rightarrow> (nat \<Rightarrow> nat option) \<Rightarrow> sqe list \<Rightarrow> world" where
  "waiting_world N ops q = \<lparr>stacked = \<lparr>stacks = map (\<lambda>h. \<lparr>coros = [h], waits = ops h\<rparr>) (rev [0..<N]), fresh = (\<lambda>_. False),
     flagged = (\<lambda>_. False), refs = (\<lambda>t. if t < N then 1 else 0), made = N\<rparr>, prepared = q\<rparr>"

lemma find_member: "x \<in> set xs \<Longrightarrow> P x \<Longrightarrow> \<exists>y. List.find P xs = Some y \<and> y \<in> set xs \<and> P y"
  by (cases "List.find P xs") (auto simp: find_None_iff find_Some_iff)

lemma waiting_stack: "h < N \<Longrightarrow> stack_of h (stacked (waiting_world N ops q)) = Some \<lparr>coros = [h], waits = ops h\<rparr>"
proof -
  assume h: "h < N"
  let ?xs = "stacks (stacked (waiting_world N ops q))" and ?P = "\<lambda>s. h \<in> set (coros s)"
  have "\<lparr>coros = [h], waits = ops h\<rparr> \<in> set ?xs" using h by (auto simp: waiting_world_def)
  from find_member[of _ ?xs ?P, OF this] obtain s where s: "List.find ?P ?xs = Some s" "s \<in> set ?xs" "?P s" by auto
  then show ?thesis using s by (auto simp: stack_of_def waiting_world_def)
qed

lemma waiting_put:
  "put_stack \<lparr>coros = [h], waits = ops h\<rparr> (\<lparr>coros = [h], waits = ops h\<rparr>\<lparr>waits := x\<rparr>) (stacked (waiting_world N ops q)) =
   stacked (waiting_world N (ops(h := x)) q)"
  by (auto simp: put_stack_def waiting_world_def)

lemma waiting_await:
  assumes "h < N" and "ops h = None" and "\<forall>j<N. ops j \<noteq> Some op" and "length q + length (sqes (kinds op) op h) \<le> entries"
  shows "world_event entries nodelay kinds (Co_await op h) (waiting_world N ops q) =
    Some (Suspends, waiting_world N (ops(h := Some op)) (q @ sqes (kinds op) op h))"
proof -
  have "\<not> list_ex (\<lambda>s. waits s = Some op) (stacks (stacked (waiting_world N ops q)))" using assms(3) by (auto simp: waiting_world_def list_ex_iff)
  moreover have "scope_event (Hook h op) (stacked (waiting_world N ops q)) = Some (Hooked True, stacked (waiting_world N (ops(h := Some op)) q))"
    using waiting_stack[OF assms(1), of ops q] waiting_put[of h ops "Some op" N q] assms(2)
    by (simp add: on_stack_def) (simp add: waiting_world_def)
  ultimately show ?thesis using assms(4) by (simp add: waiting_world_def)
qed

lemma waiting_complete:
  assumes "h < N" and "ops h = Some op" and "\<forall>j<N. ops j = Some op \<longrightarrow> j = h"
  shows "world_event entries nodelay kinds (Complete op res) (waiting_world N ops q) =
    Some (Returns (op_result nodelay (kinds op) res), waiting_world N (ops(h := None)) q)"
proof -
  let ?xs = "stacks (stacked (waiting_world N ops q))" and ?P = "\<lambda>s. waits s = Some op"
  have "\<lparr>coros = [h], waits = Some op\<rparr> \<in> set ?xs" using assms(1,2) by (auto simp: waiting_world_def)
  from find_member[of _ ?xs ?P, OF this] obtain s where s: "List.find ?P ?xs = Some s" "s \<in> set ?xs" "?P s" by auto
  then have "s = \<lparr>coros = [h], waits = Some op\<rparr>" using assms(2,3) by (auto simp: waiting_world_def)
  moreover have "scope_event (Unhook h) (stacked (waiting_world N ops q)) = Some (Accepted, stacked (waiting_world N (ops(h := None)) q))"
    using waiting_stack[OF assms(1), of ops q] waiting_put[of h ops None N q] assms(2) by (simp add: on_stack_def)
  ultimately show ?thesis using s by (simp add: waiting_world_def)
qed

lemma waiting_start:
  "world_run entries nodelay kinds [Task New, Task (Start N)] (waiting_world N ops q) = Some ([Goes_on, Goes_on], waiting_world (Suc N) (ops(N := None)) q)"
  by (auto simp: waiting_world_def less_Suc_eq fun_eq_iff)

section \<open>What holds while the loop runs\<close>

fun wait_op :: "script \<Rightarrow> nat option" where
  "wait_op Returned = None"
| "wait_op (Awaits op f) = Some op"

lemma wait_op_None [simp]: "wait_op s = None \<longleftrightarrow> s = Returned"
  by (cases s) simp_all

fun sqes_of :: "(nat \<Rightarrow> kind) \<Rightarrow> nat \<Rightarrow> script \<Rightarrow> sqe list" where
  "sqes_of kinds h Returned = []"
| "sqes_of kinds h (Awaits op f) = sqes (kinds op) op h"

lemma sqes_of_facts: "length (sqes_of kinds h s) \<le> 2" "handles (sqes_of kinds h s) = (if s = Returned then [] else [h])"
  by (cases s; simp add: sqes_def handles_def List.map_filter_def)+

lemma handles_append [simp]: "handles (es @ es') = handles es @ handles es'"
  by (simp add: handles_def List.map_filter_def)

text \<open>h is suspended with at most k further operations.\<close>

fun rests :: "(nat \<Rightarrow> nat) \<Rightarrow> nat \<Rightarrow> script \<Rightarrow> nat \<Rightarrow> bool" where
  "rests owner h Returned k \<longleftrightarrow> True"
| "rests owner h (Awaits op f) k \<longleftrightarrow> owner op = h \<and> (\<forall>r. fits owner h (f r) k)"

lemma fits_rests: "fits owner h s k \<Longrightarrow> rests owner h s (k - 1)"
  by (cases s) simp_all

definition looping :: "nat \<Rightarrow> (nat \<Rightarrow> nat) \<Rightarrow> nat \<Rightarrow> (nat \<Rightarrow> nat) \<Rightarrow> machine \<Rightarrow> bool" where
  "looping entries owner N b m \<longleftrightarrow>
     rt_rel entries (waiting_world N (\<lambda>h. wait_op (script_of m h)) (sq (context_of m))) (context_of m) \<and>
     (\<forall>h<N. rests owner h (script_of m h) (b h)) \<and> (\<forall>h\<ge>N. script_of m h = Returned)"

lemma loopingD:
  assumes "looping entries owner N b m"
  shows "rt_rel entries (waiting_world N (\<lambda>h. wait_op (script_of m h)) (sq (context_of m))) (context_of m)"
    "h < N \<Longrightarrow> rests owner h (script_of m h) (b h)" "N \<le> h \<Longrightarrow> script_of m h = Returned"
  using assms by (simp_all add: looping_def)

definition outstanding :: "nat \<Rightarrow> machine \<Rightarrow> nat multiset" where
  "outstanding N m = mset_set {h. h < N \<and> script_of m h \<noteq> Returned}"

text \<open>What is still to come at most: completions of what is prepared or in the kernel, and of what the
  coroutines will still await.\<close>

definition ahead :: "nat \<Rightarrow> (nat \<Rightarrow> nat) \<Rightarrow> machine \<Rightarrow> nat" where
  "ahead N b m = length (kernel m) + length (sq (context_of m)) + 2 * sum b {..<N}"

lemma run_on_ok:
  assumes r: "rt_rel entries (waiting_world N ops (sq (context_of m))) (context_of m)" and h: "h < N" "ops h = None"
    and new: "\<forall>j<N. wait_op s \<noteq> None \<longrightarrow> ops j \<noteq> wait_op s" and room: "length (sq (context_of m)) + 2 \<le> entries"
  shows "\<exists>rt. run_on errno nodelay kinds h s m = Ret (m\<lparr>context_of := rt, script_of := (script_of m)(h := s)\<rparr>) \<and>
    rt_rel entries (waiting_world N (ops(h := wait_op s)) (sq rt)) rt \<and> sq rt = sq (context_of m) @ sqes_of kinds h s"
proof (cases s)
  case Returned
  then show ?thesis using r h(2) by (intro exI[of _ "context_of m"]) (simp add: fun_upd_idem)
next
  case (Awaits op f)
  let ?q = "sq (context_of m)"
  have "world_event entries nodelay kinds (Co_await op h) (waiting_world N ops ?q) =
      Some (Suspends, waiting_world N (ops(h := Some op)) (?q @ sqes (kinds op) op h))"
    using waiting_await[of h N ops op ?q kinds entries nodelay] h new room Awaits by (auto simp: sqes_def)
  from rt_event_rel[OF r this, of errno] obtain rt where rt: "rt_step errno nodelay kinds (Co_await op h) (context_of m) = Ret (Suspends, rt)"
    "rt_rel entries (waiting_world N (ops(h := Some op)) (?q @ sqes (kinds op) op h)) rt" by blast
  have "sq rt = ?q @ sqes (kinds op) op h" using rt_relD(3)[OF rt(2)] by (simp add: waiting_world_def)
  moreover have "co_await errno nodelay (kinds op) op h (context_of m) = Ret (None, rt)"
    using rt(1) by (cases "co_await errno nodelay (kinds op) op h (context_of m)") (auto split: prod.splits option.splits)
  ultimately show ?thesis using rt(2) Awaits by (intro exI[of _ rt]) simp
qed

lemma start_ok:
  assumes l: "looping entries owner N b m" and s: "fits owner N s k" and room: "length (sq (context_of m)) + 2 \<le> entries"
  shows "\<exists>m'. start_task errno nodelay kinds s m = Ret m' \<and> looping entries owner (Suc N) (b(N := k - 1)) m' \<and> kernel m' = kernel m \<and>
    sq (context_of m') = sq (context_of m) @ sqes_of kinds N s \<and> script_of m' = (script_of m)(N := s)"
proof -
  note d = loopingD[OF l]
  let ?ops = "(\<lambda>h. wait_op (script_of m h))(N := None)" and ?rt = "(context_of m)\<lparr>coroutines := new_task (coroutines (context_of m))\<rparr>"
  from rt_run_rel[OF d(1) waiting_start, of errno 0 "\<lambda>_. Io"] have
    r: "rt_rel entries (waiting_world (Suc N) ?ops (sq (context_of m))) ?rt" by auto
  have n: "next_task (coroutines (context_of m)) = N"
    using tasks_relD(1)[OF rt_relD(1)[OF d(1)]] by (simp add: alive_ok_def waiting_world_def)
  have new: "\<forall>j<Suc N. wait_op s \<noteq> None \<longrightarrow> ?ops j \<noteq> wait_op s"
  proof (intro allI impI)
    fix j assume j: "j < Suc N" "wait_op s \<noteq> None"
    then obtain op f where "s = Awaits op f" by (cases s) auto
    then show "?ops j \<noteq> wait_op s" using s d(2)[of j] j(1) by (cases "script_of m j") auto
  qed
  from run_on_ok[of entries "Suc N" ?ops "m\<lparr>context_of := ?rt\<rparr>" N s errno nodelay kinds] r new room obtain rt where
    rt: "run_on errno nodelay kinds N s (m\<lparr>context_of := ?rt\<rparr>) = Ret (m\<lparr>context_of := rt, script_of := (script_of m)(N := s)\<rparr>)"
      "rt_rel entries (waiting_world (Suc N) (?ops(N := wait_op s)) (sq rt)) rt" "sq rt = sq (context_of m) @ sqes_of kinds N s" by auto
  have ops: "?ops(N := wait_op s) = (\<lambda>h. wait_op (((script_of m)(N := s)) h))" by auto
  have "looping entries owner (Suc N) (b(N := k - 1)) (m\<lparr>context_of := rt, script_of := (script_of m)(N := s)\<rparr>)"
    using rt(2) d(2,3) fits_rests[OF s] unfolding ops by (auto simp: looping_def less_Suc_eq)
  then show ?thesis using rt(1,3) by (simp add: start_task_def n)
qed

lemma resume_ok:
  assumes l: "looping entries owner N b m" and h: "h < N" "script_of m h \<noteq> Returned" and room: "length (sq (context_of m)) + 2 \<le> entries"
  shows "\<exists>m' b' s. resume_coroutine errno nodelay kinds h (m\<lparr>context_of := (context_of m)\<lparr>result_slot := res\<rparr>\<rparr>) = Ret m' \<and>
    looping entries owner N b' m' \<and> kernel m' = kernel m \<and> script_of m' = (script_of m)(h := s) \<and>
    sq (context_of m') = sq (context_of m) @ sqes_of kinds h s \<and> length (sqes_of kinds h s) + 2 * sum b' {..<N} \<le> 2 * sum b {..<N}"
proof -
  note d = loopingD[OF l]
  obtain op f where sc: "script_of m h = Awaits op f" using h(2) by (cases "script_of m h") auto
  then have own: "owner op = h" and f: "\<And>r. fits owner h (f r) (b h)" using d(2)[OF h(1)] unfolding sc rests.simps by blast+
  let ?ops = "\<lambda>h. wait_op (script_of m h)" and ?q = "sq (context_of m)" and ?rt = "(context_of m)\<lparr>result_slot := res\<rparr>"
  have other: "wait_op (script_of m j) \<noteq> Some op'" if "j < N" "j \<noteq> h" "owner op' = h" for j op'
    using d(2)[OF that(1)] that by (cases "script_of m j") auto
  have "world_event entries nodelay kinds (Complete op res) (waiting_world N ?ops ?q) =
      Some (Returns (op_result nodelay (kinds op) res), waiting_world N (?ops(h := None)) ?q)"
    using other own sc by (intro waiting_complete[OF h(1)]) auto
  from rt_event_rel[OF d(1) this, of errno] obtain rt where rt: "rt_step errno nodelay kinds (Complete op res) (context_of m) = Ret (Returns (op_result nodelay (kinds op) res), rt)"
    "rt_rel entries (waiting_world N (?ops(h := None)) ?q) rt" by blast
  have w: "wrapper_resume nodelay (kinds op) op ?rt = Ret (op_result nodelay (kinds op) res, rt)"
    using rt(1) by (cases "wrapper_resume nodelay (kinds op) op ?rt") (auto split: prod.splits)
  have q: "sq rt = ?q" using rt_relD(3)[OF rt(2)] by (simp add: waiting_world_def)
  let ?s = "f (op_result nodelay (kinds op) res)"
  have s: "fits owner h ?s (b h)" by (rule f)
  have new: "\<forall>j<N. wait_op ?s \<noteq> None \<longrightarrow> (?ops(h := None)) j \<noteq> wait_op ?s"
    using other s by (cases ?s) auto
  from run_on_ok[of entries N "?ops(h := None)" "m\<lparr>context_of := rt\<rparr>" h ?s errno nodelay kinds] rt(2) h(1) new room q obtain rt' where
    rt': "run_on errno nodelay kinds h ?s (m\<lparr>context_of := rt\<rparr>) = Ret (m\<lparr>context_of := rt', script_of := (script_of m)(h := ?s)\<rparr>)"
      "rt_rel entries (waiting_world N ((?ops(h := None))(h := wait_op ?s)) (sq rt')) rt'" "sq rt' = ?q @ sqes_of kinds h ?s" by auto
  let ?m = "m\<lparr>context_of := rt', script_of := (script_of m)(h := ?s)\<rparr>" and ?b = "b(h := b h - 1)"
  have ops: "(?ops(h := None))(h := wait_op ?s) = (\<lambda>j. wait_op (((script_of m)(h := ?s)) j))" by auto
  have "looping entries owner N ?b ?m"
    using rt'(2) d(2,3) fits_rests[OF s] h(1) unfolding ops by (auto simp: looping_def)
  moreover have "length (sqes_of kinds h ?s) + 2 * sum ?b {..<N} \<le> 2 * sum b {..<N}"
  proof -
    have "sum b {..<N} = b h + sum b ({..<N} - {h})" "sum ?b {..<N} = ?b h + sum ?b ({..<N} - {h})"
      using h(1) by (simp_all add: sum.remove)
    moreover have "sum ?b ({..<N} - {h}) = sum b ({..<N} - {h})" by (rule sum.cong) auto
    moreover have "length (sqes_of kinds h ?s) \<le> 2 * (b h - ?b h)" "b h - 1 \<le> b h" using sqes_of_facts(1)[of kinds h ?s] s by (cases ?s; simp)+
    ultimately show ?thesis by simp
  qed
  moreover have "resume_coroutine errno nodelay kinds h (m\<lparr>context_of := ?rt\<rparr>) = Ret ?m" using w rt'(1) sc by (simp add: resume_coroutine_def)
  ultimately show ?thesis using rt'(3) by (intro exI[of _ ?m] exI[of _ ?b] exI[of _ ?s]) simp
qed

text \<open>A resumed coroutine that awaits again has put one operation of its own into the queue.\<close>

lemma outstanding_resume:
  assumes "h < N" and "script_of m h \<noteq> Returned" and "script_of m' = (script_of m)(h := s)"
    and "sq (context_of m') = sq (context_of m) @ sqes_of kinds h s"
  shows "mset (handles (sq (context_of m'))) + outstanding N m = mset (handles (sq (context_of m))) + {#h#} + outstanding N m'"
proof -
  have "{j. j < N \<and> script_of m j \<noteq> Returned} = insert h {j. j < N \<and> j \<noteq> h \<and> script_of m j \<noteq> Returned}"
    "{j. j < N \<and> script_of m' j \<noteq> Returned} = (if s = Returned then {} else {h}) \<union> {j. j < N \<and> j \<noteq> h \<and> script_of m j \<noteq> Returned}"
    using assms(1-3) by auto
  then show ?thesis by (simp add: outstanding_def assms(4) sqes_of_facts(2))
qed

lemma submit_ok:
  assumes "looping entries owner N b m"
  shows "looping entries owner N b (submit_ring m)"
proof -
  have "rt_step 0 0 (\<lambda>_. Io) Submit rt = Ret (Goes_on, submit rt)" for rt by simp
  from rt_event_rel[OF loopingD(1)[OF assms], of 0 "\<lambda>_. Io" Submit _ _ 0] have
    "rt_rel entries (waiting_world N (\<lambda>h. wait_op (script_of m h)) []) (submit (context_of m))" by (simp add: waiting_world_def)
  then show ?thesis using loopingD(2,3)[OF assms] by (simp add: looping_def submit_ring_def submit_def)
qed

lemma submit_facts [simp]:
  "sq (context_of (submit_ring m)) = []" "kernel (submit_ring m) = kernel m @ sq (context_of m)"
  "ahead N b (submit_ring m) = ahead N b m" "outstanding N (submit_ring m) = outstanding N m" "script_of (submit_ring m) = script_of m"
  "evs_count (context_of (submit_ring m)) = evs_count (context_of m)" "sq_entries (context_of (submit_ring m)) = sq_entries (context_of m)"
  by (simp_all add: submit_ring_def submit_def ahead_def outstanding_def)

lemma batch_ok:
  assumes "0 < num_batch" and "2 * num_batch \<le> entries"
  shows "looping entries owner N b m \<Longrightarrow> length (sq (context_of m)) \<le> 2 * (i mod num_batch) \<Longrightarrow>
    mset (List.map_filter fst cqes) + mset (handles (kernel m)) + mset (handles (sq (context_of m))) = outstanding N m \<Longrightarrow>
    \<exists>m' b'. complete_batch (resume_coroutine errno nodelay kinds) num_batch i cqes m = Ret m' \<and> looping entries owner N b' m' \<and>
      mset (handles (kernel m')) + mset (handles (sq (context_of m'))) = outstanding N m' \<and> ahead N b' m' \<le> ahead N b m"
proof (induction cqes arbitrary: i m b)
  case Nil
  then show ?case by (auto simp: List.map_filter_def)
next
  case (Cons c cqes)
  obtain data res where c: "c = (data, res)" by force
  have "\<exists>m1 b1. (case data of None \<Rightarrow> Ret m | Some h \<Rightarrow> resume_coroutine errno nodelay kinds h (m\<lparr>context_of := (context_of m)\<lparr>result_slot := res\<rparr>\<rparr>)) = Ret m1 \<and>
      looping entries owner N b1 m1 \<and> length (sq (context_of m1)) \<le> 2 * (i mod num_batch) + 2 \<and> ahead N b1 m1 \<le> ahead N b m \<and>
      mset (List.map_filter fst cqes) + mset (handles (kernel m1)) + mset (handles (sq (context_of m1))) = outstanding N m1"
  proof (cases data)
    case None
    then show ?thesis using Cons.prems c by (intro exI[of _ m] exI[of _ b]) (simp add: List.map_filter_def)
  next
    case (Some h)
    then have total: "outstanding N m = {#h#} + mset (List.map_filter fst cqes) + mset (handles (kernel m)) + mset (handles (sq (context_of m)))"
      using Cons.prems(3) c by (simp add: List.map_filter_def)
    then have "h \<in># outstanding N m" by simp
    then have h: "h < N" "script_of m h \<noteq> Returned" by (simp_all add: outstanding_def)
    have "i mod num_batch < num_batch" using assms(1) by simp
    then have "length (sq (context_of m)) + 2 \<le> entries" using Cons.prems(2) assms(2) by linarith
    from resume_ok[OF Cons.prems(1) h this, of errno nodelay kinds res] obtain m1 b1 s where
      m1: "resume_coroutine errno nodelay kinds h (m\<lparr>context_of := (context_of m)\<lparr>result_slot := res\<rparr>\<rparr>) = Ret m1" "looping entries owner N b1 m1"
        "kernel m1 = kernel m" "script_of m1 = (script_of m)(h := s)" "sq (context_of m1) = sq (context_of m) @ sqes_of kinds h s"
        "length (sqes_of kinds h s) + 2 * sum b1 {..<N} \<le> 2 * sum b {..<N}" by blast
    have "length (sq (context_of m1)) \<le> 2 * (i mod num_batch) + 2" using m1(5) Cons.prems(2) sqes_of_facts(1)[of kinds h s] by simp
    moreover have "ahead N b1 m1 \<le> ahead N b m" using m1(3,5,6) by (simp add: ahead_def)
    moreover have "mset (List.map_filter fst cqes) + mset (handles (kernel m1)) + mset (handles (sq (context_of m1))) = outstanding N m1"
      using outstanding_resume[OF h m1(4,5)] total by (simp add: m1(3) ac_simps)
    ultimately show ?thesis using m1(1,2) Some by auto
  qed
  then obtain m1 b1 where m1: "(case data of None \<Rightarrow> Ret m | Some h \<Rightarrow> resume_coroutine errno nodelay kinds h (m\<lparr>context_of := (context_of m)\<lparr>result_slot := res\<rparr>\<rparr>)) = Ret m1"
      "looping entries owner N b1 m1" "length (sq (context_of m1)) \<le> 2 * (i mod num_batch) + 2" "ahead N b1 m1 \<le> ahead N b m"
      "mset (List.map_filter fst cqes) + mset (handles (kernel m1)) + mset (handles (sq (context_of m1))) = outstanding N m1" by blast
  let ?m = "if (i + 1) mod num_batch = 0 then submit_ring m1 else m1"
  have "length (sq (context_of ?m)) \<le> 2 * ((i + 1) mod num_batch)" using m1(3) by (simp add: mod_Suc split: if_splits)
  moreover have "looping entries owner N b1 ?m" using m1(2) submit_ok[OF m1(2)] by simp
  moreover have "mset (List.map_filter fst cqes) + mset (handles (kernel ?m)) + mset (handles (sq (context_of ?m))) = outstanding N ?m"
    using m1(5) by (simp add: handles_def List.map_filter_def add.assoc)
  ultimately obtain m' b' where "complete_batch (resume_coroutine errno nodelay kinds) num_batch (i + 1) cqes ?m = Ret m'" "looping entries owner N b' m'"
    "mset (handles (kernel m')) + mset (handles (sq (context_of m'))) = outstanding N m'" "ahead N b' m' \<le> ahead N b1 ?m"
    using Cons.IH by blast
  moreover have "ahead N b1 ?m = ahead N b1 m1" by simp
  ultimately show ?case unfolding c complete_batch.simps m1(1) bind_outcome.simps using m1(4) assms(1)
    by (intro exI[of _ m'] exI[of _ b']) simp
qed

text \<open>\<open>evs_count\<close> is 0 when every coroutine has returned, and only then.\<close>

lemma all_returned:
  assumes l: "looping entries owner N b m" and N: "N < 2 ^ 64"
  shows "evs_count (context_of m) = 0 \<longleftrightarrow> outstanding N m = {#}"
proof -
  note d = loopingD[OF l]
  let ?S = "{h. h < N \<and> script_of m h \<noteq> Returned}" and ?D = "dom (handler (context_of m))"
  have dom: "?D = (\<lambda>h. the (wait_op (script_of m h))) ` ?S"
    using handler_None[OF rt_relD(2)[OF d(1)]] by (force simp: dom_def waiting_world_def)
  have "card ?S \<le> card {..<N}" by (rule card_mono) auto
  then have "card ?D < 2 ^ 64" using card_image_le[of ?S "\<lambda>h. the (wait_op (script_of m h))"] N unfolding dom by simp
  then have "unat (of_nat (card ?D) :: u64) = card ?D" by (simp add: unat_of_nat take_bit_nat_eq_self)
  then have "evs_count (context_of m) = 0 \<longleftrightarrow> card ?D = 0" using unat_0_iff[of "evs_count (context_of m)"] unfolding rt_relD(5)[OF d(1)] by simp
  also have "\<dots> \<longleftrightarrow> ?S = {}" unfolding dom by (simp add: card_eq_0_iff)
  also have "\<dots> \<longleftrightarrow> outstanding N m = {#}" by (simp add: outstanding_def mset_set_empty_iff)
  finally show ?thesis .
qed

lemma outstanding_empty: "looping entries owner N b m \<Longrightarrow> outstanding N m = {#} \<Longrightarrow> script_of m h = Returned"
  using loopingD(3)[of entries owner N b m h] by (cases "h < N") (auto simp: outstanding_def mset_set_empty_iff)

lemma loop_ok:
  assumes nb: "0 < num_batch" "2 * num_batch \<le> entries" and N: "N < 2 ^ 64" and serve: "completes serve"
  shows "looping entries owner N b m \<Longrightarrow> sq (context_of m) = [] \<Longrightarrow> mset (handles (kernel m)) = outstanding N m \<Longrightarrow>
    outstanding N m \<noteq> {#} \<Longrightarrow> ahead N b m \<le> fuel \<Longrightarrow>
    \<exists>m'. context_loop (resume_coroutine errno nodelay kinds) num_batch serve fuel m = Ret m' \<and> evs_count (context_of m') = 0 \<and> (\<forall>h. script_of m' h = Returned)"
proof (induction fuel arbitrary: m b)
  case 0
  then show ?case by (simp add: ahead_def handles_def List.map_filter_def)
next
  case (Suc n)
  have pending: "handles (kernel m) \<noteq> []" using Suc.prems(3,4) by auto
  then have "kernel m \<noteq> []" by (auto simp: handles_def List.map_filter_def)
  obtain cqes rest where sv: "serve n (kernel m) = (cqes, rest)" by force
  have law: "cqes \<noteq> []" "length cqes + length rest \<le> length (kernel m)" "mset (List.map_filter fst cqes) + mset (handles rest) = mset (handles (kernel m))"
    using serve[unfolded completes_def, rule_format, OF pending, of n] sv by simp_all
  let ?m = "m\<lparr>kernel := rest\<rparr>"
  have "looping entries owner N b ?m" using Suc.prems(1) by (simp add: looping_def)
  moreover have "mset (List.map_filter fst cqes) + mset (handles (kernel ?m)) + mset (handles (sq (context_of ?m))) = outstanding N ?m"
    using law(3) Suc.prems(2,3) by (simp add: outstanding_def handles_def List.map_filter_def)
  ultimately obtain m1 b1 where m1: "complete_batch (resume_coroutine errno nodelay kinds) num_batch 0 cqes ?m = Ret m1" "looping entries owner N b1 m1"
    "mset (handles (kernel m1)) + mset (handles (sq (context_of m1))) = outstanding N m1" "ahead N b1 m1 \<le> ahead N b ?m"
    using batch_ok[OF nb, of owner N b ?m 0 cqes errno nodelay kinds] Suc.prems(2) by auto
  have less: "ahead N b1 m1 \<le> n"
  proof -
    have "ahead N b ?m + length (kernel m) = ahead N b m + length rest" by (simp add: ahead_def)
    moreover have "0 < length cqes" using law(1) by simp
    ultimately show ?thesis using m1(4) law(2) Suc.prems(5) by linarith
  qed
  show ?case
  proof (cases "evs_count (context_of m1) = 0")
    case True
    then have "\<forall>h. script_of m1 h = Returned" using outstanding_empty[OF m1(2)] all_returned[OF m1(2) N] by blast
    then show ?thesis using True m1(1) \<open>kernel m \<noteq> []\<close> sv by simp
  next
    case False
    then have "outstanding N (submit_ring m1) \<noteq> {#}" using all_returned[OF m1(2) N] by simp
    from Suc.IH[OF submit_ok[OF m1(2)] _ _ this] m1(3) less show ?thesis using False m1(1) \<open>kernel m \<noteq> []\<close> sv by simp
  qed
qed

lemma start_outstanding:
  assumes "script_of m N = Returned" and "script_of m' = (script_of m)(N := s)" and "sq (context_of m') = sq (context_of m) @ sqes_of kinds N s"
    and "mset (handles (sq (context_of m))) = outstanding N m"
  shows "mset (handles (sq (context_of m'))) = outstanding (Suc N) m'"
proof -
  have "{h. h < Suc N \<and> script_of m' h \<noteq> Returned} = (if s = Returned then {} else {N}) \<union> {h. h < N \<and> script_of m h \<noteq> Returned}"
    using assms(1,2) by (auto simp: less_Suc_eq)
  then show ?thesis using assms(4) by (simp add: outstanding_def assms(3) sqes_of_facts(2))
qed

lemma launch_ok:
  "looping entries owner N b m \<Longrightarrow> kernel m = [] \<Longrightarrow> mset (handles (sq (context_of m))) = outstanding N m \<Longrightarrow>
   length (sq (context_of m)) + 2 * length ss \<le> entries \<Longrightarrow> \<forall>i<length ss. fits owner (N + i) (ss ! i) k \<Longrightarrow>
   \<exists>m' b'. launch errno nodelay kinds ss m = Ret m' \<and> looping entries owner (N + length ss) b' m' \<and>
     mset (handles (sq (context_of m'))) = outstanding (N + length ss) m' \<and> kernel m' = [] \<and>
     ahead (N + length ss) b' m' \<le> ahead N b m + 2 * k * length ss"
proof (induction ss arbitrary: N b m)
  case (Cons s ss)
  have s: "fits owner N s k" and ss: "\<forall>i<length ss. fits owner (Suc N + i) (ss ! i) k" using Cons.prems(5) by auto
  have "length (sq (context_of m)) + 2 \<le> entries" using Cons.prems(4) by simp
  from start_ok[OF Cons.prems(1) s this, of errno nodelay kinds] obtain m1 where
    m1: "start_task errno nodelay kinds s m = Ret m1" "looping entries owner (Suc N) (b(N := k - 1)) m1" "kernel m1 = []"
      "sq (context_of m1) = sq (context_of m) @ sqes_of kinds N s" "script_of m1 = (script_of m)(N := s)" using Cons.prems(2) by auto
  have h: "mset (handles (sq (context_of m1))) = outstanding (Suc N) m1"
    using start_outstanding[OF loopingD(3)[OF Cons.prems(1) order_refl] m1(5,4) Cons.prems(3)] .
  have "length (sq (context_of m1)) + 2 * length ss \<le> entries" using Cons.prems(4) sqes_of_facts(1)[of kinds N s] by (simp add: m1(4))
  have more: "N + length (s # ss) = Suc N + length ss" by simp
  from Cons.IH[OF m1(2,3) h \<open>length (sq (context_of m1)) + 2 * length ss \<le> entries\<close> ss] obtain m' b' where
    m': "launch errno nodelay kinds ss m1 = Ret m'" "looping entries owner (N + length (s # ss)) b' m'"
      "mset (handles (sq (context_of m'))) = outstanding (N + length (s # ss)) m'" "kernel m' = []"
      "ahead (N + length (s # ss)) b' m' \<le> ahead (Suc N) (b(N := k - 1)) m1 + 2 * k * length ss" unfolding more by blast
  have "sum (b(N := k - 1)) {..<Suc N} = sum b {..<N} + (k - 1)" by simp
  moreover have "length (sqes_of kinds N s) + 2 * (k - 1) \<le> 2 * k" using s sqes_of_facts(1)[of kinds N s] by (cases s) auto
  ultimately have "ahead (Suc N) (b(N := k - 1)) m1 \<le> ahead N b m + 2 * k" by (simp add: ahead_def m1(3,4) Cons.prems(2))
  then have "ahead (N + length (s # ss)) b' m' \<le> ahead N b m + 2 * k * length (s # ss)" using m'(5) by simp
  then show ?case using m' m1(1) by auto
qed auto

section \<open>The properties\<close>

text \<open>C26. The loop ends: coroutines are started on a fresh context whose ring has at least four entries (their
  number is 32 bits wide) and two for each of them, and each awaits at most k operations of its own, of any kinds and chosen by the
  results before, and is not cancelled. If the kernel, while it has an operation of a coroutine, ends a wait with some
  of the completions it owes, \<open>run_until_complete\<close> returns after at most \<open>2 * k\<close> waits for each coroutine, with
  every coroutine run to its end and no operation counted. What is never submitted is never completed:
  it is the loop's own submissions, between the completions and before each wait, that make it end.\<close>

theorem run_until_complete_ends:
  assumes "completes serve" and "4 \<le> entries" and "2 * length scripts \<le> entries" and "entries < 2 ^ 32"
    and "\<forall>h<length scripts. fits owner h (scripts ! h) k" and "2 * k * length scripts \<le> fuel"
  shows "\<exists>m m'. launch errno nodelay kinds scripts (new_machine entries) = Ret m \<and>
    run_until_complete (resume_coroutine errno nodelay kinds) serve fuel m = Ret m' \<and>
    evs_count (context_of m') = 0 \<and> (\<forall>h. script_of m' h = Returned)"
proof -
  have "rt_rel entries (waiting_world 0 (\<lambda>_. None) []) (new_context entries)"
    using start_rel by (simp add: rt_rel_def waiting_world_def new_context_def pairs_def graph_of_def no_scopes_def)
  then have "looping entries owner 0 (\<lambda>_. 0) (new_machine entries)" by (simp add: looping_def new_machine_def new_context_def)
  from launch_ok[OF this, of scripts k errno nodelay kinds] assms(3,5) obtain m b where
    m: "launch errno nodelay kinds scripts (new_machine entries) = Ret m" "looping entries owner (length scripts) b m"
      "mset (handles (sq (context_of m))) = outstanding (length scripts) m" "kernel m = []" "ahead (length scripts) b m \<le> fuel"
    using assms(6) by (auto simp: new_machine_def new_context_def outstanding_def handles_def List.map_filter_def ahead_def)
  have N: "length scripts < 2 ^ 64" using assms(3,4) by simp
  show ?thesis
  proof (cases "evs_count (context_of m) = 0")
    case True
    then have "\<forall>h. script_of m h = Returned" using outstanding_empty[OF m(2)] all_returned[OF m(2) N] by blast
    then show ?thesis using True m(1) by (simp add: run_until_complete_def)
  next
    case False
    then have some: "outstanding (length scripts) (submit_ring m) \<noteq> {#}" using all_returned[OF m(2) N] by simp
    have sq: "sq_entries (context_of m) = entries" using rt_relD(4)[OF loopingD(1)[OF m(2)]] .
    have nb: "0 < min (entries div 4) 256" "2 * min (entries div 4) 256 \<le> entries" using assms(2) by (simp add: div_greater_zero_iff, linarith)
    from loop_ok[OF nb N assms(1) submit_ok[OF m(2)] _ _ some] m(3-5)
    show ?thesis using False m(1) by (simp add: run_until_complete_def sq)
  qed
qed

text \<open>Two coroutines, one of which awaits a second operation when the first succeeds, on a kernel that
  completes one entry at a time.\<close>

definition demo_scripts :: "script list" where
  "demo_scripts = [Awaits 0 (\<lambda>r. if snd r = 0 then Awaits 1 (\<lambda>_. Returned) else Returned), Awaits 5 (\<lambda>_. Returned)]"

definition one_by_one :: "nat \<Rightarrow> sqe list \<Rightarrow> (nat option \<times> int) list \<times> sqe list" where
  "one_by_one n pending = (if pending = [] then ([], []) else ([(data_of (hd pending), 1)], tl pending))"

definition demo_kinds :: "nat \<Rightarrow> kind" where
  "demo_kinds op = (if op = 0 then Io_timeout else Io)"

lemma one_by_one_completes: "completes one_by_one"
proof -
  have "mset (List.map_filter fst [(data_of e, 1::int)]) + mset (handles es) = mset (handles (e # es))" for e es
    by (cases "data_of e") (simp_all add: handles_def List.map_filter_def)
  then show ?thesis by (auto simp: completes_def one_by_one_def handles_def List.map_filter_def neq_Nil_conv split: list.splits)
qed

lemma run_until_complete_ends_witness:
  "\<exists>m m'. launch 0 0 demo_kinds demo_scripts (new_machine 4) = Ret m \<and>
    run_until_complete (resume_coroutine 0 0 demo_kinds) one_by_one 8 m = Ret m' \<and>
    evs_count (context_of m') = 0 \<and> (\<forall>h. script_of m' h = Returned)"
  by (rule run_until_complete_ends[OF one_by_one_completes, where owner = "\<lambda>op. if op < 5 then 0 else 1" and k = 2])
    (simp_all add: demo_scripts_def less_Suc_eq)

text \<open>A ring of fewer than four entries has batches of length 0, by which the loop divides.\<close>

lemma small_ring_divides:
  assumes "sq_entries (context_of m) < 4" and "evs_count (context_of m) \<noteq> 0" and "kernel m @ sq (context_of m) \<noteq> []"
    and "serve n (kernel m @ sq (context_of m)) = ((None, res) # cqes, rest)"
  shows "run_until_complete resume serve (Suc n) m = UB"
  using assms by (simp add: run_until_complete_def)

end
