(* ===== verification/Spec2Isabelle.thy ===== *)
theory Spec2Isabelle
  imports Value_Heap Value_Json Commands_Spec Key_Slot Shared_Ring Shared_Table Client_Calls Cluster_Calls Cluster_Map Client_Subscriber Pipe_Close Xnet_Join Xnet_Loop
begin

text \<open>
  \<^bold>\<open>xredis-client: a model of the client and its properties.\<close>

  The program is a C++20 coroutine client for Redis. A command method of \<open>RedisClient\<close> or
  \<open>RedisCluster\<close> writes the words of its command as RESP bytes (\<open>build_commands\<close>). An awaiter
  (RedisCommander.hpp) pushes the bytes with the handle of the waiting coroutine into the ring of
  a pipe (mpsc\_ring.hpp) and signals the pipe's eventfd. The pipe runs three coroutines: the
  worker connects and reconnects (RedisConnection.cpp), the writer sends what is in the ring, the
  reader parses replies (RedisParser.cpp) into values (RedisValue.h), pops the ring and resumes the
  handle with the value. \<open>RedisCluster\<close> has a pipe for every shard, a map of the 16384 slots, and
  moves a request to another pipe when a server redirects it. \<open>RedisSubscriber\<close> sends its commands
  itself.

  \<^bold>\<open>Theories, in the order of the layers.\<close>

  \<^item> \<open>Xredis_Prelude\<close>: byte strings, errno values, outcomes (\<open>Ret\<close>, \<open>Suspended\<close>, \<open>Terminate\<close>,
    \<open>UB\<close>, \<open>No_fuel\<close>), searching. \<open>Charconv\<close>, \<open>Charconv_Double\<close>: \<open>std::to_chars\<close> and
    \<open>std::from_chars\<close> for integers, and the parts of the conversion of doubles the client uses.
  \<^item> \<open>Redis_Value\<close>: RedisValue.h and RedisValue.cpp, the union of reply values, \<open>escape_string\<close> and
    \<open>dump\<close>. \<open>Value_Json\<close>: a grammar of JSON, and that \<open>dump\<close> writes it. \<open>Value_Heap\<close>: the same values as
    objects with a tag and an owning pointer, in a heap of blocks. The elements of a container are places
    of their own, and a path of indices says which part of which tree a place is.
  \<^item> \<open>Redis_Parser\<close>: RedisParser.cpp, the awaiting and the polling reader. Every indexed read of the buffer
    is a \<open>byte_at\<close>, which is undefined in front of the first byte and behind the last. \<open>Resp_Framing\<close>: lines and
    bulks do not depend on how \<open>recv\<close> cuts the stream. \<open>Resp_Reply\<close>: encoding and reading back.
    \<open>Resp_Safety\<close>: arbitrary input. \<open>Resp_Agree\<close>: the two readers compute the same. \<open>Resp_Ends\<close>:
    incomplete replies. \<open>Resp_Api\<close>: the properties of \<open>parse\<close>, \<open>try_parse\<close> and \<open>try_parse_n\<close>.
  \<^item> \<open>Commands\<close>, \<open>Commands_Chain\<close>, \<open>Commands_Cluster\<close>: the words of every method of RedisClient.hpp,
    RedisCommander.hpp and RedisCluster.hpp. \<open>Commands_Spec\<close>: the copies of the table compared, and
    the key by which a cluster routes.
  \<^item> \<open>Command_Wire\<close>: \<open>build_commands\<close> and its size computation. \<open>Key_Slot\<close>: \<open>crc16\<close> and \<open>get_slot\<close>.
  \<^item> \<open>Mpsc_Ring\<close>: the ring, on 64-bit counters with their wrapping mask, and the contract
    \<open>request_queue\<close> (a locale) it fulfils. \<open>Shared_Ring\<close>: its variant for several threads, one atomic
    access at a time. \<open>Command_Awaiters\<close>: the three awaiters.
  \<^item> \<open>Pipe_Task\<close>: writer, reader and worker as state machines, and the pipe as their interleaving
    with callers (\<open>pipe_step\<close>, an inductive step relation). The race of reader and writer ends in it when
    the first of them returns; what the other still does before its cancellation takes effect touches
    nothing that the worker uses before. Callers push single requests. \<open>Pipe_Close\<close>: the pipe with its
    parser when the client is destroyed or closed.
  \<^item> \<open>Call_Chains\<close>, \<open>Client_Calls\<close>, \<open>Cluster_Calls\<close>: from a call of a command method, chained or not, over
    words, bytes and awaiter to the ring of the pipe, and on to the server and back.
  \<^item> \<open>Ipv4_Text\<close>, \<open>Connection\<close>: addresses, options and the two handshakes.
  \<^item> \<open>Cluster_Table\<close>: the hash table of shards and its contract \<open>shard_directory\<close> (a locale).
    \<open>Cluster_Core\<close>: the cluster's state, opening and closing, the text of redirections.
    \<open>Cluster_Replies\<close>: \<open>handle_response\<close> and the reader. \<open>Cluster_Map\<close>: \<open>connect\<close>. \<open>Shared_Table\<close>: threads that
    look up and connect the shards of one table.
  \<^item> \<open>Client_Subscriber\<close>: what a program does with a client or a subscriber as an object.
  \<^item> \<open>Xnet_Tasks\<close>: the await chains of xnet.hpp and their cancellation. \<open>Xnet_Awaiters\<close>: the operations
    that hook themselves into a chain, and \<open>io_context\<close>. \<open>Xnet_Loop\<close>: \<open>run_until_complete\<close> between
    coroutines that await and a kernel that completes what is submitted to it. \<open>Xnet_Join\<close>: \<open>race\<close>, \<open>any\<close>,
    \<open>all\<close> and \<open>allSettled\<close>, on one thread and on several.

  \<^bold>\<open>How state and operations correspond.\<close> A class is a record of its members and an operation a
  function from the state to its results and the new state. A coroutine that only waits for the
  socket is a function of the list of results its awaits return: \<open>recv_event\<close> for \<open>recv\<close>, pairs of
  a count and an error for \<open>send\<close>; the writer, reader and worker, which interleave, are functions
  from one suspension to the next. A coroutine handle is a value of any type, and resuming it
  appends it with its value to a list; what it does then is a step of a caller. Pointers are
  indices into a list that only grows, or addresses of a finite map from which freed blocks are
  removed (\<open>Value_Heap\<close>, \<open>Xnet_Tasks\<close>). Threads are sequences of steps with one atomic access each
  (\<open>Shared_Ring\<close>, \<open>Shared_Table\<close>, \<open>Xnet_Join\<close>), in any order. A null or dangling pointer, an index out of range, a member
  of the union that is not active and a read outside a view give \<open>UB\<close>; an exception in a
  \<open>noexcept\<close> function gives \<open>Terminate\<close>.

  \<^bold>\<open>What the lemmas show.\<close> The readers return the value that was sent for every cutting of the bytes
  and leave the following bytes (\<open>parse_roundtrip\<close>, \<open>parse_chunk_independent\<close>), neither reads outside
  the buffer nor fails to return on any input (\<open>parse_safe\<close>), and agree with each other
  (\<open>try_parse_refines_parse\<close>). A command is an array of bulk strings from which the words can be
  read back in one way (\<open>build_commands_is_array\<close>, \<open>commands_unforgeable\<close>). Requests in a ring are
  answered in order, none twice and none lost (\<open>ring_fifo\<close>); so are those of a pipe over all
  reconnections (\<open>pipe_answers_in_order\<close>), each with its own reply (\<open>pipe_connection_in_order\<close>); and when a
  client is destroyed that waits for a reply, the shutdown of its socket ends \<open>parse\<close> and with it the
  pipe, after every request was answered (\<open>pipe_destroy_answers\<close>). A suspended chain is resumed exactly once (\<open>operation_completes\<close>, \<open>cluster_operation_completes\<close>). A
  slot leads to the shard of its server (\<open>connect_maps_slots\<close>) and a redirected request ends at the
  end of the right queue or is answered with an error, but for an \<open>ASK\<close> to a ring with one free place,
  where it overwrites the oldest request (\<open>handle_response_redirects\<close>). The commands of
  a client reach the server word for word and in order, and the replies their coroutines
  (\<open>client_end_to_end\<close>); a chain on a cluster is split by slots (\<open>cluster_chain_to_owners\<close>), a
  transaction is not (\<open>cluster_transaction_whole\<close>). Values on the heap are typed, do what the trees do,
  and are freed once (\<open>values_typed\<close>, \<open>values_refine_trees\<close>, \<open>values_freed\<close>). The shared ring is a queue
  in the order of its tickets (\<open>shared_ring_fifo\<close>), and threads find one shard for an address
  (\<open>shared_lookup_agrees\<close>). In xnet the tasks behave as stacks whose members can be cancelled, and
  leak nothing (\<open>tasks_refine_stacks\<close>, \<open>task_cancel_works\<close>), operations are counted
  (\<open>awaiters_counted\<close>), the loop runs every coroutine to its end because it submits what they prepare
  (\<open>run_until_complete_ends\<close>), and a join over threads resumes its
  coroutine once and with what the join on one thread computes (\<open>race_threads_refine\<close> and its
  siblings); a race ends, under a fair scheduler, although its losers would wait for ever, because
  the winner cancels them (\<open>race_ends\<close>; that an operation that is asked to cancel returns is assumed
  there, and \<open>task_cancel_works\<close> shows that the request reaches the operation). Where the code
  does not do what it means to, the theorem states what it does: \<open>cluster_reader_loses\<close>,
  \<open>uint32toip_cuts\<close>, \<open>connect_refuses_replicas\<close>, \<open>close_leaves_slots\<close>, \<open>pipe_close_loses\<close>,
  \<open>ring_push_n_overwrites\<close>, \<open>hello_valid_iff\<close>, \<open>client_connect_pipes\<close>, \<open>subscriber_move_shares\<close>,
  \<open>chained_zmpop\<close>, \<open>cluster_misroutes\<close>, \<open>refused_count\<close>, \<open>dump_nan_not_json\<close>, \<open>assign_own_element\<close>,
  \<open>set_own_string\<close>, \<open>ask_overwrites\<close>, \<open>close_client_waits\<close>,
  \<open>shared_push_false_overflow\<close>, \<open>shared_reset_race\<close>, \<open>plain_cancel_forgets\<close>, \<open>full_queue_cancels_chain\<close>,
  \<open>full_queue_timer_underflows\<close>, \<open>small_ring_divides\<close>, \<open>race_cancels_late\<close>, \<open>all_cancels_twice\<close>.

  \<^bold>\<open>Bounds and fuel.\<close> The recursion of the readers takes a depth, \<open>depth_fuel\<close>, one more than the bytes
  that are left; \<open>parse_safe\<close> shows that \<open>No_fuel\<close> is never the result, because every nested reply
  consumes bytes. The walks up the parents of a task take the number of tasks ever made. All other loops are structural or have a measure. The ring's counters have 63
  bits; the invariant \<open>ring_wf\<close> says that they have not passed 2 to the 63. \<open>has_room\<close>, the premise of an \<open>ASK\<close>, says that
  a ring has at least two places in all, whether free or not, and that two more pushes do not bring its
  counters past that end. The loop of \<open>Xnet_Loop\<close> takes the number of its waits as fuel; two for each
  operation the coroutines may await are enough, because every wait ends with a completion and an operation
  has at most two entries. The places of a ring are a power of two up to 2 to the 31, because positions are returned as
  \<open>int\<close>. \<open>max_bulk_size\<close>, the batch of 64 and the back-off of 32 seconds are those of the code; the
  table size of the cluster and the capacity of the rings are parameters, as in its templates.

  \<^bold>\<open>Parameters.\<close> \<open>mem_limit\<close> is the largest block the allocator grants. \<open>dtext\<close> is the shortest text
  of a double, which \<open>std::to_chars\<close> writes. \<open>hook\<close> is the answer of the promise of the awaiting
  coroutine, which \<open>xcoro_hook\<close> of \<open>Xnet_Tasks\<close> gives. The kernel's completions are events in
  \<open>Xnet_Awaiters\<close> and the function \<open>serve\<close> in \<open>Xnet_Loop\<close>, of which \<open>completes\<close> is assumed: a wait ends with some of
  what has been submitted and not yet completed.

  \<^bold>\<open>Not modelled.\<close> Of xnet.hpp the wrappers of the kernel's calls, sockets and their options, \<open>yield\<close>, and
  the tasks without cancellation; the locks of a chain and of \<open>io_context\<close>: its operations run one
  after the other. A timer of zero duration, which is ready
  without a suspension. In \<open>Value_Heap\<close> the targets of assignments are variables, and the vectors and maps
  given to \<open>set\<close> are objects of their own. The components of the client take the results of their awaits as lists and not
  through \<open>Xnet_Awaiters\<close>. Memory orders weaker than sequential consistency, and closing a cluster
  while other threads use it; apart from \<open>Shared_Ring\<close> and \<open>Shared_Table\<close> the theories of the cluster
  and the ring are about \<open>shared = false\<close>, where no reply arrives between the pushes of a chain and the test whether
  it is done. TLS, which is compiled out. The amalgamated header under
  src/header-only, the same code a second time. Tests, benchmarks and examples. In
  \<open>Cluster_Core\<close> the worker of a pipe is not run: a pipe is its ring, its option and its flag, and
  \<open>Pipe_Task\<close> has the worker.
\<close>

end
